(* ===== verification/BTRx_Prelude.thy ===== *)
theory BTRx_Prelude
  imports Main "HOL-Library.Word"
begin

text \<open>
  Shared vocabulary of the development: the fixed-width integer types of the C++ code, the outcome
  type of an operation that may end the process or leave defined behaviour, the bind and the loop
  over it, C integer division, the single-bit masks the bit fields are built from, the C string
  functions the code calls, and decimal printing.
\<close>

unbundle bit_operations_syntax

section \<open>Types\<close>

type_synonym u8 = "8 word"
type_synonym u16 = "16 word"
type_synonym u32 = "32 word"
type_synonym u64 = "64 word"

text \<open>
  A fault is anything that keeps an operation from returning: \<open>Exit c\<close> is \<^verbatim>\<open>_exit(c)\<close>,
  \<open>Uncaught x\<close> an exception nobody catches (the thread terminates the process), \<open>UB k\<close> a point
  where the C++ standard leaves the behaviour undefined, \<open>Blocked\<close> a lock that is not free, and \<open>AssertFail\<close> a failed
  \<^verbatim>\<open>assert\<close>.
\<close>

datatype ub_kind =
    NullDeref | OutOfBounds | UseAfterFree | IntOverflow | DivByZero | ShiftRange
  | StackOverflow | UnlockNotHeld | FloatToIntRange | EmptyDeque

datatype cxx_exn =
    ParseError nat | TypeError nat | OutOfRange nat | OtherError nat | LengthError | BadArrayLength | InvalidArgument

datatype fault = Exit int | Uncaught cxx_exn | UB ub_kind | Blocked | AssertFail

type_synonym 'a res = "fault + 'a"

section \<open>The outcome monad\<close>

definition rbind :: "'a res \<Rightarrow> ('a \<Rightarrow> 'b res) \<Rightarrow> 'b res" where
  "rbind m f = (case m of Inl e \<Rightarrow> Inl e | Inr a \<Rightarrow> f a)"

lemma rbind_simps [simp]:
  "rbind (Inl e) f = Inl e" "rbind (Inr a) f = f a"
  by (simp_all add: rbind_def)

lemma rbind_cong [fundef_cong]:
  "m = m' \<Longrightarrow> (\<And>a. m' = Inr a \<Longrightarrow> f a = g a) \<Longrightarrow> rbind m f = rbind m' g"
  by (cases m') (simp_all add: rbind_def)

lemma rbind_assoc [simp]: "rbind (rbind m f) g = rbind m (\<lambda>a. rbind (f a) g)"
  by (cases m) simp_all

lemma rbind_Inr_iff: "rbind m f = Inr b \<longleftrightarrow> (\<exists>a. m = Inr a \<and> f a = Inr b)"
  by (cases m) simp_all

lemma rbind_Inl_iff: "rbind m f = Inl e \<longleftrightarrow> m = Inl e \<or> (\<exists>a. m = Inr a \<and> f a = Inl e)"
  by (cases m) simp_all

lemma rbind_InrE:
  assumes "rbind m f = Inr b"
  obtains a where "m = Inr a" "f a = Inr b"
  using assms by (auto simp: rbind_Inr_iff)

text \<open>A \<^verbatim>\<open>for\<close> loop over a list of items that threads a state and stops at the first fault.\<close>

fun rfold :: "('a \<Rightarrow> 's \<Rightarrow> 's res) \<Rightarrow> 'a list \<Rightarrow> 's \<Rightarrow> 's res" where
  "rfold f [] s = Inr s"
| "rfold f (x # xs) s = rbind (f x s) (rfold f xs)"

lemma rfold_append: "rfold f (xs @ ys) s = rbind (rfold f xs s) (rfold f ys)"
  by (induction xs arbitrary: s) (simp_all add: rbind_def split: sum.splits)

lemma rfold_cong [fundef_cong]:
  "xs = ys \<Longrightarrow> s = t \<Longrightarrow> (\<And>x s. x \<in> set ys \<Longrightarrow> f x s = g x s) \<Longrightarrow> rfold f xs s = rfold g ys t"
proof (induction xs arbitrary: ys s t)
  case (Cons x xs)
  then show ?case by (cases ys) (auto simp: rbind_def split: sum.splits)
qed simp

text \<open>The rule for such a loop: an invariant every turn keeps, and no turn faults.\<close>

lemma rfold_total:
  assumes "P s" and "\<And>x s. x \<in> set xs \<Longrightarrow> P s \<Longrightarrow> \<exists>s'. f x s = Inr s' \<and> P s'"
  shows "\<exists>s'. rfold f xs s = Inr s' \<and> P s'"
  using assms
proof (induction xs arbitrary: s)
  case (Cons x xs)
  then obtain s' where "f x s = Inr s'" "P s'" by (meson list.set_intros(1))
  moreover have "\<exists>s''. rfold f xs s' = Inr s'' \<and> P s''"
    using Cons \<open>P s'\<close> by (meson list.set_intros(2))
  ultimately show ?case by auto
qed simp

lemma rfold_inv:
  assumes "rfold f xs s = Inr t" and "P s"
    and "\<And>x s s'. x \<in> set xs \<Longrightarrow> P s \<Longrightarrow> f x s = Inr s' \<Longrightarrow> P s'"
  shows "P t"
  using assms
proof (induction xs arbitrary: s)
  case (Cons x xs)
  from Cons.prems(1) obtain s' where s': "f x s = Inr s'" "rfold f xs s' = Inr t"
    by (auto simp: rbind_Inr_iff)
  have "P s'" using Cons.prems(2,3) s'(1) by (meson list.set_intros(1))
  with s'(2) show ?case using Cons.IH Cons.prems(3) by (meson list.set_intros(2))
qed simp

section \<open>C integers\<close>

text \<open>Division and remainder of \<^verbatim>\<open>int\<close> truncate towards zero; an \<^verbatim>\<open>int\<close> has 32 bits.\<close>

definition c_div :: "int \<Rightarrow> int \<Rightarrow> int" where
  "c_div a b = sgn a * sgn b * (\<bar>a\<bar> div \<bar>b\<bar>)"

definition c_mod :: "int \<Rightarrow> int \<Rightarrow> int" where
  "c_mod a b = a - b * c_div a b"

lemma c_div_nonneg: "0 \<le> a \<Longrightarrow> 0 < b \<Longrightarrow> c_div a b = a div b"
  by (cases "a = 0") (simp_all add: c_div_def)

lemma c_mod_nonneg: "0 \<le> a \<Longrightarrow> 0 < b \<Longrightarrow> c_mod a b = a mod b"
  by (simp add: c_mod_def c_div_nonneg minus_div_mult_eq_mod [symmetric] mult.commute)

lemma c_div_mod_8 [simp]: "c_div (int p) 8 = int (p div 8)" "c_mod (int p) 8 = int (p mod 8)"
  by (simp_all add: c_div_nonneg c_mod_nonneg zdiv_int zmod_int)

definition int_ok :: "int \<Rightarrow> bool" where
  "int_ok i \<longleftrightarrow> - 2147483648 \<le> i \<and> i \<le> 2147483647"

text \<open>Signed multiplication: out of range is undefined.\<close>

definition c_mul :: "int \<Rightarrow> int \<Rightarrow> int res" where
  "c_mul a b = (if int_ok (a * b) then Inr (a * b) else Inl (UB IntOverflow))"

text \<open>The implicit conversion of a \<^verbatim>\<open>uint32_t\<close> argument to an \<^verbatim>\<open>int\<close> parameter.\<close>

definition int_of_u32 :: "u32 \<Rightarrow> int" where
  "int_of_u32 w = sint w"

lemma int_of_u32_small:
  assumes "unat w < 2147483648"
  shows "int_of_u32 w = int (unat w)"
proof -
  have "uint w < 2147483648" using assms uint_nat [of w] by linarith
  moreover have "- 2147483648 \<le> uint w" by (rule order_trans [OF _ uint_ge_0]) simp
  ultimately have "signed_take_bit 31 (uint w) = uint w"
    by (simp add: signed_take_bit_int_eq_self)
  then show ?thesis by (simp add: int_of_u32_def sint_uint)
qed

section \<open>Vectors\<close>

text \<open>
  \<^verbatim>\<open>vector(n, x)\<close> with an \<^verbatim>\<open>int\<close> count (a negative one converts to a huge \<^verbatim>\<open>size_t\<close>, which the
  container refuses), and the unchecked \<^verbatim>\<open>v[i]\<close> for reading and writing.
\<close>

definition vector_fill :: "int \<Rightarrow> 'a \<Rightarrow> 'a list res" where
  "vector_fill n x = (if n < 0 then Inl (Uncaught LengthError) else Inr (replicate (nat n) x))"

definition vec_at :: "'a list \<Rightarrow> int \<Rightarrow> 'a res" where
  "vec_at xs i = (if 0 \<le> i \<and> i < int (length xs) then Inr (xs ! nat i) else Inl (UB OutOfBounds))"

definition vec_set :: "'a list \<Rightarrow> int \<Rightarrow> 'a \<Rightarrow> 'a list res" where
  "vec_set xs i x = (if 0 \<le> i \<and> i < int (length xs) then Inr (xs[nat i := x]) else Inl (UB OutOfBounds))"

lemma vec_at_nat [simp]: "i < length xs \<Longrightarrow> vec_at xs (int i) = Inr (xs ! i)"
  by (simp add: vec_at_def)

lemma vec_set_nat [simp]: "i < length xs \<Longrightarrow> vec_set xs (int i) x = Inr (xs[i := x])"
  by (simp add: vec_set_def)

text \<open>
  \<^verbatim>\<open>new char[n]\<close>: the contents of fresh memory are indeterminate, a function \<open>junk\<close> of the index that
  the environment chooses.
\<close>

definition fresh_bytes :: "(nat \<Rightarrow> u8) \<Rightarrow> nat \<Rightarrow> u8 list" where
  "fresh_bytes junk n = map junk [0..<n]"

definition new_chars :: "(nat \<Rightarrow> u8) \<Rightarrow> int \<Rightarrow> u8 list res" where
  "new_chars junk n = (if n < 0 then Inl (Uncaught BadArrayLength) else Inr (fresh_bytes junk (nat n)))"

lemma length_fresh_bytes [simp]: "length (fresh_bytes junk n) = n"
  by (simp add: fresh_bytes_def)

section \<open>Single-bit masks\<close>

text \<open>\<^verbatim>\<open>(uint8_t)1 << j\<close>.\<close>

definition bitmask :: "nat \<Rightarrow> u8" where
  "bitmask j = push_bit j 1"

lemma bit_bitmask [simp]: "bit (bitmask j) i \<longleftrightarrow> i = j \<and> j < 8"
  by (auto simp: bitmask_def bit_exp_iff)

lemma u8_eq_iff: "(x :: u8) = y \<longleftrightarrow> (\<forall>n < 8. bit x n \<longleftrightarrow> bit y n)"
  by (auto intro: bit_word_eqI)

lemma and_bitmask_eq: "j < 8 \<Longrightarrow> (x AND bitmask j = bitmask j) \<longleftrightarrow> bit x j"
  by (auto simp: u8_eq_iff bit_and_iff)

lemma and_bitmask_neq_0: "j < 8 \<Longrightarrow> (x AND bitmask j \<noteq> 0) \<longleftrightarrow> bit x j"
  by (auto simp: u8_eq_iff bit_and_iff)

lemma bit_xor_bitmask: "bit (x XOR bitmask j) i \<longleftrightarrow> (bit x i \<noteq> (i = j \<and> j < 8))"
  by (simp add: bit_xor_iff)

section \<open>Little-endian numbers\<close>

text \<open>
  The bytes of an unsigned number on a little-endian host, and the number a sequence of bytes stands for.
\<close>

type_synonym bytes = "u8 list"

definition write_number :: "'w :: len word \<Rightarrow> bytes" where
  "write_number n = map (\<lambda>i. ucast (drop_bit (8 * i) n)) [0..<LENGTH('w) div 8]"

definition bytes_word :: "bytes \<Rightarrow> 'w :: len word" where
  "bytes_word vec = foldr (\<lambda>b w. ucast b OR push_bit 8 w) vec 0"

lemma length_write_number [simp]: "length (write_number (n :: 'w :: len word)) = LENGTH('w) div 8"
  by (simp add: write_number_def)

lemma bit_bytes_word:
  "bit (bytes_word vec :: 'w :: len word) n \<longleftrightarrow>
    n < LENGTH('w) \<and> n div 8 < length vec \<and> bit (vec ! (n div 8)) (n mod 8)"
proof (induction vec arbitrary: n)
  case (Cons b vec)
  show ?case
  proof (cases "n < 8")
    case True
    then have "n div 8 = 0" "n mod 8 = n" by simp_all
    then show ?thesis using True by (simp add: bytes_word_def bit_or_iff bit_push_bit_iff bit_ucast_iff)
  next
    case False
    then obtain m where m: "n = m + 8" by (metis add.commute le_Suc_ex not_less)
    have "\<not> bit b n" using False bit_imp_le_length [of b n] by auto
    then have "bit (bytes_word (b # vec) :: 'w word) n \<longleftrightarrow> n < LENGTH('w) \<and> bit (bytes_word vec :: 'w word) m"
      by (simp add: bytes_word_def bit_or_iff bit_push_bit_iff bit_ucast_iff m)
    moreover have "n div 8 = Suc (m div 8)" "n mod 8 = m mod 8" by (simp_all add: m)
    ultimately show ?thesis unfolding Cons.IH using m by auto
  qed
qed (simp add: bytes_word_def)

lemma bytes_word_write_number:
  assumes "8 dvd LENGTH('w :: len)"
  shows "bytes_word (write_number (n :: 'w word)) = n"
proof (rule bit_word_eqI)
  fix i assume i: "i < LENGTH('w)"
  then have "i div 8 < LENGTH('w) div 8" using assms by (auto elim!: dvdE)
  moreover have "8 * (i div 8) + i mod 8 = i" by simp
  ultimately show "bit (bytes_word (write_number n) :: 'w word) i \<longleftrightarrow> bit n i"
    using i by (simp add: bit_bytes_word write_number_def bit_ucast_iff bit_drop_bit_eq)
qed

section \<open>C strings over bytes\<close>

text \<open>The text of a NUL-terminated buffer; a buffer with no NUL is read past its end.\<close>

definition c_str :: "u8 list \<Rightarrow> u8 list res" where
  "c_str buf = (if 0 \<in> set buf then Inr (takeWhile (\<lambda>b. b \<noteq> 0) buf) else Inl (UB OutOfBounds))"

text \<open>\<^verbatim>\<open>snprintf(dst, n, "%s", s)\<close>: at most \<open>n - 1\<close> bytes and a NUL; the rest of \<open>dst\<close> stays.\<close>

definition snprintf_s :: "u8 list \<Rightarrow> nat \<Rightarrow> u8 list \<Rightarrow> u8 list" where
  "snprintf_s dst n s =
     (if n = 0 then dst
      else let t = take (n - 1) s @ [0] in t @ drop (length t) dst)"

text \<open>\<^verbatim>\<open>strncpy(dst, src, n)\<close>: the bytes written to \<open>dst\<close>; NUL padding up to \<open>n\<close>.\<close>

definition strncpy_bytes :: "u8 list \<Rightarrow> nat \<Rightarrow> u8 list res" where
  "strncpy_bytes src n =
     (let s = takeWhile (\<lambda>b. b \<noteq> 0) (take n src)
      in if length src < n \<and> 0 \<notin> set src then Inl (UB OutOfBounds)
         else Inr (s @ replicate (n - length s) 0))"

text \<open>The text of a buffer, NUL-padded to \<open>n\<close> bytes: what \<^verbatim>\<open>strncpy\<close> makes of a terminated buffer.\<close>

definition c_pad :: "nat \<Rightarrow> u8 list \<Rightarrow> u8 list" where
  "c_pad n buf = (let s = takeWhile (\<lambda>b. b \<noteq> 0) buf in s @ replicate (n - length s) 0)"

lemma strncpy_bytes_pad: "length src = n \<Longrightarrow> 0 \<in> set src \<Longrightarrow> strncpy_bytes src n = Inr (c_pad n src)"
  by (simp add: strncpy_bytes_def c_pad_def Let_def)

lemma length_snprintf_s: "length dst = n \<Longrightarrow> length (snprintf_s dst n s) = n"
  by (cases n) (auto simp: snprintf_s_def Let_def)

lemma takeWhile_snprintf_s:
  assumes "0 < n" and "0 \<notin> set s"
  shows "takeWhile (\<lambda>b. b \<noteq> 0) (snprintf_s dst n s) = take (n - 1) s"
proof -
  have "\<forall>b \<in> set (take (n - 1) s). b \<noteq> 0" using assms(2) by (metis in_set_takeD)
  then have "takeWhile (\<lambda>b. b \<noteq> 0) (take (n - 1) s @ 0 # xs) = take (n - 1) s" for xs
    by (simp add: takeWhile_append2)
  then show ?thesis using assms(1) by (simp add: snprintf_s_def Let_def)
qed

lemma zero_in_snprintf_s: "0 < n \<Longrightarrow> 0 \<in> set (snprintf_s dst n s)"
  by (simp add: snprintf_s_def Let_def)

section \<open>Decimal printing\<close>

fun show_nat :: "nat \<Rightarrow> string" where
  "show_nat n = (if n < 10 then [char_of (48 + n)] else show_nat (n div 10) @ [char_of (48 + n mod 10)])"

declare show_nat.simps [simp del]

definition show_int :: "int \<Rightarrow> string" where
  "show_int i = (if i < 0 then CHR ''-'' # show_nat (nat (- i)) else show_nat (nat i))"

end
