(* ===== verification/Locks.thy ===== *)
theory Locks
  imports BTRx_Prelude
begin

text \<open>
  The pthread locks the classes wrap. A call either takes or gives up the lock, would block the
  calling thread, or returns an error status; giving up a lock that is not held is undefined, and
  destroying a held one reports \<^verbatim>\<open>EBUSY\<close>. \<open>lock_call\<close> is the pattern every wrapper of the code has
  around the call: a status other than 0 is logged and ends the process with \<^verbatim>\<open>_exit(1)\<close>.
\<close>

datatype rwlock = LFree | LRead nat | LWrite

datatype mutex = MFree | MHeld

datatype 'l lock_ret = Acquired 'l | WouldBlock | LockErr int | LockUB

fun pthread_rwlock_rdlock :: "rwlock \<Rightarrow> rwlock lock_ret" where
  "pthread_rwlock_rdlock LFree = Acquired (LRead 1)"
| "pthread_rwlock_rdlock (LRead n) = Acquired (LRead (Suc n))"
| "pthread_rwlock_rdlock LWrite = WouldBlock"

fun pthread_rwlock_wrlock :: "rwlock \<Rightarrow> rwlock lock_ret" where
  "pthread_rwlock_wrlock LFree = Acquired LWrite"
| "pthread_rwlock_wrlock (LRead n) = WouldBlock"
| "pthread_rwlock_wrlock LWrite = WouldBlock"

fun pthread_rwlock_unlock :: "rwlock \<Rightarrow> rwlock lock_ret" where
  "pthread_rwlock_unlock LFree = LockUB"
| "pthread_rwlock_unlock (LRead n) = Acquired (if n \<le> 1 then LFree else LRead (n - 1))"
| "pthread_rwlock_unlock LWrite = Acquired LFree"

fun pthread_rwlock_destroy :: "rwlock \<Rightarrow> rwlock lock_ret" where
  "pthread_rwlock_destroy LFree = Acquired LFree"
| "pthread_rwlock_destroy _ = LockErr 16"

fun pthread_mutex_lock :: "mutex \<Rightarrow> mutex lock_ret" where
  "pthread_mutex_lock MFree = Acquired MHeld"
| "pthread_mutex_lock MHeld = WouldBlock"

fun pthread_mutex_unlock :: "mutex \<Rightarrow> mutex lock_ret" where
  "pthread_mutex_unlock MFree = LockUB"
| "pthread_mutex_unlock MHeld = Acquired MFree"

fun pthread_mutex_destroy :: "mutex \<Rightarrow> mutex lock_ret" where
  "pthread_mutex_destroy MFree = Acquired MFree"
| "pthread_mutex_destroy MHeld = LockErr 16"

fun lock_call :: "'l lock_ret \<Rightarrow> 'l res" where
  "lock_call (Acquired l) = Inr l"
| "lock_call WouldBlock = Inl Blocked"
| "lock_call (LockErr stat) = Inl (Exit 1)"
| "lock_call LockUB = Inl (UB UnlockNotHeld)"

text \<open>The status of an \<^verbatim>\<open>_init\<close> call is the environment's; the code exits on any but 0.\<close>

definition init_call :: "int \<Rightarrow> unit res" where
  "init_call stat = (if stat \<noteq> 0 then Inl (Exit 1) else Inr ())"

lemma init_call_0 [simp]: "init_call 0 = Inr ()"
  by (simp add: init_call_def)

end
