(* ===== verification/Contracts.thy ===== *)
theory Contracts
  imports BTRx_Prelude
begin

text \<open>
  The interfaces between components, as locales: a store whose claims are tested and set one at a
  time (the bit fields, for the request book-keeping), a store that takes new items while there
  is room (the piece cache, for the object store), a codec whose encodings carry their length (BSON and
  the packets, for the connection handlers), and an append-only log. Each has the laws a provider owes and the facts a
  client may use.
\<close>

section \<open>Test-and-set: claims in any order\<close>

text \<open>
  \<open>claim_run tas\<close> performs the claims of a schedule, a list of pairs of a claimant and a piece, in
  order, and returns the log of the answers. The interface asks for one law: a claim within
  capacity answers whether the piece was still free, and marks it.
\<close>

fun claim_run :: "(nat \<Rightarrow> 's \<Rightarrow> (bool \<times> 's) res) \<Rightarrow> ('c \<times> nat) list \<Rightarrow> 's
    \<Rightarrow> (('c \<times> nat \<times> bool) list \<times> 's) res" where
  "claim_run tas [] s = Inr ([], s)"
| "claim_run tas ((c, p) # cs) s =
     rbind (tas p s) (\<lambda>(r, s'). rbind (claim_run tas cs s') (\<lambda>(log, s''). Inr ((c, p, r) # log, s'')))"

definition granted :: "('c \<times> nat \<times> bool) list \<Rightarrow> ('c \<times> nat) list" where
  "granted log = map (\<lambda>(c, p, r). (c, p)) (filter (\<lambda>(c, p, r). r) log)"

locale test_and_set =
  fixes ok :: "'s \<Rightarrow> bool"
    and cap :: "'s \<Rightarrow> nat"
    and held :: "'s \<Rightarrow> nat set"
    and tas :: "nat \<Rightarrow> 's \<Rightarrow> (bool \<times> 's) res"
  assumes tas_law: "ok s \<Longrightarrow> p < cap s \<Longrightarrow>
    \<exists>s'. tas p s = Inr (p \<notin> held s, s') \<and> ok s' \<and> cap s' = cap s \<and> held s' = insert p (held s)"
begin

lemma claim_run_spec:
  assumes "ok s" and "\<forall>(c, p) \<in> set cs. p < cap s"
  shows "\<exists>log s'. claim_run tas cs s = Inr (log, s') \<and> ok s' \<and> cap s' = cap s
    \<and> held s' = held s \<union> snd ` set cs
    \<and> distinct (map snd (granted log))
    \<and> set (map snd (granted log)) = snd ` set cs - held s"
  using assms
proof (induction cs arbitrary: s)
  case Nil
  then show ?case by (auto simp: granted_def)
next
  case (Cons x cs)
  obtain c p where x: "x = (c, p)" by (cases x)
  from Cons.prems x obtain s1 where s1: "tas p s = Inr (p \<notin> held s, s1)" "ok s1" "cap s1 = cap s"
      "held s1 = insert p (held s)"
    using tas_law [of s p] by auto
  have "\<forall>(c, p) \<in> set cs. p < cap s1" using Cons.prems(2) s1(3) by auto
  from Cons.IH [OF s1(2) this] obtain log s' where IH: "claim_run tas cs s1 = Inr (log, s')" "ok s'"
      "cap s' = cap s1" "held s' = held s1 \<union> snd ` set cs" "distinct (map snd (granted log))"
      "set (map snd (granted log)) = snd ` set cs - held s1"
    by blast
  have run: "claim_run tas (x # cs) s = Inr ((c, p, p \<notin> held s) # log, s')"
    using s1(1) IH(1) x by simp
  have g: "granted ((c, p, p \<notin> held s) # log) = (if p \<notin> held s then [(c, p)] else []) @ granted log"
    by (simp add: granted_def)
  have "p \<notin> set (map snd (granted log))" unfolding IH(6) using s1(4) by blast
  then have d: "distinct (map snd (granted ((c, p, p \<notin> held s) # log)))"
    unfolding g using IH(5) by simp
  have st: "set (map snd (granted ((c, p, p \<notin> held s) # log))) = snd ` set (x # cs) - held s"
    unfolding g using IH(6) s1(4) x by auto
  have h: "held s' = held s \<union> snd ` set (x # cs)" using IH(4) s1(4) x by auto
  show ?case using run IH(2,3) s1(3) h d st by auto
qed

end

section \<open>Write-once stores\<close>

text \<open>
  A store with a view as a map, into which a legal new item can be put while there is room. The one
  law is about a single put; a whole list of distinct new items then ends up in the view.
\<close>

locale write_once =
  fixes ok :: "'s \<Rightarrow> bool"
    and room :: "'s \<Rightarrow> nat"
    and legal :: "'s \<Rightarrow> 'k \<Rightarrow> 'p \<Rightarrow> bool"
    and form :: "'s \<Rightarrow> 'p \<Rightarrow> 'v"
    and view :: "'s \<Rightarrow> 'k \<Rightarrow> 'v option"
    and store :: "'k \<Rightarrow> 'p \<Rightarrow> 's \<Rightarrow> 's res"
  assumes store_law: "ok s \<Longrightarrow> 0 < room s \<Longrightarrow> legal s k p \<Longrightarrow> view s k = None \<Longrightarrow>
    \<exists>s'. store k p s = Inr s' \<and> ok s' \<and> room s' = room s - 1 \<and> view s' = (view s)(k \<mapsto> form s p)
      \<and> legal s' = legal s \<and> form s' = form s"
begin

lemma store_all:
  assumes "ok s" and "length kps \<le> room s" and "distinct (map fst kps)"
    and "\<forall>(k, p) \<in> set kps. legal s k p \<and> view s k = None"
  shows "\<exists>s'. rfold (\<lambda>(k, p). store k p) kps s = Inr s' \<and> ok s' \<and> room s' = room s - length kps
    \<and> view s' = view s ++ map_of (map (\<lambda>(k, p). (k, form s p)) kps)"
  using assms
proof (induction kps arbitrary: s)
  case (Cons x kps)
  obtain k p where x: "x = (k, p)" by (cases x)
  from Cons.prems x obtain s1 where s1: "store k p s = Inr s1" "ok s1" "room s1 = room s - 1"
      "view s1 = (view s)(k \<mapsto> form s p)" "legal s1 = legal s" "form s1 = form s"
    using store_law [of s k p] by fastforce
  have len: "length kps \<le> room s1" and dist: "distinct (map fst kps)"
    and fresh: "\<forall>(k', p') \<in> set kps. legal s1 k' p' \<and> view s1 k' = None"
    using Cons.prems x s1(3,4,5) by (auto simp: image_iff split: prod.splits)
  from Cons.IH [OF s1(2) len dist fresh] obtain s' where s': "rfold (\<lambda>(k, p). store k p) kps s1 = Inr s'"
      "ok s'" "room s' = room s1 - length kps"
      "view s' = view s1 ++ map_of (map (\<lambda>(k, p). (k, form s1 p)) kps)" by blast
  have keys: "fst ` set (map (\<lambda>(k, p). (k, form s p)) kps) = fst ` set kps"
    by (simp add: image_image case_prod_beta)
  have "k \<notin> fst ` set kps" using Cons.prems(3) x by simp
  then have "k \<notin> dom (map_of (map (\<lambda>(k, p). (k, form s p)) kps))"
    unfolding dom_map_of_conv_image_fst keys .
  then have view: "view s' = view s ++ map_of (map (\<lambda>(k, p). (k, form s p)) (x # kps))"
    using s'(4) s1(4,6) x by (simp add: map_add_upd_left)
  have "rfold (\<lambda>(k, p). store k p) (x # kps) s = Inr s' \<and> room s' = room s - length (x # kps)"
    using s' s1 x by simp
  with view s'(2) show ?case by blast
qed simp

end

section \<open>Framed codecs\<close>

text \<open>
  A codec whose encodings start with their own length in four little-endian bytes. \<open>split_frames\<close> cuts a
  byte stream at those lengths, as a receiver does that first peeks at the length and then takes that
  many bytes; the first argument bounds the number of frames.
\<close>

fun encode_all :: "('a \<Rightarrow> bytes res) \<Rightarrow> 'a list \<Rightarrow> bytes res" where
  "encode_all enc [] = Inr []"
| "encode_all enc (x # xs) = rbind (enc x) (\<lambda>b. rbind (encode_all enc xs) (\<lambda>bs. Inr (b @ bs)))"

fun split_frames :: "nat \<Rightarrow> bytes \<Rightarrow> bytes list option" where
  "split_frames n [] = Some []"
| "split_frames 0 s = None"
| "split_frames (Suc n) s =
     (let k = unat (bytes_word (take 4 s) :: u32)
      in if k < 4 \<or> length s < k then None
         else map_option ((#) (take k s)) (split_frames n (drop k s)))"

lemma split_frames_step:
  assumes "unat (bytes_word (take 4 s) :: u32) = k" and "4 \<le> k" and "k \<le> length s"
  shows "split_frames (Suc n) s = map_option ((#) (take k s)) (split_frames n (drop k s))"
  using assms by (cases s) (simp_all add: Let_def del: take_Cons_numeral)

locale framed_codec =
  fixes good :: "'a \<Rightarrow> bool"
    and enc :: "'a \<Rightarrow> bytes res"
    and dec :: "bytes \<Rightarrow> 'b res"
    and norm :: "'a \<Rightarrow> 'b"
  assumes enc_total: "good x \<Longrightarrow> \<exists>b. enc x = Inr b \<and> length b < 2 ^ 32"
    and roundtrip: "good x \<Longrightarrow> enc x = Inr b \<Longrightarrow> dec b = Inr (norm x)"
    and framed: "enc x = Inr b \<Longrightarrow> \<exists>r. b = write_number (of_nat (length b) :: u32) @ r"
begin

lemma decode_unique: "good x \<Longrightarrow> good y \<Longrightarrow> enc x = Inr b \<Longrightarrow> enc y = Inr b \<Longrightarrow> norm x = norm y"
  using roundtrip [of x b] roundtrip [of y b] by simp

lemma frame_length:
  assumes "enc x = Inr b" and "length b < 2 ^ 32"
  shows "4 \<le> length b" and "unat (bytes_word (take 4 (b @ s)) :: u32) = length b"
proof -
  obtain r where r: "b = write_number (of_nat (length b) :: u32) @ r" using framed [OF assms(1)] by blast
  have "length b = 4 + length r" using arg_cong [OF r, of length] by simp
  then show "4 \<le> length b" by simp
  have "take 4 (b @ s) = write_number (of_nat (length b) :: u32)"
    by (subst r) (simp add: take_append)
  then show "unat (bytes_word (take 4 (b @ s)) :: u32) = length b"
    using assms(2) by (simp add: bytes_word_write_number unat_of_nat)
qed

lemma stream_roundtrip:
  assumes "\<forall>x \<in> set xs. good x"
  shows "\<exists>s. encode_all enc xs = Inr s \<and> (\<forall>n \<ge> length xs. \<exists>fs. split_frames n s = Some fs
    \<and> map dec fs = map (\<lambda>x. Inr (norm x)) xs)"
  using assms
proof (induction xs)
  case (Cons x xs)
  then obtain b s where b: "enc x = Inr b" "length b < 2 ^ 32" and s: "encode_all enc xs = Inr s"
    "\<forall>n \<ge> length xs. \<exists>fs. split_frames n s = Some fs \<and> map dec fs = map (\<lambda>x. Inr (norm x)) xs"
    using enc_total [of x] by auto
  note len = frame_length [OF b]
  have "\<exists>fs. split_frames n (b @ s) = Some fs \<and> map dec fs = map (\<lambda>x. Inr (norm x)) (x # xs)"
    if n: "length (x # xs) \<le> n" for n
  proof -
    obtain m where m: "n = Suc m" "length xs \<le> m" using n by (cases n) auto
    obtain fs where fs: "split_frames m s = Some fs" "map dec fs = map (\<lambda>x. Inr (norm x)) xs"
      using s(2) m(2) by blast
    have "split_frames n (b @ s) = map_option ((#) (take (length b) (b @ s))) (split_frames m (drop (length b) (b @ s)))"
      unfolding m(1) by (rule split_frames_step [OF len(2) len(1)]) simp
    then show ?thesis using fs roundtrip [of x b] Cons.prems b(1) by simp
  qed
  then show ?case using b(1) s(1) by auto
qed simp

end

section \<open>Append-only logs\<close>

text \<open>
  A log that takes messages one at a time, each adding its own line at the end. Whatever the order in
  which threads get to put, the text is the lines in that order and nothing is overwritten.
\<close>

locale append_log =
  fixes ok :: "'s \<Rightarrow> bool"
    and content :: "'s \<Rightarrow> string"
    and line :: "'s \<Rightarrow> 'm \<Rightarrow> string"
    and put :: "'m \<Rightarrow> 's \<Rightarrow> 's res"
  assumes put_law: "ok s \<Longrightarrow> \<exists>s'. put m s = Inr s' \<and> ok s' \<and> content s' = content s @ line s m \<and> line s' = line s"
begin

lemma put_all:
  assumes "ok s"
  shows "\<exists>s'. rfold put ms s = Inr s' \<and> ok s' \<and> content s' = content s @ concat (map (line s) ms) \<and> line s' = line s"
  using assms
proof (induction ms arbitrary: s)
  case (Cons m ms)
  obtain s1 where s1: "put m s = Inr s1" "ok s1" "content s1 = content s @ line s m" "line s1 = line s"
    using put_law [OF Cons.prems, of m] by blast
  then show ?case using Cons.IH [OF s1(2)] by auto
qed simp

end

end
