(* ===== verification/Logger.thy ===== *)
theory Logger
  imports Locks Contracts
begin

text \<open>
  The log of \<^verbatim>\<open>logger/logger.cpp\<close>: an open text file behind a mutex, with one overload of \<^verbatim>\<open>write_msg\<close> for
  each kind of event, and the unused \<^verbatim>\<open>logger/logchild.cpp\<close>. The time stamp is a parameter. What the C
  library still holds in its buffer when the process ends is not distinguished from what is in the file.
\<close>

section \<open>Formatted output\<close>

text \<open>
  The part of \<^verbatim>\<open>printf\<close> formats the messages use: \<^verbatim>\<open>%s\<close>, \<^verbatim>\<open>%d\<close> and \<^verbatim>\<open>%%\<close>. A directive without a matching
  argument is undefined.
\<close>

datatype parg = PStr string | PInt int

fun c_format :: "string \<Rightarrow> parg list \<Rightarrow> string res" where
  "c_format [] args = Inr []"
| "c_format (c # fmt) args =
     (if c \<noteq> CHR ''%'' then rbind (c_format fmt args) (\<lambda>out. Inr (c # out))
      else case fmt of
             [] \<Rightarrow> Inl (UB OutOfBounds)
           | d # fmt \<Rightarrow>
               if d = CHR ''%'' then rbind (c_format fmt args) (\<lambda>out. Inr (CHR ''%'' # out))
               else case args of
                      [] \<Rightarrow> Inl (UB OutOfBounds)
                    | PStr s # args \<Rightarrow>
                        if d = CHR ''s'' then rbind (c_format fmt args) (\<lambda>out. Inr (s @ out)) else Inl (UB OutOfBounds)
                    | PInt i # args \<Rightarrow>
                        if d = CHR ''d'' then rbind (c_format fmt args) (\<lambda>out. Inr (show_int i @ out)) else Inl (UB OutOfBounds))"

section \<open>State\<close>

datatype LogLvlT =
    LOG_TCP_INIT | LOG_TCP_FIN | LOG_PREF_NGBR | LOG_OUCHK_NGBR | LOG_UCHK | LOG_CHK | LOG_HV | LOG_INT
  | LOG_UINT | LOG_DWLD | LOG_DWLD_CMPLT | LOG_ERR | LOG_WRN | LOG_INFO | LOG_DBG

fun lvl_code :: "LogLvlT \<Rightarrow> nat" where
  "lvl_code LOG_TCP_INIT = 1"
| "lvl_code LOG_TCP_FIN = 2"
| "lvl_code LOG_PREF_NGBR = 4"
| "lvl_code LOG_OUCHK_NGBR = 8"
| "lvl_code LOG_UCHK = 16"
| "lvl_code LOG_CHK = 32"
| "lvl_code LOG_HV = 64"
| "lvl_code LOG_INT = 128"
| "lvl_code LOG_UINT = 256"
| "lvl_code LOG_DWLD = 512"
| "lvl_code LOG_DWLD_CMPLT = 1024"
| "lvl_code LOG_ERR = 2048"
| "lvl_code LOG_WRN = 4096"
| "lvl_code LOG_INFO = 8192"
| "lvl_code LOG_DBG = 16384"

text \<open>The levels are ordered by their codes.\<close>

lemma lvl_code_inj: "lvl_code a = lvl_code b \<Longrightarrow> a = b"
  by (cases a; cases b; simp)

instantiation LogLvlT :: linorder
begin

definition less_eq_LogLvlT :: "LogLvlT \<Rightarrow> LogLvlT \<Rightarrow> bool" where
  "less_eq_LogLvlT a b \<longleftrightarrow> lvl_code a \<le> lvl_code b"

definition less_LogLvlT :: "LogLvlT \<Rightarrow> LogLvlT \<Rightarrow> bool" where
  "less_LogLvlT a b \<longleftrightarrow> lvl_code a < lvl_code b"

instance
  by standard (auto simp: less_eq_LogLvlT_def less_LogLvlT_def dest: lvl_code_inj)

end

lemma LOG_DBG_greatest [simp]: "\<not> LOG_DBG < (l :: LogLvlT)"
  by (cases l) (simp_all add: less_LogLvlT_def)

text \<open>The file is standard output or a fresh file; its text is all that matters here.\<close>

record Logger =
  lg_stdout :: bool
  lg_f :: string
  lg_mut :: mutex
  lg_max_lvl :: LogLvlT

section \<open>Operations\<close>

text \<open>\<open>fopen_ok\<close> says whether \<^verbatim>\<open>fopen\<close> gives a stream, \<open>stat\<close> is the status of the mutex's initialisation.\<close>

definition Logger_ctor :: "bool \<Rightarrow> int \<Rightarrow> string \<Rightarrow> LogLvlT \<Rightarrow> Logger res" where
  "Logger_ctor fopen_ok stat fname lvl_max =
     (if fname \<noteq> ''stdout'' \<and> \<not> fopen_ok then Inl (Exit (-1))
      else rbind (init_call stat) (\<lambda>_.
           Inr \<lparr>lg_stdout = (fname = ''stdout''), lg_f = [], lg_mut = MFree, lg_max_lvl = lvl_max\<rparr>))"

definition Logger_destroy :: "Logger \<Rightarrow> string res" where
  "Logger_destroy lg = rbind (lock_call (pthread_mutex_destroy (lg_mut lg))) (\<lambda>_. Inr (lg_f lg))"

definition Logger_Lock :: "Logger \<Rightarrow> Logger res" where
  "Logger_Lock lg = rbind (lock_call (pthread_mutex_lock (lg_mut lg))) (\<lambda>l. Inr (lg\<lparr>lg_mut := l\<rparr>))"

definition Logger_UnLock :: "Logger \<Rightarrow> Logger res" where
  "Logger_UnLock lg = rbind (lock_call (pthread_mutex_unlock (lg_mut lg))) (\<lambda>l. Inr (lg\<lparr>lg_mut := l\<rparr>))"

definition lg_fprintf :: "string \<Rightarrow> parg list \<Rightarrow> Logger \<Rightarrow> Logger res" where
  "lg_fprintf fmt args lg = rbind (c_format fmt args) (\<lambda>s. Inr (lg\<lparr>lg_f := lg_f lg @ s\<rparr>))"

text \<open>The variadic overload takes no lock.\<close>

definition write_msg :: "LogLvlT \<Rightarrow> string \<Rightarrow> parg list \<Rightarrow> Logger \<Rightarrow> Logger res" where
  "write_msg log_lvl msg args lg =
     (if lg_max_lvl lg < log_lvl then Inr lg else lg_fprintf msg args lg)"

definition pair_format :: "LogLvlT \<Rightarrow> string option" where
  "pair_format log_lvl = (case log_lvl of
      LOG_TCP_INIT \<Rightarrow> Some ''[%s]: Peer  %d makes a connection to Peer %d. \<newline>''
    | LOG_TCP_FIN \<Rightarrow> Some ''[%s]: Peer %d is connected from Peer %d. \<newline>''
    | LOG_UCHK \<Rightarrow> Some ''[%s]: Peer %d is unchoked by %d. \<newline>''
    | LOG_CHK \<Rightarrow> Some ''[%s]: Peer %d is choked by %d. \<newline>''
    | LOG_INT \<Rightarrow> Some ''[%s]: Peer %d received the 'interested' message from %d. \<newline>''
    | LOG_UINT \<Rightarrow> Some ''[%s]: Peer %d received the 'not interested' message from %d. \<newline>''
    | _ \<Rightarrow> None)"

definition write_msg_pair :: "string \<Rightarrow> LogLvlT \<Rightarrow> int \<Rightarrow> int \<Rightarrow> Logger \<Rightarrow> Logger res" where
  "write_msg_pair date_time log_lvl peer_id_1 peer_id_2 lg =
     (if lg_max_lvl lg < log_lvl then Inr lg
      else rbind (Logger_Lock lg) (\<lambda>lg.
           rbind (case pair_format log_lvl of
                    Some fmt \<Rightarrow> lg_fprintf fmt [PStr date_time, PInt peer_id_1, PInt peer_id_2] lg
                  | None \<Rightarrow> lg_fprintf ''LOGCHILD: Unknown log level!\<newline>'' [] lg) (\<lambda>lg.
           Logger_UnLock lg)))"

text \<open>The remaining overloads ignore the level once it has passed the filter.\<close>

definition write_msg_locked :: "string \<Rightarrow> parg list \<Rightarrow> LogLvlT \<Rightarrow> Logger \<Rightarrow> Logger res" where
  "write_msg_locked fmt args log_lvl lg =
     (if lg_max_lvl lg < log_lvl then Inr lg
      else rbind (Logger_Lock lg) (\<lambda>lg. rbind (lg_fprintf fmt args lg) (\<lambda>lg. Logger_UnLock lg)))"

definition write_msg_have :: "string \<Rightarrow> LogLvlT \<Rightarrow> int \<Rightarrow> int \<Rightarrow> u32 \<Rightarrow> Logger \<Rightarrow> Logger res" where
  "write_msg_have date_time log_lvl peer_id_1 peer_id_2 pcno lg =
     write_msg_locked ''[%s]: Peer %d received the 'have' message from %d for the piece %d. \<newline>''
       [PStr date_time, PInt peer_id_1, PInt peer_id_2, PInt (int_of_u32 pcno)] log_lvl lg"

definition write_msg_piece :: "string \<Rightarrow> LogLvlT \<Rightarrow> int \<Rightarrow> int \<Rightarrow> u32 \<Rightarrow> int \<Rightarrow> Logger \<Rightarrow> Logger res" where
  "write_msg_piece date_time log_lvl peer_id_1 peer_id_2 pcno npcs lg =
     write_msg_locked ''[%s]: Peer %d has downloaded the piece %d from %d. Now the number of pieces it has is %d. \<newline>''
       [PStr date_time, PInt peer_id_1, PInt (int_of_u32 pcno), PInt peer_id_2, PInt npcs] log_lvl lg"

definition write_msg_done :: "string \<Rightarrow> LogLvlT \<Rightarrow> int \<Rightarrow> Logger \<Rightarrow> Logger res" where
  "write_msg_done date_time log_lvl peer_id lg =
     write_msg_locked ''[%s]: Peer %d has downloaded the complete file. \<newline>'' [PStr date_time, PInt peer_id] log_lvl lg"

definition join_peers :: "int list \<Rightarrow> string" where
  "join_peers peers = concat (map (\<lambda>p. show_int p @ '';'') peers)"

definition write_msg_peers :: "string \<Rightarrow> LogLvlT \<Rightarrow> int \<Rightarrow> int list \<Rightarrow> Logger \<Rightarrow> Logger res" where
  "write_msg_peers date_time log_lvl peer_id peers lg =
     write_msg_locked ''[%s]: Peer %d has the preferred neighbors %s. \<newline>''
       [PStr date_time, PInt peer_id, PStr (join_peers peers)] log_lvl lg"

section \<open>The log child\<close>

text \<open>Its loop and its printer have no statements left; the destructor closes what it was given.\<close>

record LogChild =
  lc_sock :: int
  lc_outf :: string
  lc_closed :: "int list"

definition LogChild_ctor :: "int \<Rightarrow> string \<Rightarrow> LogChild" where
  "LogChild_ctor sock outf = \<lparr>lc_sock = sock, lc_outf = outf, lc_closed = []\<rparr>"

definition LogChild_destroy :: "LogChild \<Rightarrow> int list \<times> string option" where
  "LogChild_destroy lc = (lc_closed lc @ [lc_sock lc], if lc_outf lc \<noteq> ''stdout'' then Some (lc_outf lc) else None)"

definition srvloop :: "LogChild \<Rightarrow> LogChild" where
  "srvloop lc = lc"

definition pretty_p :: "string \<Rightarrow> LogChild \<Rightarrow> int \<times> LogChild" where
  "pretty_p lmsg lc = (1, lc)"

section \<open>Facts\<close>

definition log_ok :: "Logger \<Rightarrow> bool" where
  "log_ok lg \<longleftrightarrow> lg_mut lg = MFree"

lemma c_format_lit: "c \<noteq> CHR ''%'' \<Longrightarrow> c_format (c # fmt) args = rbind (c_format fmt args) (\<lambda>out. Inr (c # out))"
  by simp

lemma write_msg_locked_eq:
  assumes "log_ok lg" and "c_format fmt args = Inr s"
  shows "write_msg_locked fmt args lvl lg =
    Inr (if lg_max_lvl lg < lvl then lg else lg\<lparr>lg_f := lg_f lg @ s\<rparr>)"
  using assms by (cases lg) (auto simp: write_msg_locked_def Logger_Lock_def Logger_UnLock_def lg_fprintf_def log_ok_def)

lemma write_msg_pair_eq:
  assumes "log_ok lg"
  shows "write_msg_pair date lvl p q lg =
    (case pair_format lvl of
       Some fmt \<Rightarrow> write_msg_locked fmt [PStr date, PInt p, PInt q] lvl lg
     | None \<Rightarrow> write_msg_locked ''LOGCHILD: Unknown log level!\<newline>'' [] lvl lg)"
  by (auto simp: write_msg_pair_def write_msg_locked_def split: option.split)

section \<open>The lines of the log\<close>

text \<open>One datatype for the locked overloads, and the text each is to add, written out.\<close>

datatype log_msg =
    LPair LogLvlT int int
  | LHave LogLvlT int int u32
  | LPiece LogLvlT int int u32 int
  | LDone LogLvlT int
  | LPeers LogLvlT int "int list"

fun log_lvl :: "log_msg \<Rightarrow> LogLvlT" where
  "log_lvl (LPair l p q) = l"
| "log_lvl (LHave l p q n) = l"
| "log_lvl (LPiece l p q n m) = l"
| "log_lvl (LDone l p) = l"
| "log_lvl (LPeers l p qs) = l"

fun log_write :: "string \<Rightarrow> log_msg \<Rightarrow> Logger \<Rightarrow> Logger res" where
  "log_write date (LPair l p q) lg = write_msg_pair date l p q lg"
| "log_write date (LHave l p q n) lg = write_msg_have date l p q n lg"
| "log_write date (LPiece l p q n m) lg = write_msg_piece date l p q n m lg"
| "log_write date (LDone l p) lg = write_msg_done date l p lg"
| "log_write date (LPeers l p qs) lg = write_msg_peers date l p qs lg"

fun pair_text :: "LogLvlT \<Rightarrow> string \<Rightarrow> int \<Rightarrow> int \<Rightarrow> string" where
  "pair_text LOG_TCP_INIT date p q =
     ''['' @ date @ '']: Peer  '' @ show_int p @ '' makes a connection to Peer '' @ show_int q @ ''. \<newline>''"
| "pair_text LOG_TCP_FIN date p q =
     ''['' @ date @ '']: Peer '' @ show_int p @ '' is connected from Peer '' @ show_int q @ ''. \<newline>''"
| "pair_text LOG_UCHK date p q =
     ''['' @ date @ '']: Peer '' @ show_int p @ '' is unchoked by '' @ show_int q @ ''. \<newline>''"
| "pair_text LOG_CHK date p q =
     ''['' @ date @ '']: Peer '' @ show_int p @ '' is choked by '' @ show_int q @ ''. \<newline>''"
| "pair_text LOG_INT date p q =
     ''['' @ date @ '']: Peer '' @ show_int p @ '' received the 'interested' message from '' @ show_int q @ ''. \<newline>''"
| "pair_text LOG_UINT date p q =
     ''['' @ date @ '']: Peer '' @ show_int p @ '' received the 'not interested' message from '' @ show_int q @ ''. \<newline>''"
| "pair_text l date p q = ''LOGCHILD: Unknown log level!\<newline>''"

fun msg_text :: "string \<Rightarrow> log_msg \<Rightarrow> string" where
  "msg_text date (LPair l p q) = pair_text l date p q"
| "msg_text date (LHave l p q n) =
     ''['' @ date @ '']: Peer '' @ show_int p @ '' received the 'have' message from '' @ show_int q
     @ '' for the piece '' @ show_int (int_of_u32 n) @ ''. \<newline>''"
| "msg_text date (LPiece l p q n m) =
     ''['' @ date @ '']: Peer '' @ show_int p @ '' has downloaded the piece '' @ show_int (int_of_u32 n)
     @ '' from '' @ show_int q @ ''. Now the number of pieces it has is '' @ show_int m @ ''. \<newline>''"
| "msg_text date (LDone l p) =
     ''['' @ date @ '']: Peer '' @ show_int p @ '' has downloaded the complete file. \<newline>''"
| "msg_text date (LPeers l p qs) =
     ''['' @ date @ '']: Peer '' @ show_int p @ '' has the preferred neighbors '' @ join_peers qs @ ''. \<newline>''"

definition log_line :: "string \<Rightarrow> Logger \<Rightarrow> log_msg \<Rightarrow> string" where
  "log_line date lg m = (if lg_max_lvl lg < log_lvl m then [] else msg_text date m)"

lemma write_msg_pair_text:
  assumes "log_ok lg"
  shows "write_msg_pair date l p q lg = Inr (lg\<lparr>lg_f := lg_f lg @ log_line date lg (LPair l p q)\<rparr>)"
proof (cases "pair_format l")
  case None
  have "c_format ''LOGCHILD: Unknown log level!\<newline>'' [] = Inr ''LOGCHILD: Unknown log level!\<newline>''" by simp
  moreover have "pair_text l date p q = ''LOGCHILD: Unknown log level!\<newline>''"
    using None by (cases l) (simp_all add: pair_format_def)
  ultimately show ?thesis using None assms
    by (simp add: write_msg_pair_eq write_msg_locked_eq log_line_def)
next
  case (Some fmt)
  then have "c_format fmt [PStr date, PInt p, PInt q] = Inr (pair_text l date p q)"
    by (cases l) (auto simp: pair_format_def)
  then show ?thesis using Some assms
    by (simp add: write_msg_pair_eq write_msg_locked_eq log_line_def)
qed

lemma log_write_eq:
  assumes "log_ok lg"
  shows "log_write date m lg = Inr (lg\<lparr>lg_f := lg_f lg @ log_line date lg m\<rparr>)"
proof (cases m)
  case (LPair l p q)
  then show ?thesis using write_msg_pair_text [OF assms] by simp
next
  case (LHave l p q n)
  have "c_format ''[%s]: Peer %d received the 'have' message from %d for the piece %d. \<newline>''
      [PStr date, PInt p, PInt q, PInt (int_of_u32 n)] = Inr (msg_text date m)" by (simp add: LHave)
  then show ?thesis using assms by (simp add: LHave write_msg_have_def write_msg_locked_eq log_line_def)
next
  case (LPiece l p q n k)
  have "c_format ''[%s]: Peer %d has downloaded the piece %d from %d. Now the number of pieces it has is %d. \<newline>''
      [PStr date, PInt p, PInt (int_of_u32 n), PInt q, PInt k] = Inr (msg_text date m)" by (simp add: LPiece)
  then show ?thesis using assms by (simp add: LPiece write_msg_piece_def write_msg_locked_eq log_line_def)
next
  case (LDone l p)
  have "c_format ''[%s]: Peer %d has downloaded the complete file. \<newline>'' [PStr date, PInt p]
      = Inr (msg_text date m)" by (simp add: LDone)
  then show ?thesis using assms by (simp add: LDone write_msg_done_def write_msg_locked_eq log_line_def)
next
  case (LPeers l p qs)
  have "c_format ''[%s]: Peer %d has the preferred neighbors %s. \<newline>''
      [PStr date, PInt p, PStr (join_peers qs)] = Inr (msg_text date m)" by (simp add: LPeers)
  then show ?thesis using assms by (simp add: LPeers write_msg_peers_def write_msg_locked_eq log_line_def)
qed

interpretation lg: append_log log_ok lg_f "log_line date" "log_write date" for date
proof unfold_locales
  fix lg m assume "log_ok lg"
  then show "\<exists>lg'. log_write date m lg = Inr lg' \<and> log_ok lg' \<and> lg_f lg' = lg_f lg @ log_line date lg m
      \<and> log_line date lg' = log_line date lg"
    by (simp add: log_write_eq log_ok_def log_line_def fun_eq_iff)
qed

section \<open>Properties\<close>


definition demo_log :: Logger where
  "demo_log = \<lparr>lg_stdout = False, lg_f = ''x'', lg_mut = MFree, lg_max_lvl = LOG_DBG\<rparr>"




end
