(* ===== verification/Bfield.thy ===== *)
theory Bfield
  imports Locks Contracts
begin

text \<open>
  The bit field of \<^verbatim>\<open>objstore/bfield.cpp\<close>: a vector of bytes behind an optional read-write lock,
  piece \<open>p\<close> being bit \<open>p mod 8\<close> of byte \<open>p div 8\<close>.
\<close>

record Bfield =
  bf_rwlock :: rwlock
  bf_needlock :: bool
  bf_bfield :: "u8 list"

section \<open>Constructors and destructor\<close>

definition Bfield_default :: Bfield where
  "Bfield_default = \<lparr>bf_rwlock = LFree, bf_needlock = False, bf_bfield = []\<rparr>"

definition Bfield_vector :: "u8 list \<Rightarrow> Bfield" where
  "Bfield_vector field = \<lparr>bf_rwlock = LFree, bf_needlock = False, bf_bfield = field\<rparr>"

text \<open>\<^verbatim>\<open>Bfield(bool needlock, int npcs)\<close>; \<open>stat\<close> is what \<^verbatim>\<open>pthread_rwlock_init\<close> returns.\<close>

definition Bfield_npcs :: "int \<Rightarrow> bool \<Rightarrow> int \<Rightarrow> Bfield res" where
  "Bfield_npcs stat needlock npcs =
     rbind (vector_fill npcs 0) (\<lambda>v.
     rbind (if needlock then init_call stat else Inr ()) (\<lambda>_.
     Inr \<lparr>bf_rwlock = LFree, bf_needlock = needlock, bf_bfield = v\<rparr>))"

text \<open>The mask loop of \<^verbatim>\<open>Bfield(bool hasfile, bool needlock, int npcs)\<close>.\<close>

definition full_mask :: u8 where
  "full_mask = foldl (\<lambda>mask i. mask XOR bitmask i) 0 [0..<8]"

definition Bfield_hasfile :: "int \<Rightarrow> bool \<Rightarrow> bool \<Rightarrow> int \<Rightarrow> Bfield res" where
  "Bfield_hasfile stat hasfile needlock npcs =
     (let wholes = c_div npcs 8; lftovr = c_mod npcs 8
      in rbind (vector_fill wholes (of_bool hasfile)) (\<lambda>v.
         let v = (if lftovr \<noteq> 0 then (if hasfile then v @ [full_mask] else v @ [0]) else v)
         in rbind (if needlock then init_call stat else Inr ()) (\<lambda>_.
            Inr \<lparr>bf_rwlock = LFree, bf_needlock = needlock, bf_bfield = v\<rparr>)))"

definition Bfield_destroy :: "Bfield \<Rightarrow> unit res" where
  "Bfield_destroy b =
     (if bf_needlock b
      then rbind (lock_call (pthread_rwlock_destroy (bf_rwlock b))) (\<lambda>_. Inr ())
      else Inr ())"

section \<open>Locking\<close>

definition Bfield_RdLock :: "Bfield \<Rightarrow> Bfield res" where
  "Bfield_RdLock b =
     (if bf_needlock b
      then rbind (lock_call (pthread_rwlock_rdlock (bf_rwlock b))) (\<lambda>l. Inr (b\<lparr>bf_rwlock := l\<rparr>))
      else Inr b)"

definition Bfield_WrLock :: "Bfield \<Rightarrow> Bfield res" where
  "Bfield_WrLock b =
     (if bf_needlock b
      then rbind (lock_call (pthread_rwlock_wrlock (bf_rwlock b))) (\<lambda>l. Inr (b\<lparr>bf_rwlock := l\<rparr>))
      else Inr b)"

definition Bfield_UnLock :: "Bfield \<Rightarrow> Bfield res" where
  "Bfield_UnLock b =
     (if bf_needlock b
      then rbind (lock_call (pthread_rwlock_unlock (bf_rwlock b))) (\<lambda>l. Inr (b\<lparr>bf_rwlock := l\<rparr>))
      else Inr b)"

section \<open>Operations\<close>

text \<open>\<^verbatim>\<open>diff\<close> appends to its output vector, and reads the peer's field at every index of ours.\<close>

definition Bfield_diff :: "Bfield \<Rightarrow> u8 list \<Rightarrow> u8 list \<Rightarrow> (u8 list \<times> Bfield) res" where
  "Bfield_diff b right diff =
     rbind (Bfield_RdLock b) (\<lambda>b.
     let left = bf_bfield b
     in rbind (Bfield_UnLock b) (\<lambda>b.
        rbind (rfold (\<lambda>i diff. rbind (vec_at right (int i)) (\<lambda>r.
                 let mask = (left ! i) XOR ((left ! i) OR r) in Inr (diff @ [mask])))
               [0..<length left] diff) (\<lambda>diff.
        Inr (diff, b))))"

definition Bfield_exists :: "Bfield \<Rightarrow> int \<Rightarrow> (bool \<times> Bfield) res" where
  "Bfield_exists b pos =
     (let wholes = c_div pos 8; lftovr = c_mod pos 8
      in if lftovr < 0 then Inl (UB ShiftRange)
         else let mask = bitmask (nat lftovr)
              in rbind (Bfield_RdLock b) (\<lambda>b.
                 rbind (vec_at (bf_bfield b) wholes) (\<lambda>x.
                 let ret = (x AND mask \<noteq> 0)
                 in rbind (Bfield_UnLock b) (\<lambda>b. Inr (ret, b)))))"

definition Bfield_flip2 :: "Bfield \<Rightarrow> int \<Rightarrow> int \<Rightarrow> (bool \<times> Bfield) res" where
  "Bfield_flip2 b wholes lftover =
     (if lftover < 0 \<or> 32 \<le> lftover then Inl (UB ShiftRange)
      else let mask = bitmask (nat lftover)
           in rbind (Bfield_WrLock b) (\<lambda>b.
              rbind (vec_at (bf_bfield b) wholes) (\<lambda>x.
              rbind (if x AND mask \<noteq> mask
                     then rbind (vec_set (bf_bfield b) wholes (x XOR mask)) (\<lambda>v.
                          Inr (True, b\<lparr>bf_bfield := v\<rparr>))
                     else Inr (False, b)) (\<lambda>(ret, b).
              rbind (Bfield_UnLock b) (\<lambda>b. Inr (ret, b))))))"

definition Bfield_flip :: "Bfield \<Rightarrow> int \<Rightarrow> Bfield res" where
  "Bfield_flip b pcno =
     (let wholes = c_div pcno 8; lftover = c_mod pcno 8
      in if lftover < 0 then Inl (UB ShiftRange)
         else let mask = bitmask (nat lftover)
              in rbind (Bfield_WrLock b) (\<lambda>b.
                 rbind (vec_at (bf_bfield b) wholes) (\<lambda>x.
                 rbind (if x AND mask \<noteq> mask
                        then rbind (vec_set (bf_bfield b) wholes (x XOR mask)) (\<lambda>v.
                             Inr (b\<lparr>bf_bfield := v\<rparr>))
                        else Inr b) (\<lambda>b.
                 Bfield_UnLock b))))"

definition Bfield_clone :: "Bfield \<Rightarrow> (u8 list \<times> Bfield) res" where
  "Bfield_clone b =
     rbind (Bfield_RdLock b) (\<lambda>b. let vec = bf_bfield b in rbind (Bfield_UnLock b) (\<lambda>b. Inr (vec, b)))"

section \<open>The set of pieces a field stands for\<close>

definition has_piece :: "u8 list \<Rightarrow> nat \<Rightarrow> bool" where
  "has_piece v p \<longleftrightarrow> p div 8 < length v \<and> bit (v ! (p div 8)) (p mod 8)"

definition pieces :: "u8 list \<Rightarrow> nat set" where
  "pieces v = {p. has_piece v p}"

definition set_piece :: "u8 list \<Rightarrow> nat \<Rightarrow> u8 list" where
  "set_piece v p = v[p div 8 := v ! (p div 8) OR bitmask (p mod 8)]"

definition bfield_ok :: "Bfield \<Rightarrow> bool" where
  "bfield_ok b \<longleftrightarrow> bf_rwlock b = LFree"

lemma in_pieces [simp]: "p \<in> pieces v \<longleftrightarrow> has_piece v p"
  by (simp add: pieces_def)

lemma has_piece_bound: "has_piece v p \<Longrightarrow> p < 8 * length v"
  by (auto simp: has_piece_def)

lemma length_set_piece [simp]: "length (set_piece v p) = length v"
  by (simp add: set_piece_def)

lemma has_piece_set_piece:
  "p < 8 * length v \<Longrightarrow> has_piece (set_piece v p) q \<longleftrightarrow> q = p \<or> has_piece v q"
  by (cases "q div 8 = p div 8")
    (auto simp: has_piece_def set_piece_def bit_or_iff nth_list_update
      intro: div_mult_mod_eq [of _ 8, THEN sym, THEN trans])

lemma pieces_set_piece: "p < 8 * length v \<Longrightarrow> pieces (set_piece v p) = insert p (pieces v)"
  by (auto simp: has_piece_set_piece)

lemma set_piece_idem: "has_piece v p \<Longrightarrow> set_piece v p = v"
proof -
  assume "has_piece v p"
  then have "v ! (p div 8) OR bitmask (p mod 8) = v ! (p div 8)"
    by (auto simp: u8_eq_iff bit_or_iff has_piece_def)
  then show ?thesis by (simp add: set_piece_def)
qed

lemma xor_bitmask_new: "\<not> bit x j \<Longrightarrow> x XOR bitmask j = x OR bitmask j"
  by (auto simp: u8_eq_iff bit_or_iff bit_xor_iff)

section \<open>What the operations do on a free lock\<close>

lemma bfield_ok_update [simp]: "bfield_ok (b\<lparr>bf_bfield := v\<rparr>) = bfield_ok b"
  by (simp add: bfield_ok_def)

lemma Bfield_exists_eq:
  assumes "bfield_ok b" and "p < 8 * length (bf_bfield b)"
  shows "Bfield_exists b (int p) = Inr (has_piece (bf_bfield b) p, b)"
proof -
  have "p div 8 < length (bf_bfield b)" using assms(2) by auto
  with assms(1) show ?thesis
    by (cases b) (auto simp: bfield_ok_def Bfield_exists_def Bfield_RdLock_def Bfield_UnLock_def
        Let_def has_piece_def and_bitmask_neq_0)
qed

lemma Bfield_exists_out_of_range:
  assumes "bfield_ok b" and "8 * length (bf_bfield b) \<le> p"
  shows "Bfield_exists b (int p) = Inl (UB OutOfBounds)"
proof -
  have "length (bf_bfield b) \<le> p div 8" using assms(2) by auto
  with assms(1) show ?thesis
    by (auto simp: bfield_ok_def Bfield_exists_def Bfield_RdLock_def Let_def vec_at_def)
qed

lemma Bfield_exists_negative:
  assumes "bfield_ok b" and "p < 0"
  shows "\<exists>k. Bfield_exists b p = Inl (UB k)"
proof (cases "c_mod p 8 < 0")
  case True
  then show ?thesis by (simp add: Bfield_exists_def)
next
  case False
  then have "c_div p 8 < 0" using assms(2) by (auto simp: c_mod_def c_div_def)
  with False assms(1) show ?thesis
    by (auto simp: bfield_ok_def Bfield_exists_def Bfield_RdLock_def Let_def vec_at_def)
qed

lemma Bfield_flip2_eq:
  assumes "bfield_ok b" and "i < length (bf_bfield b)" and "j < 8"
  shows "Bfield_flip2 b (int i) (int j) =
    Inr (\<not> has_piece (bf_bfield b) (8 * i + j), b\<lparr>bf_bfield := set_piece (bf_bfield b) (8 * i + j)\<rparr>)"
proof (cases "bit (bf_bfield b ! i) j")
  case True
  then have "set_piece (bf_bfield b) (8 * i + j) = bf_bfield b"
    using assms by (intro set_piece_idem) (simp add: has_piece_def)
  with True assms show ?thesis
    by (cases b) (auto simp: bfield_ok_def Bfield_flip2_def Bfield_WrLock_def Bfield_UnLock_def
        and_bitmask_eq has_piece_def)
next
  case False
  with assms show ?thesis
    by (cases b) (auto simp: bfield_ok_def Bfield_flip2_def Bfield_WrLock_def Bfield_UnLock_def
        and_bitmask_eq has_piece_def set_piece_def xor_bitmask_new)
qed

lemma Bfield_flip2_out_of_range:
  assumes "bfield_ok b" and "length (bf_bfield b) \<le> i" and "j < 8"
  shows "Bfield_flip2 b (int i) (int j) = Inl (UB OutOfBounds)"
  using assms by (auto simp: bfield_ok_def Bfield_flip2_def Bfield_WrLock_def vec_at_def)

lemma Bfield_flip_flip2:
  "Bfield_flip b (int p) = rbind (Bfield_flip2 b (int (p div 8)) (int (p mod 8))) (\<lambda>rb. Inr (snd rb))"
proof -
  have "p mod 8 < 32" by (rule less_trans [of _ 8]) simp_all
  then show ?thesis
    by (auto simp: Bfield_flip_def Bfield_flip2_def Let_def rbind_def split: sum.splits)
qed

lemma Bfield_flip_eq:
  assumes "bfield_ok b" and "p < 8 * length (bf_bfield b)"
  shows "Bfield_flip b (int p) = Inr (b\<lparr>bf_bfield := set_piece (bf_bfield b) p\<rparr>)"
proof -
  have "p div 8 < length (bf_bfield b)" using assms(2) by auto
  then show ?thesis
    using Bfield_flip2_eq [OF assms(1), of "p div 8" "p mod 8"] by (simp add: Bfield_flip_flip2)
qed

lemma Bfield_clone_eq: "bfield_ok b \<Longrightarrow> Bfield_clone b = Inr (bf_bfield b, b)"
  by (cases b) (auto simp: bfield_ok_def Bfield_clone_def Bfield_RdLock_def Bfield_UnLock_def Let_def)

section \<open>The difference of two fields\<close>

definition missing :: "u8 list \<Rightarrow> u8 list \<Rightarrow> u8 list" where
  "missing left right = map2 (\<lambda>l r. l XOR (l OR r)) left right"

lemma rfold_diff:
  assumes "n \<le> length left" and "n \<le> length right"
  shows "rfold (\<lambda>i diff. rbind (vec_at right (int i)) (\<lambda>r. Inr (diff @ [left ! i XOR (left ! i OR r)])))
      [0..<n] diff = Inr (diff @ missing (take n left) (take n right))"
  using assms
proof (induction n)
  case (Suc n)
  then have "take (Suc n) left = take n left @ [left ! n]" "take (Suc n) right = take n right @ [right ! n]"
    by (simp_all add: take_Suc_conv_app_nth)
  with Suc show ?case by (simp add: rfold_append missing_def)
qed (simp add: missing_def)

lemma Bfield_diff_eq:
  assumes "bfield_ok b" and "length (bf_bfield b) \<le> length right"
  shows "Bfield_diff b right diff = Inr (diff @ missing (bf_bfield b) right, b)"
proof -
  have "missing (bf_bfield b) (take (length (bf_bfield b)) right) = missing (bf_bfield b) right"
    using assms(2) by (auto simp: missing_def list_eq_iff_nth_eq)
  then have "rfold (\<lambda>i diff. rbind (vec_at right (int i)) (\<lambda>r.
      Inr (diff @ [bf_bfield b ! i XOR (bf_bfield b ! i OR r)]))) [0..<length (bf_bfield b)] diff =
      Inr (diff @ missing (bf_bfield b) right)"
    using rfold_diff [of "length (bf_bfield b)" "bf_bfield b" right diff] assms(2) by simp
  with assms(1) show ?thesis
    by (cases b) (auto simp: bfield_ok_def Bfield_diff_def Bfield_RdLock_def Bfield_UnLock_def Let_def)
qed

lemma length_missing: "length (missing l r) = min (length l) (length r)"
  by (simp add: missing_def)

lemma has_piece_missing:
  "has_piece (missing l r) p \<longleftrightarrow> p < 8 * length l \<and> has_piece r p \<and> \<not> has_piece l p"
  by (auto simp: has_piece_def missing_def bit_xor_iff bit_or_iff)

section \<open>How the operations may change a field\<close>

text \<open>A field whose lock is free stays so, keeps its length and only gains pieces.\<close>

definition field_ext :: "Bfield \<Rightarrow> Bfield \<Rightarrow> bool" where
  "field_ext b b' \<longleftrightarrow> (bfield_ok b \<longrightarrow> bfield_ok b' \<and> length (bf_bfield b') = length (bf_bfield b)
     \<and> pieces (bf_bfield b) \<subseteq> pieces (bf_bfield b'))"

lemma field_ext_refl [simp]: "field_ext b b"
  by (simp add: field_ext_def)

lemma field_ext_trans [trans]: "field_ext b b' \<Longrightarrow> field_ext b' b'' \<Longrightarrow> field_ext b b''"
  by (auto simp: field_ext_def)

lemma Bfield_exists_ext: "Bfield_exists b z = Inr (r, b') \<Longrightarrow> field_ext b b'"
  by (cases b) (auto simp: field_ext_def bfield_ok_def Bfield_exists_def Bfield_RdLock_def Bfield_UnLock_def Let_def
      rbind_Inr_iff split: if_splits)

lemma Bfield_clone_ext: "Bfield_clone b = Inr (vec, b') \<Longrightarrow> field_ext b b'"
  by (auto simp: field_ext_def Bfield_clone_eq)

lemma Bfield_diff_ext: "Bfield_diff b right diff = Inr (d, b') \<Longrightarrow> field_ext b b'"
  by (cases b) (auto simp: field_ext_def bfield_ok_def Bfield_diff_def Bfield_RdLock_def Bfield_UnLock_def Let_def
      rbind_Inr_iff split: if_splits)

lemma Bfield_flip2_Inr:
  assumes "bfield_ok b" and "j < 8" and "Bfield_flip2 b (int i) (int j) = Inr (r, b')"
  shows "8 * i + j < 8 * length (bf_bfield b) \<and> r = (\<not> has_piece (bf_bfield b) (8 * i + j))
    \<and> b' = b\<lparr>bf_bfield := set_piece (bf_bfield b) (8 * i + j)\<rparr>"
proof (cases "i < length (bf_bfield b)")
  case True
  then show ?thesis using Bfield_flip2_eq [OF assms(1) True assms(2)] assms(2,3) by auto
qed (use Bfield_flip2_out_of_range [of b i j] assms in auto)

lemma Bfield_flip_ext: "Bfield_flip b z = Inr b' \<Longrightarrow> field_ext b b'"
proof (cases "bfield_ok b")
  case True
  assume f: "Bfield_flip b z = Inr b'"
  have "0 \<le> z"
  proof (rule ccontr)
    assume z: "\<not> 0 \<le> z"
    show False
    proof (cases "c_mod z 8 < 0")
      case False
      then have "c_div z 8 < 0" using z by (auto simp: c_mod_def c_div_def)
      with f False True show False
        by (auto simp: bfield_ok_def Bfield_flip_def Bfield_WrLock_def Let_def vec_at_def split: if_splits)
    qed (use f in \<open>simp add: Bfield_flip_def\<close>)
  qed
  then obtain p where p: "z = int p" by (metis nonneg_int_cases)
  with f obtain r where "Bfield_flip2 b (int (p div 8)) (int (p mod 8)) = Inr (r, b')"
    by (auto simp: Bfield_flip_flip2 rbind_Inr_iff)
  from Bfield_flip2_Inr [OF True _ this] True show ?thesis by (auto simp: field_ext_def has_piece_set_piece)
qed (simp add: field_ext_def)

section \<open>Claims on a field\<close>

definition claim_piece :: "nat \<Rightarrow> Bfield \<Rightarrow> (bool \<times> Bfield) res" where
  "claim_piece p b = Bfield_flip2 b (int (p div 8)) (int (p mod 8))"

lemma claim_piece_eq:
  assumes "bfield_ok b" and "p < 8 * length (bf_bfield b)"
  shows "claim_piece p b = Inr (p \<notin> pieces (bf_bfield b), b\<lparr>bf_bfield := set_piece (bf_bfield b) p\<rparr>)"
proof -
  have "p div 8 < length (bf_bfield b)" using assms(2) by auto
  then show ?thesis
    using Bfield_flip2_eq [OF assms(1), of "p div 8" "p mod 8"] by (simp add: claim_piece_def)
qed

interpretation bf: test_and_set bfield_ok "\<lambda>b. 8 * length (bf_bfield b)"
    "\<lambda>b. pieces (bf_bfield b)" claim_piece
  by unfold_locales (auto simp: claim_piece_eq has_piece_set_piece)

section \<open>Properties\<close>

text \<open>
  C1: the two-argument flip is a test-and-set on the set of pieces: on a free lock it answers true
  exactly when the bit was clear, afterwards the bit is set and every other bit is as before, the
  length is unchanged and the lock is free again.
\<close>

theorem flip2_test_and_set:
  assumes "bfield_ok b" and "i < length (bf_bfield b)" and "j < 8"
  shows "\<exists>b'. Bfield_flip2 b (int i) (int j) = Inr (8 * i + j \<notin> pieces (bf_bfield b), b')
    \<and> pieces (bf_bfield b') = insert (8 * i + j) (pieces (bf_bfield b))
    \<and> length (bf_bfield b') = length (bf_bfield b) \<and> bfield_ok b'"
  using Bfield_flip2_eq [OF assms] assms by (auto simp: has_piece_set_piece)

lemma flip2_test_and_set_witness:
  "\<exists>b'. Bfield_flip2 \<lparr>bf_rwlock = LFree, bf_needlock = True, bf_bfield = [5, 0]\<rparr> (int 1) (int 3)
      = Inr (8 * 1 + 3 \<notin> pieces [5, 0], b')
    \<and> pieces (bf_bfield b') = insert (8 * 1 + 3) (pieces [5, 0])
    \<and> length (bf_bfield b') = length [5 :: u8, 0] \<and> bfield_ok b'"
  using flip2_test_and_set
    [of "\<lparr>bf_rwlock = LFree, bf_needlock = True, bf_bfield = [5, 0]\<rparr>" 1 3]
  by (simp add: bfield_ok_def)

text \<open>
  C2: whatever the interleaving of claims by any number of client threads on one locked field, no
  piece is granted twice, the pieces granted are exactly those asked for and not yet marked, and
  all of them are marked at the end.
\<close>

theorem claims_granted_once:
  assumes "bfield_ok b" and "\<forall>(c, p) \<in> set cs. p < 8 * length (bf_bfield b)"
  shows "\<exists>log b'. claim_run claim_piece cs b = Inr (log, b')
    \<and> distinct (map snd (granted log))
    \<and> set (map snd (granted log)) = snd ` set cs - pieces (bf_bfield b)
    \<and> pieces (bf_bfield b') = pieces (bf_bfield b) \<union> snd ` set cs"
  using bf.claim_run_spec [OF assms] by blast

lemma claims_granted_once_witness:
  "\<exists>log b'. claim_run claim_piece [(1, 3), (2, 3), (2, 9 :: nat)]
        \<lparr>bf_rwlock = LFree, bf_needlock = True, bf_bfield = [1, 0]\<rparr> = Inr (log :: (nat \<times> nat \<times> bool) list, b')
    \<and> distinct (map snd (granted log))
    \<and> set (map snd (granted log)) = snd ` set [(1 :: nat, 3), (2, 3), (2, 9 :: nat)] - pieces [1, 0]
    \<and> pieces (bf_bfield b') = pieces [1, 0] \<union> snd ` set [(1 :: nat, 3), (2, 3), (2, 9 :: nat)]"
  using claims_granted_once
    [of "\<lparr>bf_rwlock = LFree, bf_needlock = True, bf_bfield = [1, 0]\<rparr>" "[(1 :: nat, 3), (2, 3), (2, 9)]"]
  by (simp add: bfield_ok_def del: claim_run.simps)

text \<open>
  C3: against a peer field that is long enough, the difference appended to the output holds exactly
  the pieces the peer has and we lack; our field and its lock are unchanged.
\<close>

theorem diff_is_set_difference:
  assumes "bfield_ok b" and "length (bf_bfield b) \<le> length right"
  shows "\<exists>d. Bfield_diff b right diff = Inr (diff @ d, b)
    \<and> pieces d = {p \<in> pieces right. p < 8 * length (bf_bfield b)} - pieces (bf_bfield b)
    \<and> length d = length (bf_bfield b)"
  using assms by (auto simp: Bfield_diff_eq has_piece_missing length_missing)

lemma diff_is_set_difference_witness:
  "\<exists>d. Bfield_diff \<lparr>bf_rwlock = LFree, bf_needlock = True, bf_bfield = [1]\<rparr> [7, 2] []
      = Inr ([] @ d, \<lparr>bf_rwlock = LFree, bf_needlock = True, bf_bfield = [1]\<rparr>)
    \<and> pieces d = {p \<in> pieces [7, 2]. p < 8 * length [1 :: u8]} - pieces [1] \<and> length d = length [1 :: u8]"
  using diff_is_set_difference
    [of "\<lparr>bf_rwlock = LFree, bf_needlock = True, bf_bfield = [1]\<rparr>" "[7, 2]" "[]"]
  by (simp add: bfield_ok_def)

text \<open>
  A peer field shorter than ours makes the difference read past its end.
\<close>

theorem diff_short_peer_field:
  assumes "bfield_ok b" and "length right < length (bf_bfield b)"
  shows "Bfield_diff b right diff = Inl (UB OutOfBounds)"
proof -
  let ?f = "\<lambda>i diff. rbind (vec_at right (int i)) (\<lambda>r.
      Inr (diff @ [bf_bfield b ! i XOR (bf_bfield b ! i OR r)]))"
  have "[0..<length (bf_bfield b)] =
      [0..<length right] @ length right # [Suc (length right)..<length (bf_bfield b)]"
    using assms(2) by (metis less_imp_le_nat upt_add_eq_append le_add_diff_inverse upt_conv_Cons le0)
  moreover have "\<exists>d. rfold ?f [0..<length right] diff = Inr d"
    using rfold_diff [of "length right" "bf_bfield b" right diff] assms(2) by simp
  ultimately have "rfold ?f [0..<length (bf_bfield b)] diff = Inl (UB OutOfBounds)"
    by (auto simp: rfold_append vec_at_def)
  with assms(1) show ?thesis
    by (cases b) (auto simp: bfield_ok_def Bfield_diff_def Bfield_RdLock_def Bfield_UnLock_def Let_def)
qed

lemma diff_short_peer_field_witness:
  "Bfield_diff \<lparr>bf_rwlock = LFree, bf_needlock = True, bf_bfield = [1, 0]\<rparr> [7] [] = Inl (UB OutOfBounds)"
  by (rule diff_short_peer_field) (simp_all add: bfield_ok_def)

lemma bit_full_mask: "j < 8 \<Longrightarrow> bit full_mask j"
proof -
  assume j: "j < 8"
  have eq: "full_mask = mask 8" by (simp add: full_mask_def bitmask_def upt_rec mask_eq_exp_minus_1)
  show ?thesis unfolding eq using j by (subst bit_mask_iff) simp
qed

text \<open>
  C4: what a fresh field of a node with or without the file holds. Without the file it is empty.
  With the file every whole byte is the value 1, not 255, so of each full group of eight only the
  first piece is marked, while the byte of an incomplete last group has all eight bits set.
\<close>

theorem fresh_field_pieces:
  assumes "0 \<le> npcs"
  shows "\<exists>b. Bfield_hasfile 0 hasfile needlock npcs = Inr b \<and> bfield_ok b
    \<and> length (bf_bfield b) = (nat npcs + 7) div 8
    \<and> pieces (bf_bfield b) =
        {p. hasfile \<and> p < 8 * length (bf_bfield b) \<and> (p mod 8 = 0 \<or> nat npcs div 8 \<le> p div 8)}"
proof -
  define n where "n = nat npcs"
  have npcs: "npcs = int n" using assms by (simp add: n_def)
  define v where "v = replicate (n div 8) (of_bool hasfile)
    @ (if n mod 8 \<noteq> 0 then [if hasfile then full_mask else 0 :: u8] else [])"
  have b: "Bfield_hasfile 0 hasfile needlock npcs =
      Inr \<lparr>bf_rwlock = LFree, bf_needlock = needlock, bf_bfield = v\<rparr>"
    by (simp add: Bfield_hasfile_def npcs vector_fill_def v_def Let_def)
  have len: "length v = (n + 7) div 8" by (auto simp: v_def) presburger+
  have "has_piece v p \<longleftrightarrow> hasfile \<and> p < 8 * length v \<and> (p mod 8 = 0 \<or> n div 8 \<le> p div 8)" for p
    by (auto simp: has_piece_def v_def nth_append bit_full_mask bit_1_iff)
  then have "pieces v = {p. hasfile \<and> p < 8 * length v \<and> (p mod 8 = 0 \<or> n div 8 \<le> p div 8)}"
    by (auto simp: pieces_def)
  with b len show ?thesis by (simp add: n_def bfield_ok_def)
qed

lemma fresh_field_pieces_witness:
  "\<exists>b. Bfield_hasfile 0 True True 19 = Inr b \<and> bfield_ok b \<and> length (bf_bfield b) = (nat 19 + 7) div 8
    \<and> pieces (bf_bfield b) =
        {p. True \<and> p < 8 * length (bf_bfield b) \<and> (p mod 8 = 0 \<or> nat 19 div 8 \<le> p div 8)}"
  by (rule fresh_field_pieces) simp

end
