(* ===== verification/Cache.thy ===== *)
theory Cache
  imports Locks Contracts
begin

text \<open>
  The cache of \<^verbatim>\<open>objstore/cache.cpp\<close>: a deque of pointers to \<^verbatim>\<open>Access\<close> records and a map from the file
  position of a piece to an index of the deque, over an open file. The records live in a heap, so
  that a pointer held twice and a record freed once are what they are in the code.
\<close>

section \<open>State\<close>

definition CACHESZ :: int where
  "CACHESZ = 10027008"

record Access =
  acc_pos :: int
  acc_buf :: "u8 list"

text \<open>An open regular file: its bytes and the offset of the descriptor.\<close>

record fdesc =
  f_data :: "u8 list"
  f_off :: nat

record Cache =
  c_cmap :: "int \<rightharpoonup> int"
  c_cvec :: "nat list"
  c_heap :: "nat \<rightharpoonup> Access"
  c_next :: nat
  c_fd :: "fdesc option"
  c_pcsz :: int
  c_npcs :: int
  c_maxsz :: int
  c_rwlock :: rwlock

text \<open>
  POSIX on a regular file: seeking fails on a descriptor that is not open or on a negative offset,
  reading returns what lies between the offset and the end, writing past the end leaves zeros.
\<close>

definition f_lseek :: "int \<Rightarrow> fdesc option \<Rightarrow> fdesc option" where
  "f_lseek pos fd = (case fd of None \<Rightarrow> None
     | Some f \<Rightarrow> if pos < 0 then None else Some (f\<lparr>f_off := nat pos\<rparr>))"

definition f_read :: "nat \<Rightarrow> fdesc \<Rightarrow> u8 list \<times> fdesc" where
  "f_read n f = (let bs = take n (drop (f_off f) (f_data f)) in (bs, f\<lparr>f_off := f_off f + length bs\<rparr>))"

definition write_at :: "nat \<Rightarrow> u8 list \<Rightarrow> u8 list \<Rightarrow> u8 list" where
  "write_at off bs d =
     take off (d @ replicate (off - length d) 0) @ bs @ drop (off + length bs) d"

definition f_write :: "u8 list \<Rightarrow> fdesc \<Rightarrow> fdesc" where
  "f_write bs f = f\<lparr>f_data := write_at (f_off f) bs (f_data f), f_off := f_off f + length bs\<rparr>"

section \<open>Construction, locking\<close>

definition Cache_ctor :: "int \<Rightarrow> int \<Rightarrow> int \<Rightarrow> Cache res" where
  "Cache_ctor stat pcsz npcs =
     (if npcs = 0 then Inl (UB DivByZero)
      else rbind (init_call stat) (\<lambda>_.
        Inr \<lparr>c_cmap = Map.empty, c_cvec = [], c_heap = Map.empty, c_next = 0, c_fd = None,
             c_pcsz = pcsz, c_npcs = npcs, c_maxsz = c_div CACHESZ npcs, c_rwlock = LFree\<rparr>))"

definition Cache_destroy :: "Cache \<Rightarrow> Cache res" where
  "Cache_destroy c =
     rbind (lock_call (pthread_rwlock_destroy (c_rwlock c))) (\<lambda>_. Inr (c\<lparr>c_fd := None\<rparr>))"

definition Cache_RdLock :: "Cache \<Rightarrow> Cache res" where
  "Cache_RdLock c =
     rbind (lock_call (pthread_rwlock_rdlock (c_rwlock c))) (\<lambda>l. Inr (c\<lparr>c_rwlock := l\<rparr>))"

definition Cache_WrLock :: "Cache \<Rightarrow> Cache res" where
  "Cache_WrLock c =
     rbind (lock_call (pthread_rwlock_wrlock (c_rwlock c))) (\<lambda>l. Inr (c\<lparr>c_rwlock := l\<rparr>))"

definition Cache_UnLock :: "Cache \<Rightarrow> Cache res" where
  "Cache_UnLock c =
     rbind (lock_call (pthread_rwlock_unlock (c_rwlock c))) (\<lambda>l. Inr (c\<lparr>c_rwlock := l\<rparr>))"

text \<open>\<^verbatim>\<open>file_open\<close>: the file's contents, when the file exists; returns 0 or 1.\<close>

definition Cache_file_open :: "(string \<rightharpoonup> u8 list) \<Rightarrow> string \<Rightarrow> Cache \<Rightarrow> int \<times> Cache" where
  "Cache_file_open fs fname c =
     (case fs fname of None \<Rightarrow> (0, c\<lparr>c_fd := None\<rparr>)
      | Some d \<Rightarrow> (1, c\<lparr>c_fd := Some \<lparr>f_data = d, f_off = 0\<rparr>\<rparr>))"

section \<open>Operations\<close>

definition Cache_get_pos :: "Cache \<Rightarrow> int \<Rightarrow> int res" where
  "Cache_get_pos c pcno = c_mul (c_pcsz c) pcno"

definition update_cache :: "int \<Rightarrow> u8 list \<Rightarrow> Cache \<Rightarrow> Cache res" where
  "update_cache pos buf c =
     (case c_cmap c pos of
        Some idx \<Rightarrow>
          (case c_cvec c of
             [] \<Rightarrow> Inl (UB EmptyDeque)
           | old_acc # _ \<Rightarrow>
               if idx < 0 \<or> int (length (c_cvec c)) \<le> idx then Inl (UB OutOfBounds)
               else let cvec = take (nat idx) (c_cvec c) @ drop (Suc (nat idx)) (c_cvec c);
                        cmap = (c_cmap c)(pos := None)
                    in Inr (c\<lparr>c_cmap := cmap(pos \<mapsto> int (length cvec)), c_cvec := cvec @ [old_acc]\<rparr>))
      | None \<Rightarrow>
          let new_acc = c_next c;
              c = c\<lparr>c_heap := (c_heap c)(new_acc \<mapsto> \<lparr>acc_pos = pos, acc_buf = buf\<rparr>), c_next := Suc new_acc\<rparr>
          in rbind (if int (length (c_cvec c)) = c_maxsz c mod 2 ^ 32
                    then (case c_cvec c of
                            [] \<Rightarrow> Inl (UB EmptyDeque)
                          | old_acc # rest \<Rightarrow>
                              (case c_heap c old_acc of
                                 None \<Rightarrow> Inl (UB UseAfterFree)
                               | Some a \<Rightarrow> Inr (c\<lparr>c_cvec := rest, c_cmap := (c_cmap c)(acc_pos a := None),
                                                  c_heap := (c_heap c)(old_acc := None)\<rparr>)))
                    else Inr c) (\<lambda>c.
             Inr (c\<lparr>c_cmap := (case c_cmap c pos of None \<Rightarrow> (c_cmap c)(pos \<mapsto> int (length (c_cvec c)))
                                                  | Some _ \<Rightarrow> c_cmap c),
                    c_cvec := c_cvec c @ [new_acc]\<rparr>)))"

text \<open>
  \<^verbatim>\<open>get\<close> looks the position up under the read lock, then reads the record (a hit) or the file (a miss,
  under the write lock; a failed seek is only logged), then updates the cache under the write lock,
  and copies the stored bytes out. The result is what it writes to the caller's buffer.
\<close>

definition Cache_get :: "(nat \<Rightarrow> u8) \<Rightarrow> int \<Rightarrow> Cache \<Rightarrow> (u8 list \<times> Cache) res" where
  "Cache_get junk pcno c =
     rbind (Cache_get_pos c pcno) (\<lambda>pos.
     rbind (Cache_RdLock c) (\<lambda>c.
     let itr = c_cmap c pos
     in rbind (Cache_UnLock c) (\<lambda>c.
     rbind (case itr of
              Some idx \<Rightarrow>
                rbind (vec_at (c_cvec c) idx) (\<lambda>acc.
                (case c_heap c acc of None \<Rightarrow> Inl (UB UseAfterFree) | Some a \<Rightarrow> Inr (acc_buf a, c)))
            | None \<Rightarrow>
                rbind (Cache_WrLock c) (\<lambda>c.
                let c = (case f_lseek pos (c_fd c) of None \<Rightarrow> c | Some f \<Rightarrow> c\<lparr>c_fd := Some f\<rparr>)
                in rbind (new_chars junk (c_pcsz c)) (\<lambda>store.
                   (case c_fd c of
                      None \<Rightarrow> Inl (Exit 1)
                    | Some f \<Rightarrow>
                        let (bs, f) = f_read (nat (c_pcsz c)) f;
                            store = bs @ drop (length bs) store
                        in rbind (Cache_UnLock (c\<lparr>c_fd := Some f\<rparr>)) (\<lambda>c. Inr (store, c)))))) (\<lambda>(store, c).
     rbind (Cache_WrLock c) (\<lambda>c.
     rbind (update_cache pos store c) (\<lambda>c.
     rbind (Cache_UnLock c) (\<lambda>c.
     rbind (if c_pcsz c < 0 then Inl (UB OutOfBounds) else strncpy_bytes store (nat (c_pcsz c))) (\<lambda>out.
     Inr (out, c)))))))))"

definition Cache_put :: "(nat \<Rightarrow> u8) \<Rightarrow> int \<Rightarrow> u8 list \<Rightarrow> Cache \<Rightarrow> Cache res" where
  "Cache_put junk pcno piece c =
     rbind (Cache_get_pos c pcno) (\<lambda>pos.
     rbind (Cache_WrLock c) (\<lambda>c.
     (case f_lseek pos (c_fd c) of
        None \<Rightarrow> Inl (Exit 1)
      | Some f \<Rightarrow>
          if c_pcsz c < 0 \<or> int (length piece) < c_pcsz c then Inl (UB OutOfBounds)
          else let c = c\<lparr>c_fd := Some (f_write (take (nat (c_pcsz c)) piece) f)\<rparr>
               in rbind (new_chars junk (c_pcsz c)) (\<lambda>buf.
                  rbind (c_str piece) (\<lambda>s.
                  let buf = snprintf_s buf (nat (c_pcsz c)) s
                  in rbind (update_cache pos buf c) (\<lambda>c.
                     Cache_UnLock c))))))"

definition Cache_exists :: "u32 \<Rightarrow> Cache \<Rightarrow> (bool \<times> Cache) res" where
  "Cache_exists pcno c =
     rbind (Cache_RdLock c) (\<lambda>c.
     let ret = (c_cmap c (int_of_u32 pcno) \<noteq> None)
     in rbind (Cache_UnLock c) (\<lambda>c. Inr (ret, c)))"

section \<open>Invariant and view\<close>

text \<open>
  \<open>cache_wf\<close>: the map and the deque agree, every pointer of the deque is live, and the allocator is
  ahead of the heap. \<open>cached\<close> is the buffer a lookup of a position would find, \<open>cache_room\<close> how many
  more entries fit.
\<close>

definition cache_wf :: "Cache \<Rightarrow> bool" where
  "cache_wf c \<longleftrightarrow>
     (\<forall>pos idx. c_cmap c pos = Some idx \<longrightarrow>
        (\<exists>i a. idx = int i \<and> i < length (c_cvec c) \<and> c_heap c (c_cvec c ! i) = Some a \<and> acc_pos a = pos))
   \<and> (\<forall>i < length (c_cvec c). \<exists>a. c_heap c (c_cvec c ! i) = Some a \<and> c_cmap c (acc_pos a) = Some (int i))
   \<and> (\<forall>acc a. c_heap c acc = Some a \<longrightarrow> acc < c_next c)"

definition cache_ok :: "Cache \<Rightarrow> bool" where
  "cache_ok c \<longleftrightarrow> cache_wf c \<and> c_rwlock c = LFree"

definition cached :: "Cache \<Rightarrow> int \<Rightarrow> u8 list option" where
  "cached c pos =
     (case c_cmap c pos of None \<Rightarrow> None
      | Some idx \<Rightarrow> if 0 \<le> idx \<and> idx < int (length (c_cvec c))
                     then map_option acc_buf (c_heap c (c_cvec c ! nat idx)) else None)"

definition cache_room :: "Cache \<Rightarrow> nat" where
  "cache_room c = nat (c_maxsz c mod 2 ^ 32) - length (c_cvec c)"

lemma cache_wf_mapE:
  assumes "cache_wf c" and "c_cmap c pos = Some idx"
  obtains i a where "idx = int i" "i < length (c_cvec c)" "c_heap c (c_cvec c ! i) = Some a"
    "acc_pos a = pos"
  using assms unfolding cache_wf_def by blast

lemma cache_wf_entryE:
  assumes "cache_wf c" and "i < length (c_cvec c)"
  obtains a where "c_heap c (c_cvec c ! i) = Some a" "c_cmap c (acc_pos a) = Some (int i)"
  using assms unfolding cache_wf_def by blast

lemma cache_wf_next: "cache_wf c \<Longrightarrow> c_heap c acc = Some a \<Longrightarrow> acc < c_next c"
  unfolding cache_wf_def by blast

lemma cache_wf_upd [simp]:
  "cache_wf (c\<lparr>c_fd := fd\<rparr>) = cache_wf c" "cache_wf (c\<lparr>c_rwlock := l\<rparr>) = cache_wf c"
  by (simp_all add: cache_wf_def)

lemma cached_upd [simp]: "cached (c\<lparr>c_fd := fd\<rparr>) = cached c" "cached (c\<lparr>c_rwlock := l\<rparr>) = cached c"
  by (rule ext, simp add: cached_def split: option.split)+

lemma cache_room_upd [simp]:
  "cache_room (c\<lparr>c_fd := fd\<rparr>) = cache_room c" "cache_room (c\<lparr>c_rwlock := l\<rparr>) = cache_room c"
  by (simp_all add: cache_room_def)

lemma cached_at:
  "c_cmap c pos = Some (int i) \<Longrightarrow> i < length (c_cvec c) \<Longrightarrow> cached c pos = map_option acc_buf (c_heap c (c_cvec c ! i))"
  by (simp add: cached_def)

lemma cached_None_iff:
  assumes "cache_wf c"
  shows "cached c pos = None \<longleftrightarrow> c_cmap c pos = None"
proof (cases "c_cmap c pos")
  case (Some idx)
  with assms show ?thesis by (auto simp: cached_at elim: cache_wf_mapE)
qed (simp add: cached_def)

lemmas cache_lock_defs = Cache_RdLock_def Cache_WrLock_def Cache_UnLock_def

text \<open>Storing a new position with room to spare keeps the invariant and adds one entry.\<close>

definition cache_push :: "int \<Rightarrow> u8 list \<Rightarrow> Cache \<Rightarrow> Cache" where
  "cache_push pos buf c =
     c\<lparr>c_heap := (c_heap c)(c_next c \<mapsto> \<lparr>acc_pos = pos, acc_buf = buf\<rparr>),
       c_next := Suc (c_next c), c_cmap := (c_cmap c)(pos \<mapsto> int (length (c_cvec c))),
       c_cvec := c_cvec c @ [c_next c]\<rparr>"

lemma cache_push_sel [simp]:
  "c_cvec (cache_push pos buf c) = c_cvec c @ [c_next c]"
  "c_fd (cache_push pos buf c) = c_fd c" "c_pcsz (cache_push pos buf c) = c_pcsz c"
  "c_npcs (cache_push pos buf c) = c_npcs c" "c_maxsz (cache_push pos buf c) = c_maxsz c"
  "c_rwlock (cache_push pos buf c) = c_rwlock c"
  by (simp_all add: cache_push_def)

lemma cache_push_lock: "(cache_push pos buf c)\<lparr>c_rwlock := l\<rparr> = cache_push pos buf (c\<lparr>c_rwlock := l\<rparr>)"
  by (simp add: cache_push_def)

lemma update_cache_push:
  assumes "c_cmap c pos = None" and "0 < cache_room c"
  shows "update_cache pos buf c = Inr (cache_push pos buf c)"
proof -
  have "int (length (c_cvec c)) \<noteq> c_maxsz c mod 2 ^ 32"
    using assms(2) by (auto simp: cache_room_def)
  with assms(1) show ?thesis by (simp add: update_cache_def cache_push_def Let_def)
qed

lemma wf_fresh: "cache_wf c \<Longrightarrow> i < length (c_cvec c) \<Longrightarrow> c_cvec c ! i \<noteq> c_next c"
  by (metis cache_wf_entryE cache_wf_next less_irrefl)

lemma cache_push_heap:
  assumes "cache_wf c" and "i < length (c_cvec c)"
  shows "c_heap (cache_push pos buf c) (c_cvec (cache_push pos buf c) ! i) = c_heap c (c_cvec c ! i)"
  using wf_fresh [OF assms] assms(2) by (simp add: cache_push_def nth_append)

lemma cache_push_wf:
  assumes wf: "cache_wf c" and new: "c_cmap c pos = None"
  shows "cache_wf (cache_push pos buf c)"
  unfolding cache_wf_def
proof (intro conjI allI impI)
  let ?c = "cache_push pos buf c"
  fix pos' idx assume a: "c_cmap ?c pos' = Some idx"
  show "\<exists>i a. idx = int i \<and> i < length (c_cvec ?c) \<and> c_heap ?c (c_cvec ?c ! i) = Some a \<and> acc_pos a = pos'"
  proof (cases "pos' = pos")
    case True
    with a show ?thesis by (intro exI [of _ "length (c_cvec c)"]) (simp add: cache_push_def)
  next
    case False
    with a have "c_cmap c pos' = Some idx" by (simp add: cache_push_def)
    with wf obtain i a where "idx = int i" "i < length (c_cvec c)" "c_heap c (c_cvec c ! i) = Some a"
      "acc_pos a = pos'" by (rule cache_wf_mapE)
    with cache_push_heap [OF wf, of i pos buf] show ?thesis
      by (intro exI [of _ i] exI [of _ a]) simp
  qed
next
  let ?c = "cache_push pos buf c"
  fix i assume i: "i < length (c_cvec ?c)"
  show "\<exists>a. c_heap ?c (c_cvec ?c ! i) = Some a \<and> c_cmap ?c (acc_pos a) = Some (int i)"
  proof (cases "i = length (c_cvec c)")
    case True
    then show ?thesis by (simp add: cache_push_def)
  next
    case False
    with i have i': "i < length (c_cvec c)" by simp
    with wf obtain a where a: "c_heap c (c_cvec c ! i) = Some a" "c_cmap c (acc_pos a) = Some (int i)"
      by (rule cache_wf_entryE)
    with new have "acc_pos a \<noteq> pos" by auto
    then have "c_cmap ?c (acc_pos a) = Some (int i)" using a(2) by (simp add: cache_push_def)
    with a(1) cache_push_heap [OF wf i', of pos buf] show ?thesis by (intro exI [of _ a]) simp
  qed
next
  fix acc a assume "c_heap (cache_push pos buf c) acc = Some a"
  then show "acc < c_next (cache_push pos buf c)"
    using cache_wf_next [OF wf, of acc] by (auto simp: cache_push_def less_Suc_eq split: if_splits)
qed

lemma cached_push:
  assumes wf: "cache_wf c"
  shows "cached (cache_push pos buf c) = (cached c)(pos \<mapsto> buf)"
proof
  fix q
  let ?c = "cache_push pos buf c"
  consider "q = pos" | "q \<noteq> pos" "c_cmap c q = None" | idx where "q \<noteq> pos" "c_cmap c q = Some idx"
    by fastforce
  then show "cached ?c q = ((cached c)(pos \<mapsto> buf)) q"
  proof cases
    case 3
    with wf obtain i where i: "idx = int i" "i < length (c_cvec c)" by (elim cache_wf_mapE)
    with 3 have "c_cmap ?c q = Some (int i)" by (simp add: cache_push_def)
    with 3 i cache_push_heap [OF wf i(2), of pos buf] show ?thesis by (simp add: cached_at)
  qed (simp_all add: cached_def cache_push_def)
qed

lemma cache_room_push: "cache_room (cache_push pos buf c) = cache_room c - 1"
  by (simp add: cache_room_def)

section \<open>What put and get do\<close>

text \<open>A legal piece: a position that fits an \<^verbatim>\<open>int\<close>, a whole buffer of bytes, and a NUL in it.\<close>

definition legal_put :: "Cache \<Rightarrow> int \<Rightarrow> u8 list \<Rightarrow> bool" where
  "legal_put c pcno piece \<longleftrightarrow>
     0 \<le> pcno \<and> int_ok (c_pcsz c * pcno) \<and> c_pcsz c \<le> int (length piece) \<and> 0 \<in> set piece"

definition stored_form :: "(nat \<Rightarrow> u8) \<Rightarrow> Cache \<Rightarrow> u8 list \<Rightarrow> u8 list" where
  "stored_form junk c piece =
     snprintf_s (fresh_bytes junk (nat (c_pcsz c))) (nat (c_pcsz c)) (takeWhile (\<lambda>b. b \<noteq> 0) piece)"

definition cache_ready :: "Cache \<Rightarrow> bool" where
  "cache_ready c \<longleftrightarrow> cache_ok c \<and> 0 < c_pcsz c \<and> c_fd c \<noteq> None"

lemma length_stored_form [simp]: "length (stored_form junk c piece) = nat (c_pcsz c)"
  by (simp add: stored_form_def length_snprintf_s)

lemma text_stored_form:
  "0 < c_pcsz c \<Longrightarrow> takeWhile (\<lambda>b. b \<noteq> 0) (stored_form junk c piece)
     = take (nat (c_pcsz c) - 1) (takeWhile (\<lambda>b. b \<noteq> 0) piece)"
  unfolding stored_form_def by (rule takeWhile_snprintf_s) (auto dest: set_takeWhileD)

lemma zero_in_stored_form: "0 < c_pcsz c \<Longrightarrow> 0 \<in> set (stored_form junk c piece)"
  by (simp add: stored_form_def zero_in_snprintf_s)

lemma Cache_put_eq:
  assumes ok: "cache_ok c" and pcsz: "0 < c_pcsz c" and fd: "c_fd c = Some f"
    and legal: "legal_put c pcno piece" and new: "c_cmap c (c_pcsz c * pcno) = None"
    and room: "0 < cache_room c"
  shows "Cache_put junk pcno piece c = Inr (cache_push (c_pcsz c * pcno) (stored_form junk c piece)
     (c\<lparr>c_fd := Some (f_write (take (nat (c_pcsz c)) piece) (f\<lparr>f_off := nat (c_pcsz c * pcno)\<rparr>))\<rparr>))"
proof -
  have free: "c_rwlock c = LFree" using ok by (simp add: cache_ok_def)
  have pos: "\<not> c_pcsz c * pcno < 0" using pcsz legal by (simp add: legal_put_def not_less)
  let ?c = "c\<lparr>c_rwlock := LWrite,
    c_fd := Some (f_write (take (nat (c_pcsz c)) piece) (f\<lparr>f_off := nat (c_pcsz c * pcno)\<rparr>))\<rparr>"
  have "update_cache (c_pcsz c * pcno) (stored_form junk c piece) ?c
      = Inr (cache_push (c_pcsz c * pcno) (stored_form junk c piece) ?c)"
    using new room by (intro update_cache_push) (simp_all add: cache_room_def)
  then show ?thesis
    using legal pcsz fd pos free
    by (simp add: Cache_put_def Cache_get_pos_def c_mul_def legal_put_def cache_lock_defs f_lseek_def
        new_chars_def c_str_def stored_form_def [symmetric] Let_def) (simp add: cache_push_def)
qed

lemma put_law:
  assumes ready: "cache_ready c" and room: "0 < cache_room c" and legal: "legal_put c pcno piece"
    and new: "cached c (c_pcsz c * pcno) = None"
  shows "\<exists>c'. Cache_put junk pcno piece c = Inr c' \<and> cache_ready c' \<and> cache_room c' = cache_room c - 1
    \<and> (\<lambda>k. cached c' (c_pcsz c' * k)) = (\<lambda>k. cached c (c_pcsz c * k))(pcno \<mapsto> stored_form junk c piece)
    \<and> legal_put c' = legal_put c \<and> stored_form junk c' = stored_form junk c"
proof -
  from ready obtain f where c: "cache_ok c" "cache_wf c" "0 < c_pcsz c" "c_fd c = Some f"
    by (auto simp: cache_ready_def cache_ok_def)
  from new c(2) have new': "c_cmap c (c_pcsz c * pcno) = None" by (simp add: cached_None_iff)
  let ?c = "c\<lparr>c_fd := Some (f_write (take (nat (c_pcsz c)) piece) (f\<lparr>f_off := nat (c_pcsz c * pcno)\<rparr>))\<rparr>"
  let ?c' = "cache_push (c_pcsz c * pcno) (stored_form junk c piece) ?c"
  have "Cache_put junk pcno piece c = Inr ?c'"
    by (rule Cache_put_eq [OF c(1,3,4) legal new' room])
  moreover have "cache_wf ?c'" using c(2) new' by (intro cache_push_wf) simp_all
  moreover have "cached ?c' = (cached c)(c_pcsz c * pcno \<mapsto> stored_form junk c piece)"
    using c(2) by (subst cached_push) simp_all
  ultimately show ?thesis
    using c by (intro exI [of _ ?c']) (auto simp: cache_ready_def cache_ok_def cache_room_push fun_eq_iff
        legal_put_def stored_form_def)
qed

text \<open>A hit: the record at the found index is read, but it is the front record that moves back.\<close>

definition cache_hit :: "nat \<Rightarrow> int \<Rightarrow> Cache \<Rightarrow> Cache" where
  "cache_hit i pos c =
     (let cvec = take i (c_cvec c) @ drop (Suc i) (c_cvec c)
      in c\<lparr>c_cmap := (c_cmap c)(pos \<mapsto> int (length cvec)), c_cvec := cvec @ [hd (c_cvec c)]\<rparr>)"

lemma update_cache_hit:
  assumes "c_cmap c pos = Some (int i)" and "i < length (c_cvec c)"
  shows "update_cache pos buf c = Inr (cache_hit i pos c)"
  using assms by (cases "c_cvec c") (simp_all add: update_cache_def cache_hit_def Let_def)

lemma Cache_get_hit_eq:
  assumes free: "c_rwlock c = LFree" and pos: "int_ok (c_pcsz c * pcno)" and "0 < c_pcsz c"
    and hit: "c_cmap c (c_pcsz c * pcno) = Some (int i)" "i < length (c_cvec c)"
    and a: "c_heap c (c_cvec c ! i) = Some a"
    and out: "strncpy_bytes (acc_buf a) (nat (c_pcsz c)) = Inr out"
  shows "Cache_get junk pcno c = Inr (out, cache_hit i (c_pcsz c * pcno) c)"
proof -
  have "update_cache (c_pcsz c * pcno) (acc_buf a) (c\<lparr>c_rwlock := LWrite\<rparr>)
      = Inr (cache_hit i (c_pcsz c * pcno) (c\<lparr>c_rwlock := LWrite\<rparr>))"
    using hit by (intro update_cache_hit) simp_all
  then show ?thesis
    using assms by (cases c) (simp add: Cache_get_def Cache_get_pos_def c_mul_def cache_lock_defs Let_def
        cache_hit_def)
qed

interpretation wo: write_once cache_ready cache_room legal_put "stored_form junk"
    "\<lambda>c k. cached c (c_pcsz c * k)" "Cache_put junk" for junk
  by unfold_locales (rule put_law)

text \<open>A miss: the file is read, and the new record joins the cache.\<close>

definition file_piece :: "(nat \<Rightarrow> u8) \<Rightarrow> nat \<Rightarrow> nat \<Rightarrow> u8 list \<Rightarrow> u8 list" where
  "file_piece junk n off d = (let bs = take n (drop off d) in bs @ drop (length bs) (fresh_bytes junk n))"

lemma Cache_get_miss_eq:
  assumes free: "c_rwlock c = LFree" and pos: "int_ok (c_pcsz c * pcno)" "0 \<le> pcno" and pcsz: "0 < c_pcsz c"
    and fd: "c_fd c = Some f" and new: "c_cmap c (c_pcsz c * pcno) = None" and room: "0 < cache_room c"
    and store: "store = file_piece junk (nat (c_pcsz c)) (nat (c_pcsz c * pcno)) (f_data f)"
    and out: "strncpy_bytes store (nat (c_pcsz c)) = Inr out"
  shows "\<exists>f'. f_data f' = f_data f \<and>
    Cache_get junk pcno c = Inr (out, cache_push (c_pcsz c * pcno) store (c\<lparr>c_fd := Some f'\<rparr>))"
proof -
  define f' where "f' = snd (f_read (nat (c_pcsz c)) (f\<lparr>f_off := nat (c_pcsz c * pcno)\<rparr>))"
  have "update_cache (c_pcsz c * pcno) store (c\<lparr>c_fd := Some f', c_rwlock := LWrite\<rparr>)
      = Inr (cache_push (c_pcsz c * pcno) store (c\<lparr>c_fd := Some f', c_rwlock := LWrite\<rparr>))"
    using new room by (intro update_cache_push) (simp_all add: cache_room_def)
  moreover have "\<not> c_pcsz c * pcno < 0" using pcsz pos by (simp add: not_less)
  ultimately have "Cache_get junk pcno c = Inr (out, cache_push (c_pcsz c * pcno) store (c\<lparr>c_fd := Some f'\<rparr>))"
    using assms by (cases c) (simp add: Cache_get_def Cache_get_pos_def c_mul_def cache_lock_defs Let_def
        f_lseek_def new_chars_def f_read_def file_piece_def f'_def cache_push_def)
  then show ?thesis by (intro exI [of _ f']) (simp add: f'_def f_read_def Let_def)
qed

section \<open>Eviction\<close>

text \<open>A full cache drops the front record and leaves every other index of the map as it was.\<close>

definition cache_evict :: "Access \<Rightarrow> int \<Rightarrow> u8 list \<Rightarrow> Cache \<Rightarrow> Cache" where
  "cache_evict a pos buf c =
     c\<lparr>c_heap := (c_heap c)(c_next c \<mapsto> \<lparr>acc_pos = pos, acc_buf = buf\<rparr>, hd (c_cvec c) := None),
       c_next := Suc (c_next c),
       c_cmap := (c_cmap c)(acc_pos a := None, pos \<mapsto> int (length (c_cvec c) - 1)),
       c_cvec := tl (c_cvec c) @ [c_next c]\<rparr>"

lemma update_cache_evict:
  assumes wf: "cache_wf c" and new: "c_cmap c pos = None" and ne: "c_cvec c \<noteq> []"
    and full: "int (length (c_cvec c)) = c_maxsz c mod 2 ^ 32" and a: "c_heap c (hd (c_cvec c)) = Some a"
  shows "update_cache pos buf c = Inr (cache_evict a pos buf c)"
proof -
  obtain x xs where cv: "c_cvec c = x # xs" using ne by (cases "c_cvec c") auto
  have "x \<noteq> c_next c" using wf_fresh [OF wf, of 0] cv by simp
  with new cv full a show ?thesis by (simp add: update_cache_def cache_evict_def Let_def)
qed

lemma cached_evict:
  assumes wf: "cache_wf c" and i: "0 < i" "i < length (c_cvec c)" and a: "c_heap c (hd (c_cvec c)) = Some a"
    and e: "c_heap c (c_cvec c ! i) = Some e" and new: "c_cmap c pos = None"
  shows "cached (cache_evict a pos buf c) (acc_pos e) =
    (if Suc i < length (c_cvec c) then map_option acc_buf (c_heap c (c_cvec c ! Suc i)) else Some buf)"
proof -
  let ?c = "cache_evict a pos buf c"
  obtain x xs where cv: "c_cvec c = x # xs" using i by (cases "c_cvec c") auto
  have e_i: "c_cmap c (acc_pos e) = Some (int i)"
    using cache_wf_entryE [OF wf i(2)] e by force
  have a_0: "c_cmap c (acc_pos a) = Some 0"
    using cache_wf_entryE [OF wf, of 0] a cv by force
  have at_i: "c_cmap ?c (acc_pos e) = Some (int i)"
    using e_i a_0 new i(1) by (auto simp: cache_evict_def)
  have len: "length (c_cvec ?c) = length (c_cvec c)" using cv by (simp add: cache_evict_def)
  show ?thesis
  proof (cases "Suc i < length (c_cvec c)")
    case True
    then obtain e' where e': "c_heap c (c_cvec c ! Suc i) = Some e'" "c_cmap c (acc_pos e') = Some (int (Suc i))"
      using cache_wf_entryE [OF wf] by metis
    then have "c_cvec c ! Suc i \<noteq> x" using a_0 a cv by auto
    moreover have "c_cvec c ! Suc i \<noteq> c_next c" by (rule wf_fresh [OF wf True])
    ultimately have "c_heap ?c (c_cvec ?c ! i) = c_heap c (c_cvec c ! Suc i)"
      using cv True by (simp add: cache_evict_def nth_append)
    with True at_i len i(2) show ?thesis by (simp add: cached_at)
  next
    case False
    with i(2) have "i = length xs" using cv by simp
    moreover have "x \<noteq> c_next c" using wf_fresh [OF wf, of 0] cv by simp
    ultimately have "c_heap ?c (c_cvec ?c ! i) = Some \<lparr>acc_pos = pos, acc_buf = buf\<rparr>"
      using cv by (simp add: cache_evict_def nth_append)
    with False at_i len i(2) show ?thesis by (simp add: cached_at)
  qed
qed

section \<open>A fresh cache\<close>

definition opened_cache :: "int \<Rightarrow> int \<Rightarrow> u8 list \<Rightarrow> Cache" where
  "opened_cache pcsz npcs d =
     \<lparr>c_cmap = Map.empty, c_cvec = [], c_heap = Map.empty, c_next = 0,
      c_fd = Some \<lparr>f_data = d, f_off = 0\<rparr>, c_pcsz = pcsz, c_npcs = npcs,
      c_maxsz = c_div CACHESZ npcs, c_rwlock = LFree\<rparr>"

lemma opened_cache_ctor:
  assumes "npcs \<noteq> 0" and "fs fname = Some d"
  shows "rbind (Cache_ctor 0 pcsz npcs) (\<lambda>c. Inr (Cache_file_open fs fname c)) = Inr (1, opened_cache pcsz npcs d)"
  using assms by (simp add: Cache_ctor_def Cache_file_open_def opened_cache_def)

lemma opened_cache_wf: "cache_wf (opened_cache pcsz npcs d)"
  by (simp add: cache_wf_def opened_cache_def)

lemma opened_cache_ready: "0 < pcsz \<Longrightarrow> cache_ready (opened_cache pcsz npcs d)"
  using opened_cache_wf [of pcsz npcs d] by (simp add: cache_ready_def cache_ok_def) (simp add: opened_cache_def)

lemma opened_cache_sel [simp]:
  "c_pcsz (opened_cache pcsz npcs d) = pcsz" "c_cvec (opened_cache pcsz npcs d) = []"
  "c_fd (opened_cache pcsz npcs d) = Some \<lparr>f_data = d, f_off = 0\<rparr>"
  "c_rwlock (opened_cache pcsz npcs d) = LFree" "c_cmap (opened_cache pcsz npcs d) = Map.empty"
  "cached (opened_cache pcsz npcs d) = Map.empty"
  by (simp_all add: opened_cache_def cached_def fun_eq_iff)

lemma opened_cache_room: "cache_room (opened_cache pcsz npcs d) = nat (c_div CACHESZ npcs mod 2 ^ 32)"
  by (simp add: opened_cache_def cache_room_def)

text \<open>An example state for the witnesses: two pieces of two bytes, at the indices 0 and 1.\<close>

definition two_cached :: "int \<Rightarrow> Cache" where
  "two_cached maxsz = (opened_cache 2 4 [])\<lparr>c_cmap := [0 \<mapsto> 0, 2 \<mapsto> 1], c_cvec := [0, 1], c_maxsz := maxsz,
    c_heap := [0 \<mapsto> \<lparr>acc_pos = 0, acc_buf = [65, 0]\<rparr>, 1 \<mapsto> \<lparr>acc_pos = 2, acc_buf = [66, 0]\<rparr>], c_next := 2\<rparr>"

lemma two_cached_sel:
  "c_cmap (two_cached maxsz) = [0 \<mapsto> 0, 2 \<mapsto> 1]" "c_cvec (two_cached maxsz) = [0, 1]"
  "c_heap (two_cached maxsz) = [0 \<mapsto> \<lparr>acc_pos = 0, acc_buf = [65, 0]\<rparr>, 1 \<mapsto> \<lparr>acc_pos = 2, acc_buf = [66, 0]\<rparr>]"
  "c_next (two_cached maxsz) = 2" "c_pcsz (two_cached maxsz) = 2" "c_maxsz (two_cached maxsz) = maxsz"
  "c_rwlock (two_cached maxsz) = LFree" "c_fd (two_cached maxsz) = Some \<lparr>f_data = [], f_off = 0\<rparr>"
  by (simp_all add: two_cached_def opened_cache_def)

lemma two_cached_wf: "cache_wf (two_cached maxsz)"
  unfolding cache_wf_def by (auto simp: two_cached_sel less_Suc_eq split: if_splits)

section \<open>Properties\<close>

text \<open>
  C5: while there is room, storing a list of distinct new pieces succeeds, and afterwards a lookup of
  every one of them finds its own bytes (cut to the piece size less one, and NUL-terminated); what
  was cached before is still found.
\<close>

theorem stored_pieces_are_found:
  assumes "cache_ready c" and "length kps \<le> cache_room c" and "distinct (map fst kps)"
    and "\<forall>(k, p) \<in> set kps. legal_put c k p \<and> cached c (c_pcsz c * k) = None"
  shows "\<exists>c'. rfold (\<lambda>(k, p). Cache_put junk k p) kps c = Inr c' \<and> cache_ready c'
    \<and> (\<lambda>k. cached c' (c_pcsz c' * k)) =
        (\<lambda>k. cached c (c_pcsz c * k)) ++ map_of (map (\<lambda>(k, p). (k, stored_form junk c p)) kps)"
  using wo.store_all [OF assms] by blast

lemma stored_pieces_are_found_witness:
  "\<exists>c'. rfold (\<lambda>(k, p). Cache_put (\<lambda>_. 0) k p) [(0, [65, 0]), (3, [66, 0])] (opened_cache 2 4 []) = Inr c'
    \<and> cache_ready c'
    \<and> (\<lambda>k. cached c' (c_pcsz c' * k)) =
        (\<lambda>k. cached (opened_cache 2 4 []) (c_pcsz (opened_cache 2 4 []) * k)) ++
        map_of (map (\<lambda>(k, p). (k, stored_form (\<lambda>_. 0) (opened_cache 2 4 []) p)) [(0, [65, 0]), (3, [66, 0])])"
  by (rule stored_pieces_are_found)
    (simp_all add: opened_cache_ready opened_cache_room legal_put_def int_ok_def c_div_def CACHESZ_def)

lemma cached_hitE:
  assumes "cache_wf c" and "cached c pos = Some buf"
  obtains i a where "c_cmap c pos = Some (int i)" "i < length (c_cvec c)" "c_heap c (c_cvec c ! i) = Some a"
    "acc_buf a = buf"
proof -
  from assms(2) obtain idx where "c_cmap c pos = Some idx" by (auto simp: cached_def split: option.splits)
  with assms(1) obtain i a where "idx = int i" "i < length (c_cvec c)" "c_heap c (c_cvec c ! i) = Some a"
    by (elim cache_wf_mapE)
  with that \<open>c_cmap c pos = Some idx\<close> assms(2) show ?thesis by (simp add: cached_at)
qed

lemma Cache_get_cached:
  assumes "cache_ready c" and "int_ok (c_pcsz c * pcno)" and "cached c (c_pcsz c * pcno) = Some buf"
    and "length buf = nat (c_pcsz c)" and "0 \<in> set buf"
  shows "\<exists>i. Cache_get junk pcno c = Inr (c_pad (nat (c_pcsz c)) buf, cache_hit i (c_pcsz c * pcno) c)"
proof -
  have ok: "cache_wf c" "c_rwlock c = LFree" "0 < c_pcsz c"
    using assms(1) by (auto simp: cache_ready_def cache_ok_def)
  obtain i a where hit: "c_cmap c (c_pcsz c * pcno) = Some (int i)" "i < length (c_cvec c)"
      "c_heap c (c_cvec c ! i) = Some a" "acc_buf a = buf"
    by (rule cached_hitE [OF ok(1) assms(3)])
  have "strncpy_bytes (acc_buf a) (nat (c_pcsz c)) = Inr (c_pad (nat (c_pcsz c)) buf)"
    using strncpy_bytes_pad [OF assms(4,5)] hit(4) by simp
  from Cache_get_hit_eq [OF ok(2) assms(2) ok(3) hit(1-3) this] show ?thesis by blast
qed

text \<open>
  C6: after a new piece is put, the next get of it returns the text that was put, cut to the piece
  size less one and padded with NULs: the last byte of a full piece never comes back.
\<close>

theorem put_then_get:
  assumes ready: "cache_ready c" and room: "0 < cache_room c" and legal: "legal_put c pcno piece"
    and new: "cached c (c_pcsz c * pcno) = None"
  shows "\<exists>c' c''. Cache_put junk pcno piece c = Inr c'
    \<and> Cache_get junk' pcno c' =
        Inr (c_pad (nat (c_pcsz c)) (take (nat (c_pcsz c) - 1) (takeWhile (\<lambda>b. b \<noteq> 0) piece)), c'')"
proof -
  have pcsz: "0 < c_pcsz c" using ready by (simp add: cache_ready_def)
  let ?s = "stored_form junk c piece"
  obtain c' where c': "Cache_put junk pcno piece c = Inr c'" "cache_ready c'"
      "(\<lambda>k. cached c' (c_pcsz c' * k)) = (\<lambda>k. cached c (c_pcsz c * k))(pcno \<mapsto> ?s)"
      "legal_put c' = legal_put c" "stored_form junk c' = stored_form junk c"
    using put_law [OF assms] by blast
  have "nat (c_pcsz c') = nat (c_pcsz c)"
    using arg_cong [OF fun_cong [OF c'(5), of piece], of length] by simp
  then have eq: "c_pcsz c' = c_pcsz c" using pcsz c'(2) by (simp add: cache_ready_def)
  have "int_ok (c_pcsz c' * pcno)" using legal eq by (simp add: legal_put_def)
  moreover have "cached c' (c_pcsz c' * pcno) = Some ?s"
    using fun_cong [OF c'(3), of pcno] by simp
  moreover have "length ?s = nat (c_pcsz c')" by (simp add: eq)
  moreover have "0 \<in> set ?s" by (rule zero_in_stored_form [OF pcsz])
  ultimately obtain i where "Cache_get junk' pcno c' =
      Inr (c_pad (nat (c_pcsz c)) ?s, cache_hit i (c_pcsz c * pcno) c')"
    using Cache_get_cached [OF c'(2), of pcno ?s junk'] unfolding eq by blast
  moreover have "c_pad (nat (c_pcsz c)) ?s =
      c_pad (nat (c_pcsz c)) (take (nat (c_pcsz c) - 1) (takeWhile (\<lambda>b. b \<noteq> 0) piece))"
  proof -
    let ?t = "take (nat (c_pcsz c) - 1) (takeWhile (\<lambda>b. b \<noteq> 0) piece)"
    have "\<forall>b \<in> set ?t. b \<noteq> 0" by (metis in_set_takeD set_takeWhileD)
    then have t: "takeWhile (\<lambda>b. b \<noteq> 0) ?t = ?t" by (simp only: takeWhile_eq_all_conv)
    show ?thesis unfolding c_pad_def text_stored_form [OF pcsz] t ..
  qed
  ultimately show ?thesis using c'(1) by auto
qed

lemma put_then_get_witness:
  "\<exists>c' c''. Cache_put (\<lambda>_. 0) 1 [65, 66, 67, 0] (opened_cache 3 4 []) = Inr c'
    \<and> Cache_get (\<lambda>_. 0) 1 c' =
        Inr (c_pad (nat (c_pcsz (opened_cache 3 4 [])))
               (take (nat (c_pcsz (opened_cache 3 4 [])) - 1) (takeWhile (\<lambda>b. b \<noteq> 0) [65, 66, 67, 0])), c'')"
  by (rule put_then_get)
    (simp_all add: opened_cache_ready opened_cache_room legal_put_def int_ok_def c_div_def CACHESZ_def)

lemma Cache_get_file:
  assumes ready: "cache_ready c" and fd: "c_fd c = Some f" and room: "0 < cache_room c"
    and pos: "int_ok (c_pcsz c * pcno)" "0 \<le> pcno" and new: "cached c (c_pcsz c * pcno) = None"
    and whole: "nat (c_pcsz c * pcno) + nat (c_pcsz c) \<le> length (f_data f)"
  shows "\<exists>c'. Cache_get junk pcno c =
      Inr (c_pad (nat (c_pcsz c)) (take (nat (c_pcsz c)) (drop (nat (c_pcsz c * pcno)) (f_data f))), c')
    \<and> cache_ready c'
    \<and> cached c' = (cached c)(c_pcsz c * pcno \<mapsto> take (nat (c_pcsz c)) (drop (nat (c_pcsz c * pcno)) (f_data f)))"
proof -
  have ok: "cache_wf c" "c_rwlock c = LFree" "0 < c_pcsz c"
    using ready by (auto simp: cache_ready_def cache_ok_def)
  let ?s = "take (nat (c_pcsz c)) (drop (nat (c_pcsz c * pcno)) (f_data f))"
  have len: "length ?s = nat (c_pcsz c)" using whole by simp
  then have s: "file_piece junk (nat (c_pcsz c)) (nat (c_pcsz c * pcno)) (f_data f) = ?s"
    by (simp add: file_piece_def Let_def)
  have out: "strncpy_bytes ?s (nat (c_pcsz c)) = Inr (c_pad (nat (c_pcsz c)) ?s)"
    using len by (simp add: strncpy_bytes_def c_pad_def Let_def)
  have new': "c_cmap c (c_pcsz c * pcno) = None" using new ok(1) by (simp add: cached_None_iff)
  obtain f' where get: "Cache_get junk pcno c = Inr (c_pad (nat (c_pcsz c)) ?s,
      cache_push (c_pcsz c * pcno) ?s (c\<lparr>c_fd := Some f'\<rparr>))"
    using Cache_get_miss_eq [OF ok(2) pos ok(3) fd new' room s [symmetric] out] by blast
  have "cache_wf (cache_push (c_pcsz c * pcno) ?s (c\<lparr>c_fd := Some f'\<rparr>))"
    using ok(1) new' by (intro cache_push_wf) simp_all
  moreover have "cached (cache_push (c_pcsz c * pcno) ?s (c\<lparr>c_fd := Some f'\<rparr>)) = (cached c)(c_pcsz c * pcno \<mapsto> ?s)"
    using ok(1) by (subst cached_push) simp_all
  ultimately show ?thesis using get ok(2,3) by (simp add: cache_ready_def cache_ok_def)
qed



text \<open>
  C8: a repeated get goes wrong. When the cache holds piece \<open>pcno\<close> at an index other than the front,
  the first get returns the piece, but it is the front record that is moved back in its place: a
  second get of the same piece returns the text of the front record.
\<close>

theorem second_get_returns_front:
  assumes ready: "cache_ready c" and pos: "int_ok (c_pcsz c * pcno)"
    and hit: "c_cmap c (c_pcsz c * pcno) = Some (int i)" "0 < i"
    and a: "c_heap c (c_cvec c ! i) = Some a" "length (acc_buf a) = nat (c_pcsz c)" "0 \<in> set (acc_buf a)"
    and front: "c_heap c (hd (c_cvec c)) = Some b" "length (acc_buf b) = nat (c_pcsz c)" "0 \<in> set (acc_buf b)"
  shows "\<exists>c' c''. Cache_get junk pcno c = Inr (c_pad (nat (c_pcsz c)) (acc_buf a), c')
    \<and> Cache_get junk' pcno c' = Inr (c_pad (nat (c_pcsz c)) (acc_buf b), c'')"
proof -
  let ?pos = "c_pcsz c * pcno"
  have ok: "cache_wf c" "c_rwlock c = LFree" "0 < c_pcsz c"
    using ready by (auto simp: cache_ready_def cache_ok_def)
  obtain i' where "int i = int i'" and len: "i' < length (c_cvec c)"
    using cache_wf_mapE [OF ok(1) hit(1)] by metis
  then have len: "i < length (c_cvec c)" by simp
  let ?c = "cache_hit i ?pos c"
  have get1: "Cache_get junk pcno c = Inr (c_pad (nat (c_pcsz c)) (acc_buf a), ?c)"
    by (rule Cache_get_hit_eq [OF ok(2) pos ok(3) hit(1) len a(1) strncpy_bytes_pad [OF a(2,3)]])
  let ?n = "length (c_cvec c) - 1"
  have sel: "c_pcsz ?c = c_pcsz c" "c_rwlock ?c = LFree" "c_heap ?c = c_heap c"
    using ok by (simp_all add: cache_hit_def Let_def)
  have idx: "c_cmap ?c ?pos = Some (int ?n)" "?n < length (c_cvec ?c)"
    using len by (simp_all add: cache_hit_def Let_def)
  let ?l = "take i (c_cvec c) @ drop (Suc i) (c_cvec c)"
  have n: "?n = length ?l" using len by simp
  have l: "c_cvec ?c = ?l @ [hd (c_cvec c)]" by (simp add: cache_hit_def Let_def)
  have at_n: "c_cvec ?c ! ?n = hd (c_cvec c)" unfolding n l by (rule nth_append_length)
  have "c_heap c (c_cvec ?c ! ?n) = Some b" unfolding at_n by (rule front(1))
  from Cache_get_hit_eq [of ?c pcno, unfolded sel, OF refl pos ok(3) idx this strncpy_bytes_pad [OF front(2,3)]]
  have "Cache_get junk' pcno ?c = Inr (c_pad (nat (c_pcsz c)) (acc_buf b), cache_hit ?n ?pos ?c)" .
  with get1 show ?thesis by blast
qed

lemma second_get_returns_front_witness:
  "\<exists>c' c''. Cache_get (\<lambda>_. 0) 1 (two_cached 9) =
      Inr (c_pad (nat (c_pcsz (two_cached 9))) (acc_buf \<lparr>acc_pos = 2, acc_buf = [66, 0]\<rparr>), c')
    \<and> Cache_get (\<lambda>_. 0) 1 c' =
      Inr (c_pad (nat (c_pcsz (two_cached 9))) (acc_buf \<lparr>acc_pos = 0, acc_buf = [65, 0]\<rparr>), c'')"
  by (rule second_get_returns_front [where i = 1])
    (use two_cached_wf [of 9] in \<open>simp_all add: cache_ready_def cache_ok_def two_cached_sel int_ok_def\<close>)

text \<open>
  Eviction invalidates the map. When a full cache takes a new piece, the front record is dropped
  but the indices of the others stay: a lookup of the piece at index \<open>i\<close> (not the front) then finds
  the bytes of the record behind it, and the one at the back finds those of the new piece.
\<close>

theorem eviction_shifts_lookups:
  assumes wf: "cache_wf c" and new: "c_cmap c pos = None"
    and full: "int (length (c_cvec c)) = c_maxsz c mod 2 ^ 32"
    and i: "0 < i" "i < length (c_cvec c)" and e: "c_heap c (c_cvec c ! i) = Some e"
  shows "\<exists>c'. update_cache pos buf c = Inr c' \<and> cached c' (acc_pos e) =
    (if Suc i < length (c_cvec c) then map_option acc_buf (c_heap c (c_cvec c ! Suc i)) else Some buf)"
proof -
  have ne: "c_cvec c \<noteq> []" using i by auto
  obtain a where a: "c_heap c (hd (c_cvec c)) = Some a"
    using cache_wf_entryE [OF wf, of 0] ne by (metis hd_conv_nth length_greater_0_conv)
  show ?thesis
    using update_cache_evict [OF wf new ne full a, of buf] cached_evict [OF wf i a e new, of buf] by blast
qed

lemma eviction_shifts_lookups_witness:
  "\<exists>c'. update_cache 4 [67, 0] (two_cached 2) = Inr c'
    \<and> cached c' (acc_pos \<lparr>acc_pos = 2, acc_buf = [66, 0]\<rparr>) =
      (if Suc 1 < length (c_cvec (two_cached 2))
       then map_option acc_buf (c_heap (two_cached 2) (c_cvec (two_cached 2) ! Suc 1)) else Some [67, 0])"
  by (rule eviction_shifts_lookups [where i = 1]) (simp_all add: two_cached_wf two_cached_sel)

text \<open>
  \<^verbatim>\<open>exists\<close> asks the map, which is keyed by file position, for the piece number itself: with every
  cached position a multiple of the piece size, it answers yes only for multiples of the piece size.
\<close>

theorem exists_asks_for_a_position:
  assumes "cache_ok c" and "\<forall>pos. cached c pos \<noteq> None \<longrightarrow> c_pcsz c dvd pos"
  shows "Cache_exists pcno c = Inr (cached c (int_of_u32 pcno) \<noteq> None, c)
    \<and> (\<not> c_pcsz c dvd int_of_u32 pcno \<longrightarrow> Cache_exists pcno c = Inr (False, c))"
proof -
  have ok: "cache_wf c" "c_rwlock c = LFree" using assms(1) by (auto simp: cache_ok_def)
  have "Cache_exists pcno c = Inr (cached c (int_of_u32 pcno) \<noteq> None, c)"
    using ok by (cases c) (simp add: Cache_exists_def cache_lock_defs Let_def cached_None_iff)
  with assms(2) show ?thesis by auto
qed

lemma exists_asks_for_a_position_witness:
  "Cache_exists 3 (opened_cache 2 4 []) = Inr (False, opened_cache 2 4 [])"
proof -
  have "cache_ok (opened_cache 2 4 [])" by (simp add: cache_ok_def opened_cache_wf)
  moreover have "int_of_u32 3 = 3" by (simp add: int_of_u32_def)
  ultimately show ?thesis
    using exists_asks_for_a_position [of "opened_cache 2 4 []" 3] by simp
qed

end
