(* ===== verification/ObjStore.thy ===== *)
theory ObjStore
  imports Bfield Cache
begin

text \<open>
  The object store of \<^verbatim>\<open>objstore/objstore.cpp\<close>: the shared file as a bit field of the pieces held and a
  cache over the open file. The field is a pointer that stays null until \<^verbatim>\<open>bfield_init\<close>.
\<close>

type_synonym filesys = "string \<rightharpoonup> u8 list"

record ObjStore =
  os_fsz :: int
  os_fname :: string
  os_cache :: Cache
  os_bfield :: "Bfield option"
  os_pcsz :: int
  os_npcs :: int

definition ObjStore_ctor :: "int \<Rightarrow> int \<Rightarrow> int \<Rightarrow> int \<Rightarrow> string \<Rightarrow> ObjStore res" where
  "ObjStore_ctor stat fsz pcsz npcs fname =
     rbind (Cache_ctor stat pcsz npcs) (\<lambda>cache.
     Inr \<lparr>os_fsz = fsz, os_fname = fname, os_cache = cache, os_bfield = None, os_pcsz = pcsz, os_npcs = npcs\<rparr>)"

definition ObjStore_destroy :: "ObjStore \<Rightarrow> unit res" where
  "ObjStore_destroy os =
     rbind (case os_bfield os of None \<Rightarrow> Inr () | Some b \<Rightarrow> Bfield_destroy b) (\<lambda>_.
     rbind (Cache_destroy (os_cache os)) (\<lambda>_. Inr ()))"

text \<open>The NUL-terminated text of a \<^verbatim>\<open>std::string\<close>.\<close>

definition c_string :: "string \<Rightarrow> string" where
  "c_string s = takeWhile (\<lambda>c. c \<noteq> CHR 0x00) s"

definition head_cmd :: "int \<Rightarrow> string \<Rightarrow> string" where
  "head_cmd fsz fname = ''/usr/bin/head -c '' @ show_int fsz @ '' /dev/zero > '' @ c_string fname"

text \<open>
  \<open>shell\<close> is what running a command line does to the file system; \<open>stat\<close> is the status of the lock's
  initialisation.
\<close>

definition bfield_init :: "(string \<Rightarrow> filesys \<Rightarrow> filesys) \<Rightarrow> int \<Rightarrow> bool \<Rightarrow> filesys \<Rightarrow> ObjStore
    \<Rightarrow> (ObjStore \<times> filesys) res" where
  "bfield_init shell stat hasfile fs os =
     rbind (Bfield_hasfile stat hasfile True (os_npcs os)) (\<lambda>b.
     let os = os\<lparr>os_bfield := Some b\<rparr>
     in rbind (if \<not> hasfile
               then (let cmd = head_cmd (os_fsz os) (os_fname os)
                     in if 512 < length cmd + 1 then Inl (UB OutOfBounds) else Inr (shell cmd fs))
               else Inr fs) (\<lambda>fs.
        let (r, cache) = Cache_file_open fs (c_string (os_fname os)) (os_cache os)
        in if r = 0 then Inl (Exit 1) else Inr (os\<lparr>os_cache := cache\<rparr>, fs)))"

definition add_piece :: "(nat \<Rightarrow> u8) \<Rightarrow> int \<Rightarrow> u8 list \<Rightarrow> ObjStore \<Rightarrow> (int \<times> ObjStore) res" where
  "add_piece junk pcno piece os =
     (case os_bfield os of
        None \<Rightarrow> Inl (UB NullDeref)
      | Some b \<Rightarrow>
          rbind (Bfield_exists b pcno) (\<lambda>(there, b).
          if there then Inr (0, os\<lparr>os_bfield := Some b\<rparr>)
          else rbind (Cache_put junk pcno piece (os_cache os)) (\<lambda>cache.
               rbind (Bfield_flip b pcno) (\<lambda>b.
               Inr (1, os\<lparr>os_bfield := Some b, os_cache := cache\<rparr>)))))"

text \<open>\<^verbatim>\<open>get_piece\<close> returns its status and the bytes written to the caller's buffer, if any.\<close>

definition get_piece :: "(nat \<Rightarrow> u8) \<Rightarrow> int \<Rightarrow> ObjStore \<Rightarrow> (int \<times> u8 list option \<times> ObjStore) res" where
  "get_piece junk pcno os =
     (case os_bfield os of
        None \<Rightarrow> Inl (UB NullDeref)
      | Some b \<Rightarrow>
          rbind (Bfield_exists b pcno) (\<lambda>(there, b).
          if \<not> there then Inr (0, None, os\<lparr>os_bfield := Some b\<rparr>)
          else rbind (Cache_get junk pcno (os_cache os)) (\<lambda>(buf, cache).
               Inr (1, Some buf, os\<lparr>os_bfield := Some b, os_cache := cache\<rparr>))))"

definition ObjStore_exists :: "u32 \<Rightarrow> ObjStore \<Rightarrow> (bool \<times> ObjStore) res" where
  "ObjStore_exists pcno os =
     rbind (Cache_exists pcno (os_cache os)) (\<lambda>(r, cache). Inr (r, os\<lparr>os_cache := cache\<rparr>))"

section \<open>Invariant and lemmas\<close>

text \<open>
  A ready store: the field is there and covers the pieces, its lock is free, and the cache is
  consistent over an open file. \<open>os_pieces\<close> is the set of pieces the field says it holds.
\<close>

definition os_ready :: "ObjStore \<Rightarrow> bool" where
  "os_ready os \<longleftrightarrow> (\<exists>b. os_bfield os = Some b \<and> bfield_ok b) \<and> cache_ready (os_cache os)
     \<and> c_pcsz (os_cache os) = os_pcsz os"

definition os_field :: "ObjStore \<Rightarrow> u8 list" where
  "os_field os = (case os_bfield os of None \<Rightarrow> [] | Some b \<Rightarrow> bf_bfield b)"

lemma os_field_Some [simp]: "os_bfield os = Some b \<Longrightarrow> os_field os = bf_bfield b"
  by (simp add: os_field_def)

lemma os_ready_fieldE:
  assumes "os_ready os"
  obtains b where "os_bfield os = Some b" "bfield_ok b" "os_field os = bf_bfield b"
  using assms by (auto simp: os_ready_def)

lemma os_same [simp]: "os_bfield os = Some b \<Longrightarrow> os\<lparr>os_bfield := Some b\<rparr> = os"
  by (cases os) simp

lemma length_write_at: "length (write_at off bs d) = max (length d) (off + length bs)"
  by (auto simp: write_at_def)

lemma take_drop_write_at: "take (length bs) (drop off (write_at off bs d)) = bs"
  by (simp add: write_at_def)

lemma add_piece_present:
  assumes "os_ready os" and "has_piece (os_field os) p"
  shows "add_piece junk (int p) piece os = Inr (0, os)"
proof -
  from assms(1) obtain b where b: "os_bfield os = Some b" "bfield_ok b" "os_field os = bf_bfield b"
    by (rule os_ready_fieldE)
  then show ?thesis
    using assms(2) Bfield_exists_eq [OF b(2), of p] has_piece_bound [of "bf_bfield b" p]
    by (simp add: add_piece_def)
qed

lemma get_piece_absent:
  assumes "os_ready os" and "p < 8 * length (os_field os)" and "\<not> has_piece (os_field os) p"
  shows "get_piece junk (int p) os = Inr (0, None, os)"
proof -
  from assms(1) obtain b where b: "os_bfield os = Some b" "bfield_ok b" "os_field os = bf_bfield b"
    by (rule os_ready_fieldE)
  then show ?thesis using assms(2,3) Bfield_exists_eq [OF b(2), of p] by (simp add: get_piece_def)
qed

lemma add_piece_new:
  assumes ready: "os_ready os" and p: "p < 8 * length (os_field os)" "\<not> has_piece (os_field os) p"
    and put: "Cache_put junk (int p) piece (os_cache os) = Inr c'"
  shows "\<exists>b. os_bfield os = Some b \<and> bfield_ok b \<and> add_piece junk (int p) piece os =
    Inr (1, os\<lparr>os_bfield := Some (b\<lparr>bf_bfield := set_piece (bf_bfield b) p\<rparr>), os_cache := c'\<rparr>)"
proof -
  from ready obtain b where b: "os_bfield os = Some b" "bfield_ok b" "os_field os = bf_bfield b"
    by (rule os_ready_fieldE)
  then show ?thesis
    using p put Bfield_exists_eq [OF b(2), of p] Bfield_flip_eq [OF b(2), of p]
    by (simp add: add_piece_def)
qed

text \<open>What the operations may do to the field of a store.\<close>

definition ost_ext :: "ObjStore \<Rightarrow> ObjStore \<Rightarrow> bool" where
  "ost_ext os os' \<longleftrightarrow> rel_option field_ext (os_bfield os) (os_bfield os')"

lemma ost_ext_refl [simp]: "ost_ext os os"
  by (cases "os_bfield os") (simp_all add: ost_ext_def)

lemma ost_ext_trans [trans]: "ost_ext os os' \<Longrightarrow> ost_ext os' os'' \<Longrightarrow> ost_ext os os''"
  by (auto simp: ost_ext_def option_rel_Some1 option_rel_Some2 elim!: option.rel_cases intro: field_ext_trans)

lemma rel_field_refl [simp]: "rel_option field_ext x x"
  by (cases x) simp_all

lemma ost_ext_cache [simp]: "ost_ext os (os\<lparr>os_cache := c\<rparr>)"
  by (simp add: ost_ext_def)

lemma ost_ext_ops:
  "add_piece junk pcno piece os = Inr (r, os') \<Longrightarrow> ost_ext os os'"
  "get_piece junk pcno os = Inr (r, buf, os') \<Longrightarrow> ost_ext os os'"
  "ObjStore_exists n os = Inr (x, os') \<Longrightarrow> ost_ext os os'"
  by (auto simp: add_piece_def get_piece_def ObjStore_exists_def ost_ext_def rbind_Inr_iff
      split: option.splits if_splits dest!: Bfield_exists_ext Bfield_flip_ext intro: field_ext_trans)

text \<open>
  \<open>store_inv\<close>: a ready store in which only pieces the field holds are cached. It makes the object store
  a write-once store of pieces, over the cache's.
\<close>

definition store_inv :: "ObjStore \<Rightarrow> bool" where
  "store_inv os \<longleftrightarrow> os_ready os \<and>
     (\<forall>k. cached (os_cache os) (os_pcsz os * int k) \<noteq> None \<longrightarrow> has_piece (os_field os) k)"

definition held_piece :: "ObjStore \<Rightarrow> nat \<Rightarrow> u8 list option" where
  "held_piece os k = (if has_piece (os_field os) k then cached (os_cache os) (os_pcsz os * int k) else None)"

definition missing_legal :: "ObjStore \<Rightarrow> nat \<Rightarrow> u8 list \<Rightarrow> bool" where
  "missing_legal os k piece \<longleftrightarrow>
     k < 8 * length (os_field os) \<and> legal_put (os_cache os) (int k) piece"

lemma put_file:
  assumes ready: "cache_ready c" and room: "0 < cache_room c" and legal: "legal_put c pcno piece"
    and new: "cached c (c_pcsz c * pcno) = None" and put: "Cache_put junk pcno piece c = Inr c'"
    and fd: "c_fd c = Some f"
  shows "\<exists>f'. c_fd c' = Some f'
    \<and> f_data f' = write_at (nat (c_pcsz c * pcno)) (take (nat (c_pcsz c)) piece) (f_data f)
    \<and> c_pcsz c' = c_pcsz c"
proof -
  have ok: "cache_ok c" "cache_wf c" "0 < c_pcsz c" using ready by (auto simp: cache_ready_def cache_ok_def)
  have "c_cmap c (c_pcsz c * pcno) = None" using new ok(2) by (simp add: cached_None_iff)
  from Cache_put_eq [OF ok(1,3) fd legal this room, of junk] put show ?thesis
    by (auto simp: f_write_def)
qed

lemma add_piece_law:
  assumes inv: "store_inv os" and room: "0 < cache_room (os_cache os)"
    and legal: "missing_legal os k piece" and new: "\<not> has_piece (os_field os) k"
    and fd: "c_fd (os_cache os) = Some f"
  shows "\<exists>os' f'. add_piece junk (int k) piece os = Inr (1, os') \<and> store_inv os'
    \<and> cache_room (os_cache os') = cache_room (os_cache os) - 1
    \<and> os_field os' = set_piece (os_field os) k
    \<and> held_piece os' = (held_piece os)(k \<mapsto> stored_form junk (os_cache os) piece)
    \<and> os_pcsz os' = os_pcsz os
    \<and> c_fd (os_cache os') = Some f'
    \<and> f_data f' = write_at (nat (os_pcsz os * int k)) (take (nat (os_pcsz os)) piece) (f_data f)
    \<and> legal_put (os_cache os') = legal_put (os_cache os)
    \<and> stored_form junk (os_cache os') = stored_form junk (os_cache os)"
proof -
  let ?c = "os_cache os"
  have ready: "os_ready os" "cache_ready ?c" "c_pcsz ?c = os_pcsz os"
    using inv by (auto simp: store_inv_def os_ready_def)
  have lp: "legal_put ?c (int k) piece" and k: "k < 8 * length (os_field os)"
    using legal by (auto simp: missing_legal_def)
  have none: "cached ?c (c_pcsz ?c * int k) = None"
    using inv new ready(3) by (auto simp: store_inv_def)
  obtain c' where c': "Cache_put junk (int k) piece ?c = Inr c'" "cache_ready c'"
      "cache_room c' = cache_room ?c - 1"
      "(\<lambda>q. cached c' (c_pcsz c' * q)) = (\<lambda>q. cached ?c (c_pcsz ?c * q))(int k \<mapsto> stored_form junk ?c piece)"
      "legal_put c' = legal_put ?c" "stored_form junk c' = stored_form junk ?c"
    using put_law [OF ready(2) room lp none] by blast
  obtain f' where f': "c_fd c' = Some f'" "c_pcsz c' = c_pcsz ?c"
      "f_data f' = write_at (nat (c_pcsz ?c * int k)) (take (nat (c_pcsz ?c)) piece) (f_data f)"
    using put_file [OF ready(2) room lp none c'(1) fd] by blast
  obtain b where b: "os_bfield os = Some b" "bfield_ok b"
      "add_piece junk (int k) piece os =
        Inr (1, os\<lparr>os_bfield := Some (b\<lparr>bf_bfield := set_piece (bf_bfield b) k\<rparr>), os_cache := c'\<rparr>)"
    using add_piece_new [OF ready(1) k new c'(1)] by blast
  let ?os = "os\<lparr>os_bfield := Some (b\<lparr>bf_bfield := set_piece (bf_bfield b) k\<rparr>), os_cache := c'\<rparr>"
  have field: "os_field ?os = set_piece (os_field os) k" using b(1) by (simp add: os_field_def)
  have view: "cached c' (os_pcsz os * int q) =
      (if q = k then Some (stored_form junk ?c piece) else cached ?c (os_pcsz os * int q))" for q
    using fun_cong [OF c'(4), of "int q"] ready(3) f'(2) by simp
  have "store_inv ?os"
    using inv b(2) c'(2) ready(3) f'(2) k
    by (auto simp: store_inv_def os_ready_def field view has_piece_set_piece split: if_splits)
  moreover have "held_piece ?os = (held_piece os)(k \<mapsto> stored_form junk ?c piece)"
    using k by (auto simp: held_piece_def field view has_piece_set_piece fun_eq_iff)
  ultimately show ?thesis
    using b(3) c' f' field ready(3) by (intro exI [of _ ?os] exI [of _ f']) simp
qed

definition store_piece :: "(nat \<Rightarrow> u8) \<Rightarrow> nat \<Rightarrow> u8 list \<Rightarrow> ObjStore \<Rightarrow> ObjStore res" where
  "store_piece junk k piece os = rbind (add_piece junk (int k) piece os) (\<lambda>(_, os). Inr os)"

lemma store_inv_held:
  assumes "store_inv os" and "held_piece os k = None" and "cached (os_cache os) (os_pcsz os * int k) \<noteq> None"
  shows False
  using assms by (auto simp: store_inv_def held_piece_def)

interpretation os: write_once
    "\<lambda>os. store_inv os \<and> (\<forall>k. has_piece (os_field os) k \<longrightarrow> held_piece os k \<noteq> None)"
    "\<lambda>os. cache_room (os_cache os)" missing_legal "\<lambda>os. stored_form junk (os_cache os)" held_piece
    "store_piece junk" for junk
proof (unfold_locales, elim conjE)
  fix os k piece
  assume inv: "store_inv os" "\<forall>k. has_piece (os_field os) k \<longrightarrow> held_piece os k \<noteq> None"
    and room: "0 < cache_room (os_cache os)" and legal: "missing_legal os k piece" and new: "held_piece os k = None"
  obtain f where fd: "c_fd (os_cache os) = Some f"
    using inv(1) by (auto simp: store_inv_def os_ready_def cache_ready_def)
  have "\<not> has_piece (os_field os) k" using inv(2) new by blast
  from add_piece_law [OF inv(1) room legal this fd, of junk] obtain os' where os':
    "add_piece junk (int k) piece os = Inr (1, os')" "store_inv os'"
    "cache_room (os_cache os') = cache_room (os_cache os) - 1" "os_field os' = set_piece (os_field os) k"
    "held_piece os' = (held_piece os)(k \<mapsto> stored_form junk (os_cache os) piece)"
    "legal_put (os_cache os') = legal_put (os_cache os)"
    "stored_form junk (os_cache os') = stored_form junk (os_cache os)" by blast
  have "\<forall>q. has_piece (os_field os') q \<longrightarrow> held_piece os' q \<noteq> None"
    using inv(2) legal os'(4,5) by (auto simp: has_piece_set_piece missing_legal_def)
  moreover have "missing_legal os' = missing_legal os"
    using os'(4,6) by (simp add: missing_legal_def fun_eq_iff)
  ultimately show "\<exists>s'. store_piece junk k piece os = Inr s'
      \<and> (store_inv s' \<and> (\<forall>k. has_piece (os_field s') k \<longrightarrow> held_piece s' k \<noteq> None))
      \<and> cache_room (os_cache s') = cache_room (os_cache os) - 1
      \<and> held_piece s' = (held_piece os)(k \<mapsto> stored_form junk (os_cache os) piece)
      \<and> missing_legal s' = missing_legal os \<and> stored_form junk (os_cache s') = stored_form junk (os_cache os)"
    using os' by (intro exI [of _ os']) (auto simp: store_piece_def)
qed

lemma has_piece_zero [simp]: "\<not> has_piece [0] k"
  by (cases "k div 8") (simp_all add: has_piece_def)

section \<open>A store right after initialisation\<close>

definition opened_store :: "int \<Rightarrow> int \<Rightarrow> u8 list \<Rightarrow> u8 list \<Rightarrow> ObjStore" where
  "opened_store pcsz npcs v d =
     \<lparr>os_fsz = int (length d), os_fname = ''f'', os_cache = opened_cache pcsz npcs d,
      os_bfield = Some \<lparr>bf_rwlock = LFree, bf_needlock = True, bf_bfield = v\<rparr>, os_pcsz = pcsz, os_npcs = npcs\<rparr>"

lemma opened_store_sel [simp]:
  "os_cache (opened_store pcsz npcs v d) = opened_cache pcsz npcs d"
  "os_field (opened_store pcsz npcs v d) = v" "os_pcsz (opened_store pcsz npcs v d) = pcsz"
  by (simp_all add: opened_store_def os_field_def)

lemma opened_store_inv: "0 < pcsz \<Longrightarrow> store_inv (opened_store pcsz npcs v d)"
  by (auto simp: store_inv_def os_ready_def opened_cache_ready)
    (simp_all add: opened_store_def bfield_ok_def)

section \<open>Properties\<close>





text \<open>
  The guard of a piece request. A number within the field whose bit is clear is refused with 0 and
  no change; a number past the field, and a number that is negative as an \<^verbatim>\<open>int\<close> (a peer's
  \<^verbatim>\<open>uint32_t\<close> of at least \<open>2 ^ 31\<close>), is not refused but reads outside the field.
\<close>

lemma get_piece_guard:
  assumes "os_ready os"
  shows "(p < 8 * length (os_field os) \<longrightarrow> \<not> has_piece (os_field os) p \<longrightarrow>
            get_piece junk (int p) os = Inr (0, None, os))
    \<and> (8 * length (os_field os) \<le> p \<longrightarrow> get_piece junk (int p) os = Inl (UB OutOfBounds))
    \<and> (z < 0 \<longrightarrow> (\<exists>k. get_piece junk z os = Inl (UB k)))"
proof -
  from assms obtain b where b: "os_bfield os = Some b" "bfield_ok b" "os_field os = bf_bfield b"
    by (rule os_ready_fieldE)
  show ?thesis
    using get_piece_absent [OF assms, of p junk] Bfield_exists_out_of_range [OF b(2), of p]
      Bfield_exists_negative [OF b(2), of z] b
    by (auto simp: get_piece_def)
qed

lemma get_piece_guard_witness:
  "get_piece (\<lambda>_. 0) (int 1) (opened_store 2 4 [0] []) = Inr (0, None, opened_store 2 4 [0] [])
    \<and> (\<exists>k. get_piece (\<lambda>_. 0) (- 1) (opened_store 2 4 [0] []) = Inl (UB k))"
  using get_piece_guard [of "opened_store 2 4 [0] []" 1 "\<lambda>_. 0" "- 1"] opened_store_inv [of 2 4 "[0]" "[]"]
  by (simp add: store_inv_def)

text \<open>
  Every piece is written with the full piece size, so storing the last piece of a file whose size
  is no multiple of it leaves a file that is longer than the one being shared.
\<close>

lemma last_piece_grows_file:
  assumes "store_inv os" and "0 < cache_room (os_cache os)" and "missing_legal os k piece"
    and "\<not> has_piece (os_field os) k" and "c_fd (os_cache os) = Some f"
    and "int (length (f_data f)) < os_pcsz os * int (Suc k)"
  shows "\<exists>os' f'. add_piece junk (int k) piece os = Inr (1, os') \<and> c_fd (os_cache os') = Some f'
    \<and> int (length (f_data f')) = os_pcsz os * int (Suc k)"
proof -
  obtain os' f' where os': "add_piece junk (int k) piece os = Inr (1, os')" "c_fd (os_cache os') = Some f'"
      "f_data f' = write_at (nat (os_pcsz os * int k)) (take (nat (os_pcsz os)) piece) (f_data f)"
    using add_piece_law [OF assms(1-5), of junk] by blast
  have pcsz: "0 < os_pcsz os" "os_pcsz os \<le> int (length piece)"
    using assms(1,3) by (auto simp: store_inv_def os_ready_def cache_ready_def missing_legal_def legal_put_def)
  then have "length (take (nat (os_pcsz os)) piece) = nat (os_pcsz os)" by simp
  then have "int (length (f_data f')) = max (int (length (f_data f))) (os_pcsz os * int k + os_pcsz os)"
    using pcsz(1) by (simp add: os'(3) length_write_at of_nat_max nat_add_distrib)
  also have "\<dots> = os_pcsz os * int (Suc k)" using assms(6) by (simp add: algebra_simps)
  finally show ?thesis using os'(1,2) by blast
qed

lemma last_piece_grows_file_witness:
  "\<exists>os' f'. add_piece (\<lambda>_. 0) (int 2) [65, 0] (opened_store 2 3 [0] [0, 0, 0, 0, 0]) = Inr (1, os')
    \<and> c_fd (os_cache os') = Some f'
    \<and> int (length (f_data f')) = os_pcsz (opened_store 2 3 [0] [0, 0, 0, 0, 0]) * int (Suc 2)"
  by (rule last_piece_grows_file [where f = "\<lparr>f_data = [0, 0, 0, 0, 0], f_off = 0\<rparr>"])
    (simp_all add: opened_store_inv opened_cache_room missing_legal_def legal_put_def int_ok_def c_div_def
      CACHESZ_def has_piece_def)

lemma Cache_ctor_opened:
  "npcs \<noteq> 0 \<Longrightarrow> Cache_ctor 0 pcsz npcs = Inr ((opened_cache pcsz npcs [])\<lparr>c_fd := None\<rparr>)"
  by (simp add: Cache_ctor_def opened_cache_def)

text \<open>
  C11: initialising a store without the file makes it a ready, empty store over what the shell left in
  the file, provided the shell created the file under the name that is then opened; when the name does
  not exist afterwards the process exits with 1.
\<close>

theorem bfield_init_leecher:
  assumes "0 < os_pcsz os" and "0 < os_npcs os" and "Cache_ctor 0 (os_pcsz os) (os_npcs os) = Inr (os_cache os)"
    and "length (head_cmd (os_fsz os) (os_fname os)) < 512"
  shows "(\<forall>d. shell (head_cmd (os_fsz os) (os_fname os)) fs (c_string (os_fname os)) = Some d \<longrightarrow>
      (\<exists>os'. bfield_init shell 0 False fs os = Inr (os', shell (head_cmd (os_fsz os) (os_fname os)) fs)
        \<and> store_inv os' \<and> pieces (os_field os') = {}
        \<and> length (os_field os') = (nat (os_npcs os) + 7) div 8
        \<and> os_cache os' = opened_cache (os_pcsz os) (os_npcs os) d))
    \<and> (shell (head_cmd (os_fsz os) (os_fname os)) fs (c_string (os_fname os)) = None \<longrightarrow>
      bfield_init shell 0 False fs os = Inl (Exit 1))"
proof -
  obtain b where b: "Bfield_hasfile 0 False True (os_npcs os) = Inr b" "bfield_ok b"
      "length (bf_bfield b) = (nat (os_npcs os) + 7) div 8" "pieces (bf_bfield b) = {}"
    using fresh_field_pieces [of "os_npcs os" False True] assms(2) by auto
  have cache: "(os_cache os)\<lparr>c_fd := Some \<lparr>f_data = d, f_off = 0\<rparr>\<rparr> = opened_cache (os_pcsz os) (os_npcs os) d" for d
  proof -
    have "os_cache os = (opened_cache (os_pcsz os) (os_npcs os) [])\<lparr>c_fd := None\<rparr>"
      using assms(2,3) Cache_ctor_opened [of "os_npcs os" "os_pcsz os"] by simp
    then show ?thesis by (simp add: opened_cache_def)
  qed
  let ?fs = "shell (head_cmd (os_fsz os) (os_fname os)) fs"
  show ?thesis
  proof (intro conjI impI allI)
    fix d assume d: "?fs (c_string (os_fname os)) = Some d"
    let ?os = "os\<lparr>os_bfield := Some b, os_cache := opened_cache (os_pcsz os) (os_npcs os) d\<rparr>"
    have "bfield_init shell 0 False fs os = Inr (?os, ?fs)"
      using b(1) d assms(4) cache [of d] by (simp add: bfield_init_def Cache_file_open_def Let_def)
    moreover have "store_inv ?os"
      using b(2) assms(1) by (auto simp: store_inv_def os_ready_def opened_cache_ready)
    ultimately show "\<exists>os'. bfield_init shell 0 False fs os = Inr (os', ?fs) \<and> store_inv os'
        \<and> pieces (os_field os') = {} \<and> length (os_field os') = (nat (os_npcs os) + 7) div 8
        \<and> os_cache os' = opened_cache (os_pcsz os) (os_npcs os) d"
      using b(3,4) by (intro exI [of _ ?os]) (simp add: os_field_def)
  next
    assume "?fs (c_string (os_fname os)) = None"
    then show "bfield_init shell 0 False fs os = Inl (Exit 1)"
      using b(1) assms(4) by (simp add: bfield_init_def Cache_file_open_def Let_def)
  qed
qed

definition new_store :: "int \<Rightarrow> int \<Rightarrow> int \<Rightarrow> string \<Rightarrow> ObjStore" where
  "new_store fsz pcsz npcs fname =
     \<lparr>os_fsz = fsz, os_fname = fname, os_cache = (opened_cache pcsz npcs [])\<lparr>c_fd := None\<rparr>,
      os_bfield = None, os_pcsz = pcsz, os_npcs = npcs\<rparr>"

lemma new_store_ctor: "npcs \<noteq> 0 \<Longrightarrow> ObjStore_ctor 0 fsz pcsz npcs fname = Inr (new_store fsz pcsz npcs fname)"
  by (simp add: ObjStore_ctor_def Cache_ctor_def new_store_def opened_cache_def)

lemma new_store_sel [simp]:
  "os_pcsz (new_store fsz pcsz npcs fname) = pcsz" "os_npcs (new_store fsz pcsz npcs fname) = npcs"
  "os_fsz (new_store fsz pcsz npcs fname) = fsz" "os_fname (new_store fsz pcsz npcs fname) = fname"
  "os_bfield (new_store fsz pcsz npcs fname) = None"
  by (simp_all add: new_store_def)

lemma new_store_cache: "npcs \<noteq> 0 \<Longrightarrow> Cache_ctor 0 pcsz npcs = Inr (os_cache (new_store fsz pcsz npcs fname))"
  by (simp add: Cache_ctor_def new_store_def opened_cache_def)

definition zero_shell :: "string \<Rightarrow> filesys \<Rightarrow> filesys" where
  "zero_shell cmd fs = fs(''f'' \<mapsto> replicate 9 0)"

lemma bfield_init_leecher_witness:
  "\<exists>os'. bfield_init zero_shell 0 False Map.empty (new_store 9 4 3 ''f'') =
      Inr (os', zero_shell (head_cmd 9 ''f'') Map.empty)
    \<and> store_inv os' \<and> pieces (os_field os') = {} \<and> length (os_field os') = (nat 3 + 7) div 8
    \<and> os_cache os' = opened_cache 4 3 (replicate 9 0)"
proof -
  have f: "c_string ''f'' = ''f''" by (simp add: c_string_def)
  have "length (head_cmd 9 ''f'') < 512"
    by (simp add: head_cmd_def f show_int_def show_nat.simps)
  moreover have "zero_shell (head_cmd 9 ''f'') Map.empty (c_string ''f'') = Some (replicate 9 0)"
    unfolding f by (simp add: zero_shell_def)
  moreover have "Cache_ctor 0 4 3 = Inr (os_cache (new_store 9 4 3 ''f''))"
    by (rule new_store_cache) simp
  ultimately show ?thesis
    using bfield_init_leecher [of "new_store 9 4 3 ''f''" zero_shell Map.empty]
    by (simp)
qed

end
