(* ===== verification/NbrMap.thy ===== *)
theory NbrMap
  imports Bfield
begin

text \<open>
  The neighbour map of \<^verbatim>\<open>nbrmap/nbrmap.cpp\<close>: the registered peers with their choke state, the field of
  pieces already asked for (earmarked), and the two threads that are to unchoke neighbours. \<^verbatim>\<open>Nbr\<close>
  records live in a heap; a pointer is an address or null.
\<close>

section \<open>State\<close>

record Nbr =
  nb_choked :: bool
  nb_done :: bool
  nb_interested :: bool
  nb_requests :: u32

type_synonym nbr_ptr = "nat option"

datatype handler = Opt_unchoke_handler int | Unchoke_handler int int

record NbrMap =
  nm_mut :: mutex
  nm_npeers :: u32
  nm_peers :: "int list"
  nm_peerinfo :: "int \<rightharpoonup> nbr_ptr"
  nm_handlers :: "(handler \<times> bool) list"
  nm_bfield :: Bfield
  nm_heap :: "nat \<rightharpoonup> Nbr"
  nm_next :: nat

text \<open>
  \<open>rstat\<close> and \<open>mstat\<close> are the statuses of the two lock initialisations. Each handler thread comes with
  a flag that says whether it has returned.
\<close>

definition NbrMap_ctor :: "int \<Rightarrow> int \<Rightarrow> int \<Rightarrow> int \<Rightarrow> int \<Rightarrow> u32 \<Rightarrow> int \<Rightarrow> NbrMap res" where
  "NbrMap_ctor rstat mstat opuchoke_ival uchoke_ival n_pref_peers npeers npcs =
     rbind (Bfield_npcs rstat True npcs) (\<lambda>b.
     rbind (init_call mstat) (\<lambda>_.
     Inr \<lparr>nm_mut = MFree, nm_npeers = npeers, nm_peers = [], nm_peerinfo = Map.empty,
          nm_handlers = [(Opt_unchoke_handler opuchoke_ival, False),
                         (Unchoke_handler uchoke_ival n_pref_peers, False)],
          nm_bfield = b, nm_heap = Map.empty, nm_next = 0\<rparr>))"

definition NbrMap_destroy :: "NbrMap \<Rightarrow> unit res" where
  "NbrMap_destroy nm =
     (if \<exists>h \<in> set (nm_handlers nm). \<not> snd h then Inl Blocked
      else rbind (lock_call (pthread_mutex_destroy (nm_mut nm))) (\<lambda>_. Bfield_destroy (nm_bfield nm)))"

definition NbrMap_Lock :: "NbrMap \<Rightarrow> NbrMap res" where
  "NbrMap_Lock nm = rbind (lock_call (pthread_mutex_lock (nm_mut nm))) (\<lambda>l. Inr (nm\<lparr>nm_mut := l\<rparr>))"

definition NbrMap_Unlock :: "NbrMap \<Rightarrow> NbrMap res" where
  "NbrMap_Unlock nm = rbind (lock_call (pthread_mutex_unlock (nm_mut nm))) (\<lambda>l. Inr (nm\<lparr>nm_mut := l\<rparr>))"

text \<open>Reading and writing through a pointer.\<close>

definition nbr_get :: "NbrMap \<Rightarrow> nbr_ptr \<Rightarrow> Nbr res" where
  "nbr_get nm p = (case p of None \<Rightarrow> Inl (UB NullDeref)
     | Some a \<Rightarrow> (case nm_heap nm a of None \<Rightarrow> Inl (UB UseAfterFree) | Some n \<Rightarrow> Inr n))"

definition nbr_upd :: "(Nbr \<Rightarrow> Nbr) \<Rightarrow> nbr_ptr \<Rightarrow> NbrMap \<Rightarrow> NbrMap res" where
  "nbr_upd f p nm = rbind (nbr_get nm p) (\<lambda>n.
     case p of None \<Rightarrow> Inl (UB NullDeref) | Some a \<Rightarrow> Inr (nm\<lparr>nm_heap := (nm_heap nm)(a \<mapsto> f n)\<rparr>))"

text \<open>\<^verbatim>\<open>peerinfo[k]\<close>: a missing key is inserted with a null pointer.\<close>

definition peerinfo_at :: "int \<Rightarrow> NbrMap \<Rightarrow> nbr_ptr \<times> NbrMap" where
  "peerinfo_at k nm = (case nm_peerinfo nm k of Some p \<Rightarrow> (p, nm)
     | None \<Rightarrow> (None, nm\<lparr>nm_peerinfo := (nm_peerinfo nm)(k \<mapsto> None)\<rparr>))"

section \<open>Operations\<close>

definition register_cli :: "int \<Rightarrow> NbrMap \<Rightarrow> (nbr_ptr \<times> NbrMap) res" where
  "register_cli peerid nm =
     (let a = nm_next nm;
          nm = nm\<lparr>nm_next := Suc a, nm_heap := (nm_heap nm)(a \<mapsto>
                 \<lparr>nb_choked = False, nb_done = False, nb_interested = False, nb_requests = 0\<rparr>)\<rparr>
      in rbind (NbrMap_Lock nm) (\<lambda>nm.
         let nm = nm\<lparr>nm_peers := nm_peers nm @ [peerid],
                     nm_peerinfo := (case nm_peerinfo nm peerid of
                        None \<Rightarrow> (nm_peerinfo nm)(peerid \<mapsto> Some a) | Some _ \<Rightarrow> nm_peerinfo nm)\<rparr>
         in rbind (NbrMap_Unlock nm) (\<lambda>nm.
            Inr (Some a, nm\<lparr>nm_npeers := nm_npeers nm - 1\<rparr>))))"

text \<open>
  The loop of \<^verbatim>\<open>opt_unchoke\<close>, which may not end: \<open>rnd k\<close> is the \<open>k\<close>-th value of \<^verbatim>\<open>rand()\<close> and \<open>view k\<close>
  the shared map at that turn. A result \<open>Inr (a, k)\<close> is the neighbour unchoked and the turn.
\<close>

partial_function (option) opt_unchoke_loop ::
    "(nat \<Rightarrow> nat) \<Rightarrow> (nat \<Rightarrow> NbrMap) \<Rightarrow> nat \<Rightarrow> (nbr_ptr \<times> nat) res option" where
  "opt_unchoke_loop rnd view k =
     (let size = length (nm_peers (view k))
      in if size = 0 then Some (Inl (UB DivByZero))
         else let nbr = fst (peerinfo_at (int (rnd k mod size)) (view k))
              in case nbr_get (view k) nbr of
                   Inl e \<Rightarrow> Some (Inl e)
                 | Inr n \<Rightarrow> if nb_choked n \<and> nb_interested n \<and> \<not> nb_done n
                            then Some (Inr (nbr, k))
                            else opt_unchoke_loop rnd view (Suc k))"

text \<open>The whole operation: the boolean it returns and the neighbour it unchokes, if any.\<close>

definition opt_unchoke :: "(nat \<Rightarrow> nat) \<Rightarrow> (nat \<Rightarrow> NbrMap) \<Rightarrow> (bool \<times> (nbr_ptr \<times> nat) option) res option" where
  "opt_unchoke rnd view =
     (if nm_npeers (view 0) \<noteq> 0 then Some (Inr (True, None))
      else (case opt_unchoke_loop rnd view 0 of
              None \<Rightarrow> None
            | Some (Inl e) \<Rightarrow> Some (Inl e)
            | Some (Inr r) \<Rightarrow> Some (Inr (True, Some r))))"

text \<open>\<^verbatim>\<open>map<uint32_t, Nbr *, greater<uint32_t>>::insert\<close>: descending keys, the first entry of a key stays.\<close>

fun ins_req :: "u32 \<Rightarrow> nbr_ptr \<Rightarrow> (u32 \<times> nbr_ptr) list \<Rightarrow> (u32 \<times> nbr_ptr) list" where
  "ins_req k p [] = [(k, p)]"
| "ins_req k p ((k', p') # rs) =
     (if k' < k then (k, p) # (k', p') # rs
      else if k = k' then (k', p') # rs
      else (k', p') # ins_req k p rs)"

definition collect_req :: "int \<Rightarrow> (u32 \<times> nbr_ptr) list \<times> NbrMap \<Rightarrow> ((u32 \<times> nbr_ptr) list \<times> NbrMap) res" where
  "collect_req peer st =
     (case st of (requests, nm) \<Rightarrow>
        let (nbr, nm) = peerinfo_at peer nm
        in rbind (nbr_get nm nbr) (\<lambda>n.
           Inr (if \<not> nb_done n then ins_req (nb_requests n) nbr requests else requests, nm)))"

fun unchoke_best :: "int \<Rightarrow> int \<Rightarrow> (u32 \<times> nbr_ptr) list \<Rightarrow> NbrMap \<Rightarrow> NbrMap res" where
  "unchoke_best n_pref_peers j [] nm = Inr nm"
| "unchoke_best n_pref_peers j ((k, p) # rs) nm =
     rbind (nbr_get nm p) (\<lambda>n.
     rbind (if nb_choked n \<and> nb_interested n
            then rbind (nbr_upd (\<lambda>n. n\<lparr>nb_choked := False\<rparr>) p nm) (\<lambda>nm. Inr (j + 1, nm))
            else Inr (j, nm)) (\<lambda>(j, nm).
     if j = n_pref_peers then Inr nm else unchoke_best n_pref_peers j rs nm))"

definition select_unchoked :: "int \<Rightarrow> NbrMap \<Rightarrow> (bool \<times> NbrMap) res" where
  "select_unchoked n_pref_peers nm =
     (if nm_npeers nm \<noteq> 0 then Inr (True, nm)
      else rbind (rfold collect_req (nm_peers nm) ([], nm)) (\<lambda>(requests, nm).
           if requests = [] then Inr (False, nm)
           else rbind (unchoke_best n_pref_peers 0 requests nm) (\<lambda>nm. Inr (True, nm))))"

text \<open>
  \<^verbatim>\<open>earmark\<close>: the difference to the peer's field, and then for every bit of the output vector a claim
  on the shared field; a failed claim clears the bit. The returned flag is that of the last claim.
\<close>

definition earmark_bit :: "nat \<times> nat \<Rightarrow> bool \<times> u8 list \<times> Bfield \<Rightarrow> (bool \<times> u8 list \<times> Bfield) res" where
  "earmark_bit ij st =
     (case ij of (i, j) \<Rightarrow> case st of (ret, diff, b) \<Rightarrow>
        let mask = bitmask j
        in if (diff ! i) AND mask = mask
           then rbind (Bfield_flip2 b (int i) (int j)) (\<lambda>(ret, b).
                Inr (ret, if ret then diff else diff[i := (diff ! i) XOR mask], b))
           else Inr (ret, diff, b))"

definition earmark :: "Bfield option \<Rightarrow> u8 list \<Rightarrow> u8 list \<Rightarrow> NbrMap
    \<Rightarrow> (bool \<times> u8 list \<times> Bfield \<times> NbrMap) res" where
  "earmark bfield_node bfield_peer diff nm =
     (case bfield_node of
        None \<Rightarrow> Inl (UB NullDeref)
      | Some node \<Rightarrow>
          rbind (Bfield_diff node bfield_peer diff) (\<lambda>(diff, node).
          rbind (rfold earmark_bit (List.product [0..<length diff] [0..<8]) (False, diff, nm_bfield nm)) (\<lambda>(ret, diff, b).
          Inr (ret, diff, node, nm\<lparr>nm_bfield := b\<rparr>))))"

section \<open>The handler threads\<close>

text \<open>
  A handler sleeps, then calls its operation, and returns when that answers false. A run is a list of
  wake-ups, each with what the other threads did meanwhile; the result says whether the handler has
  returned. For the optimistic one each wake-up comes with its random numbers, and \<open>None\<close> is a call
  that does not return.
\<close>

fun unchoke_handler :: "int \<Rightarrow> (NbrMap \<Rightarrow> NbrMap) list \<Rightarrow> NbrMap \<Rightarrow> (bool \<times> NbrMap) res" where
  "unchoke_handler n_pref_peers [] nm = Inr (False, nm)"
| "unchoke_handler n_pref_peers (other # others) nm =
     rbind (select_unchoked n_pref_peers (other nm)) (\<lambda>(go, nm).
     if \<not> go then Inr (True, nm) else unchoke_handler n_pref_peers others nm)"

definition opt_unchoke_apply :: "(nbr_ptr \<times> nat) option \<Rightarrow> NbrMap \<Rightarrow> NbrMap res" where
  "opt_unchoke_apply r nm = (case r of None \<Rightarrow> Inr nm
     | Some (p, _) \<Rightarrow> nbr_upd (\<lambda>n. n\<lparr>nb_choked := False\<rparr>) p nm)"

fun opt_unchoke_handler :: "((NbrMap \<Rightarrow> NbrMap) \<times> (nat \<Rightarrow> nat)) list \<Rightarrow> NbrMap
    \<Rightarrow> (bool \<times> NbrMap) res option" where
  "opt_unchoke_handler [] nm = Some (Inr (False, nm))"
| "opt_unchoke_handler ((other, rnd) # wakes) nm =
     (case opt_unchoke rnd (\<lambda>_. other nm) of
        None \<Rightarrow> None
      | Some (Inl e) \<Rightarrow> Some (Inl e)
      | Some (Inr (go, r)) \<Rightarrow>
          (case opt_unchoke_apply r (other nm) of
             Inl e \<Rightarrow> Some (Inl e)
           | Inr nm \<Rightarrow> if \<not> go then Some (Inr (True, nm)) else opt_unchoke_handler wakes nm))"

section \<open>Earmarking\<close>

text \<open>The nested loop over bytes and bits visits the pieces in ascending order.\<close>

lemma product_append: "List.product (xs @ ys) zs = List.product xs zs @ List.product ys zs"
  by (induction xs) simp_all

lemma product_bits: "List.product [0..<n] [0..<8] = map (\<lambda>p. (p div 8, p mod 8)) [0..<8 * n]"
proof (induction n)
  case (Suc n)
  have "map (\<lambda>p. (p div 8, p mod 8)) [8 * n..<8 * n + 8] = map (Pair n) [0..<8]"
    by (rule nth_equalityI) auto
  moreover have "[0..<8 * Suc n] = [0..<8 * n] @ [8 * n..<8 * n + 8]"
    by (metis le0 mult_Suc_right add.commute upt_add_eq_append)
  ultimately show ?case using Suc by (simp add: product_append)
qed simp

definition clear_piece :: "u8 list \<Rightarrow> nat \<Rightarrow> u8 list" where
  "clear_piece v p = v[p div 8 := (v ! (p div 8)) XOR bitmask (p mod 8)]"

lemma length_clear_piece [simp]: "length (clear_piece v p) = length v"
  by (simp add: clear_piece_def)

lemma has_piece_clear_piece:
  "has_piece v p \<Longrightarrow> has_piece (clear_piece v p) q \<longleftrightarrow> q \<noteq> p \<and> has_piece v q"
  by (cases "q div 8 = p div 8")
    (auto simp: has_piece_def clear_piece_def bit_xor_bitmask nth_list_update
      intro: div_mult_mod_eq [of _ 8, THEN sym, THEN trans])

lemma earmark_bit_eq:
  assumes "bfield_ok b" and "p < 8 * length diff" and "length diff \<le> length (bf_bfield b)"
  shows "earmark_bit (p div 8, p mod 8) (ret, diff, b) =
    (if has_piece diff p
     then Inr (\<not> has_piece (bf_bfield b) p,
               if has_piece (bf_bfield b) p then clear_piece diff p else diff,
               b\<lparr>bf_bfield := set_piece (bf_bfield b) p\<rparr>)
     else Inr (ret, diff, b))"
proof -
  have i: "p div 8 < length diff" using assms(2) by auto
  have "Bfield_flip2 b (int (p div 8)) (int (p mod 8)) =
      Inr (\<not> has_piece (bf_bfield b) p, b\<lparr>bf_bfield := set_piece (bf_bfield b) p\<rparr>)"
    using Bfield_flip2_eq [OF assms(1), of "p div 8" "p mod 8"] i assms(3) by simp
  with i show ?thesis
    by (simp add: earmark_bit_def and_bitmask_eq has_piece_def clear_piece_def Let_def)
qed

lemma earmark_loop:
  assumes "bfield_ok b" and "length diff \<le> length (bf_bfield b)" and "m \<le> 8 * length diff"
  shows "\<exists>ret d b'. rfold earmark_bit (map (\<lambda>p. (p div 8, p mod 8)) [0..<m]) (False, diff, b) = Inr (ret, d, b')
    \<and> bfield_ok b' \<and> length (bf_bfield b') = length (bf_bfield b) \<and> length d = length diff
    \<and> bf_needlock b' = bf_needlock b
    \<and> (\<forall>q. has_piece d q \<longleftrightarrow> has_piece diff q \<and> (q < m \<longrightarrow> \<not> has_piece (bf_bfield b) q))
    \<and> (\<forall>q. has_piece (bf_bfield b') q \<longleftrightarrow> has_piece (bf_bfield b) q \<or> has_piece diff q \<and> q < m)
    \<and> (ret \<longleftrightarrow> (\<exists>q<m. has_piece d q \<and> (\<forall>q'<m. has_piece diff q' \<longrightarrow> q' \<le> q)))"
  using assms(3)
proof (induction m)
  case 0
  have "\<exists>ret. \<not> ret" by blast
  then show ?case using assms(1) by simp
next
  case (Suc m)
  then obtain ret d b' where IH: "rfold earmark_bit (map (\<lambda>p. (p div 8, p mod 8)) [0..<m]) (False, diff, b) = Inr (ret, d, b')"
    "bfield_ok b'" "length (bf_bfield b') = length (bf_bfield b)" "length d = length diff"
    "bf_needlock b' = bf_needlock b"
    "\<And>q. has_piece d q \<longleftrightarrow> has_piece diff q \<and> (q < m \<longrightarrow> \<not> has_piece (bf_bfield b) q)"
    "\<And>q. has_piece (bf_bfield b') q \<longleftrightarrow> has_piece (bf_bfield b) q \<or> has_piece diff q \<and> q < m"
    "ret \<longleftrightarrow> (\<exists>q<m. has_piece d q \<and> (\<forall>q'<m. has_piece diff q' \<longrightarrow> q' \<le> q))"
    by auto
  have m: "m < 8 * length d" "m < 8 * length (bf_bfield b')" "length d \<le> length (bf_bfield b')"
    using Suc.prems IH(3,4) assms(2) by auto
  note step = earmark_bit_eq [OF IH(2) m(1,3), of ret]
  show ?case
  proof (cases "has_piece diff m")
    case False
    then show ?thesis using IH step by (auto simp: rfold_append less_Suc_eq)
  next
    case True
    then have "has_piece d m" using IH(6) by simp
    then show ?thesis using IH(1-5) step True m(2)
      by (auto simp: rfold_append less_Suc_eq IH(6,7) has_piece_clear_piece has_piece_set_piece
          intro: less_imp_le)
  qed
qed


text \<open>The whole operation in terms of sets of pieces.\<close>

lemma earmark_eq:
  assumes "bfield_ok node" and "length (bf_bfield node) \<le> length peer"
    and "bfield_ok (nm_bfield nm)"
    and "length diff + length (bf_bfield node) \<le> length (bf_bfield (nm_bfield nm))"
    and "D = pieces (diff @ missing (bf_bfield node) peer)" and "R = pieces (bf_bfield (nm_bfield nm))"
  shows "\<exists>ret d b. earmark (Some node) peer diff nm = Inr (ret, d, node, nm\<lparr>nm_bfield := b\<rparr>)
    \<and> pieces d = D - R \<and> pieces (bf_bfield b) = R \<union> D
    \<and> length d = length diff + length (bf_bfield node)
    \<and> bfield_ok b \<and> length (bf_bfield b) = length (bf_bfield (nm_bfield nm))
    \<and> (ret \<longleftrightarrow> (\<exists>q \<in> pieces d. \<forall>q' \<in> D. q' \<le> q))"
proof -
  define dd where "dd = diff @ missing (bf_bfield node) peer"
  have len: "length dd = length diff + length (bf_bfield node)"
    using assms(2) by (simp add: dd_def length_missing)
  have bound: "has_piece dd q \<Longrightarrow> q < 8 * length dd" for q by (rule has_piece_bound)
  have "length dd \<le> length (bf_bfield (nm_bfield nm))" using len assms(4) by simp
  from earmark_loop [OF assms(3) this order_refl] obtain ret d b where l:
    "rfold earmark_bit (map (\<lambda>p. (p div 8, p mod 8)) [0..<8 * length dd]) (False, dd, nm_bfield nm) = Inr (ret, d, b)"
    "bfield_ok b" "length (bf_bfield b) = length (bf_bfield (nm_bfield nm))" "length d = length dd"
    "\<And>q. has_piece d q \<longleftrightarrow> has_piece dd q \<and> (q < 8 * length dd \<longrightarrow> \<not> has_piece (bf_bfield (nm_bfield nm)) q)"
    "\<And>q. has_piece (bf_bfield b) q \<longleftrightarrow> has_piece (bf_bfield (nm_bfield nm)) q \<or> has_piece dd q \<and> q < 8 * length dd"
    "ret \<longleftrightarrow> (\<exists>q<8 * length dd. has_piece d q \<and> (\<forall>q'<8 * length dd. has_piece dd q' \<longrightarrow> q' \<le> q))"
    by blast
  have run: "earmark (Some node) peer diff nm = Inr (ret, d, node, nm\<lparr>nm_bfield := b\<rparr>)"
    using assms(1,2) l(1) by (simp add: earmark_def Bfield_diff_eq product_bits dd_def [symmetric])
  have D: "D = pieces dd" using assms(5) by (simp add: dd_def)
  have d: "has_piece d q \<longleftrightarrow> has_piece dd q \<and> \<not> has_piece (bf_bfield (nm_bfield nm)) q" for q
    using l(5) [of q] bound [of q] by blast
  have b: "has_piece (bf_bfield b) q \<longleftrightarrow> has_piece (bf_bfield (nm_bfield nm)) q \<or> has_piece dd q" for q
    using l(6) [of q] bound [of q] by blast
  have ret: "ret \<longleftrightarrow> (\<exists>q. has_piece d q \<and> (\<forall>q'. has_piece dd q' \<longrightarrow> q' \<le> q))"
    unfolding l(7) using bound d by blast
  have "pieces d = D - R" unfolding D assms(6) set_eq_iff using d by simp
  moreover have "pieces (bf_bfield b) = R \<union> D" unfolding D assms(6) set_eq_iff using b by simp
  moreover have "ret \<longleftrightarrow> (\<exists>q \<in> pieces d. \<forall>q' \<in> D. q' \<le> q)"
    unfolding D ret by (simp add: Bex_def Ball_def)
  ultimately show ?thesis using run l(2,3,4) len by auto
qed

text \<open>
  Whatever it is called on, an earmarking that returns hands out only pieces nobody had reserved, and
  reserves them.
\<close>

definition claims :: "Bfield \<Rightarrow> Bfield \<Rightarrow> nat set \<Rightarrow> bool" where
  "claims b b' P \<longleftrightarrow> (bfield_ok b \<longrightarrow> bfield_ok b' \<and> length (bf_bfield b') = length (bf_bfield b)
     \<and> pieces (bf_bfield b) \<subseteq> pieces (bf_bfield b') \<and> P \<subseteq> pieces (bf_bfield b') - pieces (bf_bfield b))"

lemma claims_none [simp]: "claims b b {}"
  by (simp add: claims_def)

lemma earmark_loop_claims:
  assumes "rfold earmark_bit (map (\<lambda>p. (p div 8, p mod 8)) ps) (ret, diff, b) = Inr (ret', d, b')"
    and "set ps \<subseteq> {..< 8 * length diff}" and "distinct ps" and "bfield_ok b"
  shows "bfield_ok b' \<and> length (bf_bfield b') = length (bf_bfield b) \<and> pieces (bf_bfield b) \<subseteq> pieces (bf_bfield b')
    \<and> pieces d \<subseteq> pieces diff \<and> pieces d \<inter> set ps \<subseteq> pieces (bf_bfield b') - pieces (bf_bfield b)
    \<and> length d = length diff \<and> pieces (bf_bfield b') \<subseteq> pieces (bf_bfield b) \<union> set ps"
  using assms
proof (induction ps arbitrary: ret diff b)
  case (Cons p ps)
  have p: "p < 8 * length diff" "p div 8 < length diff" using Cons.prems(2) by auto
  from Cons.prems(1) obtain r1 d1 b1 where step: "earmark_bit (p div 8, p mod 8) (ret, diff, b) = Inr (r1, d1, b1)"
    and rest: "rfold earmark_bit (map (\<lambda>p. (p div 8, p mod 8)) ps) (r1, d1, b1) = Inr (ret', d, b')"
    by (auto simp: rbind_Inr_iff)
  have one: "bfield_ok b1 \<and> length (bf_bfield b1) = length (bf_bfield b) \<and> pieces (bf_bfield b) \<subseteq> pieces (bf_bfield b1)
    \<and> pieces d1 \<subseteq> pieces diff \<and> length d1 = length diff \<and> pieces (bf_bfield b1) \<subseteq> insert p (pieces (bf_bfield b))
    \<and> (has_piece d1 p \<longrightarrow> has_piece (bf_bfield b1) p \<and> \<not> has_piece (bf_bfield b) p)"
  proof (cases "has_piece diff p")
    case False
    then have "d1 = diff \<and> b1 = b"
      using step p(2) by (simp add: earmark_bit_def and_bitmask_eq has_piece_def Let_def)
    then show ?thesis using Cons.prems(4) False by auto
  next
    case True
    then obtain r where r: "Bfield_flip2 b (int (p div 8)) (int (p mod 8)) = Inr (r, b1)"
      "d1 = (if r then diff else clear_piece diff p)"
      using step p(2) by (auto simp: earmark_bit_def and_bitmask_eq has_piece_def clear_piece_def Let_def rbind_Inr_iff)
    have "p < 8 * length (bf_bfield b) \<and> r = (\<not> has_piece (bf_bfield b) p)
        \<and> b1 = b\<lparr>bf_bfield := set_piece (bf_bfield b) p\<rparr>"
      using Bfield_flip2_Inr [OF Cons.prems(4) _ r(1)] by simp
    then show ?thesis using r(2) True Cons.prems(4) by (auto simp: has_piece_set_piece has_piece_clear_piece)
  qed
  have IH: "bfield_ok b' \<and> length (bf_bfield b') = length (bf_bfield b1) \<and> pieces (bf_bfield b1) \<subseteq> pieces (bf_bfield b')
    \<and> pieces d \<subseteq> pieces d1 \<and> pieces d \<inter> set ps \<subseteq> pieces (bf_bfield b') - pieces (bf_bfield b1)
    \<and> length d = length d1 \<and> pieces (bf_bfield b') \<subseteq> pieces (bf_bfield b1) \<union> set ps"
    by (rule Cons.IH [OF rest]) (use one Cons.prems(2,3) in auto)
  have "pieces d \<inter> set (p # ps) \<subseteq> pieces (bf_bfield b') - pieces (bf_bfield b)"
    using IH one by auto
  then show ?case using IH one by auto
qed auto

lemma earmark_claims_only_new:
  assumes "earmark bn peer diff nm = Inr (ret, d, node, nm')"
  shows "\<exists>n b. bn = Some n \<and> field_ext n node \<and> nm' = nm\<lparr>nm_bfield := b\<rparr> \<and> claims (nm_bfield nm) b (pieces d)"
proof -
  from assms obtain n d0 b where n: "bn = Some n" "Bfield_diff n peer diff = Inr (d0, node)"
    "rfold earmark_bit (List.product [0..<length d0] [0..<8]) (False, d0, nm_bfield nm) = Inr (ret, d, b)"
    "nm' = nm\<lparr>nm_bfield := b\<rparr>"
    by (auto simp: earmark_def rbind_Inr_iff split: option.splits)
  have run: "rfold earmark_bit (map (\<lambda>p. (p div 8, p mod 8)) [0..<8 * length d0]) (False, d0, nm_bfield nm) = Inr (ret, d, b)"
    using n(3) by (simp add: product_bits)
  have "claims (nm_bfield nm) b (pieces d)"
  proof (cases "bfield_ok (nm_bfield nm)")
    case True
    have "set [0..<8 * length d0] \<subseteq> {..<8 * length d0}" by auto
    from earmark_loop_claims [OF run this distinct_upt True] have l: "bfield_ok b" "length (bf_bfield b) = length (bf_bfield (nm_bfield nm))"
      "pieces (bf_bfield (nm_bfield nm)) \<subseteq> pieces (bf_bfield b)" "length d = length d0"
      "pieces d \<inter> set [0..<8 * length d0] \<subseteq> pieces (bf_bfield b) - pieces (bf_bfield (nm_bfield nm))"
      by simp_all
    have "pieces d \<subseteq> set [0..<8 * length d0]" using l(4) has_piece_bound [of d] by auto
    then have "pieces d \<subseteq> pieces (bf_bfield b) - pieces (bf_bfield (nm_bfield nm))" using l(5) by blast
    then show ?thesis using l(1,2,3) by (simp add: claims_def)
  qed (simp add: claims_def)
  then show ?thesis using n(1,4) Bfield_diff_ext [OF n(2)] by blast
qed

section \<open>The neighbours as the threads change them\<close>

text \<open>
  One step of the shared map: a registration, a wake-up of either handler, an earmark, or one of the
  three writes the connection handlers make through their \<^verbatim>\<open>Nbr\<close> pointer.
\<close>

inductive nm_step :: "NbrMap \<Rightarrow> NbrMap \<Rightarrow> bool" where
  step_register: "register_cli peerid nm = Inr (p, nm') \<Longrightarrow> nm_step nm nm'"
| step_opt: "opt_unchoke rnd (\<lambda>_. nm) = Some (Inr (go, r)) \<Longrightarrow> opt_unchoke_apply r nm = Inr nm' \<Longrightarrow> nm_step nm nm'"
| step_select: "select_unchoked n_pref nm = Inr (go, nm') \<Longrightarrow> nm_step nm nm'"
| step_earmark: "earmark node peer diff nm = Inr (ret, diff', node', nm') \<Longrightarrow> nm_step nm nm'"
| step_interested: "nbr_upd (\<lambda>n. n\<lparr>nb_interested := v\<rparr>) p nm = Inr nm' \<Longrightarrow> nm_step nm nm'"
| step_request: "nbr_upd (\<lambda>n. n\<lparr>nb_requests := nb_requests n + 1\<rparr>) p nm = Inr nm' \<Longrightarrow> nm_step nm nm'"
| step_done: "nbr_upd (\<lambda>n. n\<lparr>nb_done := True\<rparr>) p nm = Inr nm' \<Longrightarrow> nm_step nm nm'"

inductive nm_reach :: "u32 \<Rightarrow> NbrMap \<Rightarrow> bool" for npeers where
  reach_ctor: "NbrMap_ctor rstat mstat oi ui k npeers npcs = Inr nm \<Longrightarrow> nm_reach npeers nm"
| reach_step: "nm_reach npeers nm \<Longrightarrow> nm_step nm nm' \<Longrightarrow> nm_reach npeers nm'"

inductive_cases nm_stepE: "nm_step nm nm'"

text \<open>
  What always holds: the mutex is free between steps, the counter and the registrations add up to the
  number the map was made with, every known peer id has a live record, and nobody is choked.
\<close>

definition live :: "NbrMap \<Rightarrow> nbr_ptr \<Rightarrow> bool" where
  "live nm p \<longleftrightarrow> (\<exists>n. nbr_get nm p = Inr n)"

definition nm_inv :: "u32 \<Rightarrow> NbrMap \<Rightarrow> bool" where
  "nm_inv npeers nm \<longleftrightarrow> nm_mut nm = MFree
    \<and> nm_npeers nm + of_nat (length (nm_peers nm)) = npeers
    \<and> (\<forall>k p. nm_peerinfo nm k = Some p \<longrightarrow> live nm p)
    \<and> (\<forall>k \<in> set (nm_peers nm). nm_peerinfo nm k \<noteq> None)
    \<and> (\<forall>a n. nm_heap nm a = Some n \<longrightarrow> \<not> nb_choked n \<and> a < nm_next nm)"

lemma nbr_get_Some [simp]: "nm_heap nm a = Some n \<Longrightarrow> nbr_get nm (Some a) = Inr n"
  by (simp add: nbr_get_def)

lemma nbr_getE:
  assumes "nbr_get nm p = Inr n"
  obtains a where "p = Some a" "nm_heap nm a = Some n"
  using assms by (auto simp: nbr_get_def split: option.splits)

lemma live_iff: "live nm p \<longleftrightarrow> (\<exists>a n. p = Some a \<and> nm_heap nm a = Some n)"
  by (auto simp: live_def elim: nbr_getE)

lemma nm_inv_peer:
  assumes "nm_inv npeers nm" and "k \<in> set (nm_peers nm)"
    and "\<And>a n. nm_peerinfo nm k = Some (Some a) \<Longrightarrow> nm_heap nm a = Some n \<Longrightarrow> P"
  shows P
proof -
  obtain p where p: "nm_peerinfo nm k = Some p" using assms(1,2) by (auto simp: nm_inv_def)
  then have "live nm p" using assms(1) by (simp add: nm_inv_def)
  with p assms(3) show ?thesis by (auto simp: live_iff)
qed

lemma nbr_get_live: "live nm p \<Longrightarrow> nm_inv npeers nm \<Longrightarrow> \<exists>n. nbr_get nm p = Inr n \<and> \<not> nb_choked n"
  by (auto simp: live_iff nm_inv_def)

lemma nbr_updE:
  assumes "nbr_upd f p nm = Inr nm'"
  obtains a n where "p = Some a" "nm_heap nm a = Some n" "nm' = nm\<lparr>nm_heap := (nm_heap nm)(a \<mapsto> f n)\<rparr>"
  using assms by (auto simp: nbr_upd_def rbind_Inr_iff elim!: nbr_getE split: option.splits)

lemma nbr_upd_inv:
  assumes "nm_inv npeers nm" and "nbr_upd f p nm = Inr nm'"
    and "\<And>n. \<not> nb_choked n \<Longrightarrow> \<not> nb_choked (f n)"
  shows "nm_inv npeers nm'"
proof -
  from assms(2) obtain a n where a: "nm_heap nm a = Some n"
    and nm': "nm' = nm\<lparr>nm_heap := (nm_heap nm)(a \<mapsto> f n)\<rparr>" by (rule nbr_updE)
  have "live nm q \<Longrightarrow> live nm' q" for q unfolding nm' live_iff using a by auto
  moreover have "nm_heap nm' c = Some m \<Longrightarrow> \<not> nb_choked m \<and> c < nm_next nm'" for c m
    using assms(1,3) a by (auto simp: nm' nm_inv_def split: if_splits)
  ultimately show ?thesis using assms(1) by (simp add: nm_inv_def) (simp add: nm')
qed

lemma register_cli_eq:
  assumes "nm_mut nm = MFree"
  shows "register_cli peerid nm = Inr (Some (nm_next nm),
    nm\<lparr>nm_next := Suc (nm_next nm), nm_npeers := nm_npeers nm - 1, nm_peers := nm_peers nm @ [peerid],
       nm_heap := (nm_heap nm)(nm_next nm \<mapsto>
         \<lparr>nb_choked = False, nb_done = False, nb_interested = False, nb_requests = 0\<rparr>),
       nm_peerinfo := (case nm_peerinfo nm peerid of
          None \<Rightarrow> (nm_peerinfo nm)(peerid \<mapsto> Some (nm_next nm)) | Some _ \<Rightarrow> nm_peerinfo nm)\<rparr>)"
  using assms by (cases nm) (simp add: register_cli_def NbrMap_Lock_def NbrMap_Unlock_def Let_def split: option.split)

lemma register_cli_inv:
  assumes "nm_inv npeers nm" and "register_cli peerid nm = Inr (p, nm')"
  shows "nm_inv npeers nm'"
proof -
  have mut: "nm_mut nm = MFree" using assms(1) by (simp add: nm_inv_def)
  note nm' = assms(2) [unfolded register_cli_eq [OF mut], THEN sum.inject(2) [THEN iffD1],
      THEN prod.inject [THEN iffD1], THEN conjunct2, symmetric]
  have fresh: "nm_heap nm (nm_next nm) = None"
    using assms(1) by (cases "nm_heap nm (nm_next nm)") (auto simp: nm_inv_def)
  have live: "live nm q \<Longrightarrow> live nm' q" for q unfolding nm' live_iff using fresh by auto
  have new: "live nm' (Some (nm_next nm))" unfolding nm' live_iff by simp
  have "nm_peerinfo nm' k = Some q \<Longrightarrow> live nm' q" for k q
    using assms(1) live [of q] new by (auto simp: nm' nm_inv_def split: option.splits if_splits)
  moreover have "k \<in> set (nm_peers nm') \<Longrightarrow> nm_peerinfo nm' k \<noteq> None" for k
    using assms(1) by (auto simp: nm' nm_inv_def split: option.splits)
  moreover have "nm_heap nm' a = Some n \<Longrightarrow> \<not> nb_choked n \<and> a < nm_next nm'" for a n
    using assms(1) by (auto simp: nm' nm_inv_def less_Suc_eq split: if_splits)
  moreover have "nm_npeers nm' + of_nat (length (nm_peers nm')) = npeers" "nm_mut nm' = MFree"
    using assms(1) by (auto simp: nm' nm_inv_def)
  ultimately show ?thesis by (auto simp: nm_inv_def)
qed

text \<open>Both selection operations leave the map as it is, since nobody is choked.\<close>

lemma rfold_collect_req:
  assumes "nm_inv npeers nm" and "set ps \<subseteq> set (nm_peers nm)"
    and "\<forall>(k, p) \<in> set rs. live nm p"
  shows "\<exists>rs'. rfold collect_req ps (rs, nm) = Inr (rs', nm) \<and> (\<forall>(k, p) \<in> set rs'. live nm p)
    \<and> (rs' = [] \<longleftrightarrow> rs = [] \<and> (\<forall>k \<in> set ps. \<forall>a n. nm_peerinfo nm k = Some (Some a) \<longrightarrow>
          nm_heap nm a = Some n \<longrightarrow> nb_done n))"
  using assms(2,3)
proof (induction ps arbitrary: rs)
  case (Cons k ps)
  then obtain a n where a: "nm_peerinfo nm k = Some (Some a)" "nm_heap nm a = Some n"
    by (auto intro: nm_inv_peer [OF assms(1)])
  have ins: "set (ins_req q p rs) \<subseteq> insert (q, p) (set rs)" "ins_req q p rs \<noteq> []" for q p
    by (induction rs) (auto split: if_splits)
  define rs1 where "rs1 = (if \<not> nb_done n then ins_req (nb_requests n) (Some a) rs else rs)"
  have "collect_req k (rs, nm) = Inr (rs1, nm)"
    using a by (simp add: collect_req_def peerinfo_at_def rs1_def)
  moreover have "\<forall>(k, p) \<in> set rs1. live nm p"
  proof -
    have "live nm (Some a)" using a(2) by (simp add: live_iff)
    then have "\<forall>(k, p) \<in> insert (nb_requests n, Some a) (set rs). live nm p" using Cons.prems(2) by simp
    then show ?thesis using ins(1) [of "nb_requests n" "Some a"] Cons.prems(2)
      unfolding rs1_def by (auto split: if_splits)
  qed
  moreover have "rs1 = [] \<longleftrightarrow> rs = [] \<and> nb_done n" using ins(2) by (simp add: rs1_def)
  ultimately show ?case using Cons.IH [of rs1] Cons.prems(1) a by auto
qed simp

lemma unchoke_best_idle:
  assumes "nm_inv npeers nm" and "\<forall>(k, p) \<in> set rs. live nm p"
  shows "unchoke_best n_pref j rs nm = Inr nm"
  using assms(2)
proof (induction rs)
  case (Cons r rs)
  obtain k p where r: "r = (k, p)" by (cases r)
  with Cons.prems nbr_get_live [OF _ assms(1)] obtain n where "nbr_get nm p = Inr n" "\<not> nb_choked n"
    by fastforce
  with Cons r show ?case by simp
qed simp

lemma select_unchoked_idle:
  assumes "nm_inv npeers nm"
  shows "select_unchoked n_pref nm = Inr (nm_npeers nm \<noteq> 0 \<or>
    (\<exists>k \<in> set (nm_peers nm). \<exists>a n. nm_peerinfo nm k = Some (Some a) \<and> nm_heap nm a = Some n \<and> \<not> nb_done n), nm)"
proof (cases "nm_npeers nm = 0")
  case True
  from rfold_collect_req [OF assms order_refl, of "[]"] obtain rs where
    "rfold collect_req (nm_peers nm) ([], nm) = Inr (rs, nm)" "\<forall>(k, p) \<in> set rs. live nm p"
    "rs = [] \<longleftrightarrow> (\<forall>k \<in> set (nm_peers nm). \<forall>a n. nm_peerinfo nm k = Some (Some a) \<longrightarrow>
          nm_heap nm a = Some n \<longrightarrow> nb_done n)"
    by auto
  with True unchoke_best_idle [OF assms, of rs] show ?thesis by (auto simp: select_unchoked_def)
qed (simp add: select_unchoked_def)

lemma nbr_get_fault: "nbr_get nm p = Inl e \<Longrightarrow> \<exists>u. e = UB u"
  by (auto simp: nbr_get_def split: option.splits)

lemma opt_unchoke_loop_idle:
  "opt_unchoke_loop rnd view k = Some r \<Longrightarrow> \<forall>k. \<exists>npeers. nm_inv npeers (view k) \<Longrightarrow> \<exists>u. r = Inl (UB u)"
proof (induction rnd view k r rule: opt_unchoke_loop.raw_induct [rotated, consumes 1, case_names step])
  case (step loop rnd view k r)
  obtain npeers where inv: "nm_inv npeers (view k)" using step(3) by blast
  define p where "p = fst (peerinfo_at (int (rnd k mod length (nm_peers (view k)))) (view k))"
  show ?case
  proof (cases "nm_peers (view k) = [] \<or> (\<exists>e. nbr_get (view k) p = Inl e)")
    case True
    then show ?thesis using step(2) nbr_get_fault [of "view k" p]
      by (auto simp: Let_def p_def [symmetric] split: if_splits sum.splits)
  next
    case False
    then obtain n where n: "nbr_get (view k) p = Inr n" by (cases "nbr_get (view k) p") auto
    then have "\<not> nb_choked n" using nbr_get_live [of "view k" p] inv by (auto simp: live_def)
    then have "loop rnd view (Suc k) = Some r"
      using step(2) False n by (simp add: Let_def p_def [symmetric])
    then show ?thesis using step(1,3) by blast
  qed
qed

lemma opt_unchoke_idle:
  assumes "nm_inv npeers nm" and "opt_unchoke rnd (\<lambda>_. nm) = Some (Inr (go, r))"
  shows "nm_npeers nm \<noteq> 0 \<and> go \<and> r = None"
proof -
  have "opt_unchoke_loop rnd (\<lambda>_. nm) 0 \<noteq> Some (Inr q)" for q
    using opt_unchoke_loop_idle [of rnd "\<lambda>_. nm" 0] assms(1) by blast
  with assms(2) show ?thesis by (auto simp: opt_unchoke_def split: if_splits option.splits sum.splits)
qed

lemma earmark_frame:
  assumes "earmark node peer diff nm = Inr (ret, diff', node', nm')"
  shows "\<exists>b. nm' = nm\<lparr>nm_bfield := b\<rparr>"
  using assms by (auto simp: earmark_def rbind_Inr_iff split: option.splits)

lemma nm_step_inv:
  assumes "nm_step nm nm'" and "nm_inv npeers nm"
  shows "nm_inv npeers nm'"
  using assms
proof cases
  case (step_opt rnd go r)
  from opt_unchoke_idle [OF assms(2) step_opt(1)] have "r = None" by simp
  with step_opt(2) assms(2) show ?thesis by (simp add: opt_unchoke_apply_def)
next
  case (step_select n_pref go)
  with select_unchoked_idle [OF assms(2)] assms(2) show ?thesis by auto
next
  case (step_earmark node peer diff ret diff' node')
  with earmark_frame assms(2) show ?thesis by (fastforce simp: nm_inv_def live_iff)
qed (use assms(2) in \<open>auto elim: register_cli_inv nbr_upd_inv\<close>)

text \<open>
  What an operation of a connection may do to the map: it keeps the handlers and the registrations so far
  and, of a map that has the invariant, the invariant and every live record.
\<close>

definition nm_ext :: "NbrMap \<Rightarrow> NbrMap \<Rightarrow> bool" where
  "nm_ext nm nm' \<longleftrightarrow> (\<forall>np. nm_inv np nm \<longrightarrow> nm_inv np nm' \<and> (\<forall>p. live nm p \<longrightarrow> live nm' p))
     \<and> nm_handlers nm' = nm_handlers nm \<and> length (nm_peers nm) \<le> length (nm_peers nm')"

lemma nm_ext_refl [simp]: "nm_ext nm nm"
  by (simp add: nm_ext_def)

lemma nm_ext_trans [trans]: "nm_ext nm nm' \<Longrightarrow> nm_ext nm' nm'' \<Longrightarrow> nm_ext nm nm''"
  unfolding nm_ext_def by (metis order_trans)

lemma nm_ext_bfield [simp]: "nm_ext nm (nm\<lparr>nm_bfield := b\<rparr>)"
  by (simp add: nm_ext_def nm_inv_def live_iff)

lemma nm_ext_upd:
  assumes "nbr_upd f p nm = Inr nm'" and "\<And>n. \<not> nb_choked n \<Longrightarrow> \<not> nb_choked (f n)"
  shows "nm_ext nm nm'"
proof -
  have "live nm q \<Longrightarrow> live nm' q" for q using assms(1) by (auto simp: live_iff elim!: nbr_updE)
  moreover have "nm_handlers nm' = nm_handlers nm \<and> nm_peers nm' = nm_peers nm" by (rule nbr_updE [OF assms(1)]) simp
  ultimately show ?thesis using nbr_upd_inv [OF _ assms] by (simp add: nm_ext_def)
qed

lemma nm_ext_register:
  assumes "register_cli peerid nm = Inr (p, nm')"
  shows "nm_ext nm nm' \<and> live nm' p \<and> nm_bfield nm' = nm_bfield nm"
proof -
  have mut: "nm_mut nm = MFree"
    using assms by (cases "nm_mut nm") (auto simp: register_cli_def NbrMap_Lock_def Let_def)
  have "live nm q \<Longrightarrow> live nm' q" if "nm_inv np nm" for q np
  proof -
    have "nm_heap nm (nm_next nm) = None"
      using that by (cases "nm_heap nm (nm_next nm)") (auto simp: nm_inv_def)
    then show "live nm q \<Longrightarrow> live nm' q" using assms unfolding register_cli_eq [OF mut] by (auto simp: live_iff)
  qed
  moreover have "live nm' p \<and> nm_bfield nm' = nm_bfield nm \<and> nm_handlers nm' = nm_handlers nm
      \<and> length (nm_peers nm) \<le> length (nm_peers nm')"
    using assms unfolding register_cli_eq [OF mut] by (auto simp: live_iff)
  ultimately show ?thesis using register_cli_inv [OF _ assms] by (simp add: nm_ext_def)
qed

lemma nm_reach_inv: "nm_reach npeers nm \<Longrightarrow> nm_inv npeers nm"
proof (induction rule: nm_reach.induct)
  case (reach_ctor rstat mstat oi ui k npcs nm)
  then show ?case
    by (auto simp: NbrMap_ctor_def rbind_Inr_iff nm_inv_def)
qed (rule nm_step_inv)

section \<open>What the selection does with choked neighbours\<close>

definition peers_live :: "NbrMap \<Rightarrow> bool" where
  "peers_live nm \<longleftrightarrow> (\<forall>k \<in> set (nm_peers nm). \<exists>a n. nm_peerinfo nm k = Some (Some a) \<and> nm_heap nm a = Some n)"

definition undone :: "NbrMap \<Rightarrow> nat set" where
  "undone nm = {a. \<exists>k \<in> set (nm_peers nm). nm_peerinfo nm k = Some (Some a)
     \<and> (\<exists>n. nm_heap nm a = Some n \<and> \<not> nb_done n)}"

definition wants :: "NbrMap \<Rightarrow> nat \<Rightarrow> bool" where
  "wants nm a = (case nm_heap nm a of None \<Rightarrow> False | Some n \<Rightarrow> nb_choked n \<and> nb_interested n)"

definition reqs_of :: "NbrMap \<Rightarrow> nat \<Rightarrow> u32" where
  "reqs_of nm a = (case nm_heap nm a of None \<Rightarrow> 0 | Some n \<Rightarrow> nb_requests n)"

definition unchoke_set :: "NbrMap \<Rightarrow> nat set \<Rightarrow> NbrMap" where
  "unchoke_set nm A = nm\<lparr>nm_heap := (\<lambda>a. if a \<in> A then map_option (\<lambda>n. n\<lparr>nb_choked := False\<rparr>) (nm_heap nm a)
                                       else nm_heap nm a)\<rparr>"

lemma unchoke_set_simps [simp]:
  "unchoke_set nm {} = nm"
  "unchoke_set (unchoke_set nm A) B = unchoke_set nm (A \<union> B)"
  by (cases nm; auto simp: unchoke_set_def fun_eq_iff map_option_case split: option.splits)+

lemma wants_unchoke_set: "wants (unchoke_set nm A) a \<longleftrightarrow> wants nm a \<and> a \<notin> A"
  by (auto simp: wants_def unchoke_set_def split: option.splits)

text \<open>The requests map: one entry for each request count among the neighbours not done.\<close>

definition req_entries :: "NbrMap \<Rightarrow> nat set \<Rightarrow> (u32 \<times> nbr_ptr) list \<Rightarrow> bool" where
  "req_entries nm S rs \<longleftrightarrow> sorted_wrt (\<lambda>x y. fst y < fst x) rs
    \<and> (\<forall>(c, p) \<in> set rs. \<exists>a \<in> S. p = Some a \<and> c = reqs_of nm a)
    \<and> reqs_of nm ` S = fst ` set rs"

lemma ins_req_keys: "fst ` set (ins_req c p rs) = insert c (fst ` set rs)"
  by (induction c p rs rule: ins_req.induct) (auto simp: insert_commute)

lemma set_ins_req: "set (ins_req c p rs) \<subseteq> insert (c, p) (set rs)"
  by (induction c p rs rule: ins_req.induct) (auto split: if_splits)

lemma sorted_ins_req:
  assumes "sorted_wrt (\<lambda>x y. fst y < fst x) rs"
  shows "sorted_wrt (\<lambda>x y. fst y < fst x) (ins_req c p rs)"
  using assms
proof (induction rs)
  case (Cons r rs)
  obtain k q where r: "r = (k, q)" by (cases r)
  have "\<forall>y \<in> set (ins_req c p rs). fst y < k" if "c < k"
    using that Cons.prems r set_ins_req [of c p rs] by auto
  then show ?case using Cons r by (auto simp: not_less order.order_iff_strict)
qed simp

lemma req_entries_insert:
  assumes "req_entries nm S rs"
  shows "req_entries nm (insert a S) (ins_req (reqs_of nm a) (Some a) rs)"
proof -
  have "\<forall>(c, p) \<in> insert (reqs_of nm a, Some a) (set rs). \<exists>b \<in> insert a S. p = Some b \<and> c = reqs_of nm b"
    using assms by (fastforce simp: req_entries_def)
  then have "\<forall>(c, p) \<in> set (ins_req (reqs_of nm a) (Some a) rs). \<exists>b \<in> insert a S. p = Some b \<and> c = reqs_of nm b"
    using set_ins_req [of "reqs_of nm a" "Some a" rs] by blast
  with assms show ?thesis by (simp add: req_entries_def sorted_ins_req ins_req_keys)
qed

lemma rfold_collect_entries:
  assumes "peers_live nm" and "set ps \<subseteq> set (nm_peers nm)" and "req_entries nm S rs"
  shows "\<exists>rs'. rfold collect_req ps (rs, nm) = Inr (rs', nm)
    \<and> req_entries nm (S \<union> {a. \<exists>k \<in> set ps. nm_peerinfo nm k = Some (Some a)
        \<and> (\<exists>n. nm_heap nm a = Some n \<and> \<not> nb_done n)}) rs'"
  using assms(2,3)
proof (induction ps arbitrary: rs S)
  case Nil
  then show ?case by simp
next
  case (Cons k ps)
  then obtain a n where a: "nm_peerinfo nm k = Some (Some a)" "nm_heap nm a = Some n"
    using assms(1) by (auto simp: peers_live_def)
  define S1 where "S1 = (if nb_done n then S else insert a S)"
  define rs1 where "rs1 = (if \<not> nb_done n then ins_req (nb_requests n) (Some a) rs else rs)"
  have "nb_requests n = reqs_of nm a" using a by (simp add: reqs_of_def)
  then have "req_entries nm S1 rs1"
    using req_entries_insert [OF Cons.prems(2), of a] Cons.prems(2) by (simp add: S1_def rs1_def)
  from Cons.IH [OF _ this] Cons.prems(1) obtain rs' where
    "rfold collect_req ps (rs1, nm) = Inr (rs', nm)"
    "req_entries nm (S1 \<union> {a. \<exists>k \<in> set ps. nm_peerinfo nm k = Some (Some a)
        \<and> (\<exists>n. nm_heap nm a = Some n \<and> \<not> nb_done n)}) rs'" by auto
  moreover have "collect_req k (rs, nm) = Inr (rs1, nm)"
    using a by (simp add: collect_req_def peerinfo_at_def rs1_def)
  moreover have "S1 \<union> {a. \<exists>k \<in> set ps. nm_peerinfo nm k = Some (Some a) \<and> (\<exists>n. nm_heap nm a = Some n \<and> \<not> nb_done n)}
      = S \<union> {a. \<exists>k \<in> set (k # ps). nm_peerinfo nm k = Some (Some a) \<and> (\<exists>n. nm_heap nm a = Some n \<and> \<not> nb_done n)}"
    using a by (auto simp: S1_def)
  ultimately show ?case by simp
qed

lemma unchoke_best_eq:
  assumes "j < n" and "distinct as" and "\<forall>a \<in> set as. nm_heap nm a \<noteq> None"
  shows "unchoke_best (int n) (int j) (map (\<lambda>a. (reqs_of nm0 a, Some a)) as) nm
    = Inr (unchoke_set nm (set (take (n - j) (filter (wants nm) as))))"
  using assms
proof (induction as arbitrary: j nm)
  case (Cons a as)
  then obtain m where m: "nm_heap nm a = Some m" by auto
  show ?case
  proof (cases "wants nm a")
    case False
    then show ?thesis using Cons.IH [of j nm] Cons.prems m by (auto simp: wants_def)
  next
    case True
    let ?nm = "unchoke_set nm {a}"
    have upd: "nbr_upd (\<lambda>n. n\<lparr>nb_choked := False\<rparr>) (Some a) nm = Inr ?nm"
      using m by (auto simp: nbr_upd_def unchoke_set_def fun_eq_iff)
    have heap: "nm_heap ?nm b \<noteq> None \<longleftrightarrow> nm_heap nm b \<noteq> None" for b by (simp add: unchoke_set_def)
    have filt: "filter (wants ?nm) as = filter (wants nm) as"
      using Cons.prems(2) by (intro filter_cong) (auto simp: wants_unchoke_set)
    have step: "unchoke_best (int n) (int j) (map (\<lambda>a. (reqs_of nm0 a, Some a)) (a # as)) nm =
      (if int j + 1 = int n then Inr ?nm
       else unchoke_best (int n) (int (Suc j)) (map (\<lambda>a. (reqs_of nm0 a, Some a)) as) ?nm)"
      using m upd True by (simp add: wants_def add.commute)
    show ?thesis
    proof (cases "Suc j = n")
      case True
      then show ?thesis using step \<open>wants nm a\<close> by auto
    next
      case False
      then have "Suc j < n" using Cons.prems(1) by simp
      moreover have "n - j = Suc (n - Suc j)" using \<open>Suc j < n\<close> by simp
      moreover have "int j + 1 \<noteq> int n" using \<open>Suc j < n\<close> by simp
      ultimately show ?thesis
        using step Cons.IH [of "Suc j" ?nm] Cons.prems(2,3) heap filt \<open>wants nm a\<close> by simp
    qed
  qed
qed simp

lemma sorted_take_dominates:
  assumes "sorted_wrt P xs" and "x \<in> set xs" and "x \<notin> set (take n xs)"
  shows "length (take n xs) = n \<and> (\<forall>y \<in> set (take n xs). P y x)"
proof -
  have x: "x \<in> set (drop n xs)" using assms(2,3) by (metis Un_iff append_take_drop_id set_append)
  then have "n < length xs" by (metis drop_all empty_iff list.set(1) not_le)
  moreover have "sorted_wrt P (take n xs @ drop n xs)" using assms(1) by simp
  then have "\<forall>y \<in> set (take n xs). \<forall>x \<in> set (drop n xs). P y x" unfolding sorted_wrt_append by blast
  ultimately show ?thesis using x by auto
qed

lemma req_entries_addrs:
  assumes "req_entries nm S rs"
  obtains as where "rs = map (\<lambda>a. (reqs_of nm a, Some a)) as" "set as \<subseteq> S"
    "sorted_wrt (\<lambda>a b. reqs_of nm b < reqs_of nm a) as" "reqs_of nm ` S = reqs_of nm ` set as"
proof -
  define as where "as = map (\<lambda>(c, p). the p) rs"
  have ent: "\<forall>(c, p) \<in> set rs. \<exists>a \<in> S. p = Some a \<and> c = reqs_of nm a"
    using assms by (simp add: req_entries_def)
  have rs: "rs = map (\<lambda>a. (reqs_of nm a, Some a)) as"
    unfolding as_def using ent by (induction rs) auto
  have "set as \<subseteq> S" unfolding as_def using ent by auto
  moreover have "sorted_wrt (\<lambda>x y. fst y < fst x) rs" using assms by (simp add: req_entries_def)
  then have "sorted_wrt (\<lambda>a b. reqs_of nm b < reqs_of nm a) as"
    unfolding rs by (simp add: sorted_wrt_map)
  moreover have "reqs_of nm ` S = reqs_of nm ` set as"
    using assms unfolding rs by (simp add: req_entries_def image_image)
  ultimately show thesis using that rs by blast
qed

lemma distinct_sorted_keys:
  fixes f :: "'a \<Rightarrow> 'b :: linorder"
  shows "sorted_wrt (\<lambda>a b. f b < f a) xs \<Longrightarrow> distinct (map f xs)"
  by (induction xs) fastforce+

lemma select_unchoked_eq:
  assumes "peers_live nm" and "nm_npeers nm = 0" and "0 < n" and "undone nm \<noteq> {}"
  shows "\<exists>A. select_unchoked (int n) nm = Inr (True, unchoke_set nm A) \<and> finite A \<and> card A \<le> n
    \<and> A \<subseteq> {a \<in> undone nm. wants nm a} \<and> inj_on (reqs_of nm) A
    \<and> (\<forall>a \<in> undone nm. wants nm a \<and> a \<notin> A \<longrightarrow>
        (\<exists>b \<in> undone nm. b \<noteq> a \<and> reqs_of nm b = reqs_of nm a)
        \<or> card A = n \<and> (\<forall>b \<in> A. reqs_of nm a < reqs_of nm b))"
proof -
  have "req_entries nm {} []" by (simp add: req_entries_def)
  from rfold_collect_entries [OF assms(1) order_refl this] obtain rs where
    rs: "rfold collect_req (nm_peers nm) ([], nm) = Inr (rs, nm)" "req_entries nm (undone nm) rs"
    by (auto simp: undone_def)
  from req_entries_addrs [OF rs(2)] obtain as where as: "rs = map (\<lambda>a. (reqs_of nm a, Some a)) as"
    "set as \<subseteq> undone nm" "sorted_wrt (\<lambda>a b. reqs_of nm b < reqs_of nm a) as"
    "reqs_of nm ` undone nm = reqs_of nm ` set as" by blast
  have inj: "inj_on (reqs_of nm) (set as)" and dist: "distinct as"
    using distinct_sorted_keys [OF as(3)] by (simp_all add: distinct_map)
  define ws where "ws = filter (wants nm) as"
  have ws: "set ws \<subseteq> set as" "distinct ws" "sorted_wrt (\<lambda>a b. reqs_of nm b < reqs_of nm a) ws"
    using dist as(3) by (auto simp: ws_def sorted_wrt_filter)
  define A where "A = set (take n ws)"
  have "\<forall>a \<in> set as. nm_heap nm a \<noteq> None" using as(2) by (auto simp: undone_def)
  from unchoke_best_eq [OF assms(3) dist this, of nm] have
    "unchoke_best (int n) 0 rs nm = Inr (unchoke_set nm A)" by (simp add: as(1) A_def ws_def)
  moreover have "rs \<noteq> []" using assms(4) as(1,4) by auto
  ultimately have run: "select_unchoked (int n) nm = Inr (True, unchoke_set nm A)"
    using assms(2) rs(1) by (simp add: select_unchoked_def)
  have sub: "A \<subseteq> set ws" unfolding A_def by (rule set_take_subset)
  have card: "card A = length (take n ws)" unfolding A_def using ws(2) by (simp add: distinct_card)
  have "A \<subseteq> {a \<in> undone nm. wants nm a}" using sub as(2) by (auto simp: ws_def)
  moreover have "inj_on (reqs_of nm) A" using inj sub ws(1) by (meson inj_on_subset)
  moreover have "\<forall>a \<in> undone nm. wants nm a \<and> a \<notin> A \<longrightarrow>
        (\<exists>b \<in> undone nm. b \<noteq> a \<and> reqs_of nm b = reqs_of nm a)
        \<or> card A = n \<and> (\<forall>b \<in> A. reqs_of nm a < reqs_of nm b)"
  proof (intro ballI impI)
    fix a assume a: "a \<in> undone nm" "wants nm a \<and> a \<notin> A"
    then obtain b where b: "b \<in> set as" "reqs_of nm b = reqs_of nm a" using as(4) by (metis imageE imageI)
    show "(\<exists>b \<in> undone nm. b \<noteq> a \<and> reqs_of nm b = reqs_of nm a)
        \<or> card A = n \<and> (\<forall>b \<in> A. reqs_of nm a < reqs_of nm b)"
    proof (cases "b = a")
      case True
      then have "a \<in> set ws" using b(1) a(2) by (simp add: ws_def)
      from sorted_take_dominates [OF ws(3) this, of n] a(2)
      have "length (take n ws) = n \<and> (\<forall>b \<in> A. reqs_of nm a < reqs_of nm b)" unfolding A_def by blast
      then show ?thesis unfolding card by blast
    next
      case False
      then show ?thesis using b as(2) by auto
    qed
  qed
  moreover have "finite A" "card A \<le> n" using card by (simp_all add: A_def)
  ultimately show ?thesis using run by blast
qed

section \<open>Several connections earmarking\<close>

text \<open>Each connection's first earmark, in the order the shared field sees them.\<close>

fun earmark_run :: "Bfield \<Rightarrow> u8 list list \<Rightarrow> NbrMap \<Rightarrow> (u8 list list \<times> NbrMap) res" where
  "earmark_run node [] nm = Inr ([], nm)"
| "earmark_run node (peer # peers) nm =
     rbind (earmark (Some node) peer [] nm) (\<lambda>(ret, d, node', nm').
     rbind (earmark_run node' peers nm') (\<lambda>(ds, nm''). Inr (d # ds, nm'')))"

lemma earmark_run_eq:
  assumes "bfield_ok node" and "\<forall>peer \<in> set peers. length (bf_bfield node) \<le> length peer"
    and "bfield_ok (nm_bfield nm)" and "length (bf_bfield node) \<le> length (bf_bfield (nm_bfield nm))"
  shows "\<exists>ds nm'. earmark_run node peers nm = Inr (ds, nm')
    \<and> (\<forall>d \<in> set ds. pieces d \<inter> pieces (bf_bfield (nm_bfield nm)) = {})
    \<and> (\<forall>i < length ds. \<forall>j < i. pieces (ds ! i) \<inter> pieces (ds ! j) = {})
    \<and> (\<Union>d \<in> set ds. pieces d) = (\<Union>peer \<in> set peers. pieces (missing (bf_bfield node) peer))
        - pieces (bf_bfield (nm_bfield nm))
    \<and> length ds = length peers"
  using assms
proof (induction peers arbitrary: nm)
  case (Cons peer peers)
  let ?R = "pieces (bf_bfield (nm_bfield nm))" and ?D = "pieces (missing (bf_bfield node) peer)"
  from earmark_eq [OF Cons.prems(1) _ Cons.prems(3), of peer "[]" "?D" ?R] Cons.prems
  obtain ret d b where e: "earmark (Some node) peer [] nm = Inr (ret, d, node, nm\<lparr>nm_bfield := b\<rparr>)"
    "pieces d = ?D - ?R" "pieces (bf_bfield b) = ?R \<union> ?D" "bfield_ok b"
    "length (bf_bfield b) = length (bf_bfield (nm_bfield nm))"
    by auto
  from Cons.IH [of "nm\<lparr>nm_bfield := b\<rparr>"] Cons.prems e(4,5) obtain ds nm' where
    r: "earmark_run node peers (nm\<lparr>nm_bfield := b\<rparr>) = Inr (ds, nm')"
    "\<forall>d \<in> set ds. pieces d \<inter> pieces (bf_bfield b) = {}"
    "\<forall>i < length ds. \<forall>j < i. pieces (ds ! i) \<inter> pieces (ds ! j) = {}"
    "(\<Union>d \<in> set ds. pieces d) = (\<Union>peer \<in> set peers. pieces (missing (bf_bfield node) peer)) - pieces (bf_bfield b)"
    "length ds = length peers" by auto
  have "earmark_run node (peer # peers) nm = Inr (d # ds, nm')" using e(1) r(1) by simp
  moreover have "\<forall>d \<in> set (d # ds). pieces d \<inter> ?R = {}" using e(2,3) r(2) by (simp only: set_simps) blast
  moreover have "\<forall>i < length (d # ds). \<forall>j < i. pieces ((d # ds) ! i) \<inter> pieces ((d # ds) ! j) = {}"
  proof (intro allI impI)
    fix i j assume "i < length (d # ds)" "j < i"
    moreover have "pieces (ds ! k) \<inter> pieces d = {}" if "k < length ds" for k
      using r(2) e(2,3) nth_mem [OF that] by blast
    ultimately show "pieces ((d # ds) ! i) \<inter> pieces ((d # ds) ! j) = {}"
      using r(3) by (cases i; cases j) auto
  qed
  moreover have "(\<Union>d \<in> set (d # ds). pieces d) =
      (\<Union>peer \<in> set (peer # peers). pieces (missing (bf_bfield node) peer)) - ?R"
    using e(2,3) r(4) by (simp only: set_simps UN_insert) blast
  ultimately show ?case using r(5) by (intro exI [of _ "d # ds"] exI [of _ nm']) (simp only: length_Cons simp_thms)
qed simp

section \<open>Properties\<close>

text \<open>
  C12: \<^verbatim>\<open>earmark\<close> hands a connection exactly the pieces of its difference (with whatever the output
  vector already held in front) that nobody has reserved, and reserves all of the difference. The flag
  it returns says whether the highest piece of the difference was among those granted, not whether any was.
\<close>

theorem earmark_claims:
  assumes "bfield_ok node" and "length (bf_bfield node) \<le> length peer" and "bfield_ok (nm_bfield nm)"
    and "length diff + length (bf_bfield node) \<le> length (bf_bfield (nm_bfield nm))"
  shows "\<exists>ret d b. earmark (Some node) peer diff nm = Inr (ret, d, node, nm\<lparr>nm_bfield := b\<rparr>)
    \<and> pieces d = pieces (diff @ missing (bf_bfield node) peer) - pieces (bf_bfield (nm_bfield nm))
    \<and> pieces (bf_bfield b) = pieces (bf_bfield (nm_bfield nm)) \<union> pieces (diff @ missing (bf_bfield node) peer)
    \<and> (ret \<longleftrightarrow> (\<exists>q \<in> pieces d. \<forall>q' \<in> pieces (diff @ missing (bf_bfield node) peer). q' \<le> q))"
  using earmark_eq [OF assms refl refl] by blast

definition bf_demo :: "u8 list \<Rightarrow> Bfield" where
  "bf_demo v = \<lparr>bf_rwlock = LFree, bf_needlock = True, bf_bfield = v\<rparr>"

definition nm_demo :: NbrMap where
  "nm_demo = \<lparr>nm_mut = MFree, nm_npeers = 2, nm_peers = [], nm_peerinfo = Map.empty, nm_handlers = [],
     nm_bfield = \<lparr>bf_rwlock = LFree, bf_needlock = True, bf_bfield = [4, 0, 0]\<rparr>, nm_heap = Map.empty, nm_next = 0\<rparr>"

lemma earmark_claims_witness:
  "\<exists>ret d b. earmark (Some (bf_demo [0])) [7] [] nm_demo
      = Inr (ret, d, bf_demo [0], nm_demo\<lparr>nm_bfield := b\<rparr>)
    \<and> pieces d = pieces ([] @ missing [0] [7]) - pieces [4, 0, 0]
    \<and> pieces (bf_bfield b) = pieces [4, 0, 0] \<union> pieces ([] @ missing [0] [7])
    \<and> (ret = (\<exists>q \<in> pieces d. {q' \<in> pieces ([] @ missing [0] [7]). \<not> q' \<le> q} = {}))"
proof -
  have "bf_bfield (bf_demo [0]) = [0]" "bf_bfield (nm_bfield nm_demo) = [4, 0, 0]"
    by (simp_all add: nm_demo_def bf_demo_def)
  moreover have "(\<forall>q' \<in> S. q' \<le> q) \<longleftrightarrow> {q' \<in> S. \<not> q' \<le> q} = {}" for S and q :: nat by auto
  ultimately show ?thesis
    using earmark_claims [of "bf_demo [0]" "[7]" nm_demo "[]"]
    by (simp add: bfield_ok_def bf_demo_def nm_demo_def)
qed

text \<open>
  C13: when any number of connections earmark one after the other, no piece is handed to two of them,
  and together they are handed every piece some peer has, we lack, and nobody had reserved.
\<close>

theorem earmarks_disjoint:
  assumes "bfield_ok node" and "\<forall>peer \<in> set peers. length (bf_bfield node) \<le> length peer"
    and "bfield_ok (nm_bfield nm)" and "length (bf_bfield node) \<le> length (bf_bfield (nm_bfield nm))"
  shows "\<exists>ds nm'. earmark_run node peers nm = Inr (ds, nm') \<and> length ds = length peers
    \<and> (\<forall>i < length ds. \<forall>j < i. pieces (ds ! i) \<inter> pieces (ds ! j) = {})
    \<and> (\<Union>d \<in> set ds. pieces d) = (\<Union>peer \<in> set peers. pieces (missing (bf_bfield node) peer))
        - pieces (bf_bfield (nm_bfield nm))"
  using earmark_run_eq [OF assms] by (elim exE conjE) (intro exI conjI; assumption)

lemma earmarks_disjoint_witness:
  "\<exists>ds nm'. earmark_run (bf_demo [0]) [[7], [12]] nm_demo = Inr (ds, nm')
    \<and> length ds = 2 \<and> pieces (ds ! 1) \<inter> pieces (ds ! 0) = {}"
proof -
  have "length (bf_bfield (bf_demo [0])) = 1" "bfield_ok (bf_demo [0])"
    "bfield_ok (nm_bfield nm_demo)" "length (bf_bfield (nm_bfield nm_demo)) = 3"
    by (simp_all add: bfield_ok_def bf_demo_def nm_demo_def)
  from earmarks_disjoint [OF this(2) _ this(3), of "[[7], [12]]"] this(1,4)
  obtain ds nm' where ds: "earmark_run (bf_demo [0]) [[7], [12]] nm_demo = Inr (ds, nm')" "length ds = 2"
    "\<forall>i < length ds. \<forall>j < i. pieces (ds ! i) \<inter> pieces (ds ! j) = {}" by auto
  moreover from ds(3) have "pieces (ds ! 1) \<inter> pieces (ds ! 0) = {}" unfolding ds(2) by (drule_tac spec [of _ 1]) simp
  ultimately show ?thesis by blast
qed

text \<open>
  C14: on a reachable map no neighbour is ever choked, so once all peers have registered the optimistic
  unchoking never returns: it searches forever or, when a random index is not a peer id (or nobody is
  registered), it leaves defined behaviour.
\<close>

theorem opt_unchoke_never_returns:
  assumes "\<forall>k. nm_reach npeers (view k)" and "nm_npeers (view 0) = 0"
  shows "opt_unchoke rnd view = None \<or> (\<exists>u. opt_unchoke rnd view = Some (Inl (UB u)))"
proof (cases "opt_unchoke_loop rnd view 0")
  case (Some r)
  then have "\<exists>u. r = Inl (UB u)" using opt_unchoke_loop_idle nm_reach_inv assms(1) by blast
  with Some assms(2) show ?thesis by (auto simp: opt_unchoke_def)
qed (use assms(2) in \<open>simp add: opt_unchoke_def\<close>)

definition nm_start :: "u32 \<Rightarrow> NbrMap" where
  "nm_start npeers = \<lparr>nm_mut = MFree, nm_npeers = npeers, nm_peers = [], nm_peerinfo = Map.empty,
     nm_handlers = [(Opt_unchoke_handler 1, False), (Unchoke_handler 1 1, False)],
     nm_bfield = bf_demo [0], nm_heap = Map.empty, nm_next = 0\<rparr>"

lemma nm_reach_start: "nm_reach npeers (nm_start npeers)"
  by (rule reach_ctor [of 0 0 1 1 1 npeers 1])
    (simp add: NbrMap_ctor_def Bfield_npcs_def vector_fill_def nm_start_def bf_demo_def)

lemma nm_start_simps [simp]:
  "nm_npeers (nm_start n) = n" "nm_peers (nm_start n) = []" "nm_mut (nm_start n) = MFree"
  by (simp_all add: nm_start_def)

lemma opt_unchoke_never_returns_witness:
  "opt_unchoke (\<lambda>i. i) (\<lambda>_. nm_start 0) = None \<or> (\<exists>u. opt_unchoke (\<lambda>i. i) (\<lambda>_. nm_start 0) = Some (Inl (UB u)))"
  by (rule opt_unchoke_never_returns [where npeers = 0]) (simp_all add: nm_reach_start)

text \<open>
  On a reachable map the selection never faults and never changes anything; it answers false, which
  lets its thread end, exactly when all peers have registered and every registered neighbour is done.
\<close>

theorem select_unchoked_changes_nothing:
  assumes "nm_reach npeers nm"
  shows "select_unchoked n_pref nm = Inr (nm_npeers nm \<noteq> 0 \<or> undone nm \<noteq> {}, nm)"
  using select_unchoked_idle [OF nm_reach_inv [OF assms], of n_pref] by (auto simp: undone_def)

lemma select_unchoked_changes_nothing_witness:
  "select_unchoked 3 (nm_start 0) = Inr (nm_npeers (nm_start 0) \<noteq> 0 \<or> undone (nm_start 0) \<noteq> {}, nm_start 0)"
  by (rule select_unchoked_changes_nothing [OF nm_reach_start])


definition nm_choked :: NbrMap where
  "nm_choked = nm_demo\<lparr>nm_npeers := 0, nm_peers := [1, 2],
     nm_peerinfo := [1 \<mapsto> Some 0, 2 \<mapsto> Some 1],
     nm_heap := [0 \<mapsto> \<lparr>nb_choked = True, nb_done = False, nb_interested = True, nb_requests = 5\<rparr>,
                 1 \<mapsto> \<lparr>nb_choked = True, nb_done = False, nb_interested = True, nb_requests = 9\<rparr>]\<rparr>"


text \<open>
  On a reachable map the peer counter is the number it was made with less the registrations, so as
  long as fewer clients have registered than \<^verbatim>\<open>npeers\<close> both handlers go back to sleep at every wake-up,
  and destroying the map blocks on joining them.
\<close>

theorem npeers_counts_registrations:
  assumes "nm_reach npeers nm" and "length (nm_peers nm) < unat npeers"
  shows "unat (nm_npeers nm) = unat npeers - length (nm_peers nm)
    \<and> opt_unchoke rnd (\<lambda>_. nm) = Some (Inr (True, None))
    \<and> select_unchoked n_pref nm = Inr (True, nm)"
proof -
  have eq: "nm_npeers nm = npeers - of_nat (length (nm_peers nm))"
    using nm_reach_inv [OF assms(1)] by (auto simp: nm_inv_def)
  have "length (nm_peers nm) < 2 ^ LENGTH(32)" using assms(2) unsigned_less [of npeers] by (rule less_trans)
  then have len: "unat (of_nat (length (nm_peers nm)) :: u32) = length (nm_peers nm)"
    by (simp add: unat_of_nat)
  then have "of_nat (length (nm_peers nm)) \<le> npeers" using assms(2) by (simp add: word_le_nat_alt)
  then have "unat (nm_npeers nm) = unat npeers - length (nm_peers nm)"
    unfolding eq using len by (simp add: unat_sub)
  moreover from this have "nm_npeers nm \<noteq> 0" using assms(2) by auto
  ultimately show ?thesis by (simp add: opt_unchoke_def select_unchoked_def)
qed

text \<open>
  A second registration of a peer id gets a record of its own that the map never points to, so
  what that connection records in it is invisible to both selections.
\<close>

theorem duplicate_id_is_invisible:
  assumes "nm_reach npeers nm" and "peerid \<in> set (nm_peers nm)"
  shows "\<exists>a nm'. register_cli peerid nm = Inr (Some a, nm') \<and> nm_heap nm a = None \<and> a \<notin> undone nm'
    \<and> undone nm' = undone nm \<and> nm_peerinfo nm' = nm_peerinfo nm \<and> nm_npeers nm' = nm_npeers nm - 1"
proof -
  have inv: "nm_inv npeers nm" by (rule nm_reach_inv) (rule assms(1))
  then have mut: "nm_mut nm = MFree" by (simp add: nm_inv_def)
  have fresh: "nm_heap nm (nm_next nm) = None"
    using inv by (cases "nm_heap nm (nm_next nm)") (auto simp: nm_inv_def)
  obtain p where p: "nm_peerinfo nm peerid = Some p" using inv assms(2) by (auto simp: nm_inv_def)
  have notin: "nm_peerinfo nm k \<noteq> Some (Some (nm_next nm))" for k
  proof
    assume "nm_peerinfo nm k = Some (Some (nm_next nm))"
    then have "live nm (Some (nm_next nm))" using inv by (simp add: nm_inv_def)
    with fresh show False by (simp add: live_iff)
  qed
  obtain nm' where nm': "register_cli peerid nm = Inr (Some (nm_next nm), nm')"
    "nm_peerinfo nm' = nm_peerinfo nm" "nm_npeers nm' = nm_npeers nm - 1" "nm_peers nm' = nm_peers nm @ [peerid]"
    "nm_heap nm' = (nm_heap nm)(nm_next nm \<mapsto>
         \<lparr>nb_choked = False, nb_done = False, nb_interested = False, nb_requests = 0\<rparr>)"
    by (simp add: register_cli_eq [OF mut] p)
  have "undone nm' = undone nm" unfolding undone_def nm'(2,4,5) using notin assms(2) by (auto split: if_splits)
  moreover have "nm_next nm \<notin> undone nm'" unfolding undone_def nm'(2) using notin by blast
  ultimately show ?thesis using nm' fresh by blast
qed

lemma nm_reach_two: "\<exists>nm. nm_reach 2 nm \<and> nm_peers nm = [7]"
proof -
  have "\<exists>p nm. register_cli 7 (nm_start 2) = Inr (p, nm) \<and> nm_peers nm = [7]"
    by (simp add: register_cli_eq)
  then show ?thesis using reach_step [OF nm_reach_start step_register] by blast
qed

lemma npeers_counts_registrations_witness:
  "\<exists>nm. unat (nm_npeers nm) = unat (2 :: u32) - 1 \<and> opt_unchoke (\<lambda>i. i) (\<lambda>_. nm) = Some (Inr (True, None))
    \<and> select_unchoked 1 nm = Inr (True, nm)"
proof -
  obtain nm where nm: "nm_reach 2 nm" "nm_peers nm = [7]" using nm_reach_two by blast
  then have "length (nm_peers nm) < unat (2 :: u32)" by simp
  from npeers_counts_registrations [OF nm(1) this] nm(2) show ?thesis by auto
qed

lemma duplicate_id_is_invisible_witness:
  "\<exists>nm a nm'. register_cli 7 nm = Inr (Some a, nm') \<and> nm_heap nm a = None \<and> a \<notin> undone nm'
    \<and> undone nm' = undone nm"
proof -
  obtain nm where nm: "nm_reach 2 nm" "nm_peers nm = [7]" using nm_reach_two by blast
  then show ?thesis using duplicate_id_is_invisible [OF nm(1), of 7] by fastforce
qed

end
