(* ===== verification/Json.thy ===== *)
theory Json
  imports BTRx_Prelude
begin

text \<open>
  The part of the JSON library \<^verbatim>\<open>include/json/json.hpp\<close> the program's messages go through: the value type,
  the constructor from a braced list, the checked accessors, and the conversions to and from the C++
  types the packets have. A byte string stands for \<^verbatim>\<open>std::string\<close>.
\<close>

section \<open>Values\<close>

text \<open>
  An object is a \<^verbatim>\<open>std::map\<close>: a list of entries in ascending order of keys. Signed numbers keep their 64
  bits, a floating-point number its IEEE bits, a binary value its optional subtype.
\<close>

datatype json =
    JNull
  | JObject "(bytes \<times> json) list"
  | JArray "json list"
  | JString bytes
  | JBoolean bool
  | JInteger u64
  | JUnsigned u64
  | JFloat u64
  | JBinary bytes "u8 option"
  | JDiscarded

fun bytes_less :: "bytes \<Rightarrow> bytes \<Rightarrow> bool" where
  "bytes_less xs [] = False"
| "bytes_less [] (y # ys) = True"
| "bytes_less (x # xs) (y # ys) = (x < y \<or> x = y \<and> bytes_less xs ys)"

definition bytes_of :: "string \<Rightarrow> bytes" where
  "bytes_of s = map of_char s"

text \<open>\<^verbatim>\<open>emplace\<close>, which keeps an entry that is there, and assignment through \<^verbatim>\<open>operator[]\<close>, which replaces it.\<close>

fun obj_emplace :: "bytes \<Rightarrow> json \<Rightarrow> (bytes \<times> json) list \<Rightarrow> (bytes \<times> json) list" where
  "obj_emplace k v [] = [(k, v)]"
| "obj_emplace k v ((k', v') # es) =
     (if bytes_less k k' then (k, v) # (k', v') # es
      else if k = k' then (k', v') # es
      else (k', v') # obj_emplace k v es)"

fun obj_assign :: "bytes \<Rightarrow> json \<Rightarrow> (bytes \<times> json) list \<Rightarrow> (bytes \<times> json) list" where
  "obj_assign k v [] = [(k, v)]"
| "obj_assign k v ((k', v') # es) =
     (if bytes_less k k' then (k, v) # (k', v') # es
      else if k = k' then (k', v) # es
      else (k', v') # obj_assign k v es)"

fun is_pair :: "json \<Rightarrow> bool" where
  "is_pair (JArray [JString s, v]) = True"
| "is_pair _ = False"

fun pair_key :: "json \<Rightarrow> bytes" where
  "pair_key (JArray (JString s # vs)) = s"
| "pair_key _ = []"

fun pair_value :: "json \<Rightarrow> json" where
  "pair_value (JArray [k, v]) = v"
| "pair_value _ = JNull"

text \<open>\<^verbatim>\<open>json{...}\<close>: an object exactly when every element is an array of a string and one more value.\<close>

definition json_init :: "json list \<Rightarrow> json" where
  "json_init init =
     (if list_all is_pair init
      then JObject (fold (\<lambda>e obj. obj_emplace (pair_key e) (pair_value e) obj) init [])
      else JArray init)"

section \<open>Accessors\<close>

definition json_at :: "json \<Rightarrow> nat \<Rightarrow> json res" where
  "json_at j idx = (case j of
      JArray vs \<Rightarrow> if idx < length vs then Inr (vs ! idx) else Inl (Uncaught (OutOfRange 401))
    | _ \<Rightarrow> Inl (Uncaught (TypeError 304)))"

definition json_at_key :: "json \<Rightarrow> bytes \<Rightarrow> json res" where
  "json_at_key j key = (case j of
      JObject es \<Rightarrow> (case map_of es key of None \<Rightarrow> Inl (Uncaught (OutOfRange 403)) | Some v \<Rightarrow> Inr v)
    | _ \<Rightarrow> Inl (Uncaught (TypeError 304)))"

section \<open>Conversions from values\<close>

text \<open>The integer part of a double, none for an infinity or a NaN.\<close>

definition double_trunc :: "u64 \<Rightarrow> int option" where
  "double_trunc d =
     (let e = unat (take_bit 11 (drop_bit 52 d)); m = int (unat (take_bit 52 d)) + 2 ^ 52;
          a = (if e = 0 then 0 else if 1075 \<le> e then m * 2 ^ (e - 1075) else m div 2 ^ (1075 - e))
      in if e = 2047 then None else Some (if bit d 63 then - a else a))"

text \<open>\<^verbatim>\<open>static_cast<T>(d)\<close> to an unsigned type is undefined when the integer part does not fit.\<close>

definition float_cast :: "u64 \<Rightarrow> 'w :: len word res" where
  "float_cast d = (case double_trunc d of
      Some n \<Rightarrow> if 0 \<le> n \<and> n < 2 ^ LENGTH('w) then Inr (word_of_int n) else Inl (UB FloatToIntRange)
    | None \<Rightarrow> Inl (UB FloatToIntRange))"

definition get_arithmetic_value :: "json \<Rightarrow> 'w :: len word res" where
  "get_arithmetic_value j = (case j of
      JUnsigned u \<Rightarrow> Inr (ucast u)
    | JInteger i \<Rightarrow> Inr (ucast i)
    | JFloat d \<Rightarrow> float_cast d
    | _ \<Rightarrow> Inl (Uncaught (TypeError 302)))"

text \<open>The overload for the other arithmetic types, here \<^verbatim>\<open>uint8_t\<close> and \<^verbatim>\<open>uint32_t\<close>, takes booleans too.\<close>

definition from_json_arith :: "json \<Rightarrow> 'w :: len word res" where
  "from_json_arith j = (case j of
      JUnsigned u \<Rightarrow> Inr (ucast u)
    | JInteger i \<Rightarrow> Inr (ucast i)
    | JFloat d \<Rightarrow> float_cast d
    | JBoolean b \<Rightarrow> Inr (of_bool b)
    | _ \<Rightarrow> Inl (Uncaught (TypeError 302)))"

definition from_json_string :: "json \<Rightarrow> bytes res" where
  "from_json_string j = (case j of JString s \<Rightarrow> Inr s | _ \<Rightarrow> Inl (Uncaught (TypeError 302)))"

text \<open>A C array takes the first elements, one checked access each; a vector takes a whole array.\<close>

definition from_json_carray :: "json \<Rightarrow> bytes \<Rightarrow> bytes res" where
  "from_json_carray j arr =
     rfold (\<lambda>i arr. rbind (json_at j i) (\<lambda>e. rbind (from_json_arith e) (\<lambda>b. Inr (arr[i := b]))))
       [0..<length arr] arr"

definition from_json_array_impl :: "json list \<Rightarrow> bytes res" where
  "from_json_array_impl vs = rfold (\<lambda>e ret. rbind (from_json_arith e) (\<lambda>b. Inr (ret @ [b]))) vs []"

definition from_json_vector :: "json \<Rightarrow> bytes res" where
  "from_json_vector j = (case j of
      JArray vs \<Rightarrow> from_json_array_impl vs
    | _ \<Rightarrow> Inl (Uncaught (TypeError 302)))"

section \<open>Conversions to values\<close>

definition to_json_unsigned :: "'w :: len word \<Rightarrow> json" where
  "to_json_unsigned w = JUnsigned (ucast w)"

definition to_json_enum :: "u16 \<Rightarrow> json" where
  "to_json_enum e = JInteger (ucast e)"

definition to_json_string :: "bytes \<Rightarrow> json" where
  "to_json_string s = JString s"

definition to_json_array :: "bytes \<Rightarrow> json" where
  "to_json_array arr = JArray (map to_json_unsigned arr)"

section \<open>Facts\<close>

lemma bytes_less_irrefl [simp]: "\<not> bytes_less xs xs"
  by (induction xs) auto

lemma bytes_less_trans: "bytes_less xs ys \<Longrightarrow> bytes_less ys zs \<Longrightarrow> bytes_less xs zs"
proof (induction xs ys arbitrary: zs rule: bytes_less.induct)
  case (2 y ys)
  then show ?case by (cases zs) auto
next
  case (3 x xs y ys)
  then show ?case by (cases zs) auto
qed simp

lemma bytes_less_linear: "bytes_less xs ys \<or> xs = ys \<or> bytes_less ys xs"
proof (induction xs ys rule: bytes_less.induct)
  case (1 xs)
  then show ?case by (cases xs) auto
qed auto

definition keys_ascend :: "(bytes \<times> json) list \<Rightarrow> bool" where
  "keys_ascend es \<longleftrightarrow> sorted_wrt (\<lambda>x y. bytes_less (fst x) (fst y)) es"

lemma keys_ascend_Nil [simp]: "keys_ascend []"
  by (simp add: keys_ascend_def)

lemma keys_ascend_Cons: "keys_ascend (e # es) \<longleftrightarrow> (\<forall>e' \<in> set es. bytes_less (fst e) (fst e')) \<and> keys_ascend es"
  by (simp add: keys_ascend_def)

lemma obj_assign_last:
  "\<forall>e \<in> set es. bytes_less (fst e) k \<Longrightarrow> obj_assign k v es = es @ [(k, v)]"
proof (induction es)
  case (Cons e es)
  obtain k' v' where e: "e = (k', v')" by (cases e)
  with Cons.prems have "bytes_less k' k" by simp
  then have "\<not> bytes_less k k'" "k \<noteq> k'" using bytes_less_trans [of k k' k] by auto
  with Cons e show ?case by simp
qed simp

lemma map_of_obj_assign:
  "keys_ascend es \<Longrightarrow> map_of (obj_assign k v es) = (map_of es)(k \<mapsto> v)"
proof (induction es)
  case (Cons e es)
  obtain k' v' where e: "e = (k', v')" by (cases e)
  from Cons have "map_of (obj_assign k v es) = (map_of es)(k \<mapsto> v)" unfolding keys_ascend_Cons by blast
  then show ?case unfolding e by (intro ext) simp
qed simp

lemma set_obj_assign: "fst ` set (obj_assign k v es) = insert k (fst ` set es)"
  by (induction k v es rule: obj_assign.induct) auto

lemma keys_ascend_obj_assign: "keys_ascend es \<Longrightarrow> keys_ascend (obj_assign k v es)"
proof (induction es)
  case (Cons e es)
  obtain k' v' where e: "e = (k', v')" by (cases e)
  have asc: "\<forall>e' \<in> set es. bytes_less k' (fst e')" "keys_ascend es"
    using Cons.prems e by (auto simp: keys_ascend_Cons)
  show ?case
  proof (cases "bytes_less k k'")
    case True
    then show ?thesis using asc e bytes_less_trans by (auto simp: keys_ascend_Cons)
  next
    case False
    show ?thesis
    proof (cases "k = k'")
      case True
      then show ?thesis using asc e by (simp add: keys_ascend_Cons)
    next
      case neq: False
      then have "bytes_less k' k" using False bytes_less_linear by blast
      moreover have "\<forall>e' \<in> set (obj_assign k v es). fst e' \<in> insert k (fst ` set es)"
        using set_obj_assign [of k v es] by auto
      ultimately have "bytes_less k' (fst e')" if "e' \<in> set (obj_assign k v es)" for e'
        using asc(1) that by (metis image_iff insertE)
      then show ?thesis using False neq e Cons.IH asc(2) by (simp add: keys_ascend_Cons)
    qed
  qed
qed (simp add: keys_ascend_Cons)

lemma ucast_ucast_8_64 [simp]: "ucast (ucast (b :: u8) :: u64) = b"
  by (rule bit_word_eqI) (simp add: bit_ucast_iff)

lemma ucast_ucast_32_64 [simp]: "ucast (ucast (b :: u32) :: u64) = b"
  by (rule bit_word_eqI) (simp add: bit_ucast_iff)

lemma ucast_ucast_16_64 [simp]: "ucast (ucast (b :: u16) :: u64) = b"
  by (rule bit_word_eqI) (simp add: bit_ucast_iff)

lemma from_json_array_impl_unsigned:
  "from_json_array_impl (map to_json_unsigned (bs :: bytes)) = Inr bs"
proof -
  have "rfold (\<lambda>e ret. rbind (from_json_arith e) (\<lambda>b. Inr (ret @ [b]))) (map to_json_unsigned bs) acc
      = Inr (acc @ bs)" for acc
    by (induction bs arbitrary: acc) (simp_all add: to_json_unsigned_def from_json_arith_def)
  then show ?thesis by (simp add: from_json_array_impl_def)
qed

lemma from_json_carray_eq:
  assumes "length vs \<ge> length arr" and "\<And>i. i < length arr \<Longrightarrow> from_json_arith (vs ! i) = Inr (bs ! i)"
    and "length bs = length arr"
  shows "from_json_carray (JArray vs) arr = Inr bs"
proof -
  have "rfold (\<lambda>i arr. rbind (json_at (JArray vs) i) (\<lambda>e. rbind (from_json_arith e) (\<lambda>b. Inr (arr[i := b]))))
       [0..<n] arr = Inr (take n bs @ drop n arr)" if "n \<le> length arr" for n
    using that
  proof (induction n)
    case (Suc n)
    have "(take n bs @ drop n arr)[n := bs ! n] = take (Suc n) bs @ drop (Suc n) arr"
      using Suc.prems assms(3) by (simp add: list_update_append take_Suc_conv_app_nth Cons_nth_drop_Suc [symmetric])
    then show ?case using Suc assms by (simp add: rfold_append json_at_def)
  qed simp
  from this [of "length arr"] assms(3) show ?thesis by (simp add: from_json_carray_def)
qed

end
