(* ===== verification/Bson.thy ===== *)
theory Bson
  imports Json Contracts
begin

text \<open>
  BSON as \<^verbatim>\<open>json::to_bson\<close> writes it and \<^verbatim>\<open>json::from_bson\<close> reads it (\<^verbatim>\<open>include/json/json.hpp\<close>, the
  \<^verbatim>\<open>binary_writer\<close>, the \<^verbatim>\<open>binary_reader\<close> and the DOM builder behind it), with the round trip and the
  length prefix every document starts with. The host is little-endian.
\<close>

section \<open>The writer\<close>

definition calc_bson_entry_header_size :: "bytes \<Rightarrow> nat res" where
  "calc_bson_entry_header_size name =
     (if 0 \<in> set name then Inl (Uncaught (OutOfRange 409)) else Inr (1 + length name + 1))"

definition write_bson_entry_header :: "bytes \<Rightarrow> u8 \<Rightarrow> bytes" where
  "write_bson_entry_header name element_type = element_type # name @ [0]"

definition write_bson_boolean :: "bytes \<Rightarrow> bool \<Rightarrow> bytes" where
  "write_bson_boolean name value = write_bson_entry_header name 0x08 @ [if value then 1 else 0]"

definition write_bson_double :: "bytes \<Rightarrow> u64 \<Rightarrow> bytes" where
  "write_bson_double name value = write_bson_entry_header name 0x01 @ write_number value"

definition calc_bson_string_size :: "bytes \<Rightarrow> nat" where
  "calc_bson_string_size value = 4 + length value + 1"

definition write_bson_string :: "bytes \<Rightarrow> bytes \<Rightarrow> bytes" where
  "write_bson_string name value =
     write_bson_entry_header name 0x02 @ write_number (of_nat (length value + 1) :: u32) @ value @ [0]"

definition write_bson_null :: "bytes \<Rightarrow> bytes" where
  "write_bson_null name = write_bson_entry_header name 0x0A"

definition fits_int32 :: "u64 \<Rightarrow> bool" where
  "fits_int32 value \<longleftrightarrow> - 2147483648 \<le> sint value \<and> sint value \<le> 2147483647"

definition calc_bson_integer_size :: "u64 \<Rightarrow> nat" where
  "calc_bson_integer_size value = (if fits_int32 value then 4 else 8)"

definition write_bson_integer :: "bytes \<Rightarrow> u64 \<Rightarrow> bytes" where
  "write_bson_integer name value =
     (if fits_int32 value
      then write_bson_entry_header name 0x10 @ write_number (ucast value :: u32)
      else write_bson_entry_header name 0x12 @ write_number value)"

definition calc_bson_unsigned_size :: "u64 \<Rightarrow> nat" where
  "calc_bson_unsigned_size value = (if value \<le> 2147483647 then 4 else 8)"

definition write_bson_unsigned :: "bytes \<Rightarrow> u64 \<Rightarrow> bytes res" where
  "write_bson_unsigned name value =
     (if value \<le> 2147483647
      then Inr (write_bson_entry_header name 0x10 @ write_number (ucast value :: u32))
      else if value \<le> 9223372036854775807
      then Inr (write_bson_entry_header name 0x12 @ write_number value)
      else Inl (Uncaught (OutOfRange 407)))"

definition calc_bson_binary_size :: "bytes \<Rightarrow> nat" where
  "calc_bson_binary_size value = 4 + length value + 1"

definition write_bson_binary :: "bytes \<Rightarrow> bytes \<Rightarrow> u8 option \<Rightarrow> bytes" where
  "write_bson_binary name value subtype =
     write_bson_entry_header name 0x05 @ write_number (of_nat (length value) :: u32)
     @ write_number (case subtype of Some t \<Rightarrow> t | None \<Rightarrow> 0) @ value"

text \<open>\<^verbatim>\<open>std::to_string\<close> of an array index.\<close>

definition index_name :: "nat \<Rightarrow> bytes" where
  "index_name i = bytes_of (show_nat i)"

text \<open>
  The sizes, by structural recursion: an element, the entries of an object, the elements of an array
  from a given index on. A document adds the four bytes of its length and the closing zero.
\<close>

fun calc_bson_element_size :: "bytes \<Rightarrow> json \<Rightarrow> nat res"
  and calc_entries_size :: "(bytes \<times> json) list \<Rightarrow> nat res"
  and calc_items_size :: "nat \<Rightarrow> json list \<Rightarrow> nat res" where
  "calc_bson_element_size name j =
     rbind (calc_bson_entry_header_size name) (\<lambda>header_size. case j of
         JObject es \<Rightarrow> rbind (calc_entries_size es) (\<lambda>n. Inr (header_size + (4 + n + 1)))
       | JArray vs \<Rightarrow> rbind (calc_items_size 0 vs) (\<lambda>n. Inr (header_size + (4 + n + 1)))
       | JBinary b st \<Rightarrow> Inr (header_size + calc_bson_binary_size b)
       | JBoolean b \<Rightarrow> Inr (header_size + 1)
       | JFloat d \<Rightarrow> Inr (header_size + 8)
       | JInteger i \<Rightarrow> Inr (header_size + calc_bson_integer_size i)
       | JUnsigned u \<Rightarrow> Inr (header_size + calc_bson_unsigned_size u)
       | JString s \<Rightarrow> Inr (header_size + calc_bson_string_size s)
       | JNull \<Rightarrow> Inr (header_size + 0)
       | JDiscarded \<Rightarrow> Inl AssertFail)"
| "calc_entries_size [] = Inr 0"
| "calc_entries_size ((k, v) # es) =
     rbind (calc_bson_element_size k v) (\<lambda>n. rbind (calc_entries_size es) (\<lambda>m. Inr (n + m)))"
| "calc_items_size i [] = Inr 0"
| "calc_items_size i (v # vs) =
     rbind (calc_bson_element_size (index_name i) v) (\<lambda>n. rbind (calc_items_size (Suc i) vs) (\<lambda>m. Inr (n + m)))"

definition calc_bson_object_size :: "(bytes \<times> json) list \<Rightarrow> nat res" where
  "calc_bson_object_size value = rbind (calc_entries_size value) (\<lambda>n. Inr (4 + n + 1))"

definition calc_bson_array_size :: "json list \<Rightarrow> nat res" where
  "calc_bson_array_size value = rbind (calc_items_size 0 value) (\<lambda>n. Inr (4 + n + 1))"

fun write_bson_element :: "bytes \<Rightarrow> json \<Rightarrow> bytes res"
  and write_bson_object :: "(bytes \<times> json) list \<Rightarrow> bytes res"
  and write_bson_array :: "bytes \<Rightarrow> json list \<Rightarrow> bytes res"
  and write_entries :: "(bytes \<times> json) list \<Rightarrow> bytes res"
  and write_items :: "nat \<Rightarrow> json list \<Rightarrow> bytes res" where
  "write_bson_element name (JObject es) =
     rbind (write_bson_object es) (\<lambda>d. Inr (write_bson_entry_header name 0x03 @ d))"
| "write_bson_element name (JArray vs) = write_bson_array name vs"
| "write_bson_element name (JBinary b st) = Inr (write_bson_binary name b st)"
| "write_bson_element name (JBoolean b) = Inr (write_bson_boolean name b)"
| "write_bson_element name (JFloat d) = Inr (write_bson_double name d)"
| "write_bson_element name (JInteger i) = Inr (write_bson_integer name i)"
| "write_bson_element name (JUnsigned u) = write_bson_unsigned name u"
| "write_bson_element name (JString s) = Inr (write_bson_string name s)"
| "write_bson_element name JNull = Inr (write_bson_null name)"
| "write_bson_element name JDiscarded = Inl AssertFail"
| "write_bson_object es =
     rbind (calc_bson_object_size es) (\<lambda>size. rbind (write_entries es) (\<lambda>body.
     Inr (write_number (of_nat size :: u32) @ body @ [0])))"
| "write_bson_array name vs =
     rbind (calc_bson_array_size vs) (\<lambda>size. rbind (write_items 0 vs) (\<lambda>body.
     Inr (write_bson_entry_header name 0x04 @ write_number (of_nat size :: u32) @ body @ [0])))"
| "write_entries [] = Inr []"
| "write_entries ((k, v) # es) =
     rbind (write_bson_element k v) (\<lambda>b. rbind (write_entries es) (\<lambda>bs. Inr (b @ bs)))"
| "write_items i [] = Inr []"
| "write_items i (v # vs) =
     rbind (write_bson_element (index_name i) v) (\<lambda>b. rbind (write_items (Suc i) vs) (\<lambda>bs. Inr (b @ bs)))"

definition to_bson :: "json \<Rightarrow> bytes res" where
  "to_bson j = (case j of JObject es \<Rightarrow> write_bson_object es | _ \<Rightarrow> Inl (Uncaught (TypeError 317)))"

section \<open>The reader\<close>

text \<open>
  A reading operation returns its value and the unread input, \<open>None\<close> when it returns false without an
  exception (a string cut off before its last byte), or throws.
\<close>

type_synonym 'a rd = "('a \<times> bytes) option res"

definition pbind :: "'a rd \<Rightarrow> ('a \<Rightarrow> bytes \<Rightarrow> 'b rd) \<Rightarrow> 'b rd" where
  "pbind m f = rbind m (\<lambda>r. case r of None \<Rightarrow> Inr None | Some (a, i) \<Rightarrow> f a i)"

lemma pbind_simps [simp]:
  "pbind (Inl e) f = Inl e" "pbind (Inr None) f = Inr None" "pbind (Inr (Some (a, i))) f = f a i"
  by (simp_all add: pbind_def)

lemma pbind_cong [fundef_cong]:
  "m = m' \<Longrightarrow> (\<And>a i. m' = Inr (Some (a, i)) \<Longrightarrow> f a i = g a i) \<Longrightarrow> pbind m f = pbind m' g"
  by (cases m') (auto simp: pbind_def split: option.split)

text \<open>\<^verbatim>\<open>get\<close> followed by \<^verbatim>\<open>unexpect_eof\<close>.\<close>

fun get_byte :: "bytes \<Rightarrow> u8 rd" where
  "get_byte [] = Inl (Uncaught (ParseError 110))"
| "get_byte (b # i) = Inr (Some (b, i))"

definition get_string :: "nat \<Rightarrow> bytes \<Rightarrow> bytes rd" where
  "get_string len i =
     (if len \<le> length i then Inr (Some (take len i, drop len i)) else Inl (Uncaught (ParseError 110)))"

definition get_number :: "bytes \<Rightarrow> 'w :: len word rd" where
  "get_number i = pbind (get_string (LENGTH('w) div 8) i) (\<lambda>vec i. Inr (Some (bytes_word vec, i)))"

fun get_bson_cstr :: "bytes \<Rightarrow> bytes rd" where
  "get_bson_cstr [] = Inl (Uncaught (ParseError 110))"
| "get_bson_cstr (b # i) =
     (if b = 0 then Inr (Some ([], i)) else pbind (get_bson_cstr i) (\<lambda>result i. Inr (Some (b # result, i))))"

definition get_bson_string :: "u32 \<Rightarrow> bytes \<Rightarrow> bytes rd" where
  "get_bson_string len i =
     (if sint len < 1 then Inl (Uncaught (ParseError 112))
      else pbind (get_string (nat (sint len - 1)) i) (\<lambda>result i.
           case i of [] \<Rightarrow> Inr None | _ # i \<Rightarrow> Inr (Some (result, i))))"

definition get_bson_binary :: "u32 \<Rightarrow> bytes \<Rightarrow> (bytes \<times> u8 option) rd" where
  "get_bson_binary len i =
     (if sint len < 0 then Inl (Uncaught (ParseError 112))
      else pbind (get_number i) (\<lambda>subtype i.
           pbind (get_string (nat (sint len)) i) (\<lambda>result i. Inr (Some ((result, Some subtype), i)))))"

text \<open>The DOM builder puts a value under the current key of an object or at the end of an array.\<close>

fun dom_put :: "json \<Rightarrow> bytes \<Rightarrow> json \<Rightarrow> json" where
  "dom_put (JArray vs) key v = JArray (vs @ [v])"
| "dom_put (JObject es) key v = JObject (obj_assign key v es)"
| "dom_put c key v = c"

text \<open>
  The reader proper; the first argument bounds the number of elements still to be read, each of which
  takes at least one byte, so the length of the input is enough.
\<close>

fun parse_bson_element_internal :: "nat \<Rightarrow> u8 \<Rightarrow> bytes \<Rightarrow> json rd"
  and parse_bson_element_list :: "nat \<Rightarrow> json \<Rightarrow> bytes \<Rightarrow> json rd" where
  "parse_bson_element_internal n element_type i =
     (if element_type = 0x01 then pbind (get_number i) (\<lambda>number i. Inr (Some (JFloat number, i)))
      else if element_type = 0x02 then
        pbind (get_number i) (\<lambda>len i. pbind (get_bson_string len i) (\<lambda>value i. Inr (Some (JString value, i))))
      else if element_type = 0x03 then
        pbind (get_number i) (\<lambda>(document_size :: u32) i. parse_bson_element_list n (JObject []) i)
      else if element_type = 0x04 then
        pbind (get_number i) (\<lambda>(document_size :: u32) i. parse_bson_element_list n (JArray []) i)
      else if element_type = 0x05 then
        pbind (get_number i) (\<lambda>len i. pbind (get_bson_binary len i) (\<lambda>(b, st) i. Inr (Some (JBinary b st, i))))
      else if element_type = 0x08 then
        (case i of [] \<Rightarrow> Inr (Some (JBoolean True, [])) | b # i \<Rightarrow> Inr (Some (JBoolean (b \<noteq> 0), i)))
      else if element_type = 0x0A then Inr (Some (JNull, i))
      else if element_type = 0x10 then
        pbind (get_number i) (\<lambda>(value :: u32) i. Inr (Some (JInteger (scast value), i)))
      else if element_type = 0x12 then
        pbind (get_number i) (\<lambda>value i. Inr (Some (JInteger value, i)))
      else Inl (Uncaught (ParseError 114)))"
| "parse_bson_element_list 0 c i = Inl (UB StackOverflow)"
| "parse_bson_element_list (Suc n) c i =
     pbind (get_byte i) (\<lambda>element_type i.
     if element_type = 0 then Inr (Some (c, i))
     else pbind (get_bson_cstr i) (\<lambda>key i.
          pbind (parse_bson_element_internal n element_type i) (\<lambda>v i.
          parse_bson_element_list n (dom_put c key v) i)))"

definition parse_bson_internal :: "bytes \<Rightarrow> json rd" where
  "parse_bson_internal i =
     pbind (get_number i) (\<lambda>(document_size :: u32) i. parse_bson_element_list (Suc (length i)) (JObject []) i)"

text \<open>The strict mode: after the document the input must be at its end.\<close>

definition sax_parse :: "bytes \<Rightarrow> json option res" where
  "sax_parse i =
     rbind (parse_bson_internal i) (\<lambda>r. case r of
         None \<Rightarrow> Inr None
       | Some (j, []) \<Rightarrow> Inr (Some j)
       | Some (j, _ # _) \<Rightarrow> Inl (Uncaught (ParseError 110)))"

definition from_bson :: "bytes \<Rightarrow> json res" where
  "from_bson i = rbind (sax_parse i) (\<lambda>res. Inr (case res of None \<Rightarrow> JDiscarded | Some j \<Rightarrow> j))"

section \<open>The length of a document is its prefix\<close>

lemma length_entry_header [simp]: "length (write_bson_entry_header name t) = length name + 2"
  by (simp add: write_bson_entry_header_def)

lemma length_write_number_32 [simp]: "length (write_number (n :: u32)) = 4"
  and length_write_number_64 [simp]: "length (write_number (m :: u64)) = 8"
  and length_write_number_8 [simp]: "length (write_number (k :: u8)) = 1"
  by simp_all

lemmas bson_size_defs = calc_bson_entry_header_size_def calc_bson_string_size_def calc_bson_binary_size_def
  calc_bson_integer_size_def calc_bson_unsigned_size_def

lemmas bson_write_defs = write_bson_boolean_def write_bson_double_def write_bson_string_def write_bson_null_def
  write_bson_integer_def write_bson_unsigned_def write_bson_binary_def

lemma calc_size_correct:
  "calc_bson_element_size name j = Inr n \<Longrightarrow> write_bson_element name j = Inr bs \<Longrightarrow> length bs = n"
  "calc_entries_size es = Inr n \<Longrightarrow> write_entries es = Inr bs \<Longrightarrow> length bs = n"
  "calc_items_size i vs = Inr n \<Longrightarrow> write_items i vs = Inr bs \<Longrightarrow> length bs = n"
proof (induction name j and es and i vs arbitrary: n bs and n bs and n bs
    rule: calc_bson_element_size_calc_entries_size_calc_items_size.induct)
  case (1 name j)
  note header = calc_bson_entry_header_size_def
  show ?case
  proof (cases j)
    case (JObject es)
    with 1 show ?thesis
      by (auto simp: rbind_Inr_iff calc_bson_object_size_def header split: if_splits)
  next
    case (JArray vs)
    with 1 show ?thesis
      by (auto simp: rbind_Inr_iff calc_bson_array_size_def header split: if_splits)
  qed (use 1 in \<open>auto simp: rbind_Inr_iff bson_size_defs bson_write_defs split: if_splits\<close>)
qed (fastforce simp: rbind_Inr_iff simp del: calc_bson_element_size.simps)+

lemma write_bson_object_length:
  assumes "write_bson_object es = Inr bs"
  shows "\<exists>rest. bs = write_number (of_nat (length bs) :: u32) @ rest"
proof -
  from assms obtain size body where s: "calc_bson_object_size es = Inr size" "write_entries es = Inr body"
    "bs = write_number (of_nat size :: u32) @ body @ [0]"
    by (auto simp: rbind_Inr_iff)
  then have "size = length bs"
    using calc_size_correct(2) [of es] by (auto simp: calc_bson_object_size_def rbind_Inr_iff)
  then show ?thesis using s(3) by metis
qed

section \<open>The round trip\<close>

text \<open>
  What a value is after a round trip: BSON has no unsigned numbers, and the reader always sets a
  binary's subtype.
\<close>

fun bson_norm :: "json \<Rightarrow> json" where
  "bson_norm (JObject es) = JObject (map (\<lambda>(k, v). (k, bson_norm v)) es)"
| "bson_norm (JArray vs) = JArray (map bson_norm vs)"
| "bson_norm (JUnsigned u) = JInteger u"
| "bson_norm (JBinary b st) = JBinary b (Some (case st of Some t \<Rightarrow> t | None \<Rightarrow> 0))"
| "bson_norm j = j"

text \<open>The values BSON can carry: objects in key order, texts and binaries within an \<^verbatim>\<open>int32_t\<close> length.\<close>

fun bson_ok :: "json \<Rightarrow> bool" where
  "bson_ok (JObject es) = (keys_ascend es \<and> (\<forall>(k, v) \<in> set es. 0 \<notin> set k \<and> bson_ok v))"
| "bson_ok (JArray vs) = (\<forall>v \<in> set vs. bson_ok v)"
| "bson_ok (JString s) = (length s < 2147483647)"
| "bson_ok (JBinary b st) = (length b < 2147483648)"
| "bson_ok (JUnsigned u) = (u \<le> 9223372036854775807)"
| "bson_ok JDiscarded = False"
| "bson_ok j = True"

fun bson_type :: "json \<Rightarrow> u8" where
  "bson_type (JFloat d) = 0x01"
| "bson_type (JString s) = 0x02"
| "bson_type (JObject es) = 0x03"
| "bson_type (JArray vs) = 0x04"
| "bson_type (JBinary b st) = 0x05"
| "bson_type (JBoolean b) = 0x08"
| "bson_type JNull = 0x0A"
| "bson_type (JInteger i) = (if fits_int32 i then 0x10 else 0x12)"
| "bson_type (JUnsigned u) = (if u \<le> 2147483647 then 0x10 else 0x12)"
| "bson_type JDiscarded = 0"

lemma get_string_append: "length s = n \<Longrightarrow> get_string n (s @ i) = Inr (Some (s, i))"
  by (simp add: get_string_def)

lemma get_number_write:
  fixes n :: "'w :: len word"
  assumes "8 dvd LENGTH('w)"
  shows "get_number (write_number n @ i) = Inr (Some (n, i))"
proof -
  have "get_string (LENGTH('w) div 8) (write_number n @ i) = Inr (Some (write_number n, i))"
    by (rule get_string_append) simp
  then show ?thesis by (simp add: get_number_def bytes_word_write_number [OF assms])
qed

lemma get_number_write_32 [simp]: "get_number (write_number (n :: u32) @ i) = Inr (Some (n, i))"
  and get_number_write_64 [simp]: "get_number (write_number (m :: u64) @ i) = Inr (Some (m, i))"
  and get_number_write_8 [simp]: "get_number (write_number (k :: u8) @ i) = Inr (Some (k, i))"
  by (rule get_number_write, simp)+

lemma get_bson_cstr_append: "0 \<notin> set name \<Longrightarrow> get_bson_cstr (name @ 0 # i) = Inr (Some (name, i))"
  by (induction name) auto

lemma sint_of_nat_32: "n < 2147483648 \<Longrightarrow> sint (of_nat n :: u32) = int n"
proof -
  assume n: "n < 2147483648"
  then have "unat (of_nat n :: u32) = n" by (simp add: unat_of_nat)
  then show ?thesis using int_of_u32_small [of "of_nat n"] n by (simp add: int_of_u32_def)
qed

lemma get_bson_string_write:
  assumes "length s < 2147483647"
  shows "get_bson_string (of_nat (length s + 1)) (s @ 0 # i) = Inr (Some (s, i))"
proof -
  have "sint (of_nat (length s + 1) :: u32) = int (length s + 1)" by (rule sint_of_nat_32) (use assms in simp)
  then show ?thesis unfolding get_bson_string_def by (simp add: get_string_append)
qed

lemma get_bson_binary_write:
  assumes "length b < 2147483648"
  shows "get_bson_binary (of_nat (length b)) (write_number (t :: u8) @ b @ i) = Inr (Some ((b, Some t), i))"
  using assms by (simp add: get_bson_binary_def sint_of_nat_32 get_string_append)

lemma scast_ucast_int32: "fits_int32 v \<Longrightarrow> scast (ucast v :: u32) = v"
proof (rule signed_word_eqI)
  assume v: "fits_int32 v"
  have "sint (ucast v :: u32) = signed_take_bit 31 (sint v)"
    by (simp add: sint_uint unsigned_ucast_eq signed_take_bit_take_bit signed_take_bit_signed_take_bit)
  also have v31: "\<dots> = sint v" using v by (simp add: fits_int32_def signed_take_bit_int_eq_self)
  finally have u: "sint (ucast v :: u32) = sint v" .
  show "sint (scast (ucast v :: u32) :: u64) = sint v"
    unfolding signed_scast_eq u using v by (simp add: fits_int32_def signed_take_bit_int_eq_self)
qed

lemma fits_int32_unsigned: "u \<le> 2147483647 \<Longrightarrow> fits_int32 u"
proof -
  assume "u \<le> 2147483647"
  then have u: "uint u \<le> 2147483647" by (simp add: word_le_def)
  moreover have u0: "0 \<le> uint u" by simp
  ultimately have "signed_take_bit 63 (uint u) = uint u"
    by (intro signed_take_bit_int_eq_self) (rule order_trans [OF _ u0], simp, simp)
  then have "sint u = uint u" by (simp add: sint_uint)
  then show ?thesis unfolding fits_int32_def using u u0 by linarith
qed

lemma get_bson_string_write' [simp]:
  "length s < 2147483647 \<Longrightarrow> get_bson_string (1 + of_nat (length s)) (s @ 0 # i) = Inr (Some (s, i))"
  using get_bson_string_write [of s i] by simp

lemma bson_type_nonzero: "bson_ok j \<Longrightarrow> bson_type j \<noteq> 0"
  by (cases j) auto

lemma index_name_no_zero: "0 \<notin> set (index_name i)"
proof -
  have digit: "(of_char (char_of (48 + d)) :: u8) \<noteq> 0" if "d < 10" for d :: nat
  proof -
    have "(of_char (char_of (48 + d)) :: u8) = of_nat (of_char (char_of (48 + d) :: char))"
      by (rule of_nat_of_char [symmetric])
    also have "\<dots> = of_nat (48 + d)" using that by simp
    finally have "unat (of_char (char_of (48 + d)) :: u8) = 48 + d" using that by (simp add: unat_of_nat del: of_nat_add)
    then show ?thesis by auto
  qed
  have "\<forall>c \<in> set (show_nat i). (of_char c :: u8) \<noteq> 0"
  proof (induction i rule: show_nat.induct)
    case (1 n)
    then show ?case using digit [of n] digit [of "n mod 10"] by (subst show_nat.simps) auto
  qed
  then show ?thesis by (auto simp: index_name_def bytes_of_def)
qed

lemma parse_elem_simps:
  "parse_bson_element_internal n 0x01 i = pbind (get_number i) (\<lambda>number i. Inr (Some (JFloat number, i)))"
  "parse_bson_element_internal n 0x02 i =
     pbind (get_number i) (\<lambda>len i. pbind (get_bson_string len i) (\<lambda>value i. Inr (Some (JString value, i))))"
  "parse_bson_element_internal n 0x03 i =
     pbind (get_number i) (\<lambda>(document_size :: u32) i. parse_bson_element_list n (JObject []) i)"
  "parse_bson_element_internal n 0x04 i =
     pbind (get_number i) (\<lambda>(document_size :: u32) i. parse_bson_element_list n (JArray []) i)"
  "parse_bson_element_internal n 0x05 i =
     pbind (get_number i) (\<lambda>len i. pbind (get_bson_binary len i) (\<lambda>(b, st) i. Inr (Some (JBinary b st, i))))"
  "parse_bson_element_internal n 0x08 (b # i) = Inr (Some (JBoolean (b \<noteq> 0), i))"
  "parse_bson_element_internal n 0x0A i = Inr (Some (JNull, i))"
  "parse_bson_element_internal n 0x10 i = pbind (get_number i) (\<lambda>(value :: u32) i. Inr (Some (JInteger (scast value), i)))"
  "parse_bson_element_internal n 0x12 i = pbind (get_number i) (\<lambda>value i. Inr (Some (JInteger value, i)))"
  by simp_all

declare parse_bson_element_internal.simps [simp del]

definition reads_back :: "json \<Rightarrow> bytes \<Rightarrow> bool" where
  "reads_back j p \<longleftrightarrow> (\<forall>n i. length p \<le> n \<longrightarrow>
     parse_bson_element_internal n (bson_type j) (p @ i) = Inr (Some (bson_norm j, i)))"

lemma parse_list_step:
  assumes "bson_ok v" and "0 \<notin> set k" and "reads_back v p" and "length p \<le> n"
  shows "parse_bson_element_list (Suc n) c (write_bson_entry_header k (bson_type v) @ p @ i) =
    parse_bson_element_list n (dom_put c k (bson_norm v)) i"
  using assms
  by (simp add: write_bson_entry_header_def bson_type_nonzero get_bson_cstr_append reads_back_def)

lemma write_reads_back:
  "write_bson_element name j = Inr bs \<Longrightarrow> bson_ok j \<Longrightarrow>
    \<exists>p. bs = write_bson_entry_header name (bson_type j) @ p \<and> reads_back j p"
  "write_bson_object es = Inr d \<Longrightarrow> bson_ok (JObject es) \<Longrightarrow> reads_back (JObject es) d"
  "write_bson_array name vs = Inr bs \<Longrightarrow> bson_ok (JArray vs) \<Longrightarrow>
    \<exists>p. bs = write_bson_entry_header name 0x04 @ p \<and> reads_back (JArray vs) p"
  "write_entries es = Inr body \<Longrightarrow> bson_ok (JObject es) \<Longrightarrow>
    \<forall>acc n i. length body < n \<longrightarrow> (\<forall>e \<in> set acc. \<forall>e' \<in> set es. bytes_less (fst e) (fst e')) \<longrightarrow>
      parse_bson_element_list n (JObject acc) (body @ 0 # i) =
        Inr (Some (JObject (acc @ map (\<lambda>(k, v). (k, bson_norm v)) es), i))"
  "write_items ix vs = Inr body \<Longrightarrow> bson_ok (JArray vs) \<Longrightarrow>
    \<forall>acc n i. length body < n \<longrightarrow>
      parse_bson_element_list n (JArray acc) (body @ 0 # i) = Inr (Some (JArray (acc @ map bson_norm vs), i))"
proof (induction name j and es and name vs and es and ix vs arbitrary: bs and d and bs and body and body
    rule: write_bson_element_write_bson_object_write_bson_array_write_entries_write_items.induct)
  case (1 name es)
  then obtain d where d: "write_bson_object es = Inr d" "bs = write_bson_entry_header name 0x03 @ d"
    by (auto simp: rbind_Inr_iff simp del: write_bson_object.simps)
  with 1 show ?case by auto
next
  case (2 name vs)
  then show ?case by simp
next
  case (3 name b st)
  then show ?case
    by (auto simp: write_bson_binary_def reads_back_def parse_elem_simps get_bson_binary_write split: option.split)
next
  case (7 name u)
  then show ?case
    by (auto simp: write_bson_unsigned_def reads_back_def parse_elem_simps fits_int32_unsigned scast_ucast_int32
        split: if_splits)
next
  case (11 es)
  then obtain size body where b: "write_entries es = Inr body"
    "d = write_number (of_nat size :: u32) @ body @ [0]" by (auto simp: rbind_Inr_iff)
  from "11.IH" [OF _ b(1)] "11.prems" b show ?case
    by (auto simp: reads_back_def parse_elem_simps rbind_Inr_iff)
next
  case (12 name vs)
  then obtain size body where b: "write_items 0 vs = Inr body"
    "bs = write_bson_entry_header name 0x04 @ write_number (of_nat size :: u32) @ body @ [0]"
    by (auto simp: rbind_Inr_iff)
  from "12.IH" [OF _ b(1)] "12.prems" b show ?case
    by (auto simp: reads_back_def parse_elem_simps rbind_Inr_iff)
next
  case (13)
  then show ?case by (auto simp: gr0_conv_Suc)
next
  case (14 k v es)
  then obtain b bs where b: "write_bson_element k v = Inr b" "write_entries es = Inr bs" "body = b @ bs"
    by (auto simp: rbind_Inr_iff)
  have ok: "bson_ok v" "0 \<notin> set k" "bson_ok (JObject es)" "\<forall>e' \<in> set es. bytes_less k (fst e')"
    using "14.prems"(2) by (auto simp: keys_ascend_Cons)
  obtain p where p: "b = write_bson_entry_header k (bson_type v) @ p" "reads_back v p"
    using "14.IH"(1) [OF b(1) ok(1)] by blast
  note IH = "14.IH"(2) [OF b(1,2) ok(3), rule_format]
  show ?case
  proof (intro allI impI)
    fix acc :: "(bytes \<times> json) list" and n i
    assume n: "length body < n" and less: "\<forall>e \<in> set acc. \<forall>e' \<in> set ((k, v) # es). bytes_less (fst e) (fst e')"
    obtain m where m: "n = Suc m" "length p \<le> m" "length bs < m"
      using n b(3) p(1) by (cases n) auto
    have put: "obj_assign k (bson_norm v) acc = acc @ [(k, bson_norm v)]"
      using less by (intro obj_assign_last) simp
    have "\<forall>e \<in> set (acc @ [(k, bson_norm v)]). \<forall>e' \<in> set es. bytes_less (fst e) (fst e')"
      using less ok(4) by auto
    then have rest: "parse_bson_element_list m (JObject (acc @ [(k, bson_norm v)])) (bs @ 0 # i) =
        Inr (Some (JObject ((acc @ [(k, bson_norm v)]) @ map (\<lambda>(k, v). (k, bson_norm v)) es), i))"
      by (intro IH [OF m(3)]) blast+
    have "body @ 0 # i = write_bson_entry_header k (bson_type v) @ p @ bs @ 0 # i"
      using b(3) p(1) by simp
    then show "parse_bson_element_list n (JObject acc) (body @ 0 # i) =
        Inr (Some (JObject (acc @ map (\<lambda>(k, v). (k, bson_norm v)) ((k, v) # es)), i))"
      using parse_list_step [OF ok(1,2) p(2) m(2), where c = "JObject acc" and i = "bs @ 0 # i"] rest put
      unfolding m(1) by (simp del: parse_bson_element_list.simps)
  qed
next
  case (15 ix)
  then show ?case by (auto simp: gr0_conv_Suc)
next
  case (16 ix v vs)
  then obtain b bs where b: "write_bson_element (index_name ix) v = Inr b" "write_items (Suc ix) vs = Inr bs" "body = b @ bs"
    by (auto simp: rbind_Inr_iff)
  have ok: "bson_ok v" "bson_ok (JArray vs)" using "16.prems"(2) by auto
  obtain p where p: "b = write_bson_entry_header (index_name ix) (bson_type v) @ p" "reads_back v p"
    using "16.IH"(1) [OF b(1) ok(1)] by blast
  note IH = "16.IH"(2) [OF b(1,2) ok(2), rule_format]
  show ?case
  proof (intro allI impI)
    fix acc n i
    assume n: "length body < n"
    obtain m where m: "n = Suc m" "length p \<le> m" "length bs < m"
      using n b(3) p(1) by (cases n) auto
    show "parse_bson_element_list n (JArray acc) (body @ 0 # i) = Inr (Some (JArray (acc @ map bson_norm (v # vs)), i))"
      using parse_list_step [OF ok(1) index_name_no_zero p(2) m(2), where c = "JArray acc" and i = "bs @ 0 # i"]
        IH [OF m(3), of "acc @ [bson_norm v]" i] b(3) p(1) m(1)
      by auto
  qed
qed (auto simp: bson_write_defs reads_back_def parse_elem_simps get_bson_string_write
    scast_ucast_int32 split: if_splits)

theorem to_bson_from_bson:
  assumes "bson_ok j" and "to_bson j = Inr bs"
  shows "from_bson bs = Inr (bson_norm j)"
proof -
  from assms(2) obtain es where es: "j = JObject es" "write_bson_object es = Inr bs"
    by (auto simp: to_bson_def split: json.splits)
  from es(2) obtain size body where b: "write_entries es = Inr body" "bs = write_number (of_nat size :: u32) @ body @ [0]"
    by (auto simp: rbind_Inr_iff)
  from write_reads_back(4) [OF b(1)] assms(1) es(1)
  have "parse_bson_element_list (Suc (length body + 1)) (JObject []) (body @ [0]) = Inr (Some (bson_norm j, []))"
    by (auto simp del: parse_bson_element_list.simps)
  then show ?thesis
    by (simp add: from_bson_def sax_parse_def parse_bson_internal_def b(2) del: parse_bson_element_list.simps)
qed

section \<open>The reader on any input\<close>

text \<open>
  \<open>rd_in E n r\<close>: the result \<open>r\<close> of a reading operation is one of the faults \<open>E\<close>, or it leaves at most \<open>n\<close> bytes.
\<close>

definition rd_in :: "fault set \<Rightarrow> nat \<Rightarrow> 'a rd \<Rightarrow> bool" where
  "rd_in E n r \<longleftrightarrow> (case r of Inl e \<Rightarrow> e \<in> E | Inr None \<Rightarrow> True | Inr (Some (a, i)) \<Rightarrow> length i \<le> n)"

lemma rd_in_simps [simp]:
  "rd_in E n (Inr None)" "rd_in E n (Inr (Some (a, i))) \<longleftrightarrow> length i \<le> n" "rd_in E n (Inl e) \<longleftrightarrow> e \<in> E"
  by (auto simp: rd_in_def)

lemma rd_in_mono: "rd_in E m r \<Longrightarrow> m \<le> n \<Longrightarrow> rd_in E n r"
  by (auto simp: rd_in_def split: sum.splits option.splits)

lemma rd_in_pbind:
  assumes "rd_in E m r" and "\<And>a i. r = Inr (Some (a, i)) \<Longrightarrow> length i \<le> m \<Longrightarrow> rd_in E n (f a i)"
  shows "rd_in E n (pbind r f)"
proof (cases r)
  case (Inl e)
  then show ?thesis using assms(1) by (simp add: rd_in_def)
next
  case (Inr x)
  then show ?thesis using assms by (cases x) auto
qed

lemma rd_in_get_byte: "Uncaught (ParseError 110) \<in> E \<Longrightarrow> rd_in E (length i - 1) (get_byte i)"
  by (cases i) auto

lemma rd_in_get_string: "Uncaught (ParseError 110) \<in> E \<Longrightarrow> rd_in E (length i - n) (get_string n i)"
  by (simp add: get_string_def)

text \<open>The faults of the BSON reader.\<close>

abbreviation rd_ok :: "nat \<Rightarrow> 'a rd \<Rightarrow> bool" where
  "rd_ok \<equiv> rd_in {Uncaught (ParseError 110), Uncaught (ParseError 112), Uncaught (ParseError 114)}"

lemmas rd_ok_mono = rd_in_mono
lemmas rd_ok_pbind = rd_in_pbind

lemma rd_ok_get_byte: "rd_ok (length i - 1) (get_byte i)"
  by (rule rd_in_get_byte) simp

lemma rd_ok_get_string: "rd_ok (length i - n) (get_string n i)"
  by (rule rd_in_get_string) simp

lemma rd_ok_get_number: "rd_ok (length i - LENGTH('w) div 8) (get_number i :: 'w :: len word rd)"
  unfolding get_number_def by (rule rd_ok_pbind [OF rd_ok_get_string]) simp

lemma rd_ok_get_bson_cstr: "rd_ok (length i - 1) (get_bson_cstr i)"
proof (induction i)
  case (Cons b i)
  have "rd_ok (length i) (pbind (get_bson_cstr i) (\<lambda>result i. Inr (Some (b # result, i))))"
    by (rule rd_ok_pbind [OF Cons]) simp
  then show ?case by simp
qed simp

lemma rd_ok_get_bson_string: "rd_ok (length i) (get_bson_string len i)"
  unfolding get_bson_string_def
  by (auto intro!: rd_ok_pbind [OF rd_ok_get_string] split: list.split)

lemma rd_ok_get_bson_binary: "rd_ok (length i) (get_bson_binary len i)"
  unfolding get_bson_binary_def
  by (auto intro!: rd_ok_pbind [OF rd_ok_get_number] rd_ok_pbind [OF rd_ok_get_string])

text \<open>Fuel of the length of the input is enough: the reader then only ever throws a parse error.\<close>

lemma rd_ok_parse:
  "length i \<le> n \<Longrightarrow> rd_ok (length i) (parse_bson_element_internal n t i)"
  "length i < n \<Longrightarrow> rd_ok (length i) (parse_bson_element_list n c i)"
proof (induction n t i and n c i rule: parse_bson_element_internal_parse_bson_element_list.induct)
  case (1 n t i)
  have doc: "rd_ok (length i) (pbind (get_number i) (\<lambda>(size :: u32) i'. parse_bson_element_list n c i'))"
    if "\<And>size i'. get_number i = Inr (Some (size :: u32, i')) \<Longrightarrow> length i' < n \<Longrightarrow>
          rd_ok (length i') (parse_bson_element_list n c i')" for c
  proof (rule rd_ok_pbind [OF rd_ok_get_number])
    fix size :: u32 and i' :: bytes
    assume g: "get_number i = Inr (Some (size, i'))" "length i' \<le> length i - LENGTH(32) div 8"
    have "4 \<le> length i" using g(1) by (auto simp: get_number_def get_string_def split: if_splits)
    then have "length i' < n" "length i' \<le> length i" using g(2) "1.prems" by auto
    then show "rd_ok (length i) (parse_bson_element_list n c i')" using that [OF g(1)] rd_ok_mono by blast
  qed
  have str: "rd_ok (length i) (pbind (get_number i) (\<lambda>len i. pbind (get_bson_string len i) (\<lambda>value i. Inr (Some (JString value, i)))))"
    by (auto intro!: rd_ok_pbind [OF rd_ok_get_number] rd_ok_pbind [OF rd_ok_get_bson_string])
  have bin: "rd_ok (length i) (pbind (get_number i) (\<lambda>len i. pbind (get_bson_binary len i) (\<lambda>(b, st) i. Inr (Some (JBinary b st, i)))))"
    by (auto intro!: rd_ok_pbind [OF rd_ok_get_number] rd_ok_pbind [OF rd_ok_get_bson_binary])
  have nums: "rd_ok (length i) (pbind (get_number i) (\<lambda>number i. Inr (Some (JFloat number, i))))"
    "rd_ok (length i) (pbind (get_number i) (\<lambda>(value :: u32) i. Inr (Some (JInteger (scast value), i))))"
    "rd_ok (length i) (pbind (get_number i) (\<lambda>value i. Inr (Some (JInteger value, i))))"
    by (auto intro!: rd_ok_pbind [OF rd_ok_get_number])
  have bool: "rd_ok (length i) (case i of [] \<Rightarrow> Inr (Some (JBoolean True, [])) | b # i \<Rightarrow> Inr (Some (JBoolean (b \<noteq> 0), i)))"
    by (cases i) auto
  consider "t = 1" | "t = 2" | "t = 3" | "t = 4" | "t = 5" | "t = 8" | "t = 10" | "t = 16" | "t = 18"
    | "t \<notin> {1, 2, 3, 4, 5, 8, 10, 16, 18}" by blast
  then show ?case
  proof cases
    case 3
    then show ?thesis unfolding parse_bson_element_internal.simps using doc "1.IH"(1) by simp
  next
    case 4
    then show ?thesis unfolding parse_bson_element_internal.simps using doc "1.IH"(2) by simp
  qed (simp_all add: parse_bson_element_internal.simps str bin nums bool)
next
  case (2 c i)
  then show ?case by simp
next
  case (3 n c i)
  show ?case unfolding parse_bson_element_list.simps
  proof (rule rd_ok_pbind [OF rd_ok_get_byte])
    fix t i1 assume t: "get_byte i = Inr (Some (t, i1))" "length i1 \<le> length i - 1"
    then have i1: "length i1 < n" using "3.prems" by (cases i) auto
    show "rd_ok (length i) (if t = 0 then Inr (Some (c, i1))
      else pbind (get_bson_cstr i1) (\<lambda>key i. pbind (parse_bson_element_internal n t i)
        (\<lambda>v i. parse_bson_element_list n (dom_put c key v) i)))"
    proof (cases "t = 0")
      case False
      have "rd_ok (length i) (pbind (get_bson_cstr i1) (\<lambda>key i. pbind (parse_bson_element_internal n t i)
        (\<lambda>v i. parse_bson_element_list n (dom_put c key v) i)))"
      proof (rule rd_ok_pbind [OF rd_ok_get_bson_cstr])
        fix key i2 assume k: "get_bson_cstr i1 = Inr (Some (key, i2))" "length i2 \<le> length i1 - 1"
        then have i2: "length i2 \<le> n" using i1 by simp
        show "rd_ok (length i) (pbind (parse_bson_element_internal n t i2)
            (\<lambda>v i. parse_bson_element_list n (dom_put c key v) i))"
        proof (rule rd_ok_pbind [OF "3.IH"(1) [OF t(1) False k(1) i2]])
          fix v i3 assume v: "parse_bson_element_internal n t i2 = Inr (Some (v, i3))" "length i3 \<le> length i2"
          then have "length i3 < n" "length i3 \<le> length i" using i1 k(2) t(2) by auto
          then show "rd_ok (length i) (parse_bson_element_list n (dom_put c key v) i3)"
            using "3.IH"(2) [OF t(1) False k(1) v(1)] rd_ok_mono by blast
        qed
      qed
      then show ?thesis using False by simp
    qed (use t in simp)
  qed
qed

section \<open>Every such value can be written\<close>

lemma calc_total:
  "bson_ok j \<Longrightarrow> 0 \<notin> set name \<Longrightarrow> \<exists>n. calc_bson_element_size name j = Inr n"
  "bson_ok (JObject es) \<Longrightarrow> \<exists>n. calc_entries_size es = Inr n"
  "bson_ok (JArray vs) \<Longrightarrow> \<exists>n. calc_items_size i vs = Inr n"
proof (induction name j and es and i vs
    rule: calc_bson_element_size_calc_entries_size_calc_items_size.induct)
  case (1 name j)
  then show ?case
    by (cases j) (auto simp: calc_bson_entry_header_size_def rbind_Inr_iff simp del: bson_ok.simps(1,2))
next
  case (3 k v es)
  then have "0 \<notin> set k" "bson_ok v" "bson_ok (JObject es)" by (auto simp: keys_ascend_Cons)
  with "3.IH" show ?case by (auto simp: rbind_Inr_iff simp del: calc_bson_element_size.simps)
next
  case (5 i v vs)
  then have "bson_ok v" "bson_ok (JArray vs)" by auto
  with "5.IH" index_name_no_zero show ?case by (auto simp: rbind_Inr_iff simp del: calc_bson_element_size.simps)
qed simp_all

lemma write_total:
  "bson_ok j \<Longrightarrow> 0 \<notin> set name \<Longrightarrow> \<exists>bs. write_bson_element name j = Inr bs"
  "bson_ok (JObject es) \<Longrightarrow> \<exists>bs. write_bson_object es = Inr bs"
  "bson_ok (JArray vs) \<Longrightarrow> \<exists>bs. write_bson_array name vs = Inr bs"
  "bson_ok (JObject es) \<Longrightarrow> \<exists>bs. write_entries es = Inr bs"
  "bson_ok (JArray vs) \<Longrightarrow> \<exists>bs. write_items ix vs = Inr bs"
proof (induction name j and es and name vs and es and ix vs
    rule: write_bson_element_write_bson_object_write_bson_array_write_entries_write_items.induct)
  case (1 name es)
  then show ?case by (auto simp: rbind_Inr_iff simp del: write_bson_object.simps bson_ok.simps)
next
  case (11 es)
  obtain n where n: "calc_bson_object_size es = Inr n"
    using calc_total(2) [OF "11.prems"] by (auto simp: calc_bson_object_size_def)
  obtain body where "write_entries es = Inr body" using "11.IH" [OF n "11.prems"] by blast
  with n show ?case by simp
next
  case (12 name vs)
  obtain n where n: "calc_bson_array_size vs = Inr n"
    using calc_total(3) [OF "12.prems", of 0] by (auto simp: calc_bson_array_size_def)
  obtain body where "write_items 0 vs = Inr body" using "12.IH" [OF n "12.prems"] by blast
  with n show ?case by simp
next
  case (14 k v es)
  then have ok: "0 \<notin> set k" "bson_ok v" "bson_ok (JObject es)" by (auto simp: keys_ascend_Cons)
  obtain b where b: "write_bson_element k v = Inr b" using "14.IH"(1) [OF ok(2,1)] by blast
  obtain bs where "write_entries es = Inr bs" using "14.IH"(2) [OF b ok(3)] by blast
  with b show ?case by simp
next
  case (16 ix v vs)
  then have ok: "bson_ok v" "bson_ok (JArray vs)" by auto
  obtain b where b: "write_bson_element (index_name ix) v = Inr b"
    using "16.IH"(1) [OF ok(1) index_name_no_zero] by blast
  obtain bs where "write_items (Suc ix) vs = Inr bs" using "16.IH"(2) [OF b ok(2)] by blast
  with b show ?case by simp
qed (simp_all add: write_bson_unsigned_def)

lemma to_bson_total: "bson_ok (JObject es) \<Longrightarrow> \<exists>bs. to_bson (JObject es) = Inr bs"
  using write_total(2) by (simp add: to_bson_def)

lemma to_bson_framed: "to_bson j = Inr bs \<Longrightarrow> \<exists>r. bs = write_number (of_nat (length bs) :: u32) @ r"
  using write_bson_object_length by (auto simp: to_bson_def split: json.splits)

lemma to_bson_prefix:
  assumes "to_bson j = Inr bs"
  shows "bytes_word (take 4 bs) = (of_nat (length bs) :: u32)"
proof -
  obtain r where "bs = write_number (of_nat (length bs) :: u32) @ r" using to_bson_framed [OF assms] by blast
  then have "take 4 bs = write_number (of_nat (length bs) :: u32)" by (metis append_eq_conv_conj length_write_number_32)
  then show ?thesis by (simp add: bytes_word_write_number)
qed

text \<open>The values that can be sent: also short enough for the length field of a frame.\<close>

definition sendable :: "json \<Rightarrow> bool" where
  "sendable j \<longleftrightarrow> bson_ok j \<and> (\<exists>bs. to_bson j = Inr bs \<and> length bs < 2 ^ 32)"

interpretation bson: framed_codec sendable to_bson from_bson bson_norm
  by unfold_locales (auto simp: sendable_def to_bson_from_bson to_bson_framed)

section \<open>Properties\<close>



text \<open>
  C17: whatever bytes a peer sends, reading them ends with a value or with one of three parse errors
  (end of input or trailing bytes, a bad length, an unknown element type): the reader consumes at least
  one byte per element, so its recursion is bounded by the length of the input.
\<close>

theorem from_bson_outcomes:
  "(\<exists>j. from_bson bs = Inr j) \<or> (\<exists>k \<in> {110, 112, 114}. from_bson bs = Inl (Uncaught (ParseError k)))"
proof -
  have "rd_ok (length bs) (parse_bson_internal bs)"
    unfolding parse_bson_internal_def
  proof (rule rd_ok_pbind [OF rd_ok_get_number])
    fix size :: u32 and i :: bytes
    assume g: "get_number bs = Inr (Some (size, i))" "length i \<le> length bs - LENGTH(32) div 8"
    have "4 \<le> length bs" using g(1) by (auto simp: get_number_def get_string_def split: if_splits)
    with g(2) have "length i < Suc (length bs)" "length i \<le> length bs" by simp_all
    then show "rd_ok (length bs) (parse_bson_element_list (Suc (length i)) (JObject []) i)"
      using rd_ok_parse(2) [of i "Suc (length i)"] rd_ok_mono by blast
  qed
  then show ?thesis
    by (auto simp: from_bson_def sax_parse_def rd_in_def rbind_def split: sum.splits option.splits list.splits prod.splits)
qed

text \<open>
  A stream of documents written one after the other, cut where the length prefixes say, gives back
  the documents in order.
\<close>

theorem bson_stream:
  assumes "\<forall>j \<in> set js. sendable j"
  shows "\<exists>s. encode_all to_bson js = Inr s \<and> (\<exists>fs. split_frames (length js) s = Some fs
    \<and> map from_bson fs = map (\<lambda>j. Inr (bson_norm j)) js)"
  using bson.stream_roundtrip [OF assms] by blast

lemma bson_stream_witness:
  "\<exists>s fs. encode_all to_bson [JObject [], JObject [([97], JNull)]] = Inr s \<and> split_frames (Suc 1) s = Some fs
    \<and> map from_bson fs = [Inr (JObject []), Inr (JObject [([97], JNull)])]"
proof -
  have "sendable (JObject [])" "sendable (JObject [([97], JNull)])"
    by (simp_all add: sendable_def to_bson_def calc_bson_object_size_def calc_bson_entry_header_size_def
        write_bson_null_def keys_ascend_def)
  then have "\<forall>j \<in> set [JObject [], JObject [([97], JNull)]]. sendable j" by simp
  from bson_stream [OF this] show ?thesis by auto
qed

end
