(* ===== verification/Pkts.thy ===== *)
theory Pkts
  imports Bson
begin

text \<open>
  The packets of \<^verbatim>\<open>pkts/pkts.cpp\<close> and their conversions to and from JSON values, as the handlers send
  them through BSON.
\<close>

section \<open>Types\<close>

text \<open>
  The enumeration has a fixed underlying type, so any other 16-bit value is a value of it too.
\<close>

datatype MessageType =
    Handshake | Choke | UnChoke | Interested | NotInterested | Have | BitField | Request | Piece
  | OtherType u16

fun msg_code :: "MessageType \<Rightarrow> u16" where
  "msg_code Handshake = push_bit 1 1"
| "msg_code Choke = push_bit 2 1"
| "msg_code UnChoke = push_bit 3 1"
| "msg_code Interested = push_bit 4 1"
| "msg_code NotInterested = push_bit 5 1"
| "msg_code Have = push_bit 6 1"
| "msg_code BitField = push_bit 7 1"
| "msg_code Request = push_bit 8 1"
| "msg_code Piece = push_bit 9 1"
| "msg_code (OtherType c) = c"

definition named_types :: "MessageType list" where
  "named_types = [Handshake, Choke, UnChoke, Interested, NotInterested, Have, BitField, Request, Piece]"

text \<open>\<^verbatim>\<open>static_cast<MessageType>(c)\<close>.\<close>

definition msg_of_code :: "u16 \<Rightarrow> MessageType" where
  "msg_of_code c = (case find (\<lambda>t. msg_code t = c) named_types of Some t \<Rightarrow> t | None \<Rightarrow> OtherType c)"

record PktHandshake =
  hs_header :: bytes
  hs_zero :: bytes
  hs_peerid :: u32

record PktMsgHave =
  hv_pcno :: u32

record PktMsgBfield =
  bm_bfield :: bytes

record PktMsgRequest =
  rq_pcno :: u32

record PktMsgPiece =
  pc_pcno :: u32
  pc_payload :: bytes

record PktMsg =
  pm_type :: MessageType
  pm_hshake :: PktHandshake
  pm_have :: PktMsgHave
  pm_bfield :: PktMsgBfield
  pm_req :: PktMsgRequest
  pm_piece :: PktMsgPiece

section \<open>Conversions\<close>

abbreviation jkey :: "string \<Rightarrow> json" where
  "jkey s \<equiv> to_json_string (bytes_of s)"

definition to_json_PktHandshake :: "PktHandshake \<Rightarrow> json" where
  "to_json_PktHandshake pkt = json_init
     [json_init [jkey ''header'', to_json_array (hs_header pkt)],
      json_init [jkey ''zero'', to_json_array (hs_zero pkt)],
      json_init [jkey ''peerid'', to_json_unsigned (hs_peerid pkt)]]"

definition from_json_PktHandshake :: "json \<Rightarrow> PktHandshake \<Rightarrow> PktHandshake res" where
  "from_json_PktHandshake j pkt =
     rbind (json_at_key j (bytes_of ''header'')) (\<lambda>v. rbind (from_json_carray v (hs_header pkt)) (\<lambda>h.
     rbind (json_at_key j (bytes_of ''zero'')) (\<lambda>v. rbind (from_json_carray v (hs_zero pkt)) (\<lambda>z.
     rbind (json_at_key j (bytes_of ''peerid'')) (\<lambda>v. rbind (from_json_arith v) (\<lambda>p.
     Inr (pkt\<lparr>hs_header := h, hs_zero := z, hs_peerid := p\<rparr>)))))))"

definition to_json_PktMsgHave :: "PktMsgHave \<Rightarrow> json" where
  "to_json_PktMsgHave pkt = json_init [json_init [jkey ''pcno'', to_json_unsigned (hv_pcno pkt)]]"

definition from_json_PktMsgHave :: "json \<Rightarrow> PktMsgHave \<Rightarrow> PktMsgHave res" where
  "from_json_PktMsgHave j pkt =
     rbind (json_at_key j (bytes_of ''pcno'')) (\<lambda>v. rbind (from_json_arith v) (\<lambda>p. Inr (pkt\<lparr>hv_pcno := p\<rparr>)))"

definition to_json_PktMsgBfield :: "PktMsgBfield \<Rightarrow> json" where
  "to_json_PktMsgBfield pkt = json_init [json_init [jkey ''bfield'', to_json_array (bm_bfield pkt)]]"

definition from_json_PktMsgBfield :: "json \<Rightarrow> PktMsgBfield \<Rightarrow> PktMsgBfield res" where
  "from_json_PktMsgBfield j pkt =
     rbind (json_at_key j (bytes_of ''bfield'')) (\<lambda>v. rbind (from_json_vector v) (\<lambda>b. Inr (pkt\<lparr>bm_bfield := b\<rparr>)))"

definition to_json_PktMsgRequest :: "PktMsgRequest \<Rightarrow> json" where
  "to_json_PktMsgRequest pkt = json_init [json_init [jkey ''pcno'', to_json_unsigned (rq_pcno pkt)]]"

definition from_json_PktMsgRequest :: "json \<Rightarrow> PktMsgRequest \<Rightarrow> PktMsgRequest res" where
  "from_json_PktMsgRequest j pkt =
     rbind (json_at_key j (bytes_of ''pcno'')) (\<lambda>v. rbind (from_json_arith v) (\<lambda>p. Inr (pkt\<lparr>rq_pcno := p\<rparr>)))"

text \<open>The braces of the piece packet close after the second key, so the payload is a third element.\<close>

definition to_json_PktMsgPiece :: "PktMsgPiece \<Rightarrow> json" where
  "to_json_PktMsgPiece pkt = json_init
     [json_init [jkey ''pcno'', to_json_unsigned (pc_pcno pkt)],
      json_init [jkey ''payload''],
      to_json_string (pc_payload pkt)]"

definition from_json_PktMsgPiece :: "json \<Rightarrow> PktMsgPiece \<Rightarrow> PktMsgPiece res" where
  "from_json_PktMsgPiece j pkt =
     rbind (json_at_key j (bytes_of ''pcno'')) (\<lambda>v. rbind (from_json_arith v) (\<lambda>p.
     rbind (json_at_key j (bytes_of ''payload'')) (\<lambda>v. rbind (from_json_string v) (\<lambda>s.
     Inr (pkt\<lparr>pc_pcno := p, pc_payload := s\<rparr>)))))"

definition to_json_PktMsg :: "PktMsg \<Rightarrow> json" where
  "to_json_PktMsg pkt =
     (let ty = json_init [jkey ''type'', to_json_enum (msg_code (pm_type pkt))]
      in case pm_type pkt of
           Handshake \<Rightarrow> json_init [ty, json_init [jkey ''hshake'', to_json_PktHandshake (pm_hshake pkt)]]
         | Have \<Rightarrow> json_init [ty, json_init [jkey ''have'', to_json_PktMsgHave (pm_have pkt)]]
         | BitField \<Rightarrow> json_init [ty, json_init [jkey ''bfield'', to_json_PktMsgBfield (pm_bfield pkt)]]
         | Request \<Rightarrow> json_init [ty, json_init [jkey ''req'', to_json_PktMsgRequest (pm_req pkt)]]
         | Piece \<Rightarrow> json_init [ty, json_init [jkey ''piece'', to_json_PktMsgPiece (pm_piece pkt)]]
         | _ \<Rightarrow> json_init [ty])"

definition from_json_PktMsg :: "json \<Rightarrow> PktMsg \<Rightarrow> PktMsg res" where
  "from_json_PktMsg j pkt =
     rbind (json_at_key j (bytes_of ''type'')) (\<lambda>v. rbind (get_arithmetic_value v) (\<lambda>(c :: u16).
     let pkt = pkt\<lparr>pm_type := msg_of_code c\<rparr>
     in if pm_type pkt = Handshake then
          rbind (json_at_key j (bytes_of ''hshake'')) (\<lambda>v.
          rbind (from_json_PktHandshake v (pm_hshake pkt)) (\<lambda>p. Inr (pkt\<lparr>pm_hshake := p\<rparr>)))
        else if pm_type pkt = Have then
          rbind (json_at_key j (bytes_of ''have'')) (\<lambda>v.
          rbind (from_json_PktMsgHave v (pm_have pkt)) (\<lambda>p. Inr (pkt\<lparr>pm_have := p\<rparr>)))
        else if pm_type pkt = BitField then
          rbind (json_at_key j (bytes_of ''bfield'')) (\<lambda>v.
          rbind (from_json_PktMsgBfield v (pm_bfield pkt)) (\<lambda>p. Inr (pkt\<lparr>pm_bfield := p\<rparr>)))
        else if pm_type pkt = Request then
          rbind (json_at_key j (bytes_of ''req'')) (\<lambda>v.
          rbind (from_json_PktMsgRequest v (pm_req pkt)) (\<lambda>p. Inr (pkt\<lparr>pm_req := p\<rparr>)))
        else if pm_type pkt = Piece then
          rbind (json_at_key j (bytes_of ''piece'')) (\<lambda>v.
          rbind (from_json_PktMsgPiece v (pm_piece pkt)) (\<lambda>p. Inr (pkt\<lparr>pm_piece := p\<rparr>)))
        else Inr pkt))"

section \<open>What the conversions give\<close>

lemma byte_keys:
  "bytes_of ''header'' = [104, 101, 97, 100, 101, 114]"
  "bytes_of ''zero'' = [122, 101, 114, 111]"
  "bytes_of ''peerid'' = [112, 101, 101, 114, 105, 100]"
  "bytes_of ''pcno'' = [112, 99, 110, 111]"
  "bytes_of ''payload'' = [112, 97, 121, 108, 111, 97, 100]"
  "bytes_of ''bfield'' = [98, 102, 105, 101, 108, 100]"
  "bytes_of ''type'' = [116, 121, 112, 101]"
  "bytes_of ''hshake'' = [104, 115, 104, 97, 107, 101]"
  "bytes_of ''have'' = [104, 97, 118, 101]"
  "bytes_of ''req'' = [114, 101, 113]"
  "bytes_of ''piece'' = [112, 105, 101, 99, 101]"
  by (simp_all add: bytes_of_def)

lemma json_init_pair [simp]: "json_init [to_json_string s, v] = JArray [to_json_string s, v]"
  by (simp add: json_init_def to_json_string_def)

lemma pair_of_string [simp]: "is_pair (JArray [to_json_string s, v])"
  "pair_key (JArray [to_json_string s, v]) = s" "pair_value (JArray [to_json_string s, v]) = v"
  by (simp_all add: to_json_string_def)

lemma json_init_object:
  "json_init (map (\<lambda>(k, v). JArray [to_json_string k, v]) kvs) =
    JObject (fold (\<lambda>(k, v). obj_emplace k v) kvs [])"
proof -
  have "list_all is_pair (map (\<lambda>(k, v). JArray [to_json_string k, v]) kvs)"
    by (auto simp: list_all_iff)
  moreover have "(\<lambda>e. obj_emplace (pair_key e) (pair_value e)) \<circ> (\<lambda>(k, v). JArray [to_json_string k, v])
      = (\<lambda>(k, v). obj_emplace k v)" by (auto simp: fun_eq_iff)
  ultimately show ?thesis by (simp add: json_init_def fold_map)
qed

lemmas json_init_1 = json_init_object [of "[(k, v)]" for k v, simplified]
lemmas json_init_2 = json_init_object [of "[(k, v), (k', v')]" for k v k' v', simplified]
lemmas json_init_3 = json_init_object [of "[(k, v), (k', v'), (k'', v'')]" for k v k' v' k'' v'', simplified]

lemma to_json_PktHandshake_eq: "to_json_PktHandshake pkt =
  JObject [(bytes_of ''header'', to_json_array (hs_header pkt)),
           (bytes_of ''peerid'', to_json_unsigned (hs_peerid pkt)),
           (bytes_of ''zero'', to_json_array (hs_zero pkt))]"
  by (simp add: to_json_PktHandshake_def json_init_3 byte_keys)

lemma to_json_one_key:
  "to_json_PktMsgHave h = JObject [(bytes_of ''pcno'', to_json_unsigned (hv_pcno h))]"
  "to_json_PktMsgBfield b = JObject [(bytes_of ''bfield'', to_json_array (bm_bfield b))]"
  "to_json_PktMsgRequest r = JObject [(bytes_of ''pcno'', to_json_unsigned (rq_pcno r))]"
  by (simp_all add: to_json_PktMsgHave_def to_json_PktMsgBfield_def to_json_PktMsgRequest_def json_init_1)

lemma to_json_PktMsgPiece_eq: "to_json_PktMsgPiece p =
  JArray [JArray [to_json_string (bytes_of ''pcno''), to_json_unsigned (pc_pcno p)],
          JArray [to_json_string (bytes_of ''payload'')], to_json_string (pc_payload p)]"
  by (simp add: to_json_PktMsgPiece_def json_init_def to_json_string_def)

text \<open>The whole message: its body under the key of its kind, and the type last or first as keys sort.\<close>

fun msg_body :: "PktMsg \<Rightarrow> (bytes \<times> json) list" where
  "msg_body pkt = (case pm_type pkt of
      Handshake \<Rightarrow> [(bytes_of ''hshake'', to_json_PktHandshake (pm_hshake pkt))]
    | Have \<Rightarrow> [(bytes_of ''have'', to_json_PktMsgHave (pm_have pkt))]
    | BitField \<Rightarrow> [(bytes_of ''bfield'', to_json_PktMsgBfield (pm_bfield pkt))]
    | Request \<Rightarrow> [(bytes_of ''req'', to_json_PktMsgRequest (pm_req pkt))]
    | Piece \<Rightarrow> [(bytes_of ''piece'', to_json_PktMsgPiece (pm_piece pkt))]
    | _ \<Rightarrow> [])"

lemma to_json_PktMsg_eq:
  "to_json_PktMsg pkt = JObject (msg_body pkt @ [(bytes_of ''type'', to_json_enum (msg_code (pm_type pkt)))])"
  by (cases "pm_type pkt") (simp_all add: to_json_PktMsg_def json_init_1 json_init_2 byte_keys)

lemma msg_of_code_named: "t \<in> set named_types \<Longrightarrow> msg_of_code (msg_code t) = t"
  by (auto simp: named_types_def msg_of_code_def)

section \<open>Packets through BSON\<close>

text \<open>
  A packet as a connection sends it: the C arrays have their declared lengths, the type is a named one,
  and a piece's text fits a BSON string.
\<close>

definition pkt_ok :: "PktMsg \<Rightarrow> bool" where
  "pkt_ok pkt \<longleftrightarrow> length (hs_header (pm_hshake pkt)) = 19 \<and> length (hs_zero (pm_hshake pkt)) = 10
     \<and> pm_type pkt \<in> set named_types \<and> length (pc_payload (pm_piece pkt)) < 2147483647"

text \<open>What a receiver holds afterwards, from an indeterminate packet: the type and the part it selects.\<close>

definition pkt_merge :: "PktMsg \<Rightarrow> PktMsg \<Rightarrow> PktMsg" where
  "pkt_merge pkt0 pkt = (let p = pkt0\<lparr>pm_type := pm_type pkt\<rparr> in case pm_type pkt of
      Handshake \<Rightarrow> p\<lparr>pm_hshake := pm_hshake pkt\<rparr>
    | Have \<Rightarrow> p\<lparr>pm_have := pm_have pkt\<rparr>
    | BitField \<Rightarrow> p\<lparr>pm_bfield := pm_bfield pkt\<rparr>
    | Request \<Rightarrow> p\<lparr>pm_req := pm_req pkt\<rparr>
    | _ \<Rightarrow> p)"

lemma ucast_small:
  fixes w :: "'w :: len word"
  assumes "LENGTH('w) \<le> 32"
  shows "(ucast w :: u64) \<le> 9223372036854775807"
proof -
  have "unat (ucast w :: u64) \<le> unat w" by (simp add: unsigned_ucast_eq take_bit_nat_less_eq_self)
  also have "\<dots> < 2 ^ LENGTH('w)" by (rule unsigned_less)
  also have "(2 :: nat) ^ LENGTH('w) \<le> 2 ^ 32" by (rule power_increasing) (use assms in simp_all)
  finally show ?thesis by (simp add: word_le_nat_alt)
qed

lemma bson_ok_unsigned:
  "bson_ok (to_json_unsigned (w :: u8))" "bson_ok (to_json_unsigned (v :: u32))"
  by (simp_all add: to_json_unsigned_def ucast_small)

lemma bson_ok_array [simp]: "bson_ok (to_json_array bs)"
  by (auto simp: to_json_array_def bson_ok_unsigned)

lemma bson_ok_msg:
  assumes "pkt_ok pkt"
  shows "bson_ok (to_json_PktMsg pkt)"
proof -
  have "bson_ok (JObject (msg_body pkt @ [(bytes_of ''type'', to_json_enum (msg_code (pm_type pkt)))]))"
    using assms
    by (cases "pm_type pkt")
      (simp_all add: pkt_ok_def keys_ascend_def byte_keys to_json_PktHandshake_eq to_json_one_key
        to_json_PktMsgPiece_eq bson_ok_unsigned to_json_enum_def to_json_string_def)
  then show ?thesis by (simp add: to_json_PktMsg_eq)
qed

lemma norm_unsigned [simp]:
  "from_json_arith (bson_norm (to_json_unsigned (w :: u8))) = Inr w"
  "from_json_arith (bson_norm (to_json_unsigned (v :: u32))) = Inr v"
  by (simp_all add: to_json_unsigned_def from_json_arith_def)

lemma norm_enum [simp]: "get_arithmetic_value (bson_norm (to_json_enum e)) = Inr e"
  by (simp add: to_json_enum_def get_arithmetic_value_def)

lemma norm_vector [simp]: "from_json_vector (bson_norm (to_json_array bs)) = Inr bs"
proof -
  have "rfold (\<lambda>e ret. rbind (from_json_arith e) (\<lambda>b. Inr (ret @ [b])))
      (map (bson_norm \<circ> to_json_unsigned) bs) acc = Inr (acc @ bs)" for acc :: bytes
    by (induction bs arbitrary: acc) simp_all
  then show ?thesis by (simp add: to_json_array_def from_json_vector_def from_json_array_impl_def)
qed

lemma norm_carray [simp]:
  "length arr = length bs \<Longrightarrow> from_json_carray (bson_norm (to_json_array bs)) arr = Inr bs"
  unfolding to_json_array_def bson_norm.simps by (rule from_json_carray_eq) simp_all

lemma from_json_msg:
  assumes "pkt_ok pkt" and "pkt_ok pkt0"
  shows "from_json_PktMsg (bson_norm (to_json_PktMsg pkt)) pkt0 =
    (if pm_type pkt = Piece then Inl (Uncaught (TypeError 304)) else Inr (pkt_merge pkt0 pkt))"
proof -
  have code: "msg_of_code (msg_code (pm_type pkt)) = pm_type pkt"
    using assms(1) by (intro msg_of_code_named) (simp add: pkt_ok_def)
  note defs = from_json_PktMsg_def from_json_PktHandshake_def from_json_PktMsgHave_def from_json_PktMsgBfield_def
    from_json_PktMsgRequest_def from_json_PktMsgPiece_def
  show ?thesis
    using assms code
    by (cases "pm_type pkt")
      (simp_all add: to_json_PktMsg_eq defs json_at_key_def byte_keys pkt_ok_def to_json_PktHandshake_eq
        to_json_one_key to_json_PktMsgPiece_eq pkt_merge_def Let_def del: msg_code.simps)
qed

definition encode_PktMsg :: "PktMsg \<Rightarrow> bytes res" where
  "encode_PktMsg pkt = to_bson (to_json_PktMsg pkt)"

definition decode_PktMsg :: "PktMsg \<Rightarrow> bytes \<Rightarrow> PktMsg res" where
  "decode_PktMsg pkt0 bs = rbind (from_bson bs) (\<lambda>j. from_json_PktMsg j pkt0)"

lemma decode_encode:
  assumes "pkt_ok pkt" and "pkt_ok pkt0" and "encode_PktMsg pkt = Inr bs"
  shows "decode_PktMsg pkt0 bs =
    (if pm_type pkt = Piece then Inl (Uncaught (TypeError 304)) else Inr (pkt_merge pkt0 pkt))"
  using to_bson_from_bson [OF bson_ok_msg [OF assms(1)]] assms(3) from_json_msg [OF assms(1,2)]
  by (simp add: encode_PktMsg_def decode_PktMsg_def)

lemma encode_total: "pkt_ok pkt \<Longrightarrow> \<exists>bs. encode_PktMsg pkt = Inr bs"
  using to_bson_total bson_ok_msg by (simp add: encode_PktMsg_def to_json_PktMsg_eq)

definition pkt_sendable :: "PktMsg \<Rightarrow> bool" where
  "pkt_sendable pkt \<longleftrightarrow> pkt_ok pkt \<and> pm_type pkt \<noteq> Piece \<and> (\<exists>bs. encode_PktMsg pkt = Inr bs \<and> length bs < 2 ^ 32)"

interpretation pk: framed_codec "\<lambda>pkt. pkt_sendable pkt \<and> pkt_ok pkt0" encode_PktMsg "decode_PktMsg pkt0"
    "pkt_merge pkt0" for pkt0
proof unfold_locales
  fix pkt b assume "encode_PktMsg pkt = Inr b"
  then show "\<exists>r. b = write_number (of_nat (length b) :: u32) @ r"
    unfolding encode_PktMsg_def by (rule to_bson_framed)
qed (auto simp: pkt_sendable_def decode_encode)

section \<open>Properties\<close>

text \<open>
  C18: every packet but a piece packet survives its way through JSON and BSON: the receiver, whose
  packet starts out indeterminate, gets the type and exactly the part that type selects.
\<close>

theorem pkt_roundtrip:
  assumes "pkt_ok pkt" and "pkt_ok pkt0" and "pm_type pkt \<noteq> Piece"
  shows "\<exists>bs. encode_PktMsg pkt = Inr bs \<and> decode_PktMsg pkt0 bs = Inr (pkt_merge pkt0 pkt)"
  using encode_total [OF assms(1)] decode_encode [OF assms(1,2)] assms(3) by auto

definition pkt_blank :: "MessageType \<Rightarrow> PktMsg" where
  "pkt_blank t = \<lparr>pm_type = t,
     pm_hshake = \<lparr>hs_header = replicate 19 0, hs_zero = replicate 10 0, hs_peerid = 0\<rparr>,
     pm_have = \<lparr>hv_pcno = 0\<rparr>, pm_bfield = \<lparr>bm_bfield = []\<rparr>, pm_req = \<lparr>rq_pcno = 0\<rparr>,
     pm_piece = \<lparr>pc_pcno = 0, pc_payload = []\<rparr>\<rparr>"

lemma pkt_blank_ok: "t \<in> set named_types \<Longrightarrow> pkt_ok (pkt_blank t)"
  by (simp add: pkt_ok_def pkt_blank_def)

lemma pkt_roundtrip_witness:
  "\<exists>bs. encode_PktMsg ((pkt_blank BitField)\<lparr>pm_bfield := \<lparr>bm_bfield = [255, 1]\<rparr>\<rparr>) = Inr bs
    \<and> decode_PktMsg (pkt_blank Choke) bs = Inr ((pkt_blank BitField)\<lparr>pm_bfield := \<lparr>bm_bfield = [255, 1]\<rparr>\<rparr>)"
proof -
  let ?p = "(pkt_blank BitField)\<lparr>pm_bfield := \<lparr>bm_bfield = [255, 1]\<rparr>\<rparr>"
  have "pkt_ok ?p" "pkt_ok (pkt_blank Choke)" "pm_type ?p \<noteq> Piece"
    by (simp_all add: pkt_ok_def pkt_blank_def named_types_def)
  moreover have "pkt_merge (pkt_blank Choke) ?p = ?p" by (simp add: pkt_merge_def pkt_blank_def)
  ultimately show ?thesis using pkt_roundtrip [of ?p "pkt_blank Choke"] by simp
qed

text \<open>
  A piece packet can be sent, but no receiver can take it: its conversion makes an array instead
  of an object, so the conversion back throws out of \<^verbatim>\<open>at()\<close> and ends the receiving process.
\<close>

theorem piece_packet_throws:
  assumes "pkt_ok pkt" and "pkt_ok pkt0" and "pm_type pkt = Piece"
  shows "\<exists>bs. encode_PktMsg pkt = Inr bs \<and> decode_PktMsg pkt0 bs = Inl (Uncaught (TypeError 304))"
  using encode_total [OF assms(1)] decode_encode [OF assms(1,2)] assms(3) by auto

lemma piece_packet_throws_witness:
  "\<exists>bs. encode_PktMsg (pkt_blank Piece) = Inr bs
    \<and> decode_PktMsg (pkt_blank Choke) bs = Inl (Uncaught (TypeError 304))"
  by (rule piece_packet_throws) (simp_all add: pkt_ok_def pkt_blank_def named_types_def)


lemma interested_size: "\<exists>bs. encode_PktMsg (pkt_blank Interested) = Inr bs \<and> length bs = 15"
proof -
  obtain bs where bs: "encode_PktMsg (pkt_blank Interested) = Inr bs"
    using encode_total [OF pkt_blank_ok] by (auto simp: named_types_def)
  have "calc_entries_size [(bytes_of ''type'', to_json_enum (msg_code Interested))] = Inr 10"
    by (simp add: byte_keys to_json_enum_def calc_bson_entry_header_size_def calc_bson_integer_size_def fits_int32_def)
  with bs have "length bs = 15"
    by (auto simp: encode_PktMsg_def to_json_PktMsg_eq pkt_blank_def to_bson_def calc_bson_object_size_def
        rbind_Inr_iff dest: calc_size_correct(2) simp del: write_entries.simps calc_entries_size.simps)
  with bs show ?thesis by blast
qed


end
