(* ===== verification/Sockets.thy ===== *)
theory Sockets
  imports BTRx_Prelude
begin

text \<open>
  A connected stream socket as the handlers see it: the bytes the peer sends, how the calls to \<^verbatim>\<open>recv\<close>
  go (a list with one entry per call, chosen by the network), how the calls to \<^verbatim>\<open>send\<close> go, and the
  bytes sent so far.
\<close>

text \<open>
  \<open>Got k\<close> is a call that finds up to \<open>k\<close> bytes there; \<open>TimedOut\<close> and \<open>RecvErr\<close> both return -1, with
  different error numbers; \<open>PeerClosed\<close> returns 0.
\<close>

datatype recv_ev = Got nat | TimedOut | RecvErr | PeerClosed

record sock =
  sk_in :: bytes
  sk_evs :: "recv_ev list"
  sk_out :: bytes
  sk_sendrc :: "nat \<Rightarrow> int"
  sk_nsend :: nat

text \<open>\<^verbatim>\<open>recv(sock, buf, n, flags)\<close>: the value returned and the bytes stored; none while the call still waits.\<close>

definition sock_recv :: "bool \<Rightarrow> nat \<Rightarrow> sock \<Rightarrow> (int \<times> bytes \<times> sock) option" where
  "sock_recv peek n s = (case sk_evs s of
      [] \<Rightarrow> None
    | Got k # es \<Rightarrow>
        let d = take (min k n) (sk_in s)
        in Some (int (length d), d, s\<lparr>sk_evs := es, sk_in := (if peek then sk_in s else drop (length d) (sk_in s))\<rparr>)
    | PeerClosed # es \<Rightarrow> Some (0, [], s\<lparr>sk_evs := es\<rparr>)
    | _ # es \<Rightarrow> Some (-1, [], s\<lparr>sk_evs := es\<rparr>))"

text \<open>\<^verbatim>\<open>send\<close>: a negative status, or the number of bytes the network takes, at most those offered.\<close>

definition sock_send :: "bytes \<Rightarrow> sock \<Rightarrow> int \<times> sock" where
  "sock_send bs s =
     (let rc = sk_sendrc s (sk_nsend s); s = s\<lparr>sk_nsend := Suc (sk_nsend s)\<rparr>
      in if rc < 0 then (-1, s)
         else let d = take (nat rc) bs in (int (length d), s\<lparr>sk_out := sk_out s @ d\<rparr>))"

text \<open>A socket whose sends all go through whole.\<close>

definition sends_whole :: "sock \<Rightarrow> bool" where
  "sends_whole s \<longleftrightarrow> (\<forall>i. 2 ^ 32 \<le> sk_sendrc s i)"

lemma sock_send_whole:
  assumes "sends_whole s" and "length bs \<le> 2 ^ 32"
  shows "sock_send bs s = (int (length bs), s\<lparr>sk_nsend := Suc (sk_nsend s), sk_out := sk_out s @ bs\<rparr>)"
proof -
  have "2 ^ 32 \<le> sk_sendrc s (sk_nsend s)" using assms(1) by (simp add: sends_whole_def)
  moreover from this have "length bs \<le> nat (sk_sendrc s (sk_nsend s))" using assms(2) by simp
  ultimately show ?thesis by (cases s) (simp add: sock_send_def Let_def)
qed

lemma sends_whole_update [simp]:
  "sends_whole (s\<lparr>sk_nsend := n\<rparr>) = sends_whole s" "sends_whole (s\<lparr>sk_out := bs\<rparr>) = sends_whole s"
  "sends_whole (s\<lparr>sk_in := bs\<rparr>) = sends_whole s" "sends_whole (s\<lparr>sk_evs := es\<rparr>) = sends_whole s"
  by (simp_all add: sends_whole_def)

end
