(* ===== verification/Handler.thy ===== *)
theory Handler
  imports Logger ObjStore NbrMap Pkts Sockets
begin

text \<open>
  One connection of the node: \<^verbatim>\<open>handler/outhelper.cpp\<close> (sending), \<^verbatim>\<open>handler/inhelper.cpp\<close> (receiving) and
  the loop of \<^verbatim>\<open>handler/handler.cpp\<close>. A turn of the loop runs without the other threads in between.
\<close>

section \<open>State\<close>

text \<open>
  What the environment decides: fresh memory, an uninitialised packet, the date, the iteration order of
  an unordered map, how large an array the stack takes, and the text of \<^verbatim>\<open>strerror(errno)\<close>.
\<close>

record henv =
  he_junk :: "nat \<Rightarrow> u8"
  he_pkt :: PktMsg
  he_date :: string
  he_order :: "u32 list \<Rightarrow> u32 list"
  he_stack :: nat
  he_err :: string

text \<open>What a connection's thread works on: its socket and the objects it shares with the other threads.\<close>

record conn =
  cn_sock :: sock
  cn_log :: Logger
  cn_ost :: ObjStore
  cn_nm :: NbrMap

text \<open>The local variables of \<^verbatim>\<open>cli_handler\<close>; the map \<^verbatim>\<open>reqs\<close> holds \<^verbatim>\<open>true\<close> for each of its keys.\<close>

record cli =
  cl_client :: bool
  cl_peerid :: u32
  cl_ntimeouts :: u32
  cl_choked_node :: bool
  cl_choked_peer :: bool
  cl_nbr :: nbr_ptr
  cl_diff :: bytes
  cl_bfield_peer :: bytes
  cl_reqs :: "u32 list"

definition reqs_put :: "u32 \<Rightarrow> u32 list \<Rightarrow> u32 list" where
  "reqs_put k reqs = (if k \<in> set reqs then reqs else reqs @ [k])"

section \<open>Sending\<close>

text \<open>The packet \<^verbatim>\<open>{.type = t}\<close>: everything not named is zero.\<close>

definition snd_json :: "henv \<Rightarrow> json \<Rightarrow> conn \<Rightarrow> conn res" where
  "snd_json env j c =
     rbind (to_bson j) (\<lambda>bson.
     if he_stack env < length bson then Inl (UB StackOverflow)
     else let (rc, s) = sock_send bson (cn_sock c); c = c\<lparr>cn_sock := s\<rparr>
          in if rc < 0 then rbind (write_msg LOG_ERR ''HANDLER: Send: %s'' [PStr (he_err env)] (cn_log c)) (\<lambda>_. Inl (Exit 1))
             else Inr c)"

definition snd_pkt :: "henv \<Rightarrow> PktMsg \<Rightarrow> conn \<Rightarrow> conn res" where
  "snd_pkt env pkt c = snd_json env (to_json_PktMsg pkt) c"

definition send_handshake :: "henv \<Rightarrow> int \<Rightarrow> conn \<Rightarrow> conn res" where
  "send_handshake env peerid c =
     snd_pkt env ((pkt_blank Handshake)\<lparr>pm_hshake :=
       \<lparr>hs_header = bytes_of ''P2PFILESHARINGPROJ'' @ [0], hs_zero = replicate 10 0, hs_peerid = word_of_int peerid\<rparr>\<rparr>) c"

definition send_bfield :: "henv \<Rightarrow> conn \<Rightarrow> conn res" where
  "send_bfield env c = (case os_bfield (cn_ost c) of
      None \<Rightarrow> Inl (UB NullDeref)
    | Some b \<Rightarrow> rbind (Bfield_clone b) (\<lambda>(vec, b).
        let c = c\<lparr>cn_ost := (cn_ost c)\<lparr>os_bfield := Some b\<rparr>\<rparr>
        in snd_pkt env ((pkt_blank BitField)\<lparr>pm_bfield := \<lparr>bm_bfield = vec\<rparr>\<rparr>) c))"

definition send_interested :: "henv \<Rightarrow> conn \<Rightarrow> conn res" where
  "send_interested env c = snd_pkt env (pkt_blank Interested) c"

definition send_not_interested :: "henv \<Rightarrow> conn \<Rightarrow> conn res" where
  "send_not_interested env c = snd_pkt env (pkt_blank NotInterested) c"

definition request_pkt :: "u32 \<Rightarrow> PktMsg" where
  "request_pkt pcno = (pkt_blank Request)\<lparr>pm_req := \<lparr>rq_pcno = pcno\<rparr>\<rparr>"

definition send_requests :: "henv \<Rightarrow> u32 list \<Rightarrow> conn \<Rightarrow> conn res" where
  "send_requests env reqs c = rfold (\<lambda>pcno. snd_pkt env (request_pkt pcno)) (he_order env reqs) c"

text \<open>The buffer of a piece is a variable-length array: its length must be positive and fit the stack.\<close>

definition send_piece :: "henv \<Rightarrow> u32 \<Rightarrow> conn \<Rightarrow> conn res" where
  "send_piece env pcno c =
     (if os_pcsz (cn_ost c) \<le> 0 \<or> int (he_stack env) < os_pcsz (cn_ost c) then Inl (UB StackOverflow)
      else rbind (get_piece (he_junk env) (int_of_u32 pcno) (cn_ost c)) (\<lambda>(ret, buf, ost).
           if ret = 0 then Inl (Exit 1)
           else rbind (c_str (case buf of Some bs \<Rightarrow> bs | None \<Rightarrow> fresh_bytes (he_junk env) (nat (os_pcsz ost)))) (\<lambda>piece.
                snd_pkt env ((pkt_blank Piece)\<lparr>pm_piece := \<lparr>pc_pcno = pcno, pc_payload = piece\<rparr>\<rparr>) (c\<lparr>cn_ost := ost\<rparr>))))"

definition send_choke_status :: "henv \<Rightarrow> bool \<Rightarrow> conn \<Rightarrow> conn res" where
  "send_choke_status env choke c = snd_pkt env (if choke then pkt_blank Choke else pkt_blank UnChoke) c"

definition have_bit :: "henv \<Rightarrow> bytes \<Rightarrow> nat \<times> nat \<Rightarrow> conn \<Rightarrow> conn res" where
  "have_bit env bfield_peer ij c = (case ij of (i, j) \<Rightarrow>
     let mask = bitmask j; pcno = of_nat (i * 8 + j) :: u32
     in if bfield_peer ! i AND mask = mask
        then rbind (ObjStore_exists pcno (cn_ost c)) (\<lambda>(there, ost).
             let c = c\<lparr>cn_ost := ost\<rparr>
             in if there then snd_pkt env ((pkt_blank Have)\<lparr>pm_have := \<lparr>hv_pcno = pcno\<rparr>\<rparr>) c else Inr c)
        else Inr c)"

definition send_haves :: "henv \<Rightarrow> bytes \<Rightarrow> conn \<Rightarrow> conn res" where
  "send_haves env bfield_peer c =
     rfold (have_bit env bfield_peer) (List.product [0..<length bfield_peer] [0..<8]) c"

section \<open>Receiving\<close>

text \<open>
  The status is compared with the error number \<^verbatim>\<open>EWOULDBLOCK\<close> itself. \<open>None\<close> is a call that waits.
\<close>

definition EWOULDBLOCK :: int where
  "EWOULDBLOCK = 11"

definition rcv_sz :: "henv \<Rightarrow> conn \<Rightarrow> ((bool \<times> u32) \<times> conn) option res" where
  "rcv_sz env c = (case sock_recv True 4 (cn_sock c) of
      None \<Rightarrow> Inr None
    | Some (stat, d, s) \<Rightarrow>
        let c = c\<lparr>cn_sock := s\<rparr>; cmdr = d @ replicate (4 - length d) 0
        in if stat = EWOULDBLOCK then Inr (Some ((True, 0), c))
           else if stat = 0 then Inr (Some ((False, 0), c))
           else if stat < 0 then rbind (write_msg LOG_ERR ''HANDLER: Recv: %s'' [PStr (he_err env)] (cn_log c)) (\<lambda>_. Inl (Exit 1))
           else Inr (Some ((True, bytes_word cmdr), c)))"

text \<open>The bytes of the array the call does not fill stay what they were.\<close>

definition rcv :: "henv \<Rightarrow> nat \<Rightarrow> conn \<Rightarrow> (bytes \<times> conn) option res" where
  "rcv env sz c = (case sock_recv False sz (cn_sock c) of
      None \<Rightarrow> Inr None
    | Some (stat, d, s) \<Rightarrow>
        let c = c\<lparr>cn_sock := s\<rparr>
        in if stat < 0 then rbind (write_msg LOG_ERR ''HANDLER: Recv: %s'' [PStr (he_err env)] (cn_log c)) (\<lambda>_. Inl (Exit 1))
           else Inr (Some (d @ drop (length d) (fresh_bytes (he_junk env) sz), c)))"

definition handle_piece :: "henv \<Rightarrow> PktMsg \<Rightarrow> u32 list \<Rightarrow> conn \<Rightarrow> (u32 list \<times> conn) res" where
  "handle_piece env pkt reqs c =
     (let pcno = pc_pcno (pm_piece pkt); pcsz = os_pcsz (cn_ost c)
      in if pcsz \<le> 0 \<or> int (he_stack env) < pcsz then Inl (UB StackOverflow)
         else let piece = snprintf_s (fresh_bytes (he_junk env) (nat pcsz)) (nat pcsz)
                            (takeWhile (\<lambda>b. b \<noteq> 0) (pc_payload (pm_piece pkt)))
              in rbind (add_piece (he_junk env) (int_of_u32 pcno) piece (cn_ost c)) (\<lambda>(_, ost).
                 Inr (removeAll pcno reqs, c\<lparr>cn_ost := ost\<rparr>)))"

definition handle_have :: "henv \<Rightarrow> PktMsg \<Rightarrow> u32 list \<Rightarrow> conn \<Rightarrow> conn res" where
  "handle_have env pkt reqs c =
     (if hv_pcno (pm_have pkt) \<in> set reqs
      then rbind (send_interested env c) (\<lambda>c. snd_pkt env (request_pkt (hv_pcno (pm_have pkt))) c)
      else Inr c)"

section \<open>The handler\<close>

text \<open>The flag is passed by value, so what it is set to is lost.\<close>

definition choke_status_check :: "henv \<Rightarrow> nbr_ptr \<Rightarrow> bool \<Rightarrow> conn \<Rightarrow> conn res" where
  "choke_status_check env nbr choked_peer c =
     (if nbr = None then Inr c
      else rbind (nbr_get (cn_nm c) nbr) (\<lambda>n.
           let choked_tmp = choked_peer; choked_peer = nb_choked n
           in if choked_tmp \<noteq> choked_peer then send_choke_status env choked_peer c else Inr c))"

definition diff_to_reqs :: "u32 list \<Rightarrow> bytes \<Rightarrow> u32 list" where
  "diff_to_reqs reqs diff =
     fold (\<lambda>(i, j) reqs. if diff ! i AND bitmask j = bitmask j then reqs_put (of_nat (i * 8 + j)) reqs else reqs)
       (List.product [0..<length diff] [0..<8]) reqs"

definition cn_write :: "(Logger \<Rightarrow> Logger res) \<Rightarrow> conn \<Rightarrow> conn res" where
  "cn_write w c = rbind (w (cn_log c)) (\<lambda>lg. Inr (c\<lparr>cn_log := lg\<rparr>))"

definition cn_nbr :: "(Nbr \<Rightarrow> Nbr) \<Rightarrow> nbr_ptr \<Rightarrow> conn \<Rightarrow> conn res" where
  "cn_nbr f p c = rbind (nbr_upd f p (cn_nm c)) (\<lambda>nm. Inr (c\<lparr>cn_nm := nm\<rparr>))"

text \<open>The switch over the type of a packet; \<open>self\<close> is the node's own peer id.\<close>

definition on_handshake :: "henv \<Rightarrow> int \<Rightarrow> PktMsg \<Rightarrow> cli \<Rightarrow> conn \<Rightarrow> (cli \<times> conn) res" where
  "on_handshake env self pkt l c =
     (let peerid = hs_peerid (pm_hshake pkt); l = l\<lparr>cl_peerid := peerid\<rparr>
      in rbind (if cl_client l
                then rbind (cn_write (write_msg_pair (he_date env) LOG_TCP_FIN self (int_of_u32 peerid)) c) (\<lambda>c.
                     send_handshake env self c)
                else Inr c) (\<lambda>c.
         rbind (register_cli (int_of_u32 peerid) (cn_nm c)) (\<lambda>(nbr, nm).
         Inr (l\<lparr>cl_nbr := nbr\<rparr>, c\<lparr>cn_nm := nm\<rparr>))))"

definition on_bitfield :: "henv \<Rightarrow> PktMsg \<Rightarrow> cli \<Rightarrow> conn \<Rightarrow> (cli \<times> conn) res" where
  "on_bitfield env pkt l c =
     (let l = l\<lparr>cl_bfield_peer := bm_bfield (pm_bfield pkt)\<rparr>
      in rbind (if cl_client l then send_bfield env c else Inr c) (\<lambda>c.
         rbind (earmark (os_bfield (cn_ost c)) (cl_bfield_peer l) (cl_diff l) (cn_nm c)) (\<lambda>(interested, diff, node, nm).
         let l = l\<lparr>cl_diff := diff\<rparr>; c = c\<lparr>cn_ost := (cn_ost c)\<lparr>os_bfield := Some node\<rparr>, cn_nm := nm\<rparr>
         in if interested
            then rbind (send_interested env c) (\<lambda>c.
                 let l = l\<lparr>cl_reqs := diff_to_reqs (cl_reqs l) diff\<rparr>
                 in rbind (if \<not> cl_client l \<and> \<not> cl_choked_node l then send_requests env (cl_reqs l) c else Inr c) (\<lambda>c.
                    Inr (l, c)))
            else rbind (send_not_interested env c) (\<lambda>c. Inr (l, c)))))"

definition on_request :: "henv \<Rightarrow> PktMsg \<Rightarrow> cli \<Rightarrow> conn \<Rightarrow> (cli \<times> conn) res" where
  "on_request env pkt l c =
     rbind (cn_nbr (\<lambda>n. n\<lparr>nb_requests := nb_requests n + 1\<rparr>) (cl_nbr l) c) (\<lambda>c.
     rbind (if \<not> cl_choked_peer l then send_piece env (rq_pcno (pm_req pkt)) c else Inr c) (\<lambda>c.
     rbind (if \<not> cl_choked_node l then send_requests env (cl_reqs l) c else Inr c) (\<lambda>c. Inr (l, c))))"

definition dispatch :: "henv \<Rightarrow> int \<Rightarrow> PktMsg \<Rightarrow> cli \<Rightarrow> conn \<Rightarrow> (cli \<times> conn) res" where
  "dispatch env self pkt l c =
     (let peerid = int_of_u32 (cl_peerid l)
      in case pm_type pkt of
           Handshake \<Rightarrow> on_handshake env self pkt l c
         | Choke \<Rightarrow> rbind (cn_write (write_msg_pair (he_date env) LOG_CHK self peerid) c) (\<lambda>c.
             Inr (l\<lparr>cl_choked_node := True\<rparr>, c))
         | UnChoke \<Rightarrow> rbind (cn_write (write_msg_pair (he_date env) LOG_UCHK self peerid) c) (\<lambda>c.
             rbind (send_requests env (cl_reqs l) c) (\<lambda>c. Inr (l\<lparr>cl_choked_node := False\<rparr>, c)))
         | Interested \<Rightarrow> rbind (cn_nbr (\<lambda>n. n\<lparr>nb_interested := True\<rparr>) (cl_nbr l) c) (\<lambda>c.
             rbind (cn_write (write_msg_pair (he_date env) LOG_INT self peerid) c) (\<lambda>c. Inr (l, c)))
         | NotInterested \<Rightarrow> rbind (cn_nbr (\<lambda>n. n\<lparr>nb_interested := False\<rparr>) (cl_nbr l) c) (\<lambda>c.
             rbind (cn_write (write_msg_pair (he_date env) LOG_UINT self peerid) c) (\<lambda>c. Inr (l, c)))
         | Have \<Rightarrow> rbind (cn_write (write_msg_have (he_date env) LOG_UINT self peerid (pc_pcno (pm_piece pkt))) c) (\<lambda>c.
             rbind (handle_have env pkt (cl_reqs l) c) (\<lambda>c. Inr (l, c)))
         | BitField \<Rightarrow> on_bitfield env pkt l c
         | Request \<Rightarrow> on_request env pkt l c
         | Piece \<Rightarrow> rbind (cn_write (write_msg_piece (he_date env) LOG_UINT self peerid (pc_pcno (pm_piece pkt))
                 (os_npcs (cn_ost c))) c) (\<lambda>c.
             rbind (handle_piece env pkt (cl_reqs l) c) (\<lambda>(reqs, c). Inr (l\<lparr>cl_reqs := reqs\<rparr>, c)))
         | OtherType _ \<Rightarrow> Inl (Exit 1))"

text \<open>One turn of the loop: it goes on, it breaks, or it waits in a \<^verbatim>\<open>recv\<close>.\<close>

datatype turn = Next cli conn | Break cli conn | Waiting

definition on_timeout :: "henv \<Rightarrow> cli \<Rightarrow> conn \<Rightarrow> turn res" where
  "on_timeout env l c =
     rbind (send_requests env (cl_reqs l) c) (\<lambda>c.
     let l = l\<lparr>cl_ntimeouts := cl_ntimeouts l + 1\<rparr>
     in if cl_ntimeouts l mod 2 = 0 then rbind (send_haves env (cl_bfield_peer l) c) (\<lambda>c. Inr (Next l c))
        else if cl_ntimeouts l = 5 then Inr (Break l c)
        else Inr (Next l c))"

definition on_frame :: "henv \<Rightarrow> int \<Rightarrow> nat \<Rightarrow> cli \<Rightarrow> conn \<Rightarrow> turn res" where
  "on_frame env self sz l c =
     (if he_stack env < sz then Inl (UB StackOverflow)
      else rbind (rcv env sz c) (\<lambda>r. case r of
          None \<Rightarrow> Inr Waiting
        | Some (cmdr, c) \<Rightarrow>
            rbind (from_bson cmdr) (\<lambda>j.
            rbind (from_json_PktMsg j (he_pkt env)) (\<lambda>pkt.
            rbind (choke_status_check env (cl_nbr l) (cl_choked_peer l) c) (\<lambda>c.
            rbind (dispatch env self pkt l c) (\<lambda>(l, c). Inr (Next l c)))))))"

definition cli_turn :: "henv \<Rightarrow> int \<Rightarrow> cli \<Rightarrow> conn \<Rightarrow> turn res" where
  "cli_turn env self l c =
     rbind (rcv_sz env c) (\<lambda>r. case r of
         None \<Rightarrow> Inr Waiting
       | Some ((False, _), c) \<Rightarrow> Inr (Break l c)
       | Some ((True, sz), c) \<Rightarrow> if sz = 0 then on_timeout env l c else on_frame env self (unat sz) l c)"

text \<open>At most \<open>n\<close> turns; the result says whether the loop was left.\<close>

fun cli_loop :: "henv \<Rightarrow> int \<Rightarrow> nat \<Rightarrow> cli \<Rightarrow> conn \<Rightarrow> (bool \<times> cli \<times> conn) res" where
  "cli_loop env self 0 l c = Inr (False, l, c)"
| "cli_loop env self (Suc n) l c =
     rbind (cli_turn env self l c) (\<lambda>t. case t of
         Next l c \<Rightarrow> cli_loop env self n l c
       | Break l c \<Rightarrow> Inr (True, l, c)
       | Waiting \<Rightarrow> Inr (False, l, c))"

definition cli_start :: "henv \<Rightarrow> u32 \<Rightarrow> int \<Rightarrow> int \<Rightarrow> conn \<Rightarrow> (cli \<times> conn) res" where
  "cli_start env uninit self peer c =
     (let l = \<lparr>cl_client = (peer = 0), cl_peerid = uninit, cl_ntimeouts = 0, cl_choked_node = False,
               cl_choked_peer = False, cl_nbr = None, cl_diff = [], cl_bfield_peer = [], cl_reqs = []\<rparr>
      in rbind (if peer = 0 then Inr c
                else rbind (cn_write (write_msg_pair (he_date env) LOG_TCP_INIT self peer) c) (\<lambda>c.
                     rbind (send_handshake env self c) (\<lambda>c. send_bfield env c))) (\<lambda>c.
         Inr (l, c)))"

definition cli_finish :: "cli \<Rightarrow> conn \<Rightarrow> conn res" where
  "cli_finish l c = cn_nbr (\<lambda>n. n\<lparr>nb_done := True\<rparr>) (cl_nbr l) c"

definition cli_handler :: "henv \<Rightarrow> u32 \<Rightarrow> nat \<Rightarrow> int \<Rightarrow> int \<Rightarrow> conn \<Rightarrow> (bool \<times> conn) res" where
  "cli_handler env uninit n self peer c =
     rbind (cli_start env uninit self peer c) (\<lambda>(l, c).
     rbind (cli_loop env self n l c) (\<lambda>(left, l, c).
     if left then rbind (cli_finish l c) (\<lambda>c. Inr (True, c)) else Inr (False, c)))"

end
