(* ===== verification/Session.thy ===== *)
theory Session
  imports Handler
begin

text \<open>
  What a connection of \<^verbatim>\<open>handler/handler.cpp\<close> does: packets the node sends and packets it receives keep
  their frames, a packet of the stream is dispatched as it was sent, a bit field packet makes the node
  reserve and request pieces, and the loop ends or waits within as many turns as there are calls to
  \<^verbatim>\<open>recv\<close>.
\<close>

section \<open>Packets on the wire\<close>

text \<open>A packet the node can send whole: convertible, and its document fits the stack and a frame.\<close>

definition pkt_fits :: "henv \<Rightarrow> PktMsg \<Rightarrow> bool" where
  "pkt_fits env pkt \<longleftrightarrow> (\<exists>bs. encode_PktMsg pkt = Inr bs \<and> length bs \<le> he_stack env \<and> length bs \<le> 2 ^ 32)"

text \<open>\<open>c'\<close> is \<open>c\<close> after sending these packets, and nothing else.\<close>

definition emits :: "PktMsg list \<Rightarrow> conn \<Rightarrow> conn \<Rightarrow> bool" where
  "emits pkts c c' \<longleftrightarrow> (\<exists>s. encode_all encode_PktMsg pkts = Inr s \<and>
     c' = c\<lparr>cn_sock := (cn_sock c)\<lparr>sk_out := sk_out (cn_sock c) @ s, sk_nsend := sk_nsend (cn_sock c) + length pkts\<rparr>\<rparr>)"

lemma encode_all_append:
  "encode_all enc (xs @ ys) = rbind (encode_all enc xs) (\<lambda>a. rbind (encode_all enc ys) (\<lambda>b. Inr (a @ b)))"
proof (induction xs)
  case (Cons x xs)
  then show ?case by (cases "enc x"; cases "encode_all enc xs"; cases "encode_all enc ys") simp_all
qed (simp add: rbind_def split: sum.split)

lemma emits_Nil [simp]: "emits [] c c"
  by (simp add: emits_def)

lemma emits_trans: "emits ps c c1 \<Longrightarrow> emits qs c1 c2 \<Longrightarrow> emits (ps @ qs) c c2"
  by (auto simp: emits_def encode_all_append)

lemma emits_frame:
  assumes "emits ps c c'"
  shows "cn_log c' = cn_log c" "cn_ost c' = cn_ost c" "cn_nm c' = cn_nm c"
    "sends_whole (cn_sock c') = sends_whole (cn_sock c)"
    "sk_in (cn_sock c') = sk_in (cn_sock c)" "sk_evs (cn_sock c') = sk_evs (cn_sock c)"
  using assms by (auto simp: emits_def)

lemma snd_pkt_emits:
  assumes "pkt_fits env pkt" and "sends_whole (cn_sock c)"
  shows "\<exists>c'. snd_pkt env pkt c = Inr c' \<and> emits [pkt] c c'"
proof -
  obtain bs where bs: "encode_PktMsg pkt = Inr bs" "length bs \<le> he_stack env" "length bs \<le> 2 ^ 32"
    using assms(1) by (auto simp: pkt_fits_def)
  from sock_send_whole [OF assms(2) bs(3)] bs(1,2) show ?thesis
    by (simp add: snd_pkt_def snd_json_def emits_def encode_PktMsg_def)
qed

lemma rfold_emits:
  assumes "\<forall>x \<in> set xs. pkt_fits env (p x)" and "sends_whole (cn_sock c)"
  shows "\<exists>c'. rfold (\<lambda>x. snd_pkt env (p x)) xs c = Inr c' \<and> emits (map p xs) c c'"
  using assms
proof (induction xs arbitrary: c)
  case (Cons x xs)
  from snd_pkt_emits [of env "p x" c] Cons.prems obtain c1 where c1: "snd_pkt env (p x) c = Inr c1" "emits [p x] c c1"
    by auto
  from Cons.IH [of c1] Cons.prems emits_frame(4) [OF c1(2)] obtain c2 where
    c2: "rfold (\<lambda>x. snd_pkt env (p x)) xs c1 = Inr c2" "emits (map p xs) c1 c2" by auto
  show ?case using c1 c2 emits_trans [OF c1(2) c2(2)] by simp
qed simp

text \<open>The sizes of packets: the short ones take at most 64 bytes.\<close>

lemma length_show_nat: "length (show_nat i) \<le> i + 1"
proof (induction i rule: show_nat.induct)
  case (1 n)
  have "n div 10 + 1 \<le> n" if "\<not> n < 10" using that by linarith
  with 1 show ?case by (subst show_nat.simps) auto
qed

lemma length_index_name: "length (index_name i) \<le> i + 1"
  using length_show_nat [of i] by (simp add: index_name_def bytes_of_def)

lemma encode_length:
  assumes "encode_PktMsg pkt = Inr bs"
    and "calc_entries_size (msg_body pkt @ [(bytes_of ''type'', to_json_enum (msg_code (pm_type pkt)))]) = Inr n"
  shows "length bs = n + 5"
  using assms
  by (auto simp: encode_PktMsg_def to_json_PktMsg_eq to_bson_def calc_bson_object_size_def rbind_Inr_iff
      dest: calc_size_correct(2) simp del: write_entries.simps calc_entries_size.simps)

definition short_types :: "MessageType list" where
  "short_types = [Choke, UnChoke, Interested, NotInterested, Have, Request]"

lemma short_entries_size:
  assumes "pm_type pkt \<in> set short_types"
  shows "\<exists>n \<le> 59. calc_entries_size (msg_body pkt @ [(bytes_of ''type'', to_json_enum (msg_code (pm_type pkt)))]) = Inr n"
  using assms
  by (auto simp: short_types_def byte_keys to_json_one_key to_json_enum_def to_json_unsigned_def
      calc_bson_entry_header_size_def calc_bson_integer_size_def calc_bson_unsigned_size_def)

lemma short_fits:
  assumes "pkt_ok pkt" and "pm_type pkt \<in> set short_types" and "64 \<le> he_stack env"
  shows "pkt_fits env pkt"
proof -
  obtain bs where bs: "encode_PktMsg pkt = Inr bs" using encode_total [OF assms(1)] by blast
  obtain n where "n \<le> 59" "length bs = n + 5"
    using short_entries_size [OF assms(2)] encode_length [OF bs] by blast
  with bs assms(3) show ?thesis by (auto simp: pkt_fits_def)
qed

lemma pkt_blank_short: "t \<in> set short_types \<Longrightarrow> 64 \<le> he_stack env \<Longrightarrow> pkt_fits env (pkt_blank t)"
  by (rule short_fits) (auto simp: pkt_blank_ok short_types_def named_types_def, auto simp: pkt_blank_def)

lemma request_fits: "64 \<le> he_stack env \<Longrightarrow> pkt_fits env (request_pkt pcno)"
  by (rule short_fits) (auto simp: request_pkt_def pkt_ok_def pkt_blank_def named_types_def short_types_def)

lemma send_requests_emits:
  "64 \<le> he_stack env \<Longrightarrow> sends_whole (cn_sock c) \<Longrightarrow>
    \<exists>c'. send_requests env reqs c = Inr c' \<and> emits (map request_pkt (he_order env reqs)) c c'"
  unfolding send_requests_def by (rule rfold_emits) (auto simp: request_fits)

section \<open>Receiving a frame\<close>

lemma rcv_sz_frame:
  assumes "sk_evs (cn_sock c) = Got k # es" and "4 \<le> k" and "4 \<le> length (sk_in (cn_sock c))"
  shows "rcv_sz env c = Inr (Some ((True, bytes_word (take 4 (sk_in (cn_sock c)))),
    c\<lparr>cn_sock := (cn_sock c)\<lparr>sk_evs := es\<rparr>\<rparr>))"
  using assms by (simp add: rcv_sz_def sock_recv_def EWOULDBLOCK_def Let_def)

lemma rcv_frame:
  assumes "sk_evs (cn_sock c) = Got k # es" and "length bs \<le> k" and "sk_in (cn_sock c) = bs @ rest"
  shows "rcv env (length bs) c = Inr (Some (bs, c\<lparr>cn_sock := (cn_sock c)\<lparr>sk_evs := es, sk_in := rest\<rparr>\<rparr>))"
  using assms by (simp add: rcv_def sock_recv_def Let_def)

definition next_turn :: "(cli \<times> conn) res \<Rightarrow> turn res" where
  "next_turn r = rbind r (\<lambda>(l, c). Inr (Next l c))"

lemma turn_frame:
  assumes "encode_PktMsg pkt = Inr bs" and "length bs < 2 ^ 32" and "length bs \<le> he_stack env"
    and "sk_in (cn_sock c) = bs @ rest" and "sk_evs (cn_sock c) = Got k # Got m # es" and "4 \<le> k" and "length bs \<le> m"
  shows "cli_turn env self l c =
    rbind (decode_PktMsg (he_pkt env) bs) (\<lambda>pkt.
    rbind (choke_status_check env (cl_nbr l) (cl_choked_peer l) (c\<lparr>cn_sock := (cn_sock c)\<lparr>sk_evs := es, sk_in := rest\<rparr>\<rparr>)) (\<lambda>c.
    next_turn (dispatch env self pkt l c)))"
proof -
  have len: "4 \<le> length bs" "unat (bytes_word (take 4 (bs @ rest)) :: u32) = length bs"
    using pk.frame_length [OF assms(1,2)] by blast+
  let ?c = "c\<lparr>cn_sock := (cn_sock c)\<lparr>sk_evs := Got m # es\<rparr>\<rparr>"
  have sz: "rcv_sz env c = Inr (Some ((True, bytes_word (take 4 (bs @ rest))), ?c))"
    using rcv_sz_frame [OF assms(5,6)] assms(4) len(1) by simp
  have "rcv env (length bs) ?c = Inr (Some (bs, c\<lparr>cn_sock := (cn_sock c)\<lparr>sk_evs := es, sk_in := rest\<rparr>\<rparr>))"
    using rcv_frame [of ?c m es bs rest] assms(4,7) by simp
  moreover have "(bytes_word (take 4 (bs @ rest)) :: u32) \<noteq> 0" using len by (metis unat_0 not_numeral_le_zero)
  ultimately show ?thesis
    unfolding cli_turn_def sz using assms(3) len(2)
    by (simp add: on_frame_def decode_PktMsg_def next_turn_def)
qed

section \<open>Requests from a difference\<close>

lemma set_reqs_put [simp]: "set (reqs_put k reqs) = insert k (set reqs)"
  by (auto simp: reqs_put_def)

lemma distinct_reqs_put: "distinct reqs \<Longrightarrow> distinct (reqs_put k reqs)"
  by (simp add: reqs_put_def)

definition diff_step :: "bytes \<Rightarrow> nat \<Rightarrow> u32 list \<Rightarrow> u32 list" where
  "diff_step diff p reqs = (if has_piece diff p then reqs_put (of_nat p) reqs else reqs)"

lemma diff_to_reqs_eq: "diff_to_reqs reqs diff = fold (diff_step diff) [0..<8 * length diff] reqs"
proof -
  have "fold (\<lambda>(i, j) reqs. if diff ! i AND bitmask j = bitmask j then reqs_put (of_nat (i * 8 + j)) reqs else reqs)
      (map (\<lambda>p. (p div 8, p mod 8)) ps) reqs = fold (diff_step diff) ps reqs"
    if "\<forall>p \<in> set ps. p < 8 * length diff" for ps reqs
    using that
  proof (induction ps arbitrary: reqs)
    case (Cons p ps)
    have "p div 8 < length diff" using Cons.prems by auto
    moreover have "p div 8 * 8 + p mod 8 = p" by simp
    ultimately have "(if diff ! (p div 8) AND bitmask (p mod 8) = bitmask (p mod 8)
        then reqs_put (of_nat (p div 8 * 8 + p mod 8)) reqs else reqs) = diff_step diff p reqs"
      by (simp only: diff_step_def has_piece_def and_bitmask_eq mod_less_divisor zero_less_numeral) simp
    then show ?case using Cons by simp
  qed simp
  then show ?thesis by (simp add: diff_to_reqs_def product_bits)
qed

lemma set_diff_to_reqs: "set (diff_to_reqs reqs diff) = set reqs \<union> of_nat ` pieces diff"
proof -
  have "set (fold (diff_step diff) ps reqs) = set reqs \<union> of_nat ` {p \<in> set ps. has_piece diff p}" for ps
    by (induction ps arbitrary: reqs) (auto simp: diff_step_def)
  moreover have "{p \<in> set [0..<8 * length diff]. has_piece diff p} = pieces diff"
    using has_piece_bound by auto
  ultimately show ?thesis by (simp add: diff_to_reqs_eq)
qed

section \<open>What a turn does\<close>

lemma write_err_ok: "\<exists>lg'. write_msg LOG_ERR ''HANDLER: Recv: %s'' [PStr e] lg = Inr lg'"
  by (simp add: write_msg_def lg_fprintf_def)

lemma on_bitfield_eq:
  assumes "os_bfield (cn_ost c) = Some node" and "bfield_ok node" and "bfield_ok (nm_bfield (cn_nm c))"
    and "length (bf_bfield node) \<le> length (bm_bfield (pm_bfield pkt))"
    and "length (cl_diff l) + length (bf_bfield node) \<le> length (bf_bfield (nm_bfield (cn_nm c)))"
    and "64 \<le> he_stack env" and "sends_whole (cn_sock c)" and "\<not> cl_client l" and "\<not> cl_choked_node l"
    and "D = pieces (cl_diff l @ missing (bf_bfield node) (bm_bfield (pm_bfield pkt)))"
    and "R = pieces (bf_bfield (nm_bfield (cn_nm c)))"
    and "want \<longleftrightarrow> (\<exists>q \<in> D - R. \<forall>q' \<in> D. q' \<le> q)"
  shows "\<exists>l' c' b. on_bitfield env pkt l c = Inr (l', c')
    \<and> set (cl_reqs l') = set (cl_reqs l) \<union> (if want then of_nat ` (D - R) else {})
    \<and> emits (if want then pkt_blank Interested # map request_pkt (he_order env (cl_reqs l')) else [pkt_blank NotInterested])
        (c\<lparr>cn_nm := (cn_nm c)\<lparr>nm_bfield := b\<rparr>\<rparr>) c'
    \<and> pieces (bf_bfield b) = R \<union> D \<and> bfield_ok b"
proof -
  from earmark_eq [OF assms(2,4,3,5,10,11)] obtain ret d b where
    e: "earmark (Some node) (bm_bfield (pm_bfield pkt)) (cl_diff l) (cn_nm c) = Inr (ret, d, node, (cn_nm c)\<lparr>nm_bfield := b\<rparr>)"
    "pieces d = D - R" "pieces (bf_bfield b) = R \<union> D" "bfield_ok b" "ret \<longleftrightarrow> (\<exists>q \<in> pieces d. \<forall>q' \<in> D. q' \<le> q)"
    by blast
  have ret: "ret = want" using e(2,5) assms(12) by simp
  define c1 where "c1 = c\<lparr>cn_nm := (cn_nm c)\<lparr>nm_bfield := b\<rparr>\<rparr>"
  have same: "c\<lparr>cn_ost := (cn_ost c)\<lparr>os_bfield := Some node\<rparr>, cn_nm := (cn_nm c)\<lparr>nm_bfield := b\<rparr>\<rparr> = c1"
    using assms(1) by (cases c) (simp add: c1_def)
  have s1: "sends_whole (cn_sock c1)" using assms(7) by (simp add: c1_def)
  show ?thesis
  proof (cases want)
    case False
    obtain c2 where c2: "send_not_interested env c1 = Inr c2" "emits [pkt_blank NotInterested] c1 c2"
      using snd_pkt_emits [OF pkt_blank_short s1, of NotInterested env] assms(6)
      by (auto simp: short_types_def send_not_interested_def)
    then have "on_bitfield env pkt l c = Inr (l\<lparr>cl_bfield_peer := bm_bfield (pm_bfield pkt), cl_diff := d\<rparr>, c2)"
      using e(1) False ret assms(1,8) same by (simp add: on_bitfield_def Let_def)
    then show ?thesis using c2(2) [unfolded c1_def] e(3,4) False by auto
  next
    case True
    obtain c2 where c2: "send_interested env c1 = Inr c2" "emits [pkt_blank Interested] c1 c2"
      using snd_pkt_emits [OF pkt_blank_short s1, of Interested env] assms(6)
      by (auto simp: short_types_def send_interested_def)
    obtain c3 where c3: "send_requests env (diff_to_reqs (cl_reqs l) d) c2 = Inr c3"
        "emits (map request_pkt (he_order env (diff_to_reqs (cl_reqs l) d))) c2 c3"
      using send_requests_emits [OF assms(6), of c2] emits_frame(4) [OF c2(2)] s1 by auto
    have "emits (pkt_blank Interested # map request_pkt (he_order env (diff_to_reqs (cl_reqs l) d))) c1 c3"
      using emits_trans [OF c2(2) c3(2)] by simp
    note em = this [unfolded c1_def]
    have "on_bitfield env pkt l c = Inr (l\<lparr>cl_bfield_peer := bm_bfield (pm_bfield pkt), cl_diff := d,
        cl_reqs := diff_to_reqs (cl_reqs l) d\<rparr>, c3)"
      using e(1) True ret assms(1,8,9) same c2(1) c3(1) by (simp add: on_bitfield_def Let_def)
    then show ?thesis using em e(2,3,4) True by (auto simp: set_diff_to_reqs)
  qed
qed

lemma no_record_null:
  "cl_nbr l = None \<Longrightarrow> pm_type pkt \<in> {Interested, NotInterested, Request} \<Longrightarrow>
    dispatch env self pkt l c = Inl (UB NullDeref)"
  "cl_nbr l = None \<Longrightarrow> cli_finish l c = Inl (UB NullDeref)"
  by (auto simp: dispatch_def on_request_def cli_finish_def cn_nbr_def nbr_upd_def nbr_get_def)

section \<open>The loop ends or waits within the calls to \<^verbatim>\<open>recv\<close> there are\<close>

text \<open>
  What a sending operation leaves alone: the input side of the socket and the earmarks; the map keeps
  its invariant and the store its field.
\<close>

definition framed :: "conn \<Rightarrow> conn \<Rightarrow> bool" where
  "framed c c' \<longleftrightarrow> sk_evs (cn_sock c') = sk_evs (cn_sock c) \<and> sk_in (cn_sock c') = sk_in (cn_sock c)
     \<and> nm_bfield (cn_nm c') = nm_bfield (cn_nm c) \<and> nm_ext (cn_nm c) (cn_nm c') \<and> ost_ext (cn_ost c) (cn_ost c')"

definition frames :: "(conn \<Rightarrow> conn res) \<Rightarrow> bool" where
  "frames f \<longleftrightarrow> (\<forall>c c'. f c = Inr c' \<longrightarrow> framed c c')"

lemma framed_refl [simp]: "framed c c"
  by (simp add: framed_def)

lemma framed_trans [trans]: "framed c c' \<Longrightarrow> framed c' c'' \<Longrightarrow> framed c c''"
  by (auto simp: framed_def intro: nm_ext_trans ost_ext_trans)

lemma framed_ost: "ost_ext (cn_ost c) os \<Longrightarrow> framed c (c\<lparr>cn_ost := os\<rparr>)"
  by (simp add: framed_def)

lemma framedD:
  assumes "framed c c'"
  shows "sk_evs (cn_sock c') = sk_evs (cn_sock c) \<and> sk_in (cn_sock c') = sk_in (cn_sock c)
    \<and> nm_bfield (cn_nm c') = nm_bfield (cn_nm c) \<and> nm_ext (cn_nm c) (cn_nm c') \<and> ost_ext (cn_ost c) (cn_ost c')"
  using assms by (simp add: framed_def)

lemma framesD: "frames f \<Longrightarrow> f c = Inr c' \<Longrightarrow> framed c c'"
  by (auto simp: frames_def)

lemma frames_Inr: "frames Inr"
  by (simp add: frames_def)

lemma frames_bind: "frames f \<Longrightarrow> frames g \<Longrightarrow> frames (\<lambda>c. rbind (f c) g)"
  unfolding frames_def rbind_Inr_iff using framed_trans by blast

lemma frames_if: "frames f \<Longrightarrow> frames g \<Longrightarrow> frames (\<lambda>c. if b then f c else g c)"
  by (simp add: frames_def)

lemma frames_rfold: "(\<And>x. frames (f x)) \<Longrightarrow> frames (rfold f xs)"
proof (induction xs)
  case (Cons x xs)
  then have "frames (\<lambda>c. rbind (f x c) (rfold f xs))" by (intro frames_bind) auto
  then show ?case by (simp add: frames_def)
qed (simp add: frames_def)

lemma sock_send_frame: "sock_send bs s = (rc, s') \<Longrightarrow> sk_evs s' = sk_evs s \<and> sk_in s' = sk_in s"
  by (auto simp: sock_send_def Let_def split: if_splits)

lemma frames_snd_pkt: "frames (snd_pkt env pkt)"
  unfolding frames_def
proof (intro allI impI)
  fix c c' assume "snd_pkt env pkt c = Inr c'"
  then obtain bs where "to_bson (to_json_PktMsg pkt) = Inr bs" "snd_json env (to_json_PktMsg pkt) c = Inr c'"
    by (auto simp: snd_pkt_def snd_json_def rbind_Inr_iff)
  moreover obtain rc s where s: "sock_send bs (cn_sock c) = (rc, s)" by (cases "sock_send bs (cn_sock c)")
  ultimately have "c' = c\<lparr>cn_sock := s\<rparr>" by (auto simp: snd_json_def rbind_Inr_iff Let_def split: if_splits)
  then show "framed c c'" using sock_send_frame [OF s] by (simp add: framed_def)
qed

lemma frames_cn_write: "frames (cn_write w)"
  by (auto simp: frames_def framed_def cn_write_def rbind_Inr_iff)

lemma frames_cn_nbr: "(\<And>n. \<not> nb_choked n \<Longrightarrow> \<not> nb_choked (f n)) \<Longrightarrow> frames (cn_nbr f p)"
proof -
  assume f: "\<And>n. \<not> nb_choked n \<Longrightarrow> \<not> nb_choked (f n)"
  have "framed c (c\<lparr>cn_nm := nm\<rparr>)" if "nbr_upd f p (cn_nm c) = Inr nm" for c nm
  proof -
    have "nm_bfield nm = nm_bfield (cn_nm c)" by (rule nbr_updE [OF that]) simp
    then show ?thesis using nm_ext_upd [OF that f] by (simp add: framed_def)
  qed
  then show ?thesis by (auto simp: frames_def cn_nbr_def rbind_Inr_iff)
qed

lemma frames_send_requests: "frames (send_requests env reqs)"
proof -
  have "send_requests env reqs = rfold (\<lambda>pcno. snd_pkt env (request_pkt pcno)) (he_order env reqs)"
    by (simp add: fun_eq_iff send_requests_def)
  then show ?thesis by (simp add: frames_rfold frames_snd_pkt)
qed

lemma frames_set_ost:
  assumes "\<And>x. frames (g x)" and "\<And>c c'. f c = Inr c' \<Longrightarrow> \<exists>ost x. ost_ext (cn_ost c) ost \<and> g x (c\<lparr>cn_ost := ost\<rparr>) = Inr c'"
  shows "frames f"
  unfolding frames_def
proof (intro allI impI)
  fix c c' assume "f c = Inr c'"
  from assms(2) [OF this] obtain ost x where "ost_ext (cn_ost c) ost" "g x (c\<lparr>cn_ost := ost\<rparr>) = Inr c'" by blast
  then show "framed c c'" using framed_trans [OF framed_ost framesD [OF assms(1)]] by blast
qed

lemma frames_send_bfield: "frames (send_bfield env)"
proof (rule frames_set_ost [where g = "\<lambda>vec. snd_pkt env ((pkt_blank BitField)\<lparr>pm_bfield := \<lparr>bm_bfield = vec\<rparr>\<rparr>)"])
  fix c c' assume "send_bfield env c = Inr c'"
  then obtain b vec b' where b: "os_bfield (cn_ost c) = Some b" "Bfield_clone b = Inr (vec, b')"
    "snd_pkt env ((pkt_blank BitField)\<lparr>pm_bfield := \<lparr>bm_bfield = vec\<rparr>\<rparr>)
        (c\<lparr>cn_ost := (cn_ost c)\<lparr>os_bfield := Some b'\<rparr>\<rparr>) = Inr c'"
    by (auto simp: send_bfield_def rbind_Inr_iff Let_def split: option.splits)
  then have "ost_ext (cn_ost c) ((cn_ost c)\<lparr>os_bfield := Some b'\<rparr>)"
    using Bfield_clone_ext [OF b(2)] by (simp add: ost_ext_def)
  with b(3) show "\<exists>ost x. ost_ext (cn_ost c) ost
      \<and> snd_pkt env ((pkt_blank BitField)\<lparr>pm_bfield := \<lparr>bm_bfield = x\<rparr>\<rparr>) (c\<lparr>cn_ost := ost\<rparr>) = Inr c'"
    by blast
qed (rule frames_snd_pkt)

lemma frames_have_bit: "frames (have_bit env v ij)"
proof -
  obtain i j where ij: "ij = (i, j)" by (cases ij)
  let ?g = "\<lambda>x. if x then snd_pkt env ((pkt_blank Have)\<lparr>pm_have := \<lparr>hv_pcno = of_nat (i * 8 + j)\<rparr>\<rparr>) else Inr"
  have g: "frames (?g x)" for x by (simp add: frames_snd_pkt frames_Inr)
  show ?thesis
  proof (rule frames_set_ost [where g = ?g, OF g])
    fix c c' assume h: "have_bit env v ij c = Inr c'"
    show "\<exists>ost x. ost_ext (cn_ost c) ost \<and> ?g x (c\<lparr>cn_ost := ost\<rparr>) = Inr c'"
    proof (cases "v ! i AND bitmask j = bitmask j")
      case True
      with h obtain x ost where "ObjStore_exists (of_nat (i * 8 + j)) (cn_ost c) = Inr (x, ost)"
          "?g x (c\<lparr>cn_ost := ost\<rparr>) = Inr c'"
        unfolding ij have_bit_def prod.case Let_def rbind_Inr_iff by (auto simp: rbind_Inr_iff split: if_splits)
      then show ?thesis using ost_ext_ops(3) by blast
    next
      case False
      with h have "ost_ext (cn_ost c) (cn_ost c) \<and> ?g False (c\<lparr>cn_ost := cn_ost c\<rparr>) = Inr c'"
        by (simp add: ij have_bit_def Let_def)
      then show ?thesis by blast
    qed
  qed
qed

lemma frames_send_haves: "frames (send_haves env v)"
proof -
  have "send_haves env v = rfold (have_bit env v) (List.product [0..<length v] [0..<8])"
    by (simp add: fun_eq_iff send_haves_def)
  then show ?thesis by (simp add: frames_rfold frames_have_bit)
qed

lemma frames_send_piece: "frames (send_piece env pcno)"
proof (rule frames_set_ost [where g = "\<lambda>s. snd_pkt env ((pkt_blank Piece)\<lparr>pm_piece := \<lparr>pc_pcno = pcno, pc_payload = s\<rparr>\<rparr>)"])
  fix c c' assume "send_piece env pcno c = Inr c'"
  then obtain ret buf ost s where "get_piece (he_junk env) (int_of_u32 pcno) (cn_ost c) = Inr (ret, buf, ost)"
    "snd_pkt env ((pkt_blank Piece)\<lparr>pm_piece := \<lparr>pc_pcno = pcno, pc_payload = s\<rparr>\<rparr>) (c\<lparr>cn_ost := ost\<rparr>) = Inr c'"
    by (auto simp: send_piece_def rbind_Inr_iff split: if_splits)
  then show "\<exists>ost s. ost_ext (cn_ost c) ost
      \<and> snd_pkt env ((pkt_blank Piece)\<lparr>pm_piece := \<lparr>pc_pcno = pcno, pc_payload = s\<rparr>\<rparr>) (c\<lparr>cn_ost := ost\<rparr>) = Inr c'"
    using ost_ext_ops(2) by blast
qed (rule frames_snd_pkt)

lemma frames_choke_status_check: "frames (choke_status_check env nbr ch)"
  unfolding frames_def
proof (intro allI impI)
  fix c c' assume "choke_status_check env nbr ch c = Inr c'"
  then have "c' = c \<or> (\<exists>b. snd_pkt env (if b then pkt_blank Choke else pkt_blank UnChoke) c = Inr c')"
    by (auto simp: choke_status_check_def rbind_Inr_iff Let_def send_choke_status_def split: if_splits)
  then show "framed c c'" using framesD [OF frames_snd_pkt] by auto
qed

lemma frames_send_handshake: "frames (send_handshake env self)"
  by (auto simp: frames_def send_handshake_def dest: framesD [OF frames_snd_pkt])

lemma frames_send_interested: "frames (send_interested env)" "frames (send_not_interested env)"
  by (auto simp: frames_def send_interested_def send_not_interested_def dest: framesD [OF frames_snd_pkt])

lemma frames_handle_have: "frames (handle_have env pkt reqs)"
proof -
  have "handle_have env pkt reqs = (\<lambda>c. if hv_pcno (pm_have pkt) \<in> set reqs
      then rbind (send_interested env c) (snd_pkt env (request_pkt (hv_pcno (pm_have pkt)))) else Inr c)"
    by (simp add: fun_eq_iff handle_have_def)
  then show ?thesis by (simp only: frames_if frames_bind frames_send_interested frames_snd_pkt frames_Inr)
qed

text \<open>
  The same for the steps that also change the locals: the neighbour stays null or live, and the pieces
  newly requested are newly reserved.
\<close>

definition nbr_ok :: "cli \<Rightarrow> NbrMap \<Rightarrow> bool" where
  "nbr_ok l nm \<longleftrightarrow> cl_nbr l = None \<or> live nm (cl_nbr l)"

definition turn_ext :: "cli \<Rightarrow> conn \<Rightarrow> cli \<Rightarrow> conn \<Rightarrow> bool" where
  "turn_ext l c l' c' \<longleftrightarrow> nm_ext (cn_nm c) (cn_nm c') \<and> ost_ext (cn_ost c) (cn_ost c')
     \<and> (\<forall>np. nm_inv np (cn_nm c) \<longrightarrow> nbr_ok l (cn_nm c) \<longrightarrow> nbr_ok l' (cn_nm c'))
     \<and> (\<exists>P. claims (nm_bfield (cn_nm c)) (nm_bfield (cn_nm c')) P \<and> set (cl_reqs l') \<subseteq> set (cl_reqs l) \<union> of_nat ` P)"

definition lframes :: "cli \<Rightarrow> (conn \<Rightarrow> (cli \<times> conn) res) \<Rightarrow> bool" where
  "lframes l f \<longleftrightarrow> (\<forall>c l' c'. f c = Inr (l', c') \<longrightarrow> sk_evs (cn_sock c') = sk_evs (cn_sock c)
     \<and> sk_in (cn_sock c') = sk_in (cn_sock c) \<and> turn_ext l c l' c')"

lemma nm_extD: "nm_ext nm nm' \<Longrightarrow> nm_inv np nm \<Longrightarrow> nm_inv np nm' \<and> (live nm p \<longrightarrow> live nm' p)"
  by (auto simp: nm_ext_def)

lemma turn_ext_framed:
  assumes "framed c c'" and "cl_nbr l' = cl_nbr l" and "set (cl_reqs l') \<subseteq> set (cl_reqs l)"
  shows "turn_ext l c l' c'"
proof -
  note f = framedD [OF assms(1)]
  have "\<forall>np. nm_inv np (cn_nm c) \<longrightarrow> nbr_ok l (cn_nm c) \<longrightarrow> nbr_ok l' (cn_nm c')"
    using f assms(2) nm_extD [of "cn_nm c" "cn_nm c'" _ "cl_nbr l"] by (auto simp: nbr_ok_def)
  moreover have "claims (nm_bfield (cn_nm c)) (nm_bfield (cn_nm c')) {}" using f by simp
  ultimately show ?thesis using f assms(3) unfolding turn_ext_def by blast
qed

lemma turn_ext_pre:
  assumes "framed c c1" and "turn_ext l c1 l' c'"
  shows "turn_ext l c l' c'"
proof -
  note f = framedD [OF assms(1)]
  have "nbr_ok l' (cn_nm c')" if n: "nm_inv np (cn_nm c)" "nbr_ok l (cn_nm c)" for np
  proof -
    have "nm_inv np (cn_nm c1)" "nbr_ok l (cn_nm c1)"
      using f n nm_extD [of "cn_nm c" "cn_nm c1" np "cl_nbr l"] by (auto simp: nbr_ok_def)
    then show ?thesis using assms(2) unfolding turn_ext_def by blast
  qed
  moreover have "nm_ext (cn_nm c) (cn_nm c')" "ost_ext (cn_ost c) (cn_ost c')"
    using f assms(2) unfolding turn_ext_def by (auto elim: nm_ext_trans ost_ext_trans)
  moreover have "\<exists>P. claims (nm_bfield (cn_nm c)) (nm_bfield (cn_nm c')) P \<and> set (cl_reqs l') \<subseteq> set (cl_reqs l) \<union> of_nat ` P"
    using f assms(2) unfolding turn_ext_def by simp
  ultimately show ?thesis unfolding turn_ext_def by blast
qed

lemma lframesI:
  assumes "\<And>c l' c'. f c = Inr (l', c') \<Longrightarrow> framed c c' \<and> cl_nbr l' = cl_nbr l \<and> set (cl_reqs l') \<subseteq> set (cl_reqs l)"
  shows "lframes l f"
  using assms framedD turn_ext_framed unfolding lframes_def by blast

lemma lframes_ret: "cl_nbr l' = cl_nbr l \<Longrightarrow> cl_reqs l' = cl_reqs l \<Longrightarrow> lframes l (\<lambda>c. Inr (l', c))"
  by (rule lframesI) simp

lemma lframes_bind: "frames f \<Longrightarrow> lframes l g \<Longrightarrow> lframes l (\<lambda>c. rbind (f c) g)"
  unfolding lframes_def rbind_Inr_iff
proof (intro allI impI, elim exE conjE)
  fix c l' c' c1
  assume f: "frames f" "f c = Inr c1" and g: "g c1 = Inr (l', c')"
    "\<forall>c l' c'. g c = Inr (l', c') \<longrightarrow> sk_evs (cn_sock c') = sk_evs (cn_sock c)
     \<and> sk_in (cn_sock c') = sk_in (cn_sock c) \<and> turn_ext l c l' c'"
  have fr: "framed c c1" using framesD [OF f] .
  then show "sk_evs (cn_sock c') = sk_evs (cn_sock c) \<and> sk_in (cn_sock c') = sk_in (cn_sock c) \<and> turn_ext l c l' c'"
    using framedD [OF fr] g turn_ext_pre [OF fr] by fastforce
qed

lemma lframes_on_handshake: "lframes l (on_handshake env self pkt l)"
proof -
  let ?id = "int_of_u32 (hs_peerid (pm_hshake pkt))"
  let ?f = "\<lambda>c. if cl_client l
                then rbind (cn_write (write_msg_pair (he_date env) LOG_TCP_FIN self ?id) c) (send_handshake env self)
                else Inr c"
  let ?g = "\<lambda>c :: conn. rbind (register_cli ?id (cn_nm c)) (\<lambda>(nbr, nm).
         Inr (l\<lparr>cl_peerid := hs_peerid (pm_hshake pkt), cl_nbr := nbr\<rparr>, c\<lparr>cn_nm := nm\<rparr>))"
  have "lframes l ?g" unfolding lframes_def
  proof (intro allI impI)
    fix c l' c' assume "?g c = Inr (l', c')"
    then obtain nbr nm where r: "register_cli ?id (cn_nm c) = Inr (nbr, nm)"
      "l' = l\<lparr>cl_peerid := hs_peerid (pm_hshake pkt), cl_nbr := nbr\<rparr>" "c' = c\<lparr>cn_nm := nm\<rparr>"
      by (auto simp: rbind_Inr_iff)
    have "turn_ext l c l' c'" using nm_ext_register [OF r(1)] r(2,3)
      by (auto simp: turn_ext_def nbr_ok_def intro!: exI [of _ "{}"])
    then show "sk_evs (cn_sock c') = sk_evs (cn_sock c) \<and> sk_in (cn_sock c') = sk_in (cn_sock c) \<and> turn_ext l c l' c'"
      using r(3) by simp
  qed
  then have "lframes l (\<lambda>c. rbind (?f c) ?g)"
    by (intro lframes_bind frames_if frames_bind frames_cn_write frames_send_handshake frames_Inr)
  then show ?thesis by (simp add: lframes_def on_handshake_def Let_def cong: if_cong)
qed

lemma lframes_on_request: "lframes l (on_request env pkt l)"
proof -
  let ?f = "\<lambda>c. rbind (cn_nbr (\<lambda>n. n\<lparr>nb_requests := nb_requests n + 1\<rparr>) (cl_nbr l) c) (\<lambda>c.
     rbind ((\<lambda>c. if \<not> cl_choked_peer l then send_piece env (rq_pcno (pm_req pkt)) c else Inr c) c) (\<lambda>c.
     rbind ((\<lambda>c. if \<not> cl_choked_node l then send_requests env (cl_reqs l) c else Inr c) c) (\<lambda>c. Inr (l, c))))"
  have "lframes l ?f"
    by (intro lframes_bind lframes_ret frames_cn_nbr frames_if frames_send_piece frames_send_requests frames_Inr) simp_all
  then show ?thesis by (simp add: lframes_def on_request_def)
qed

definition bitfield_tail :: "henv \<Rightarrow> cli \<Rightarrow> bool \<Rightarrow> bytes \<Rightarrow> conn \<Rightarrow> (cli \<times> conn) res" where
  "bitfield_tail env l interested diff c =
     (if interested
      then rbind (send_interested env c) (\<lambda>c.
           rbind (if \<not> cl_client l \<and> \<not> cl_choked_node l then send_requests env (diff_to_reqs (cl_reqs l) diff) c else Inr c) (\<lambda>c.
           Inr (l\<lparr>cl_diff := diff, cl_reqs := diff_to_reqs (cl_reqs l) diff\<rparr>, c)))
      else rbind (send_not_interested env c) (\<lambda>c. Inr (l\<lparr>cl_diff := diff\<rparr>, c)))"

lemma on_bitfield_tail:
  "on_bitfield env pkt l c =
    rbind (if cl_client l then send_bfield env c else Inr c) (\<lambda>c.
    rbind (earmark (os_bfield (cn_ost c)) (bm_bfield (pm_bfield pkt)) (cl_diff l) (cn_nm c)) (\<lambda>(interested, diff, node, nm).
    bitfield_tail env (l\<lparr>cl_bfield_peer := bm_bfield (pm_bfield pkt)\<rparr>) interested diff
      (c\<lparr>cn_ost := (cn_ost c)\<lparr>os_bfield := Some node\<rparr>, cn_nm := nm\<rparr>)))"
  by (simp add: on_bitfield_def bitfield_tail_def Let_def cong: if_cong)

lemma bitfield_tail_frame:
  assumes "bitfield_tail env l interested diff c = Inr (l', c')"
  shows "framed c c' \<and> cl_nbr l' = cl_nbr l
    \<and> cl_reqs l' = (if interested then diff_to_reqs (cl_reqs l) diff else cl_reqs l)"
proof -
  let ?f = "\<lambda>c. if interested
      then rbind (send_interested env c)
           (\<lambda>c. if \<not> cl_client l \<and> \<not> cl_choked_node l then send_requests env (diff_to_reqs (cl_reqs l) diff) c else Inr c)
      else send_not_interested env c"
  have f: "frames ?f"
    by (intro frames_if frames_bind frames_send_interested frames_send_requests frames_Inr)
  have "?f c = Inr c' \<and> cl_nbr l' = cl_nbr l \<and> cl_reqs l' = (if interested then diff_to_reqs (cl_reqs l) diff else cl_reqs l)"
    using assms by (cases interested) (auto simp: bitfield_tail_def rbind_Inr_iff split: if_splits)
  then show ?thesis using framesD [OF f] by blast
qed

lemma lframes_on_bitfield: "lframes l (on_bitfield env pkt l)"
  unfolding lframes_def
proof (intro allI impI)
  fix c l' c' assume "on_bitfield env pkt l c = Inr (l', c')"
  then obtain c1 ret d node nm where c1: "(if cl_client l then send_bfield env c else Inr c) = Inr c1"
    "earmark (os_bfield (cn_ost c1)) (bm_bfield (pm_bfield pkt)) (cl_diff l) (cn_nm c1) = Inr (ret, d, node, nm)"
    "bitfield_tail env (l\<lparr>cl_bfield_peer := bm_bfield (pm_bfield pkt)\<rparr>) ret d
      (c1\<lparr>cn_ost := (cn_ost c1)\<lparr>os_bfield := Some node\<rparr>, cn_nm := nm\<rparr>) = Inr (l', c')"
    unfolding on_bitfield_tail rbind_Inr_iff by auto
  have fr: "framed c c1" using c1(1) framesD [OF frames_send_bfield] by (auto split: if_splits)
  obtain n b where n: "os_bfield (cn_ost c1) = Some n" "field_ext n node" "nm = (cn_nm c1)\<lparr>nm_bfield := b\<rparr>"
      "claims (nm_bfield (cn_nm c1)) b (pieces d)"
    using earmark_claims_only_new [OF c1(2)] by blast
  note t = bitfield_tail_frame [OF c1(3)]
  have "nm_ext (cn_nm c1) nm" "ost_ext (cn_ost c1) ((cn_ost c1)\<lparr>os_bfield := Some node\<rparr>)"
    using n(1,2,3) by (simp_all add: ost_ext_def)
  then have "nm_ext (cn_nm c1) (cn_nm c') \<and> ost_ext (cn_ost c1) (cn_ost c')"
    using framedD [OF t [THEN conjunct1]] by (auto intro: nm_ext_trans ost_ext_trans)
  moreover from this have "nm_inv np (cn_nm c1) \<Longrightarrow> nbr_ok l (cn_nm c1) \<Longrightarrow> nbr_ok l' (cn_nm c')" for np
    using t nm_extD [of "cn_nm c1" "cn_nm c'" np "cl_nbr l"] by (auto simp: nbr_ok_def)
  moreover have "nm_bfield (cn_nm c') = b" using framedD [OF t [THEN conjunct1]] n(3) by simp
  moreover have "set (cl_reqs l') \<subseteq> set (cl_reqs l) \<union> of_nat ` pieces d"
    using t by (auto simp: set_diff_to_reqs)
  ultimately have "turn_ext l c1 l' c'" using n(4) unfolding turn_ext_def by blast
  then show "sk_evs (cn_sock c') = sk_evs (cn_sock c) \<and> sk_in (cn_sock c') = sk_in (cn_sock c) \<and> turn_ext l c l' c'"
    using turn_ext_pre [OF fr] framedD [OF fr] framedD [OF t [THEN conjunct1]] by simp
qed

lemma handle_piece_framed: "handle_piece env pkt reqs c = Inr (reqs', c') \<Longrightarrow> framed c c' \<and> set reqs' \<subseteq> set reqs"
  by (auto simp: handle_piece_def Let_def rbind_Inr_iff dest!: ost_ext_ops(1) intro: framed_ost split: if_splits)

lemma lframes_dispatch: "lframes l (dispatch env self pkt l)"
proof (cases "pm_type pkt")
  case Handshake
  then show ?thesis using lframes_on_handshake by (simp add: lframes_def dispatch_def)
next
  case BitField
  then show ?thesis using lframes_on_bitfield by (simp add: lframes_def dispatch_def)
next
  case Request
  then show ?thesis using lframes_on_request by (simp add: lframes_def dispatch_def)
next
  case Piece
  show ?thesis
    by (rule lframesI) (auto simp: Piece dispatch_def rbind_Inr_iff dest!: framesD [OF frames_cn_write] handle_piece_framed
        intro: framed_trans)
qed (rule lframesI; auto simp: dispatch_def rbind_Inr_iff dest!: framesD [OF frames_cn_write] framesD [OF frames_cn_nbr, rotated]
    framesD [OF frames_send_requests] framesD [OF frames_handle_have] intro: framed_trans)+

lemma sock_recv_events:
  assumes "sock_recv peek n s = Some (rc, d, s')"
  shows "length (sk_evs s) = Suc (length (sk_evs s'))"
  using assms by (auto simp: sock_recv_def Let_def split: list.splits recv_ev.splits)

lemma rcv_sz_events: "rcv_sz env c = Inr (Some (r, c')) \<Longrightarrow> length (sk_evs (cn_sock c')) < length (sk_evs (cn_sock c))"
  by (auto simp: rcv_sz_def rbind_Inr_iff Let_def split: option.splits if_splits dest!: sock_recv_events)

lemma rcv_events: "rcv env n c = Inr (Some (r, c')) \<Longrightarrow> length (sk_evs (cn_sock c')) < length (sk_evs (cn_sock c))"
  by (auto simp: rcv_def rbind_Inr_iff Let_def split: option.splits if_splits dest!: sock_recv_events)

lemma on_timeout_framed:
  assumes "on_timeout env l c = Inr t" and "t = Next l' c' \<or> t = Break l' c'"
  shows "framed c c' \<and> cl_reqs l' = cl_reqs l \<and> cl_nbr l' = cl_nbr l"
proof -
  obtain c1 where c1: "send_requests env (cl_reqs l) c = Inr c1"
    using assms by (auto simp: on_timeout_def rbind_Inr_iff)
  have "(send_haves env (cl_bfield_peer l) c1 = Inr c' \<or> c1 = c') \<and> cl_reqs l' = cl_reqs l \<and> cl_nbr l' = cl_nbr l"
    using assms unfolding on_timeout_def c1 rbind_simps Let_def rbind_Inr_iff
    by (simp split: if_splits) (auto simp: rbind_Inr_iff)
  then show ?thesis
    using framesD [OF frames_send_requests c1] framesD [OF frames_send_haves] framed_trans by blast
qed

lemma on_frame_ext:
  assumes "on_frame env self n l c = Inr t" and "t = Next l' c' \<or> t = Break l' c'"
  shows "length (sk_evs (cn_sock c')) < length (sk_evs (cn_sock c)) \<and> turn_ext l c l' c'"
proof -
  from assms obtain cmdr c1 where r: "rcv env n c = Inr (Some (cmdr, c1))"
    by (auto simp: on_frame_def rbind_Inr_iff split: if_splits option.splits)
  with assms obtain pkt c2 where d: "choke_status_check env (cl_nbr l) (cl_choked_peer l) c1 = Inr c2"
      "dispatch env self pkt l c2 = Inr (l', c')"
    by (auto simp: on_frame_def rbind_Inr_iff split: if_splits)
  have c1: "cn_nm c1 = cn_nm c \<and> cn_ost c1 = cn_ost c"
    using r by (auto simp: rcv_def rbind_Inr_iff Let_def split: option.splits if_splits)
  note f = framesD [OF frames_choke_status_check d(1)]
  have l: "sk_evs (cn_sock c') = sk_evs (cn_sock c2) \<and> turn_ext l c2 l' c'"
    using lframes_dispatch [of l env self pkt] d(2) by (simp add: lframes_def)
  have "turn_ext l c1 l' c'" using turn_ext_pre [OF f] l by blast
  then have "turn_ext l c l' c'" using c1 by (simp add: turn_ext_def)
  then show ?thesis using l framedD [OF f] rcv_events [OF r] by simp
qed

lemma rcv_sz_frame_objs: "rcv_sz env c = Inr (Some (r, c')) \<Longrightarrow> cn_nm c' = cn_nm c \<and> cn_ost c' = cn_ost c"
  by (auto simp: rcv_sz_def rbind_Inr_iff Let_def split: option.splits if_splits)

lemma cli_turn_cases:
  assumes "cli_turn env self l c = Inr t"
  obtains "t = Waiting"
  | sz c1 where "rcv_sz env c = Inr (Some ((False, sz), c1))" "t = Break l c1"
  | c1 where "rcv_sz env c = Inr (Some ((True, 0), c1))" "on_timeout env l c1 = Inr t"
  | sz c1 where "rcv_sz env c = Inr (Some ((True, sz), c1))" "on_frame env self (unat sz) l c1 = Inr t"
proof -
  obtain o1 where o1: "rcv_sz env c = Inr o1" using assms by (cases "rcv_sz env c") (auto simp: cli_turn_def)
  show thesis
  proof (cases o1)
    case None
    then show thesis using assms o1 that(1) by (simp add: cli_turn_def)
  next
    case (Some r)
    obtain go sz c1 where r: "r = ((go, sz), c1)" by (metis surj_pair)
    show thesis
    proof (cases go)
      case False
      then show thesis using assms o1 Some r that(2) by (simp add: cli_turn_def)
    next
      case True
      then show thesis using assms o1 Some r that(3,4) by (cases "sz = 0") (auto simp: cli_turn_def)
    qed
  qed
qed

text \<open>What a whole turn does, whether the loop goes on or is left.\<close>

lemma cli_turn_ext:
  assumes "cli_turn env self l c = Inr t" and "t = Next l' c' \<or> t = Break l' c'"
  shows "length (sk_evs (cn_sock c')) < length (sk_evs (cn_sock c)) \<and> turn_ext l c l' c'"
  using assms(1)
proof (cases rule: cli_turn_cases)
  case 1
  then show ?thesis using assms(2) by simp
next
  case (2 sz c1)
  have "turn_ext l c l c1" using rcv_sz_frame_objs [OF 2(1)] turn_ext_framed [OF framed_refl, of l l c1]
    by (simp add: turn_ext_def)
  then show ?thesis using 2 assms(2) rcv_sz_events [OF 2(1)] by auto
next
  case (3 c1)
  note f = on_timeout_framed [OF 3(2) assms(2)]
  have "turn_ext l c1 l' c'" using f by (intro turn_ext_framed) auto
  then have "turn_ext l c l' c'" using rcv_sz_frame_objs [OF 3(1)] by (simp add: turn_ext_def)
  then show ?thesis using rcv_sz_events [OF 3(1)] f framedD [of c1 c'] by simp
next
  case (4 sz c1)
  note f = on_frame_ext [OF 4(2) assms(2)]
  then have "turn_ext l c l' c'" using rcv_sz_frame_objs [OF 4(1)] by (simp add: turn_ext_def)
  then show ?thesis using rcv_sz_events [OF 4(1)] f by simp
qed

text \<open>One more turn than there are calls is enough: more turns change nothing.\<close>

lemma cli_loop_fuel:
  "length (sk_evs (cn_sock c)) < n \<Longrightarrow> cli_loop env self (n + m) l c = cli_loop env self n l c"
proof (induction n arbitrary: l c)
  case (Suc n)
  have "cli_loop env self (n + m) l' c' = cli_loop env self n l' c'" if "cli_turn env self l c = Inr (Next l' c')" for l' c'
    using Suc.IH [of c' l'] cli_turn_ext [OF that, of l' c'] Suc.prems by simp
  then show ?case by (cases "cli_turn env self l c") (auto split: turn.splits)
qed simp

section \<open>Properties\<close>

definition demo_env :: henv where
  "demo_env = \<lparr>he_junk = (\<lambda>_. 0), he_pkt = pkt_blank Choke, he_date = ''now'', he_order = id, he_stack = 4096, he_err = ''e''\<rparr>"

definition demo_conn :: "bytes \<Rightarrow> recv_ev list \<Rightarrow> conn" where
  "demo_conn bs es = \<lparr>cn_sock = \<lparr>sk_in = bs, sk_evs = es, sk_out = [], sk_sendrc = (\<lambda>_. 2 ^ 32), sk_nsend = 0\<rparr>,
     cn_log = demo_log, cn_ost = opened_store 2 8 [0] [65, 66, 67, 68], cn_nm = nm_start 2\<rparr>"

definition demo_cli :: cli where
  "demo_cli = \<lparr>cl_client = False, cl_peerid = 0, cl_ntimeouts = 0, cl_choked_node = False, cl_choked_peer = False,
     cl_nbr = None, cl_diff = [], cl_bfield_peer = [], cl_reqs = []\<rparr>"



text \<open>
  C23: a piece packet from a peer ends the process: the conversion throws and nothing catches it, so no
  node ever stores a piece it receives.
\<close>

theorem piece_frame_ends_process:
  assumes "pkt_ok pkt" and "pm_type pkt = Piece" and "pkt_ok (he_pkt env)"
    and "encode_PktMsg pkt = Inr bs" and "length bs < 2 ^ 32" and "length bs \<le> he_stack env"
    and "sk_in (cn_sock c) = bs @ rest" and "sk_evs (cn_sock c) = Got k # Got m # es"
    and "4 \<le> k" and "length bs \<le> m"
  shows "cli_turn env self l c = Inl (Uncaught (TypeError 304))"
  using turn_frame [OF assms(4-10)] decode_encode [OF assms(1,3,4)] assms(2) by simp

lemma piece_blank_size: "\<exists>bs. encode_PktMsg (pkt_blank Piece) = Inr bs \<and> length bs < 2 ^ 8"
proof -
  obtain bs where bs: "encode_PktMsg (pkt_blank Piece) = Inr bs"
    using encode_total [OF pkt_blank_ok] by (auto simp: named_types_def)
  have len: "length (index_name 0) \<le> 1" "length (index_name (Suc 0)) \<le> 2" "length (index_name (Suc (Suc 0))) \<le> 3"
    using length_index_name [of 0] length_index_name [of 1] length_index_name [of 2]
    by (simp_all add: numeral_2_eq_2)
  obtain n where "calc_entries_size (msg_body (pkt_blank Piece) @ [(bytes_of ''type'', to_json_enum (msg_code Piece))]) = Inr n"
    "n \<le> 100 + 3 * length (index_name 0) + 2 * length (index_name (Suc 0)) + length (index_name (Suc (Suc 0)))"
    by (simp add: pkt_blank_def byte_keys to_json_PktMsgPiece_eq to_json_enum_def to_json_unsigned_def to_json_string_def
        index_name_no_zero calc_bson_integer_size_def calc_bson_unsigned_size_def calc_bson_string_size_def
        calc_bson_entry_header_size_def fits_int32_def)
  with len encode_length [OF bs] bs show ?thesis by (auto simp: pkt_blank_def)
qed

lemma piece_frame_ends_process_witness:
  "\<exists>bs. encode_PktMsg (pkt_blank Piece) = Inr bs \<and>
    cli_turn demo_env 1 demo_cli (demo_conn bs [Got 4, Got 999]) = Inl (Uncaught (TypeError 304))"
proof -
  obtain bs where bs: "encode_PktMsg (pkt_blank Piece) = Inr bs" "length bs < 2 ^ 8" using piece_blank_size by blast
  have "cli_turn demo_env 1 demo_cli (demo_conn (bs @ []) [Got 4, Got 999]) = Inl (Uncaught (TypeError 304))"
    using bs by (intro piece_frame_ends_process [where pkt = "pkt_blank Piece" and rest = "[]" and es = "[]" and k = 4 and m = 999 and bs = bs])
      (simp_all add: demo_env_def demo_conn_def pkt_blank_ok named_types_def, simp add: pkt_blank_def)
  with bs(1) show ?thesis by auto
qed

text \<open>
  A \<^verbatim>\<open>recv\<close> that runs into the receive timeout ends the process with status 1 in any state of the
  connection: the timeout branch of the loop compares the return value with an error number.
\<close>

theorem timeout_exits:
  assumes "sk_evs (cn_sock c) = TimedOut # es"
  shows "cli_turn env self l c = Inl (Exit 1)"
  using assms write_err_ok by (auto simp: cli_turn_def rcv_sz_def sock_recv_def EWOULDBLOCK_def Let_def rbind_Inl_iff)

lemma timeout_exits_witness: "cli_turn demo_env 1 demo_cli (demo_conn [] [TimedOut]) = Inl (Exit 1)"
  by (rule timeout_exits [where es = "[]"]) (simp add: demo_conn_def)





text \<open>
  Each turn that goes on uses up a call to \<^verbatim>\<open>recv\<close>, so the loop, run for one turn more than there
  are calls, has reached the state any longer run has: it ended or it waits for the network.
\<close>

lemma loop_turns_bounded_by_recv_calls:
  assumes "length (sk_evs (cn_sock c)) < n"
  shows "cli_loop env self (n + m) l c = cli_loop env self n l c"
  by (rule cli_loop_fuel [OF assms])

lemma loop_turns_bounded_by_recv_calls_witness:
  "cli_loop demo_env 1 (2 + 5) demo_cli (demo_conn [] [PeerClosed]) = cli_loop demo_env 1 2 demo_cli (demo_conn [] [PeerClosed])"
  by (rule loop_turns_bounded_by_recv_calls) (simp add: demo_conn_def)

lemma c_pad_id: "length s = n \<Longrightarrow> 0 \<notin> set s \<Longrightarrow> c_pad n s = s"
proof -
  assume s: "length s = n" "0 \<notin> set s"
  have t: "takeWhile (\<lambda>b. b \<noteq> 0) s = s" by (subst takeWhile_eq_all_conv) (use s(2) in auto)
  show ?thesis unfolding c_pad_def t Let_def using s(1) by simp
qed

text \<open>
  A piece the node holds in its file is copied into a buffer of exactly the piece size, so when it
  has no zero byte, sending it reads past the end of the buffer.
\<close>

theorem send_piece_overreads:
  assumes "os_ready (cn_ost c)" and "has_piece (os_field (cn_ost c)) p" and "c_fd (os_cache (cn_ost c)) = Some f"
    and "0 < cache_room (os_cache (cn_ost c))" and "int_ok (os_pcsz (cn_ost c) * int p)" and "p < 2147483648"
    and "cached (os_cache (cn_ost c)) (os_pcsz (cn_ost c) * int p) = None"
    and "nat (os_pcsz (cn_ost c) * int p) + nat (os_pcsz (cn_ost c)) \<le> length (f_data f)"
    and "0 \<notin> set (take (nat (os_pcsz (cn_ost c))) (drop (nat (os_pcsz (cn_ost c) * int p)) (f_data f)))"
    and "os_pcsz (cn_ost c) \<le> int (he_stack env)"
  shows "send_piece env (of_nat p) c = Inl (UB OutOfBounds)"
proof -
  let ?os = "cn_ost c" and ?n = "nat (os_pcsz (cn_ost c))"
  obtain b where b: "os_bfield ?os = Some b" "bfield_ok b" "os_field ?os = bf_bfield b"
    using assms(1) by (rule os_ready_fieldE)
  have ready: "cache_ready (os_cache ?os)" "c_pcsz (os_cache ?os) = os_pcsz ?os" "0 < os_pcsz ?os"
    using assms(1) by (auto simp: os_ready_def cache_ready_def)
  let ?s = "take ?n (drop (nat (os_pcsz ?os * int p)) (f_data f))"
  have "\<exists>c'. Cache_get (he_junk env) (int p) (os_cache ?os) = Inr (c_pad ?n ?s, c')"
    using Cache_get_file [of "os_cache ?os" f "int p" "he_junk env"] ready(1,2) assms(3,4,5,7,8) by auto
  then obtain c' where get: "Cache_get (he_junk env) (int p) (os_cache ?os) = Inr (c_pad ?n ?s, c')" by blast
  have pad: "c_pad ?n ?s = ?s" by (rule c_pad_id) (use assms(8,9) in simp_all)
  have p: "int_of_u32 (of_nat p) = int p"
    using assms(6) int_of_u32_small [of "of_nat p"] by (simp add: unat_of_nat)
  have "get_piece (he_junk env) (int p) ?os = Inr (1, Some ?s, ?os\<lparr>os_bfield := Some b, os_cache := c'\<rparr>)"
    using b assms(2) Bfield_exists_eq [OF b(2), of p] has_piece_bound [of "bf_bfield b" p] get pad
    by (simp add: get_piece_def)
  then show ?thesis using assms(9,10) ready(3) by (simp add: send_piece_def p c_str_def)
qed

lemma send_piece_overreads_witness:
  "send_piece demo_env (of_nat 0) ((demo_conn [] [])\<lparr>cn_ost := opened_store 2 8 [1] [65, 66, 67, 68]\<rparr>) = Inl (UB OutOfBounds)"
proof -
  let ?c = "(demo_conn [] [])\<lparr>cn_ost := opened_store 2 8 [1] [65, 66, 67, 68]\<rparr>"
  let ?f = "\<lparr>f_data = [65, 66, 67, 68], f_off = 0\<rparr>"
  have 1: "os_ready (cn_ost ?c)"
    using opened_store_inv [of 2 8 "[1]" "[65, 66, 67, 68]"] by (simp add: store_inv_def)
  have 2: "has_piece (os_field (cn_ost ?c)) 0" by (simp add: has_piece_def)
  have 3: "c_fd (os_cache (cn_ost ?c)) = Some ?f" by (simp add: opened_cache_def)
  have 4: "0 < cache_room (os_cache (cn_ost ?c))" by (simp add: opened_cache_room c_div_def CACHESZ_def)
  have 5: "cached (os_cache (cn_ost ?c)) (os_pcsz (cn_ost ?c) * int 0) = None"
    by (simp add: opened_cache_def cached_def)
  from send_piece_overreads [OF 1 2 3 4 _ _ 5, of demo_env] show ?thesis
    by (simp add: int_ok_def demo_env_def)
qed

end
