(* ===== verification/Node.thy ===== *)
theory Node
  imports Session
begin

text \<open>
  The node of \<^verbatim>\<open>node/node.cpp\<close>: the listening socket, the constructor, connecting to the peers named before
  it, accepting the others, one thread per connection, and the destructor. The constructor runs while the
  threads it has made run, so the whole is a state that three kinds of event move: a step of the main
  thread, a turn of a connection thread, and a wake-up of one of the two handlers of the neighbour map.
\<close>

section \<open>State\<close>

text \<open>
  A thread that has been made, one whose handler has run up to its loop, and one whose handler has returned.
\<close>

datatype thr_state = Created | Running cli | Returned

record thr =
  th_peer :: int
  th_sock :: sock
  th_state :: thr_state

text \<open>
  Where the main thread is: at the \<open>i\<close>-th peer of \<^verbatim>\<open>connback\<close>, at the \<open>i\<close>-th turn of \<^verbatim>\<open>acceptloop\<close>, joining the
  connection threads, deleting the neighbour map (which joins its handlers), or past it all.
\<close>

datatype main_pc = Connecting nat | Accepting nat | Joining | Deleting | Ended

record node =
  nd_threads :: "thr list"
  nd_ostore :: ObjStore
  nd_nbrmap :: NbrMap
  nd_peerid :: int
  nd_log :: Logger
  nd_fs :: filesys
  nd_main :: main_pc

text \<open>The four vectors of \<^verbatim>\<open>PeerInfo.cfg\<close>.\<close>

record peers =
  pi_ids :: "int list"
  pi_hosts :: "string list"
  pi_ports :: "string list"
  pi_hasfile :: "bool list"

text \<open>
  What the operating system answers the main thread: \<^verbatim>\<open>getaddrinfo\<close> (a status, and for each address what
  \<^verbatim>\<open>socket\<close> and \<^verbatim>\<open>connect\<close> return and the connection made), \<^verbatim>\<open>accept\<close>, \<^verbatim>\<open>setsockopt\<close>, the initialisation of a
  lock, a shell command and \<^verbatim>\<open>strerror(errno)\<close>.
\<close>

record menv =
  me_gai :: "string \<Rightarrow> string \<Rightarrow> int \<times> (int \<times> int \<times> sock) list"
  me_accept :: "int \<times> sock"
  me_opt :: int
  me_stat :: int
  me_shell :: "string \<Rightarrow> filesys \<Rightarrow> filesys"
  me_err :: string

section \<open>The main thread\<close>

text \<open>The listening socket: \<open>sock\<close>, \<open>brc\<close> and \<open>lrc\<close> are what \<^verbatim>\<open>socket\<close>, \<^verbatim>\<open>bind\<close> and \<^verbatim>\<open>listen\<close> return.\<close>

definition sock_create :: "int \<Rightarrow> int \<Rightarrow> int \<Rightarrow> string \<Rightarrow> Logger \<Rightarrow> (int \<times> Logger) res" where
  "sock_create sock brc lrc err lg =
     (if sock < 0 then rbind (write_msg LOG_DBG ''NODE: Socket: %s'' [PStr err] lg) (\<lambda>lg. Inr (-1, lg))
      else if brc < 0 then rbind (write_msg LOG_DBG ''NODE: Bind: %s'' [PStr err] lg) (\<lambda>lg. Inr (-1, lg))
      else if lrc < 0 then rbind (write_msg LOG_DBG ''NODE: Listen: %s'' [PStr err] lg) (\<lambda>lg. Inr (-1, lg))
      else Inr (sock, lg))"

text \<open>The number of pieces; \<^verbatim>\<open>INT_MIN\<close> over -1 is out of range.\<close>

definition piece_count :: "int \<Rightarrow> int \<Rightarrow> int res" where
  "piece_count fsz pcsz =
     (if pcsz = 0 then Inl (UB DivByZero)
      else if \<not> int_ok (c_div fsz pcsz) then Inl (UB IntOverflow)
      else Inr (if c_mod fsz pcsz \<noteq> 0 then c_div fsz pcsz + 1 else c_div fsz pcsz))"

text \<open>
  The constructor up to the call of \<^verbatim>\<open>connback\<close>. \<open>vals\<close> holds the numbers of \<^verbatim>\<open>Common.cfg\<close> in order; the
  globals \<^verbatim>\<open>n_pref_peers\<close>, \<^verbatim>\<open>uchoke_ival\<close> and \<^verbatim>\<open>opuchoke_ival\<close> are its first three. \<open>ls\<close> is the triple of the
  listening socket.
\<close>

definition Node_ctor :: "menv \<Rightarrow> int \<times> int \<times> int \<Rightarrow> int \<Rightarrow> string \<Rightarrow> peers \<Rightarrow> int list \<Rightarrow> filesys \<Rightarrow> Logger \<Rightarrow> node res" where
  "Node_ctor env ls peerid sh_fname pr vals fs lg =
     (case ls of (sock, brc, lrc) \<Rightarrow>
      rbind (sock_create sock brc lrc (me_err env) lg) (\<lambda>(listen_sock, lg).
      if listen_sock < 0 then Inl (Exit 1)
      else rbind (vec_at vals 3) (\<lambda>fsz.
           rbind (vec_at vals 4) (\<lambda>pcsz.
           rbind (piece_count fsz pcsz) (\<lambda>npcs.
           rbind (ObjStore_ctor (me_stat env) fsz pcsz npcs sh_fname) (\<lambda>ost.
           rbind (NbrMap_ctor (me_stat env) (me_stat env) (vals ! 2) (vals ! 1) (vals ! 0)
                    (of_nat (length (pi_ids pr))) npcs) (\<lambda>nm.
           Inr \<lparr>nd_threads = [], nd_ostore = ost, nd_nbrmap = nm, nd_peerid = peerid, nd_log = lg, nd_fs = fs,
                nd_main = Connecting 0\<rparr>)))))))"

definition node_exit :: "string \<Rightarrow> string \<Rightarrow> node \<Rightarrow> 'a res" where
  "node_exit fmt err n = rbind (write_msg LOG_ERR fmt [PStr err] (nd_log n)) (\<lambda>_. Inl (Exit 1))"

definition make_thread :: "menv \<Rightarrow> sock \<Rightarrow> int \<Rightarrow> node \<Rightarrow> node res" where
  "make_thread env sock peer n =
     (if me_opt env < 0 then node_exit ''NODE: Setsockopt: %s'' (me_err env) n
      else Inr (n\<lparr>nd_threads := nd_threads n @ [\<lparr>th_peer = peer, th_sock = sock, th_state = Created\<rparr>]\<rparr>))"

text \<open>The addresses of one peer in turn, until a connection is made.\<close>

fun connect_any :: "menv \<Rightarrow> int \<Rightarrow> (int \<times> int \<times> sock) list \<Rightarrow> node \<Rightarrow> node res" where
  "connect_any env peer [] n = Inr n"
| "connect_any env peer ((srv, crv, sock) # addrs) n =
     (if srv < 0 then node_exit ''NODE: Sock: %s'' (me_err env) n
      else if crv = 0 then make_thread env sock peer n
      else connect_any env peer addrs n)"

text \<open>One turn of the loop of \<^verbatim>\<open>connback\<close>; false leaves it.\<close>

definition connback_turn :: "menv \<Rightarrow> peers \<Rightarrow> nat \<Rightarrow> node \<Rightarrow> (bool \<times> node) res" where
  "connback_turn env pr i n =
     rbind (vec_at (pi_ids pr) (int i)) (\<lambda>peer.
     if nd_peerid n = peer
     then rbind (vec_at (pi_hasfile pr) (int i)) (\<lambda>hasfile.
          rbind (bfield_init (me_shell env) (me_stat env) hasfile (nd_fs n) (nd_ostore n)) (\<lambda>(ost, fs).
          Inr (False, n\<lparr>nd_ostore := ost, nd_fs := fs\<rparr>)))
     else rbind (vec_at (pi_hosts pr) (int i)) (\<lambda>host.
          rbind (vec_at (pi_ports pr) (int i)) (\<lambda>port.
          let (stat, res) = me_gai env host port
          in if stat < 0 then node_exit ''NODE: Getaddrinfo: %s'' (me_err env) n
             else rbind (connect_any env peer res n) (\<lambda>n. Inr (True, n)))))"

definition accept_turn :: "menv \<Rightarrow> node \<Rightarrow> node res" where
  "accept_turn env n =
     (let (clisock, sock) = me_accept env
      in if clisock < 0 then node_exit ''NODE: Accept: %s'' (me_err env) n else make_thread env sock 0 n)"

text \<open>
  A step of the main thread. \<^verbatim>\<open>connback\<close> returns \<^verbatim>\<open>i+1\<close> however it leaves its loop. The destructor waits for
  every connection thread and then for the handlers inside the map's destructor.
\<close>

definition main_turn :: "menv \<Rightarrow> peers \<Rightarrow> node \<Rightarrow> node res" where
  "main_turn env pr n =
     (case nd_main n of
        Connecting i \<Rightarrow>
          if i < length (pi_ids pr)
          then rbind (connback_turn env pr i n) (\<lambda>(go, n).
               Inr (n\<lparr>nd_main := (if go then Connecting (Suc i) else Accepting (Suc i))\<rparr>))
          else Inr (n\<lparr>nd_main := Accepting (Suc i)\<rparr>)
      | Accepting i \<Rightarrow>
          if i < length (pi_ids pr) then rbind (accept_turn env n) (\<lambda>n. Inr (n\<lparr>nd_main := Accepting (Suc i)\<rparr>))
          else Inr (n\<lparr>nd_main := Joining\<rparr>)
      | Joining \<Rightarrow>
          if \<forall>t \<in> set (nd_threads n). th_state t = Returned
          then rbind (ObjStore_destroy (nd_ostore n)) (\<lambda>_. Inr (n\<lparr>nd_main := Deleting\<rparr>))
          else Inr n
      | Deleting \<Rightarrow>
          if \<forall>h \<in> set (nm_handlers (nd_nbrmap n)). snd h
          then rbind (NbrMap_destroy (nd_nbrmap n)) (\<lambda>_. Inr (n\<lparr>nd_main := Ended\<rparr>))
          else Inr n
      | Ended \<Rightarrow> Inr n)"

section \<open>The other threads\<close>

definition thr_conn :: "node \<Rightarrow> thr \<Rightarrow> conn" where
  "thr_conn n t = \<lparr>cn_sock = th_sock t, cn_log = nd_log n, cn_ost = nd_ostore n, cn_nm = nd_nbrmap n\<rparr>"

definition thr_put :: "nat \<Rightarrow> thr_state \<Rightarrow> conn \<Rightarrow> node \<Rightarrow> node" where
  "thr_put k st c n =
     n\<lparr>nd_threads := (nd_threads n)[k := (nd_threads n ! k)\<lparr>th_sock := cn_sock c, th_state := st\<rparr>],
       nd_log := cn_log c, nd_ostore := cn_ost c, nd_nbrmap := cn_nm c\<rparr>"

text \<open>A turn of the \<open>k\<close>-th connection thread: the part before its loop, or a turn of the loop.\<close>

definition thread_turn :: "henv \<Rightarrow> u32 \<Rightarrow> nat \<Rightarrow> node \<Rightarrow> node res" where
  "thread_turn env uninit k n =
     (if length (nd_threads n) \<le> k then Inr n
      else let t = nd_threads n ! k; c = thr_conn n t
           in case th_state t of
                Created \<Rightarrow> rbind (cli_start env uninit (nd_peerid n) (th_peer t) c) (\<lambda>(l, c).
                  Inr (thr_put k (Running l) c n))
              | Running l \<Rightarrow> rbind (cli_turn env (nd_peerid n) l c) (\<lambda>r. case r of
                    Next l c \<Rightarrow> Inr (thr_put k (Running l) c n)
                  | Break l c \<Rightarrow> rbind (cli_finish l c) (\<lambda>c. Inr (thr_put k Returned c n))
                  | Waiting \<Rightarrow> Inr n)
              | Returned \<Rightarrow> Inr n)"

text \<open>A wake-up of the \<open>k\<close>-th handler of the map; one whose search does not end changes nothing.\<close>

definition handler_turn :: "(nat \<Rightarrow> nat) \<Rightarrow> nat \<Rightarrow> node \<Rightarrow> node res" where
  "handler_turn rnd k n =
     (let nm = nd_nbrmap n;
          done = (\<lambda>go nm. n\<lparr>nd_nbrmap := nm\<lparr>nm_handlers := (nm_handlers nm)[k := (fst (nm_handlers nm ! k), \<not> go)]\<rparr>\<rparr>)
      in if length (nm_handlers nm) \<le> k then Inr n
         else case nm_handlers nm ! k of
                (_, True) \<Rightarrow> Inr n
              | (Opt_unchoke_handler _, False) \<Rightarrow>
                  (case opt_unchoke rnd (\<lambda>_. nm) of
                     None \<Rightarrow> Inr n
                   | Some r \<Rightarrow> rbind r (\<lambda>(go, p). rbind (opt_unchoke_apply p nm) (\<lambda>nm. Inr (done go nm))))
              | (Unchoke_handler _ n_pref, False) \<Rightarrow>
                  rbind (select_unchoked n_pref nm) (\<lambda>(go, nm). Inr (done go nm)))"

datatype event = Main menv | Thread nat henv u32 | Handler nat "nat \<Rightarrow> nat"

definition node_step :: "peers \<Rightarrow> event \<Rightarrow> node \<Rightarrow> node res" where
  "node_step pr ev n = (case ev of
      Main env \<Rightarrow> main_turn env pr n
    | Thread k env uninit \<Rightarrow> thread_turn env uninit k n
    | Handler k rnd \<Rightarrow> handler_turn rnd k n)"

definition node_run :: "peers \<Rightarrow> event list \<Rightarrow> node \<Rightarrow> node res" where
  "node_run pr evs n = rfold (node_step pr) evs n"

end
