(* ===== verification/NodeRuns.thy ===== *)
theory NodeRuns
  imports Node
begin

text \<open>
  What the runs of a node keep: well-formed states, requests that no two connections share, the number of
  connections, and what that means for the end of the process.
\<close>

section \<open>What an event may change\<close>

definition reserved :: "node \<Rightarrow> nat set" where
  "reserved n = pieces (bf_bfield (nm_bfield (nd_nbrmap n)))"

definition field_len :: "node \<Rightarrow> nat" where
  "field_len n = length (bf_bfield (nm_bfield (nd_nbrmap n)))"

text \<open>The pieces the \<open>k\<close>-th connection has in its request map.\<close>

definition thr_reqs :: "thr \<Rightarrow> u32 set" where
  "thr_reqs t = (case th_state t of Running l \<Rightarrow> set (cl_reqs l) | _ \<Rightarrow> {})"

definition reqs_at :: "nat \<Rightarrow> node \<Rightarrow> u32 set" where
  "reqs_at k n = (if k < length (nd_threads n) then thr_reqs (nd_threads n ! k) else {})"

text \<open>
  The well-formed states: the map has its invariant for the number of peers it was made for, the locks of
  both fields are free, and the neighbour pointer of every connection is null or points to a live record.
\<close>

definition node_wf :: "u32 \<Rightarrow> node \<Rightarrow> bool" where
  "node_wf np n \<longleftrightarrow> nm_inv np (nd_nbrmap n) \<and> bfield_ok (nm_bfield (nd_nbrmap n))
     \<and> pred_option bfield_ok (os_bfield (nd_ostore n))
     \<and> (\<forall>t \<in> set (nd_threads n). \<forall>l. th_state t = Running l \<longrightarrow> nbr_ok l (nd_nbrmap n))"

text \<open>
  An event keeps well-formedness and reservations, and only adds requests that are newly reserved, to one
  connection; the registrations do not get fewer, and while the map still expects a peer no handler returns.
\<close>

definition regs :: "node \<Rightarrow> nat" where
  "regs n = length (nm_peers (nd_nbrmap n))"

definition node_ext :: "node \<Rightarrow> node \<Rightarrow> bool" where
  "node_ext n n' \<longleftrightarrow> (\<forall>np. node_wf np n \<longrightarrow> node_wf np n' \<and> field_len n' = field_len n \<and> reserved n \<subseteq> reserved n'
     \<and> (\<exists>k. reqs_at k n' \<subseteq> reqs_at k n \<union> of_nat ` (reserved n' - reserved n) \<and> (\<forall>j. j \<noteq> k \<longrightarrow> reqs_at j n' \<subseteq> reqs_at j n))
     \<and> regs n \<le> regs n' \<and> (nm_npeers (nd_nbrmap n) \<noteq> 0 \<longrightarrow> nm_handlers (nd_nbrmap n') = nm_handlers (nd_nbrmap n)))"

lemma ost_ext_ok: "ost_ext os os' \<Longrightarrow> pred_option bfield_ok (os_bfield os) \<Longrightarrow> pred_option bfield_ok (os_bfield os')"
  by (auto simp: ost_ext_def field_ext_def elim!: option.rel_cases)

lemma reqs_at_put:
  "k < length (nd_threads n) \<Longrightarrow> reqs_at j (thr_put k st c n) =
    (if j = k then (case st of Running l \<Rightarrow> set (cl_reqs l) | _ \<Rightarrow> {}) else reqs_at j n)"
  by (simp add: reqs_at_def thr_put_def thr_reqs_def)

lemma node_ext_same:
  assumes "nd_nbrmap n' = nd_nbrmap n" and "ost_ext (nd_ostore n) (nd_ostore n') \<or> pred_option bfield_ok (os_bfield (nd_ostore n'))"
    and "nd_threads n' = nd_threads n \<or> (\<exists>t. nd_threads n' = nd_threads n @ [t] \<and> th_state t = Created)"
  shows "node_ext n n'"
proof -
  have "reqs_at j n' \<subseteq> reqs_at j n" for j
    using assms(3) by (auto simp: reqs_at_def thr_reqs_def nth_append less_Suc_eq split: if_splits)
  moreover have "node_wf np n'" if "node_wf np n" for np
    using that assms ost_ext_ok by (auto simp: node_wf_def)
  ultimately show ?thesis using assms(1) by (auto simp: node_ext_def reserved_def field_len_def regs_def)
qed

text \<open>A turn of a connection that has the effect \<open>turn_ext\<close> is such an event.\<close>

lemma node_ext_put:
  assumes k: "k < length (nd_threads n)" and ext: "turn_ext l (thr_conn n (nd_threads n ! k)) l' c'"
    and old: "th_state (nd_threads n ! k) = Running l \<or> cl_nbr l = None \<and> cl_reqs l = []"
    and st: "st = Running l' \<or> st = Returned"
  shows "node_ext n (thr_put k st c' n)"
proof -
  let ?c = "thr_conn n (nd_threads n ! k)" and ?n' = "thr_put k st c' n"
  have sel: "cn_nm ?c = nd_nbrmap n" "cn_ost ?c = nd_ostore n" by (simp_all add: thr_conn_def)
  have sel': "nd_nbrmap ?n' = cn_nm c'" "nd_ostore ?n' = cn_ost c'" by (simp_all add: thr_put_def)
  obtain P where P: "claims (nm_bfield (nd_nbrmap n)) (nm_bfield (cn_nm c')) P"
      "set (cl_reqs l') \<subseteq> set (cl_reqs l) \<union> of_nat ` P"
    and e: "nm_ext (nd_nbrmap n) (cn_nm c')" "ost_ext (nd_ostore n) (cn_ost c')"
      "\<forall>np. nm_inv np (nd_nbrmap n) \<longrightarrow> nbr_ok l (nd_nbrmap n) \<longrightarrow> nbr_ok l' (cn_nm c')"
    using ext unfolding turn_ext_def sel by blast
  have "node_wf np ?n' \<and> field_len ?n' = field_len n \<and> reserved n \<subseteq> reserved ?n' \<and>
      reqs_at k ?n' \<subseteq> reqs_at k n \<union> of_nat ` (reserved ?n' - reserved n) \<and> (\<forall>j. j \<noteq> k \<longrightarrow> reqs_at j ?n' \<subseteq> reqs_at j n)"
    if wf: "node_wf np n" for np
  proof -
    have inv: "nm_inv np (nd_nbrmap n)" and ok: "bfield_ok (nm_bfield (nd_nbrmap n))"
      using wf by (simp_all add: node_wf_def)
    have c: "bfield_ok (nm_bfield (cn_nm c'))" "field_len ?n' = field_len n" "reserved n \<subseteq> reserved ?n'"
      "P \<subseteq> reserved ?n' - reserved n"
      using P(1) ok by (simp_all add: claims_def field_len_def reserved_def sel')
    have nbr: "nbr_ok l (nd_nbrmap n)"
      using old wf nth_mem [OF k] by (auto simp: node_wf_def nbr_ok_def)
    have other: "nbr_ok m (cn_nm c')" if "t \<in> set (nd_threads n)" "th_state t = Running m" for t m
      using wf that nm_extD [OF e(1) inv, of "cl_nbr m"] by (auto simp: node_wf_def nbr_ok_def)
    have thr: "nbr_ok m (cn_nm c')" if "t \<in> set (nd_threads ?n')" "th_state t = Running m" for t m
    proof -
      have "t \<in> insert ((nd_threads n ! k)\<lparr>th_sock := cn_sock c', th_state := st\<rparr>) (set (nd_threads n))"
        using that(1) set_update_subset_insert by (fastforce simp: thr_put_def)
      then show ?thesis using other that(2) st e(3) inv nbr by auto
    qed
    have "node_wf np ?n'"
      unfolding node_wf_def sel' using c(1) thr nm_extD [OF e(1) inv] ost_ext_ok [OF e(2)] wf
      by (auto simp: node_wf_def)
    moreover have "set (cl_reqs l) \<subseteq> reqs_at k n" using old k by (auto simp: reqs_at_def thr_reqs_def)
    then have "set (cl_reqs l') \<subseteq> reqs_at k n \<union> of_nat ` (reserved ?n' - reserved n)"
      using P(2) c(4) by blast
    then have "reqs_at k ?n' \<subseteq> reqs_at k n \<union> of_nat ` (reserved ?n' - reserved n)"
      using st by (cases st) (auto simp: reqs_at_put [OF k])
    ultimately show ?thesis using c(2,3) by (simp add: reqs_at_put [OF k])
  qed
  moreover have "regs n \<le> regs ?n' \<and> nm_handlers (nd_nbrmap ?n') = nm_handlers (nd_nbrmap n)"
    using e(1) by (simp add: nm_ext_def regs_def sel')
  ultimately show ?thesis unfolding node_ext_def by blast
qed

lemma turn_ext_post:
  assumes "turn_ext l c l' c'" and "framed c' c''"
  shows "turn_ext l c l' c''"
proof -
  note f = framedD [OF assms(2)]
  have "nbr_ok l' (cn_nm c'')" if n: "nm_inv np (cn_nm c)" "nbr_ok l (cn_nm c)" for np
  proof -
    have "nm_inv np (cn_nm c')" "nbr_ok l' (cn_nm c')" using assms(1) n unfolding turn_ext_def nm_ext_def by blast+
    then show ?thesis using f nm_extD [of "cn_nm c'" "cn_nm c''" np "cl_nbr l'"] by (auto simp: nbr_ok_def)
  qed
  moreover have "nm_ext (cn_nm c) (cn_nm c'')" "ost_ext (cn_ost c) (cn_ost c'')"
    using f assms(1) unfolding turn_ext_def by (auto elim: nm_ext_trans ost_ext_trans)
  moreover have "\<exists>P. claims (nm_bfield (cn_nm c)) (nm_bfield (cn_nm c'')) P \<and> set (cl_reqs l') \<subseteq> set (cl_reqs l) \<union> of_nat ` P"
    using f assms(1) unfolding turn_ext_def by simp
  ultimately show ?thesis unfolding turn_ext_def by blast
qed

lemma cli_finish_framed: "cli_finish l c = Inr c' \<Longrightarrow> framed c c'"
  by (rule framesD [OF frames_cn_nbr, where f1 = "\<lambda>n. n\<lparr>nb_done := True\<rparr>"]) (simp_all add: cli_finish_def)

lemma cli_start_framed:
  assumes "cli_start env uninit self peer c = Inr (l, c')"
  shows "framed c c' \<and> cl_nbr l = None \<and> cl_reqs l = []"
proof -
  let ?f = "\<lambda>c. if peer = 0 then Inr c
                else rbind (cn_write (write_msg_pair (he_date env) LOG_TCP_INIT self peer) c) (\<lambda>c.
                     rbind (send_handshake env self c) (send_bfield env))"
  have "frames ?f" by (intro frames_if frames_bind frames_Inr frames_cn_write frames_send_handshake frames_send_bfield)
  moreover have "?f c = Inr c' \<and> cl_nbr l = None \<and> cl_reqs l = []"
    using assms by (auto simp: cli_start_def rbind_Inr_iff Let_def split: if_splits)
  ultimately show ?thesis by (auto dest: framesD)
qed

lemma thread_turn_ext:
  assumes "thread_turn env uninit k n = Inr n'"
  shows "node_ext n n'"
proof (cases "length (nd_threads n) \<le> k \<or> n' = n")
  case True
  then have "n' = n" using assms by (auto simp: thread_turn_def)
  then show ?thesis by (intro node_ext_same) simp_all
next
  case False
  then have k: "k < length (nd_threads n)" and n': "n' \<noteq> n" by auto
  let ?c = "thr_conn n (nd_threads n ! k)"
  show ?thesis
  proof (cases "th_state (nd_threads n ! k)")
    case Created
    then obtain l c' where s: "cli_start env uninit (nd_peerid n) (th_peer (nd_threads n ! k)) ?c = Inr (l, c')"
        "n' = thr_put k (Running l) c' n"
      using assms k by (auto simp: thread_turn_def rbind_Inr_iff Let_def)
    note f = cli_start_framed [OF s(1)]
    show ?thesis unfolding s(2) by (rule node_ext_put [OF k turn_ext_framed [of ?c c' l l]]) (use f in auto)
  next
    case (Running l)
    then obtain r where r: "cli_turn env (nd_peerid n) l ?c = Inr r"
      and e: "(case r of Next l c \<Rightarrow> Inr (thr_put k (Running l) c n)
                  | Break l c \<Rightarrow> rbind (cli_finish l c) (\<lambda>c. Inr (thr_put k Returned c n))
                  | Waiting \<Rightarrow> Inr n) = (Inr n' :: node res)"
      using assms k by (auto simp: thread_turn_def rbind_Inr_iff Let_def)
    show ?thesis
    proof (cases r)
      case (Next l' c')
      then have "n' = thr_put k (Running l') c' n" using e by simp
      moreover have "turn_ext l ?c l' c'" using cli_turn_ext [OF r] Next by blast
      ultimately show ?thesis using node_ext_put [OF k] Running by blast
    next
      case (Break l' c')
      then obtain c'' where c'': "cli_finish l' c' = Inr c''" "n' = thr_put k Returned c'' n"
        using e by (auto simp: rbind_Inr_iff)
      have "turn_ext l ?c l' c'" using cli_turn_ext [OF r] Break by blast
      then have "turn_ext l ?c l' c''" using turn_ext_post cli_finish_framed [OF c''(1)] by blast
      then show ?thesis using node_ext_put [OF k] Running c''(2) by blast
    next
      case Waiting
      then show ?thesis using e n' by simp
    qed
  next
    case Returned
    then show ?thesis using assms k n' by (simp add: thread_turn_def Let_def)
  qed
qed

lemma nm_inv_handlers [simp]: "nm_inv np (nm\<lparr>nm_handlers := hs\<rparr>) = nm_inv np nm"
  by (simp add: nm_inv_def live_iff)

lemma nbr_ok_handlers [simp]: "nbr_ok l (nm\<lparr>nm_handlers := hs\<rparr>) = nbr_ok l nm"
  by (simp add: nbr_ok_def live_iff)

lemma handler_turn_ext:
  assumes "handler_turn rnd k n = Inr n'"
  shows "node_ext n n'"
proof -
  let ?nm = "nd_nbrmap n"
  have "\<exists>hs. n' = n\<lparr>nd_nbrmap := ?nm\<lparr>nm_handlers := hs\<rparr>\<rparr> \<and> (nm_npeers ?nm \<noteq> 0 \<longrightarrow> hs = nm_handlers ?nm)"
    if wf: "node_wf np n" for np
  proof -
    have inv: "nm_inv np ?nm" using wf by (simp add: node_wf_def)
    have same: "n = n\<lparr>nd_nbrmap := ?nm\<lparr>nm_handlers := nm_handlers ?nm\<rparr>\<rparr>" by simp
    have keep: "(nm_handlers ?nm)[k := (h, False)] = nm_handlers ?nm" if "nm_handlers ?nm ! k = (h, False)" for h
      using that by (metis list_update_id)
    obtain h d where h: "nm_handlers ?nm ! k = (h, d)" by (cases "nm_handlers ?nm ! k")
    show ?thesis
    proof (cases "length (nm_handlers ?nm) \<le> k \<or> d")
      case True
      then have "n' = n" using assms h by (cases h) (auto simp: handler_turn_def Let_def split: if_splits)
      then show ?thesis using same by blast
    next
      case False
      then show ?thesis
      proof (cases h)
        case (Opt_unchoke_handler iv)
        show ?thesis
        proof (cases "opt_unchoke rnd (\<lambda>_. ?nm)")
          case None
          then have "n' = n" using assms h False Opt_unchoke_handler by (simp add: handler_turn_def Let_def)
          then show ?thesis using same by blast
        next
          case (Some r)
          then obtain go p where go: "r = Inr (go, p)"
            using assms h False Opt_unchoke_handler by (auto simp: handler_turn_def Let_def rbind_Inr_iff)
          then have "p = None" "go" using opt_unchoke_idle [OF inv] Some by blast+
          then have "n' = n" using assms h False Opt_unchoke_handler Some go keep
            by (auto simp: handler_turn_def Let_def opt_unchoke_apply_def)
          then show ?thesis using same by blast
        qed
      next
        case (Unchoke_handler iv m)
        then show ?thesis using assms h False select_unchoked_idle [OF inv, of m] keep
          by (auto simp: handler_turn_def Let_def)
      qed
    qed
  qed
  then show ?thesis
    by (fastforce simp: node_ext_def node_wf_def reserved_def field_len_def reqs_at_def regs_def)
qed

lemma bfield_init_ok: "bfield_init shell stat hasfile fs os = Inr (os', fs') \<Longrightarrow> pred_option bfield_ok (os_bfield os')"
  by (auto simp: bfield_init_def Bfield_hasfile_def Cache_file_open_def bfield_ok_def rbind_Inr_iff Let_def split: if_splits option.splits)

text \<open>What making threads does: at most one more, freshly made.\<close>

definition one_more :: "node \<Rightarrow> node \<Rightarrow> bool" where
  "one_more n n' \<longleftrightarrow> n' = n \<or> (\<exists>t. n' = n\<lparr>nd_threads := nd_threads n @ [t]\<rparr> \<and> th_state t = Created)"

lemma one_more_refl: "one_more n n"
  by (simp add: one_more_def)

lemma make_thread_one_more: "make_thread env sock peer n = Inr n' \<Longrightarrow> one_more n n'"
  by (auto simp: make_thread_def node_exit_def one_more_def rbind_Inr_iff split: if_splits)

lemma connect_any_one_more: "connect_any env peer res n = Inr n' \<Longrightarrow> one_more n n'"
  by (induction env peer res n rule: connect_any.induct)
    (auto simp: node_exit_def rbind_Inr_iff make_thread_one_more one_more_refl split: if_splits)

lemma accept_turn_one_more: "accept_turn env n = Inr n' \<Longrightarrow> one_more n n'"
  by (auto simp: accept_turn_def node_exit_def rbind_Inr_iff make_thread_one_more split: prod.splits if_splits)

lemma one_more_ext: "one_more n n' \<Longrightarrow> node_ext n (n'\<lparr>nd_main := pc\<rparr>)"
  by (rule node_ext_same) (auto simp: one_more_def)

lemma main_turn_ext:
  assumes "main_turn env pr n = Inr n'"
  shows "node_ext n n'"
proof (cases "nd_main n")
  case (Connecting i)
  show ?thesis
  proof (cases "i < length (pi_ids pr)")
    case False
    then have "n' = n\<lparr>nd_main := Accepting (Suc i)\<rparr>" using assms Connecting by (simp add: main_turn_def)
    then show ?thesis by (simp add: one_more_ext one_more_refl)
  next
    case True
    then obtain go n1 where n1: "connback_turn env pr i n = Inr (go, n1)" "\<exists>pc. n' = n1\<lparr>nd_main := pc\<rparr>"
      using assms Connecting by (auto simp: main_turn_def rbind_Inr_iff)
    show ?thesis
    proof (cases "nd_peerid n = pi_ids pr ! i")
      case True
      then obtain hf ost fs where "bfield_init (me_shell env) (me_stat env) hf (nd_fs n) (nd_ostore n) = Inr (ost, fs)"
          "n1 = n\<lparr>nd_ostore := ost, nd_fs := fs\<rparr>"
        using n1(1) \<open>i < length (pi_ids pr)\<close> by (auto simp: connback_turn_def rbind_Inr_iff)
      then show ?thesis using n1(2) bfield_init_ok by (intro node_ext_same) auto
    next
      case False
      then obtain host port where n2: "(let (stat, res) = me_gai env host port
          in if stat < 0 then node_exit ''NODE: Getaddrinfo: %s'' (me_err env) n
             else rbind (connect_any env (pi_ids pr ! i) res n) (\<lambda>n. Inr (True, n))) = Inr (go, n1)"
        using n1(1) \<open>i < length (pi_ids pr)\<close> by (auto simp: connback_turn_def rbind_Inr_iff)
      obtain stat res where "me_gai env host port = (stat, res)" by (cases "me_gai env host port")
      with n2 have "connect_any env (pi_ids pr ! i) res n = Inr n1"
        by (auto simp: node_exit_def rbind_Inr_iff split: if_splits)
      then have "one_more n n1" by (rule connect_any_one_more)
      then show ?thesis using n1(2) one_more_ext by blast
    qed
  qed
next
  case (Accepting i)
  then have "\<exists>n1 pc. one_more n n1 \<and> n' = n1\<lparr>nd_main := pc\<rparr>"
    using assms accept_turn_one_more one_more_refl by (fastforce simp: main_turn_def rbind_Inr_iff split: if_splits)
  then show ?thesis using one_more_ext by blast
next
  case Joining
  then show ?thesis using assms
    by (auto simp: main_turn_def rbind_Inr_iff split: if_splits intro!: node_ext_same)
next
  case Deleting
  then show ?thesis using assms
    by (auto simp: main_turn_def rbind_Inr_iff split: if_splits intro!: node_ext_same)
next
  case Ended
  then show ?thesis using assms by (auto simp: main_turn_def intro!: node_ext_same)
qed

lemma node_step_ext: "node_step pr ev n = Inr n' \<Longrightarrow> node_ext n n'"
  by (cases ev) (auto simp: node_step_def main_turn_ext thread_turn_ext handler_turn_ext)

text \<open>What holds of the requests in a well-formed node, and is kept by every event.\<close>

definition reqs_ok :: "node \<Rightarrow> bool" where
  "reqs_ok n \<longleftrightarrow> (\<forall>k. reqs_at k n \<subseteq> of_nat ` reserved n) \<and> (\<forall>j k. j \<noteq> k \<longrightarrow> reqs_at j n \<inter> reqs_at k n = {})"

lemma of_nat_disjoint:
  assumes "A \<inter> B = {}" and "A \<union> B \<subseteq> {..< 2 ^ 32}"
  shows "(of_nat ` A :: u32 set) \<inter> of_nat ` B = {}"
proof -
  have "inj_on (of_nat :: nat \<Rightarrow> u32) {..< 2 ^ 32}"
    by (rule inj_onI) (simp add: word_of_nat_eq_iff take_bit_eq_mod)
  then have "inj_on (of_nat :: nat \<Rightarrow> u32) (A \<union> B)" using assms(2) by (rule inj_on_subset)
  then show ?thesis using assms(1) by (auto dest: inj_onD)
qed

lemma reserved_bound: "field_len n \<le> 2 ^ 29 \<Longrightarrow> reserved n \<subseteq> {..< 2 ^ 32}"
  using has_piece_bound by (fastforce simp: reserved_def field_len_def)

text \<open>
  \<open>apart j X\<close>: the connections other than \<open>j\<close> stay away from the pieces \<open>X\<close>, which are reserved.
\<close>

definition apart :: "nat \<Rightarrow> nat set \<Rightarrow> node \<Rightarrow> bool" where
  "apart j X n \<longleftrightarrow> X \<subseteq> reserved n \<and> (\<forall>k. k \<noteq> j \<longrightarrow> reqs_at k n \<inter> of_nat ` X = {})"

lemma apart_step:
  assumes "node_ext n n'" and "node_wf np n" and "field_len n \<le> 2 ^ 29" and "apart j X n"
  shows "apart j X n'"
proof -
  from assms(1,2) obtain a where e: "field_len n' = field_len n" "reserved n \<subseteq> reserved n'"
      "reqs_at a n' \<subseteq> reqs_at a n \<union> of_nat ` (reserved n' - reserved n)" "\<And>k. k \<noteq> a \<Longrightarrow> reqs_at k n' \<subseteq> reqs_at k n"
    unfolding node_ext_def by blast
  have X: "X \<subseteq> reserved n" and d: "\<And>k. k \<noteq> j \<Longrightarrow> reqs_at k n \<inter> of_nat ` X = {}"
    using assms(4) unfolding apart_def by blast+
  have "(of_nat ` (reserved n' - reserved n) :: u32 set) \<inter> of_nat ` X = {}"
    by (rule of_nat_disjoint) (use X e(1,2) reserved_bound [of n'] assms(3) in auto)
  moreover have "reqs_at k n' \<subseteq> reqs_at k n \<union> of_nat ` (reserved n' - reserved n)" for k
    using e(3,4) by (cases "k = a") auto
  ultimately have "reqs_at k n' \<inter> of_nat ` X = {}" if "k \<noteq> j" for k using d [OF that] by blast
  then show ?thesis using X e(2) by (auto simp: apart_def)
qed

lemma reqs_ok_step:
  assumes "node_ext n n'" and "node_wf np n" and "field_len n \<le> 2 ^ 29" and "reqs_ok n"
  shows "reqs_ok n'"
proof -
  from assms(1,2) obtain a where e: "field_len n' = field_len n" "reserved n \<subseteq> reserved n'"
      "reqs_at a n' \<subseteq> reqs_at a n \<union> of_nat ` (reserved n' - reserved n)" "\<And>k. k \<noteq> a \<Longrightarrow> reqs_at k n' \<subseteq> reqs_at k n"
    unfolding node_ext_def by blast
  have r: "reqs_at k n \<subseteq> of_nat ` reserved n" for k using assms(4) by (simp add: reqs_ok_def)
  have d: "j \<noteq> k \<Longrightarrow> reqs_at j n \<inter> reqs_at k n = {}" for j k using assms(4) by (simp add: reqs_ok_def)
  have new: "(of_nat ` (reserved n' - reserved n) :: u32 set) \<inter> of_nat ` reserved n = {}"
    by (rule of_nat_disjoint) (use e(1,2) reserved_bound [of n'] assms(3) in auto)
  have r': "reqs_at k n' \<subseteq> of_nat ` reserved n'" for k
  proof (cases "k = a")
    case True
    then show ?thesis using e(2,3) r [of a] by blast
  next
    case False
    then show ?thesis using e(2) e(4) r [of k] by blast
  qed
  have one: "reqs_at a n' \<inter> reqs_at k n' = {}" if "k \<noteq> a" for k
  proof -
    have "of_nat ` (reserved n' - reserved n) \<inter> reqs_at k n = {}" using new r [of k] by blast
    then have "(reqs_at a n \<union> of_nat ` (reserved n' - reserved n)) \<inter> reqs_at k n = {}"
      using d [OF that [symmetric]] by (simp add: Int_Un_distrib2)
    then show ?thesis using e(3) e(4) [OF that] by (meson disjoint_iff subsetD)
  qed
  have "reqs_at j n' \<inter> reqs_at k n' = {}" if "j \<noteq> k" for j k
  proof (cases "j = a \<or> k = a")
    case True
    then show ?thesis using one [of j] one [of k] that by blast
  next
    case False
    then show ?thesis using e(4) [of j] e(4) [of k] d [OF that] by blast
  qed
  then show ?thesis using r' by (simp add: reqs_ok_def)
qed

lemma node_run_inv:
  assumes "node_run pr evs n = Inr n'" and "node_wf np n" and "P n"
    and "\<And>ev m m'. node_step pr ev m = Inr m' \<Longrightarrow> node_ext m m' \<Longrightarrow> node_wf np m \<Longrightarrow>
      field_len m = field_len n \<Longrightarrow> P m \<Longrightarrow> P m'"
  shows "node_wf np n' \<and> field_len n' = field_len n \<and> P n'"
proof -
  have "rfold (node_step pr) evs n = Inr n'" using assms(1) by (simp add: node_run_def)
  then show ?thesis
  proof (rule rfold_inv)
    fix ev m m' assume m: "node_wf np m \<and> field_len m = field_len n \<and> P m" and s: "node_step pr ev m = Inr m'"
    have e: "node_ext m m'" by (rule node_step_ext [OF s])
    then have "node_wf np m' \<and> field_len m' = field_len m" using m unfolding node_ext_def by blast
    then show "node_wf np m' \<and> field_len m' = field_len n \<and> P m'" using assms(4) [OF s e] m by simp
  qed (use assms(2,3) in simp)
qed

text \<open>The node the constructor makes.\<close>

lemma Node_ctor_start:
  assumes "Node_ctor env ls peerid fname pr vals fs lg = Inr n"
  shows "node_wf (of_nat (length (pi_ids pr))) n \<and> nd_threads n = [] \<and> nd_main n = Connecting 0
    \<and> nd_peerid n = peerid \<and> reserved n = {}
    \<and> (\<exists>fsz pcsz npcs. vec_at vals 3 = Inr fsz \<and> vec_at vals 4 = Inr pcsz \<and> piece_count fsz pcsz = Inr npcs \<and> field_len n = nat npcs)"
proof -
  obtain sock brc lrc where ls: "ls = (sock, brc, lrc)" by (metis surj_pair)
  from assms obtain fsz pcsz npcs ost nm lg' where c: "vec_at vals 3 = Inr fsz" "vec_at vals 4 = Inr pcsz"
    "piece_count fsz pcsz = Inr npcs" "ObjStore_ctor (me_stat env) fsz pcsz npcs fname = Inr ost"
    "NbrMap_ctor (me_stat env) (me_stat env) (vals ! 2) (vals ! 1) (vals ! 0) (of_nat (length (pi_ids pr))) npcs = Inr nm"
    "n = \<lparr>nd_threads = [], nd_ostore = ost, nd_nbrmap = nm, nd_peerid = peerid, nd_log = lg', nd_fs = fs, nd_main = Connecting 0\<rparr>"
    unfolding Node_ctor_def ls by (auto simp: rbind_Inr_iff split: if_splits)
  have b: "nm_bfield nm = \<lparr>bf_rwlock = LFree, bf_needlock = True, bf_bfield = replicate (nat npcs) 0\<rparr>"
    using c(5) by (auto simp: NbrMap_ctor_def Bfield_npcs_def vector_fill_def rbind_Inr_iff split: if_splits)
  have none: "pieces (replicate k 0) = {}" for k by (auto simp: has_piece_def)
  have "os_bfield ost = None" using c(4) by (auto simp: ObjStore_ctor_def rbind_Inr_iff)
  moreover have "nm_inv (of_nat (length (pi_ids pr))) nm" by (rule nm_reach_inv [OF reach_ctor [OF c(5)]])
  ultimately show ?thesis using c(1-3) b none
    unfolding c(6) by (simp add: node_wf_def reserved_def field_len_def bfield_ok_def)
qed

lemma node_run_reqs_ok:
  assumes "node_run pr evs n = Inr n'" and "node_wf np n" and "field_len n \<le> 2 ^ 29" and "reqs_ok n"
  shows "node_wf np n' \<and> field_len n' = field_len n \<and> reqs_ok n'"
  by (rule node_run_inv [OF assms(1,2)]) (use assms(3,4) reqs_ok_step in auto)

lemma node_run_apart:
  assumes "node_run pr evs n = Inr n'" and "node_wf np n" and "field_len n \<le> 2 ^ 29" and "apart j X n"
  shows "apart j X n'"
  by (rule node_run_inv [OF assms(1,2), THEN conjunct2, THEN conjunct2]) (use assms(3,4) apart_step in auto)

text \<open>The connections and where the main thread is.\<close>

definition conns_ok :: "peers \<Rightarrow> node \<Rightarrow> bool" where
  "conns_ok pr n \<longleftrightarrow> nd_peerid n \<in> set (pi_ids pr) \<and> (case nd_main n of
      Connecting i \<Rightarrow> length (nd_threads n) \<le> i \<and> nd_peerid n \<notin> set (take i (pi_ids pr)) \<and> i \<le> length (pi_ids pr)
    | Accepting i \<Rightarrow> length (nd_threads n) < i \<and> i \<le> length (pi_ids pr)
    | _ \<Rightarrow> length (nd_threads n) < length (pi_ids pr))"

lemma one_more_length: "one_more n n' \<Longrightarrow> length (nd_threads n') \<le> Suc (length (nd_threads n)) \<and> nd_peerid n' = nd_peerid n"
  by (auto simp: one_more_def)

lemma connback_turn_length:
  assumes "connback_turn env pr i n = Inr (go, n')" and "i < length (pi_ids pr)"
  shows "nd_peerid n' = nd_peerid n \<and> go = (nd_peerid n \<noteq> pi_ids pr ! i)
    \<and> length (nd_threads n') \<le> (if go then Suc (length (nd_threads n)) else length (nd_threads n))"
proof (cases "nd_peerid n = pi_ids pr ! i")
  case True
  then show ?thesis using assms by (auto simp: connback_turn_def rbind_Inr_iff)
next
  case False
  then obtain host port where n2: "(let (stat, res) = me_gai env host port
      in if stat < 0 then node_exit ''NODE: Getaddrinfo: %s'' (me_err env) n
         else rbind (connect_any env (pi_ids pr ! i) res n) (\<lambda>n. Inr (True, n))) = Inr (go, n')"
    using assms by (auto simp: connback_turn_def rbind_Inr_iff)
  obtain stat res where "me_gai env host port = (stat, res)" by (cases "me_gai env host port")
  with n2 have "connect_any env (pi_ids pr ! i) res n = Inr n' \<and> go"
    by (auto simp: node_exit_def rbind_Inr_iff split: if_splits)
  then show ?thesis using one_more_length connect_any_one_more False by fastforce
qed

lemma thread_turn_put:
  assumes "thread_turn env u k n = Inr n'"
  shows "n' = n \<or> (\<exists>st c. n' = thr_put k st c n)"
proof (cases "length (nd_threads n) \<le> k")
  case False
  then show ?thesis
  proof (cases "th_state (nd_threads n ! k)")
    case (Running l)
    then obtain r where "(case r of Next l c \<Rightarrow> Inr (thr_put k (Running l) c n)
                  | Break l c \<Rightarrow> rbind (cli_finish l c) (\<lambda>c. Inr (thr_put k Returned c n))
                  | Waiting \<Rightarrow> Inr n) = (Inr n' :: node res)"
      using assms False by (auto simp: thread_turn_def rbind_Inr_iff Let_def)
    then show ?thesis by (cases r) (auto simp: rbind_Inr_iff)
  qed (use assms False in \<open>auto simp: thread_turn_def rbind_Inr_iff Let_def\<close>)
qed (use assms in \<open>simp add: thread_turn_def\<close>)

lemma thread_handler_frame:
  "thread_turn env u k n = Inr n' \<Longrightarrow> nd_main n' = nd_main n \<and> nd_peerid n' = nd_peerid n \<and> length (nd_threads n') = length (nd_threads n)"
  "handler_turn rnd k n = Inr n' \<Longrightarrow> nd_main n' = nd_main n \<and> nd_peerid n' = nd_peerid n \<and> nd_threads n' = nd_threads n"
proof -
  show "thread_turn env u k n = Inr n' \<Longrightarrow> nd_main n' = nd_main n \<and> nd_peerid n' = nd_peerid n \<and> length (nd_threads n') = length (nd_threads n)"
    by (drule thread_turn_put) (auto simp: thr_put_def)
  show "handler_turn rnd k n = Inr n' \<Longrightarrow> nd_main n' = nd_main n \<and> nd_peerid n' = nd_peerid n \<and> nd_threads n' = nd_threads n"
    by (auto simp: handler_turn_def rbind_Inr_iff Let_def
      split: if_splits prod.splits bool.splits handler.splits option.splits)
qed

lemma conns_ok_step:
  assumes "node_step pr ev n = Inr n'" and "conns_ok pr n"
  shows "conns_ok pr n'"
proof (cases ev)
  case (Main env)
  then have m: "main_turn env pr n = Inr n'" using assms(1) by (simp add: node_step_def)
  show ?thesis
  proof (cases "nd_main n")
    case (Connecting i)
    then have i: "i < length (pi_ids pr)" using assms(2) by (cases "i = length (pi_ids pr)") (auto simp: conns_ok_def)
    then obtain go n1 where n1: "connback_turn env pr i n = Inr (go, n1)"
        "n' = n1\<lparr>nd_main := (if go then Connecting (Suc i) else Accepting (Suc i))\<rparr>"
      using m Connecting by (auto simp: main_turn_def rbind_Inr_iff)
    then show ?thesis using connback_turn_length [OF n1(1) i] assms(2) Connecting i
      by (auto simp: conns_ok_def take_Suc_conv_app_nth split: if_splits)
  next
    case (Accepting i)
    show ?thesis
    proof (cases "i < length (pi_ids pr)")
      case True
      then obtain n1 where "accept_turn env n = Inr n1" "n' = n1\<lparr>nd_main := Accepting (Suc i)\<rparr>"
        using m Accepting by (auto simp: main_turn_def rbind_Inr_iff)
      then show ?thesis using one_more_length [OF accept_turn_one_more, of env n n1] assms(2) Accepting True
        by (auto simp: conns_ok_def)
    qed (use m Accepting assms(2) in \<open>auto simp: main_turn_def conns_ok_def\<close>)
  qed (use m assms(2) in \<open>auto simp: main_turn_def conns_ok_def rbind_Inr_iff split: if_splits\<close>)
next
  case (Thread k env u)
  then show ?thesis using thread_handler_frame(1) [of env u k n n'] assms by (simp add: node_step_def conns_ok_def split: main_pc.splits)
next
  case (Handler k rnd)
  then show ?thesis using thread_handler_frame(2) [of rnd k n n'] assms by (simp add: node_step_def conns_ok_def split: main_pc.splits)
qed

lemma main_ended:
  assumes "node_step pr ev n = Inr n'" and "nd_main n' = Ended"
  shows "nd_main n = Ended \<or> (\<forall>h \<in> set (nm_handlers (nd_nbrmap n)). snd h)"
proof (cases ev)
  case (Main env)
  then show ?thesis using assms
    by (auto simp: node_step_def main_turn_def rbind_Inr_iff split: main_pc.splits if_splits)
qed (use assms thread_handler_frame in \<open>auto simp: node_step_def\<close>)

text \<open>Until the main thread reaches the node's own entry there is no field.\<close>

definition field_unset :: "node \<Rightarrow> bool" where
  "field_unset n \<longleftrightarrow> (\<exists>i. nd_main n = Connecting i) \<longrightarrow> os_bfield (nd_ostore n) = None"

lemma ost_ext_None: "ost_ext os os' \<Longrightarrow> os_bfield os = None \<Longrightarrow> os_bfield os' = None"
  by (simp add: ost_ext_def)

lemma start_without_field:
  assumes "os_bfield (cn_ost c) = None" and "peer \<noteq> 0"
  shows "\<exists>e. cli_start env uninit self peer c = Inl e"
proof (cases "cli_start env uninit self peer c")
  case (Inr r)
  then obtain c1 c2 c3 where "cn_write (write_msg_pair (he_date env) LOG_TCP_INIT self peer) c = Inr c1"
      "send_handshake env self c1 = Inr c2" and s: "send_bfield env c2 = Inr c3"
    using assms(2) by (auto simp: cli_start_def rbind_Inr_iff Let_def)
  then have "framed c c2" using framesD [OF frames_cn_write] framesD [OF frames_send_handshake] framed_trans by blast
  then have "os_bfield (cn_ost c2) = None" using framedD assms(1) ost_ext_None by blast
  then show ?thesis using s by (simp add: send_bfield_def)
qed simp

lemma thread_turn_ost:
  assumes "thread_turn env u k n = Inr n'"
  shows "ost_ext (nd_ostore n) (nd_ostore n')"
proof (cases "length (nd_threads n) \<le> k")
  case False
  let ?c = "thr_conn n (nd_threads n ! k)"
  have c: "cn_ost ?c = nd_ostore n" by (simp add: thr_conn_def)
  have put: "nd_ostore (thr_put k st c' n) = cn_ost c'" for st c' by (simp add: thr_put_def)
  show ?thesis
  proof (cases "th_state (nd_threads n ! k)")
    case Created
    then obtain l c' where "cli_start env u (nd_peerid n) (th_peer (nd_threads n ! k)) ?c = Inr (l, c')"
        "n' = thr_put k (Running l) c' n"
      using assms False by (auto simp: thread_turn_def rbind_Inr_iff Let_def)
    then show ?thesis using cli_start_framed framedD c put by metis
  next
    case (Running l)
    then obtain r where r: "cli_turn env (nd_peerid n) l ?c = Inr r"
      and e: "(case r of Next l c \<Rightarrow> Inr (thr_put k (Running l) c n)
                  | Break l c \<Rightarrow> rbind (cli_finish l c) (\<lambda>c. Inr (thr_put k Returned c n))
                  | Waiting \<Rightarrow> Inr n) = (Inr n' :: node res)"
      using assms False by (auto simp: thread_turn_def rbind_Inr_iff Let_def)
    show ?thesis
    proof (cases r)
      case (Next l' c')
      then show ?thesis using e cli_turn_ext [OF r, of l' c'] c put by (auto simp: turn_ext_def)
    next
      case (Break l' c')
      then obtain c'' where c'': "cli_finish l' c' = Inr c''" "n' = thr_put k Returned c'' n"
        using e by (auto simp: rbind_Inr_iff)
      then show ?thesis using Break cli_turn_ext [OF r, of l' c'] c put turn_ext_post cli_finish_framed
        by (metis turn_ext_def)
    qed (use e in simp)
  qed (use assms False in \<open>simp add: thread_turn_def Let_def\<close>)
qed (use assms in \<open>simp add: thread_turn_def\<close>)

lemma one_more_ost: "one_more n n' \<Longrightarrow> nd_ostore n' = nd_ostore n"
  by (auto simp: one_more_def)

lemma field_unset_step:
  assumes "node_step pr ev n = Inr n'" and "field_unset n"
  shows "field_unset n'"
proof (cases ev)
  case (Main env)
  then have m: "main_turn env pr n = Inr n'" using assms(1) by (simp add: node_step_def)
  show ?thesis
  proof (cases "\<exists>i. nd_main n = Connecting i \<and> i < length (pi_ids pr)")
    case True
    then obtain i where i: "nd_main n = Connecting i" "i < length (pi_ids pr)" by blast
    then obtain go n1 where n1: "connback_turn env pr i n = Inr (go, n1)"
        "n' = n1\<lparr>nd_main := (if go then Connecting (Suc i) else Accepting (Suc i))\<rparr>"
      using m by (auto simp: main_turn_def rbind_Inr_iff)
    show ?thesis
    proof (cases go)
      case True
      then have f: "nd_peerid n \<noteq> pi_ids pr ! i" using connback_turn_length [OF n1(1) i(2)] by simp
      then obtain host port where n2: "(let (stat, res) = me_gai env host port
          in if stat < 0 then node_exit ''NODE: Getaddrinfo: %s'' (me_err env) n
             else rbind (connect_any env (pi_ids pr ! i) res n) (\<lambda>n. Inr (True, n))) = Inr (go, n1)"
        using n1(1) i(2) by (auto simp: connback_turn_def rbind_Inr_iff)
      obtain stat res where "me_gai env host port = (stat, res)" by (cases "me_gai env host port")
      with n2 have "connect_any env (pi_ids pr ! i) res n = Inr n1"
        by (auto simp: node_exit_def rbind_Inr_iff split: if_splits)
      then have "nd_ostore n1 = nd_ostore n" by (rule one_more_ost [OF connect_any_one_more])
      then show ?thesis using assms(2) i(1) n1(2) by (simp add: field_unset_def)
    qed (use n1(2) in \<open>simp add: field_unset_def\<close>)
  next
    case False
    then show ?thesis using m
      by (cases "nd_main n") (auto simp: main_turn_def rbind_Inr_iff field_unset_def split: if_splits)
  qed
next
  case (Thread k env u)
  then have "ost_ext (nd_ostore n) (nd_ostore n')" "nd_main n' = nd_main n"
    using assms(1) thread_turn_ost thread_handler_frame(1) by (auto simp: node_step_def)
  then show ?thesis using assms(2) ost_ext_None by (auto simp: field_unset_def)
next
  case (Handler k rnd)
  then have "nd_ostore n' = nd_ostore n \<and> nd_main n' = nd_main n" using assms(1)
    by (auto simp: node_step_def handler_turn_def rbind_Inr_iff Let_def
      split: if_splits prod.splits bool.splits handler.splits option.splits)
  then show ?thesis using assms(2) by (simp add: field_unset_def)
qed

section \<open>Properties\<close>

text \<open>A small run: the second of two nodes connects to the first and then sets its own field up.\<close>

definition demo_sock :: sock where
  "demo_sock = \<lparr>sk_in = [], sk_evs = [], sk_out = [], sk_sendrc = (\<lambda>_. 2 ^ 32), sk_nsend = 0\<rparr>"

definition demo_menv :: menv where
  "demo_menv = \<lparr>me_gai = (\<lambda>_ _. (0, [(3, -1, demo_sock), (4, 0, demo_sock)])), me_accept = (5, demo_sock), me_opt = 0,
     me_stat = 0, me_shell = (\<lambda>_ _ _. Some [65]), me_err = ''e''\<rparr>"

definition demo_peers :: peers where
  "demo_peers = \<lparr>pi_ids = [1001, 1002], pi_hosts = [''a'', ''b''], pi_ports = [''1'', ''2''], pi_hasfile = [True, False]\<rparr>"

definition demo_node :: node where
  "demo_node = \<lparr>nd_threads = [], nd_ostore = new_store 9 4 3 ''f'',
     nd_nbrmap = \<lparr>nm_mut = MFree, nm_npeers = 2, nm_peers = [], nm_peerinfo = Map.empty,
          nm_handlers = [(Opt_unchoke_handler 15, False), (Unchoke_handler 5 1, False)],
          nm_bfield = \<lparr>bf_rwlock = LFree, bf_needlock = True, bf_bfield = [0, 0, 0]\<rparr>, nm_heap = Map.empty, nm_next = 0\<rparr>,
     nd_peerid = 1002, nd_log = demo_log, nd_fs = Map.empty, nd_main = Connecting 0\<rparr>"

lemma demo_ctor: "Node_ctor demo_menv (3, 0, 0) 1002 ''f'' demo_peers [1, 5, 15, 9, 4] Map.empty demo_log = Inr demo_node"
  by (simp add: Node_ctor_def sock_create_def vec_at_def piece_count_def c_div_def c_mod_def int_ok_def demo_menv_def
      new_store_ctor NbrMap_ctor_def Bfield_npcs_def vector_fill_def demo_peers_def demo_node_def numeral_3_eq_3)

definition demo_connected :: node where
  "demo_connected = demo_node\<lparr>nd_threads := [\<lparr>th_peer = 1001, th_sock = demo_sock, th_state = Created\<rparr>], nd_main := Connecting 1\<rparr>"

lemma demo_run: "node_run demo_peers [Main demo_menv] demo_node = Inr demo_connected"
  by (simp add: node_run_def node_step_def main_turn_def demo_node_def demo_peers_def connback_turn_def vec_at_def
      demo_menv_def make_thread_def demo_connected_def)



text \<open>
  C27: a piece that one connection has in its request map at some time is in no other connection's map
  at that time or later, whatever the order of the events, and every requested piece is reserved.
\<close>

theorem requests_never_overlap:
  assumes "Node_ctor env ls peerid fname pr vals fs lg = Inr n0" and "field_len n0 \<le> 2 ^ 29"
    and "node_run pr evs n0 = Inr n1" and "node_run pr evs' n1 = Inr n2" and "j \<noteq> k"
  shows "reqs_at j n1 \<inter> reqs_at k n2 = {} \<and> reqs_at j n1 \<subseteq> of_nat ` reserved n1"
proof -
  note n0 = Node_ctor_start [OF assms(1)]
  have "reqs_ok n0" using n0 by (simp add: reqs_ok_def reqs_at_def)
  then have n1: "node_wf (of_nat (length (pi_ids pr))) n1" "field_len n1 = field_len n0" "reqs_ok n1"
    using node_run_reqs_ok [OF assms(3) _ assms(2)] n0 by blast+
  let ?X = "{p \<in> reserved n1. of_nat p \<in> reqs_at j n1}"
  have "reqs_at i n1 \<inter> reqs_at j n1 = {}" if "i \<noteq> j" for i using n1(3) that by (simp add: reqs_ok_def)
  then have "apart j ?X n1" unfolding apart_def by blast
  then have "apart j ?X n2" using node_run_apart [OF assms(4) n1(1)] n1(2) assms(2) by simp
  then have "reqs_at k n2 \<inter> of_nat ` ?X = {}" using assms(5) by (simp add: apart_def)
  moreover have sub: "reqs_at j n1 \<subseteq> of_nat ` reserved n1" using n1(3) by (simp add: reqs_ok_def)
  then have "reqs_at j n1 \<subseteq> of_nat ` ?X" by blast
  ultimately show ?thesis using sub by blast
qed

lemma requests_never_overlap_witness: "reqs_at 0 demo_connected \<inter> reqs_at 1 demo_connected = {}"
  using requests_never_overlap [OF demo_ctor _ demo_run, of "[]" demo_connected 0 1]
  by (simp add: node_run_def field_len_def demo_node_def)

text \<open>
  C28: a node whose id is in the peer list makes at most one connection fewer than there are peers: one for each
  peer named before it that can be reached and one for each named after it.
\<close>

theorem one_connection_per_other_peer:
  assumes "Node_ctor env ls peerid fname pr vals fs lg = Inr n0" and "node_run pr evs n0 = Inr n"
    and "peerid \<in> set (pi_ids pr)"
  shows "length (nd_threads n) < length (pi_ids pr)"
proof -
  note n0 = Node_ctor_start [OF assms(1)]
  have "conns_ok pr n0" using n0 assms(3) by (simp add: conns_ok_def)
  then have c: "conns_ok pr n" using node_run_inv [OF assms(2), where P = "conns_ok pr"] n0 conns_ok_step by blast
  show ?thesis
  proof (cases "nd_main n")
    case (Connecting i)
    then have "i < length (pi_ids pr)" using c by (cases "i = length (pi_ids pr)") (auto simp: conns_ok_def)
    then show ?thesis using c Connecting by (simp add: conns_ok_def)
  qed (use c in \<open>auto simp: conns_ok_def\<close>)
qed

lemma one_connection_per_other_peer_witness: "length (nd_threads demo_connected) < length (pi_ids demo_peers)"
  by (rule one_connection_per_other_peer [OF demo_ctor demo_run]) (simp add: demo_peers_def)



text \<open>
  The field of the node is set up only when the main thread reaches the node's own entry, after it has
  started the threads of the peers named before it. Such a thread that runs before that never gets into its
  loop: its start ends the process.
\<close>

theorem early_connection_dies:
  assumes "Node_ctor env ls peerid fname pr vals fs lg = Inr n0" and "node_run pr evs n0 = Inr n"
    and "nd_main n = Connecting i" and "k < length (nd_threads n)" and "th_state (nd_threads n ! k) = Created"
    and "th_peer (nd_threads n ! k) \<noteq> 0"
  shows "\<exists>e. node_step pr (Thread k henv uninit) n = Inl e"
proof -
  have "os_bfield (nd_ostore n0) = None"
    using assms(1) by (auto simp: Node_ctor_def ObjStore_ctor_def rbind_Inr_iff split: prod.splits if_splits)
  then have "field_unset n0" by (simp add: field_unset_def)
  then have "field_unset n"
    using node_run_inv [OF assms(2), where P = field_unset] Node_ctor_start [OF assms(1)] field_unset_step by blast
  then have "os_bfield (cn_ost (thr_conn n (nd_threads n ! k))) = None"
    using assms(3) by (simp add: field_unset_def thr_conn_def)
  then show ?thesis using start_without_field [OF _ assms(6)] assms(4,5)
    by (fastforce simp: node_step_def thread_turn_def Let_def rbind_Inl_iff)
qed

lemma early_connection_dies_witness: "\<exists>e. node_step demo_peers (Thread 0 demo_env 7) demo_connected = Inl e"
  by (rule early_connection_dies [OF demo_ctor demo_run]) (simp_all add: demo_connected_def)

text \<open>
  For a positive piece size the number of pieces is the size of the file over it, rounded up: that many
  pieces cover the file and one fewer does not. A piece size of zero is a division by zero.
\<close>

theorem piece_count_covers_file:
  assumes "0 \<le> fsz" and "int_ok fsz" and "0 \<le> pcsz"
  shows "(0 < pcsz \<longrightarrow> (\<exists>npcs. piece_count fsz pcsz = Inr npcs \<and> 0 \<le> npcs \<and> fsz \<le> npcs * pcsz \<and> (npcs - 1) * pcsz < fsz))
    \<and> (pcsz = 0 \<longrightarrow> piece_count fsz pcsz = Inl (UB DivByZero))"
proof (intro conjI impI)
  assume p: "0 < pcsz"
  obtain d r where q: "c_div fsz pcsz = d" "c_mod fsz pcsz = r" "fsz = d * pcsz + r" "0 \<le> r" "r < pcsz" "0 \<le> d"
  proof
    show "c_div fsz pcsz = fsz div pcsz" "c_mod fsz pcsz = fsz mod pcsz" "fsz = fsz div pcsz * pcsz + fsz mod pcsz"
      "0 \<le> fsz mod pcsz" "fsz mod pcsz < pcsz" "0 \<le> fsz div pcsz"
      using p assms(1) by (simp_all add: c_div_nonneg c_mod_nonneg pos_imp_zdiv_nonneg_iff)
  qed
  have "d * 1 \<le> d * pcsz" by (rule mult_left_mono) (use p q(6) in simp_all)
  then have "int_ok d" using q(3,4,6) assms(2) unfolding int_ok_def by linarith
  with q p show "\<exists>npcs. piece_count fsz pcsz = Inr npcs \<and> 0 \<le> npcs \<and> fsz \<le> npcs * pcsz \<and> (npcs - 1) * pcsz < fsz"
    by (cases "r = 0") (auto simp: piece_count_def algebra_simps)
qed (simp add: piece_count_def)

lemma piece_count_covers_file_witness:
  "\<exists>npcs. piece_count 9 4 = Inr npcs \<and> 0 \<le> npcs \<and> 9 \<le> npcs * 4 \<and> (npcs - 1) * 4 < (9 :: int)"
  using piece_count_covers_file [of 9 4] by (simp add: int_ok_def)

end
