(* ===== verification/Downloads.thy ===== *)
theory Downloads
  imports NodeRuns
begin

text \<open>
  What a node gets from other nodes that run the same program: its bit field is what \<^verbatim>\<open>bfield_init\<close> made it and
  never changes, whatever the order of events, because the only packet that could add a piece ends the process.
\<close>

section \<open>Steps that keep the pieces of the store\<close>

definition field_bits :: "ObjStore \<Rightarrow> bytes option" where
  "field_bits os = map_option bf_bfield (os_bfield os)"

definition keeps :: "(conn \<Rightarrow> conn res) \<Rightarrow> bool" where
  "keeps f \<longleftrightarrow> (\<forall>c c'. f c = Inr c' \<longrightarrow> field_bits (cn_ost c') = field_bits (cn_ost c))"

lemma keepsD: "keeps f \<Longrightarrow> f c = Inr c' \<Longrightarrow> field_bits (cn_ost c') = field_bits (cn_ost c)"
  by (simp add: keeps_def)

lemma keeps_Inr: "keeps Inr"
  by (simp add: keeps_def)

lemma keeps_bind: "keeps f \<Longrightarrow> keeps g \<Longrightarrow> keeps (\<lambda>c. rbind (f c) g)"
  by (auto simp: keeps_def rbind_Inr_iff)

lemma keeps_if: "keeps f \<Longrightarrow> keeps g \<Longrightarrow> keeps (\<lambda>c. if b then f c else g c)"
  by (simp add: keeps_def)

lemma keeps_rfold: "(\<And>x. keeps (f x)) \<Longrightarrow> keeps (rfold f xs)"
proof (induction xs)
  case (Cons x xs)
  then have "keeps (\<lambda>c. rbind (f x c) (rfold f xs))" by (intro keeps_bind) auto
  then show ?case by (simp add: keeps_def)
qed (simp add: keeps_def)

lemma field_bits_ops:
  "Bfield_clone b = Inr (v, b') \<Longrightarrow> bf_bfield b' = bf_bfield b"
  "Bfield_exists b p = Inr (r, b') \<Longrightarrow> bf_bfield b' = bf_bfield b"
  "Bfield_diff b v d = Inr (d', b') \<Longrightarrow> bf_bfield b' = bf_bfield b"
  by (auto simp: Bfield_clone_def Bfield_exists_def Bfield_diff_def Bfield_RdLock_def Bfield_UnLock_def Let_def rbind_Inr_iff
      split: if_splits)

lemma keeps_snd_pkt: "keeps (snd_pkt env pkt)"
  unfolding keeps_def
proof (intro allI impI)
  fix c c' assume "snd_pkt env pkt c = Inr c'"
  then obtain bs where "snd_json env (to_json_PktMsg pkt) c = Inr c'" "to_bson (to_json_PktMsg pkt) = Inr bs"
    by (auto simp: snd_pkt_def snd_json_def rbind_Inr_iff)
  moreover obtain rc s where "sock_send bs (cn_sock c) = (rc, s)" by (cases "sock_send bs (cn_sock c)")
  ultimately have "c' = c\<lparr>cn_sock := s\<rparr>" by (auto simp: snd_json_def rbind_Inr_iff Let_def split: if_splits)
  then show "field_bits (cn_ost c') = field_bits (cn_ost c)" by simp
qed

lemma keeps_cn_write: "keeps (cn_write w)"
  by (auto simp: keeps_def cn_write_def rbind_Inr_iff)

lemma keeps_cn_nbr: "keeps (cn_nbr f p)"
  by (auto simp: keeps_def cn_nbr_def rbind_Inr_iff)

lemma keeps_send_requests: "keeps (send_requests env reqs)"
proof -
  have "send_requests env reqs = rfold (\<lambda>pcno. snd_pkt env (request_pkt pcno)) (he_order env reqs)"
    by (simp add: fun_eq_iff send_requests_def)
  then show ?thesis by (simp add: keeps_rfold keeps_snd_pkt)
qed

lemma keeps_send_bfield: "keeps (send_bfield env)"
  by (auto simp: keeps_def send_bfield_def rbind_Inr_iff Let_def field_bits_def dest!: keepsD [OF keeps_snd_pkt] field_bits_ops(1)
      split: option.splits)

lemma ObjStore_exists_bits: "ObjStore_exists p os = Inr (r, os') \<Longrightarrow> field_bits os' = field_bits os"
  by (auto simp: ObjStore_exists_def rbind_Inr_iff field_bits_def)

lemma get_piece_bits: "get_piece junk p os = Inr (r, buf, os') \<Longrightarrow> field_bits os' = field_bits os"
  by (auto simp: get_piece_def rbind_Inr_iff field_bits_def dest!: field_bits_ops(2) split: option.splits if_splits)

lemma keeps_have_bit: "keeps (have_bit env v ij)"
  by (cases ij) (auto simp: keeps_def have_bit_def rbind_Inr_iff Let_def dest!: keepsD [OF keeps_snd_pkt] ObjStore_exists_bits
      split: if_splits)

lemma keeps_send_haves: "keeps (send_haves env v)"
proof -
  have "send_haves env v = rfold (have_bit env v) (List.product [0..<length v] [0..<8])"
    by (simp add: fun_eq_iff send_haves_def)
  then show ?thesis by (simp add: keeps_rfold keeps_have_bit)
qed

lemma keeps_send_piece: "keeps (send_piece env pcno)"
  by (auto simp: keeps_def send_piece_def rbind_Inr_iff dest!: keepsD [OF keeps_snd_pkt] get_piece_bits split: if_splits)

lemma keeps_short_sends:
  "keeps (send_handshake env self)" "keeps (send_interested env)" "keeps (send_not_interested env)"
  "keeps (send_choke_status env ch)"
  using keeps_snd_pkt
  by (simp_all add: keeps_def send_handshake_def send_interested_def send_not_interested_def send_choke_status_def)

lemma keeps_choke_status_check: "keeps (choke_status_check env nbr ch)"
  by (auto simp: keeps_def choke_status_check_def rbind_Inr_iff Let_def dest: keepsD [OF keeps_short_sends(4)] split: if_splits)

lemma keeps_handle_have: "keeps (handle_have env pkt reqs)"
  by (auto simp: keeps_def handle_have_def rbind_Inr_iff dest!: keepsD [OF keeps_short_sends(2)] keepsD [OF keeps_snd_pkt]
      split: if_splits)

section \<open>A turn of a connection\<close>

lemmas keepsDs = keepsD [OF keeps_cn_write] keepsD [OF keeps_cn_nbr] keepsD [OF keeps_send_requests] keepsD [OF keeps_send_bfield]
  keepsD [OF keeps_send_haves] keepsD [OF keeps_send_piece] keepsD [OF keeps_short_sends(1)] keepsD [OF keeps_short_sends(2)]
  keepsD [OF keeps_short_sends(3)] keepsD [OF keeps_choke_status_check] keepsD [OF keeps_handle_have]

lemma earmark_bits:
  assumes "earmark b v d nm = Inr (r, d', b', nm')"
  shows "\<exists>b0. b = Some b0 \<and> bf_bfield b' = bf_bfield b0"
  using assms by (auto simp: earmark_def rbind_Inr_iff dest!: field_bits_ops(3) split: option.splits)

lemma bitfield_tail_keeps:
  assumes "bitfield_tail env l interested diff c = Inr (l', c')"
  shows "field_bits (cn_ost c') = field_bits (cn_ost c)"
proof -
  let ?f = "\<lambda>c. if interested
      then rbind (send_interested env c)
           (\<lambda>c. if \<not> cl_client l \<and> \<not> cl_choked_node l then send_requests env (diff_to_reqs (cl_reqs l) diff) c else Inr c)
      else send_not_interested env c"
  have "keeps ?f" by (intro keeps_if keeps_bind keeps_short_sends keeps_send_requests keeps_Inr)
  moreover have "?f c = Inr c'"
    using assms by (cases interested) (auto simp: bitfield_tail_def rbind_Inr_iff split: if_splits)
  ultimately show ?thesis by (rule keepsD)
qed

lemma on_bitfield_keeps:
  assumes "on_bitfield env pkt l c = Inr (l', c')"
  shows "field_bits (cn_ost c') = field_bits (cn_ost c)"
proof -
  from assms obtain c1 r d b nm where c1: "(if cl_client l then send_bfield env c else Inr c) = Inr c1"
    "earmark (os_bfield (cn_ost c1)) (bm_bfield (pm_bfield pkt)) (cl_diff l) (cn_nm c1) = Inr (r, d, b, nm)"
    "bitfield_tail env (l\<lparr>cl_bfield_peer := bm_bfield (pm_bfield pkt)\<rparr>) r d
      (c1\<lparr>cn_ost := (cn_ost c1)\<lparr>os_bfield := Some b\<rparr>, cn_nm := nm\<rparr>) = Inr (l', c')"
    unfolding on_bitfield_tail rbind_Inr_iff by auto
  have "field_bits (cn_ost c1) = field_bits (cn_ost c)"
    using c1(1) keepsD [OF keeps_send_bfield] by (auto split: if_splits)
  then show ?thesis using earmark_bits [OF c1(2)] bitfield_tail_keeps [OF c1(3)] by (auto simp: field_bits_def)
qed

lemma dispatch_keeps:
  assumes "dispatch env self pkt l c = Inr (l', c')" and "pm_type pkt \<noteq> Piece"
  shows "field_bits (cn_ost c') = field_bits (cn_ost c)"
  using assms
  by (cases "pm_type pkt")
    (auto simp: dispatch_def on_handshake_def on_request_def rbind_Inr_iff Let_def dest!: keepsDs on_bitfield_keeps
      split: if_splits)

text \<open>
  The input side of a connection to another node: whole packets one after the other, each taken whole by the
  call that reads it. Calls may also run into the receive timeout or fail.
\<close>

inductive btrx_stream :: "bytes \<Rightarrow> bool" where
  no_more: "btrx_stream []"
| packet: "pkt_ok pkt \<Longrightarrow> encode_PktMsg pkt = Inr bs \<Longrightarrow> length bs < 2 ^ 32 \<Longrightarrow> btrx_stream rest \<Longrightarrow> btrx_stream (bs @ rest)"

definition btrx_recv :: "recv_ev \<Rightarrow> bool" where
  "btrx_recv e = (case e of Got k \<Rightarrow> 2 ^ 32 \<le> k | PeerClosed \<Rightarrow> False | _ \<Rightarrow> True)"

definition btrx_sock :: "sock \<Rightarrow> bool" where
  "btrx_sock s \<longleftrightarrow> btrx_stream (sk_in s) \<and> list_all btrx_recv (sk_evs s)"

lemma framed_btrx: "framed c c' \<Longrightarrow> btrx_sock (cn_sock c) \<Longrightarrow> btrx_sock (cn_sock c')"
  by (simp add: framed_def btrx_sock_def)

lemma rcv_fails: "sk_evs (cn_sock c) = e # es \<Longrightarrow> e = TimedOut \<or> e = RecvErr \<Longrightarrow> \<exists>x. rcv env n c = Inl x"
  by (auto simp: rcv_def sock_recv_def Let_def rbind_Inl_iff)
    (cases "write_msg LOG_ERR ''HANDLER: Recv: %s'' [PStr (he_err env)] (cn_log c)"; simp)+

lemma pkt_merge_type: "pm_type (pkt_merge pkt0 pkt) = pm_type pkt"
  by (simp add: pkt_merge_def Let_def split: MessageType.split)

lemma packet_turn_keeps:
  assumes "pkt_ok pkt" and "encode_PktMsg pkt = Inr bs" and "length bs < 2 ^ 32" and "pkt_ok (he_pkt env)"
    and "sk_in (cn_sock c) = bs @ rest" and "sk_evs (cn_sock c) = Got k # Got m # es" and "4 \<le> k" and "length bs \<le> m"
    and "length bs \<le> he_stack env" and "cli_turn env self l c = Inr t"
  shows "\<exists>l' c'. t = Next l' c' \<and> field_bits (cn_ost c') = field_bits (cn_ost c)
    \<and> sk_in (cn_sock c') = rest \<and> sk_evs (cn_sock c') = es"
proof -
  let ?c = "c\<lparr>cn_sock := (cn_sock c)\<lparr>sk_evs := es, sk_in := rest\<rparr>\<rparr>"
  have "pm_type pkt \<noteq> Piece \<and> (\<exists>c1. choke_status_check env (cl_nbr l) (cl_choked_peer l) ?c = Inr c1
      \<and> next_turn (dispatch env self (pkt_merge (he_pkt env) pkt) l c1) = Inr t)"
    using assms(10) unfolding turn_frame [OF assms(2,3,9,5-8)] decode_encode [OF assms(1,4,2)]
    by (auto simp: rbind_Inr_iff split: if_splits)
  then obtain c1 l' c' where s: "pm_type pkt \<noteq> Piece" "choke_status_check env (cl_nbr l) (cl_choked_peer l) ?c = Inr c1"
      "dispatch env self (pkt_merge (he_pkt env) pkt) l c1 = Inr (l', c')" "t = Next l' c'"
    by (auto simp: next_turn_def rbind_Inr_iff)
  have "field_bits (cn_ost c') = field_bits (cn_ost c)"
    using dispatch_keeps [OF s(3)] s(1) keepsD [OF keeps_choke_status_check s(2)] by (simp add: pkt_merge_type)
  moreover have "sk_in (cn_sock c') = sk_in (cn_sock c1) \<and> sk_evs (cn_sock c') = sk_evs (cn_sock c1)"
    using lframes_dispatch s(3) by (simp add: lframes_def)
  ultimately show ?thesis using s(4) framedD [OF framesD [OF frames_choke_status_check s(2)]] by simp
qed

lemma btrx_turn:
  assumes "btrx_sock (cn_sock c)" and "pkt_ok (he_pkt env)" and "cli_turn env self l c = Inr t"
    and "t = Next l' c' \<or> t = Break l' c'"
  shows "field_bits (cn_ost c') = field_bits (cn_ost c) \<and> btrx_sock (cn_sock c')"
proof (cases "sk_evs (cn_sock c)")
  case Nil
  then have "t = Waiting" using assms(3) by (simp add: cli_turn_def rcv_sz_def sock_recv_def)
  then show ?thesis using assms(4) by simp
next
  case (Cons e es)
  obtain k where e: "e = Got k" "2 ^ 32 \<le> k"
  proof (cases e)
    case (Got k)
    then show thesis using that assms(1) Cons by (simp add: btrx_sock_def btrx_recv_def)
  next
    case PeerClosed
    then show thesis using assms(1) Cons by (simp add: btrx_sock_def btrx_recv_def)
  qed (use assms(3) Cons write_err_ok in \<open>auto simp: cli_turn_def rcv_sz_def sock_recv_def EWOULDBLOCK_def Let_def rbind_Inr_iff\<close>)
  have "btrx_stream (sk_in (cn_sock c))" using assms(1) by (simp add: btrx_sock_def)
  then show ?thesis
  proof (cases rule: btrx_stream.cases)
    case no_more
    then have "t = Break l (c\<lparr>cn_sock := (cn_sock c)\<lparr>sk_evs := es, sk_in := []\<rparr>\<rparr>)"
      using assms(3) Cons e by (simp add: cli_turn_def rcv_sz_def sock_recv_def EWOULDBLOCK_def Let_def)
    then show ?thesis using assms(4) no_more assms(1) Cons by (auto simp: btrx_sock_def intro: btrx_stream.intros)
  next
    case (packet pkt bs rest)
    have len: "4 \<le> length bs" "unat (bytes_word (take 4 (bs @ rest)) :: u32) = length bs"
      using pk.frame_length [OF packet(3,4)] by blast+
    have "rcv_sz env c = Inr (Some ((True, bytes_word (take 4 (bs @ rest))), c\<lparr>cn_sock := (cn_sock c)\<lparr>sk_evs := es\<rparr>\<rparr>))"
      using rcv_sz_frame [of c k es env] Cons e len(1) packet(1) by simp
    moreover have "(bytes_word (take 4 (bs @ rest)) :: u32) \<noteq> 0" using len by (metis unat_0 not_numeral_le_zero)
    ultimately have turn: "on_frame env self (length bs) l (c\<lparr>cn_sock := (cn_sock c)\<lparr>sk_evs := es\<rparr>\<rparr>) = Inr t"
      using assms(3) len(2) by (simp add: cli_turn_def)
    then have stack: "length bs \<le> he_stack env" by (simp add: on_frame_def split: if_splits)
    show ?thesis
    proof (cases es)
      case Nil
      then have "t = Waiting" using turn stack by (simp add: on_frame_def rcv_def sock_recv_def)
      then show ?thesis using assms(4) by simp
    next
      case (Cons e' es')
      obtain m where m: "e' = Got m" "2 ^ 32 \<le> m"
      proof (cases e')
        case (Got m)
        then show thesis using that assms(1) Cons \<open>sk_evs (cn_sock c) = e # es\<close> by (simp add: btrx_sock_def btrx_recv_def)
      next
        case PeerClosed
        then show thesis using assms(1) Cons \<open>sk_evs (cn_sock c) = e # es\<close> by (simp add: btrx_sock_def btrx_recv_def)
      qed (use turn stack Cons rcv_fails [of "c\<lparr>cn_sock := (cn_sock c)\<lparr>sk_evs := es\<rparr>\<rparr>" e' es' env "length bs"]
          in \<open>auto simp: on_frame_def\<close>)
      have evs: "sk_evs (cn_sock c) = Got k # Got m # es'" using Cons \<open>sk_evs (cn_sock c) = e # es\<close> e(1) m(1) by simp
      have "4 \<le> k" "length bs \<le> m" using e(2) m(2) packet(4) by simp_all
      from packet_turn_keeps [OF packet(2-4) assms(2) packet(1) evs this stack assms(3)]
      obtain l2 c2 where t: "t = Next l2 c2" "field_bits (cn_ost c2) = field_bits (cn_ost c)"
        "sk_in (cn_sock c2) = rest" "sk_evs (cn_sock c2) = es'" by blast
      then have "c' = c2" using assms(4) by auto
      then show ?thesis using t packet(5) assms(1) evs by (simp add: btrx_sock_def)
    qed
  qed
qed

section \<open>A run of the node\<close>

text \<open>
  Events of a node whose connections all lead to nodes of the program, and whose threads find a packet of the
  declared sizes in the memory they take it from.
\<close>

definition btrx_event :: "event \<Rightarrow> bool" where
  "btrx_event ev = (case ev of
      Main env \<Rightarrow> btrx_sock (snd (me_accept env))
        \<and> (\<forall>host port. \<forall>(srv, crv, s) \<in> set (snd (me_gai env host port)). btrx_sock s)
    | Thread k env u \<Rightarrow> pkt_ok (he_pkt env)
    | Handler k rnd \<Rightarrow> True)"

definition btrx_node :: "node \<Rightarrow> bool" where
  "btrx_node n \<longleftrightarrow> (\<forall>t \<in> set (nd_threads n). btrx_sock (th_sock t))"

lemma make_thread_btrx: "make_thread env s peer n = Inr n' \<Longrightarrow> btrx_sock s \<Longrightarrow> btrx_node n \<Longrightarrow> btrx_node n'"
  by (auto simp: make_thread_def node_exit_def rbind_Inr_iff btrx_node_def split: if_splits)

lemma connect_any_btrx:
  "connect_any env peer res n = Inr n' \<Longrightarrow> \<forall>(srv, crv, s) \<in> set res. btrx_sock s \<Longrightarrow> btrx_node n \<Longrightarrow> btrx_node n'"
  by (induction env peer res n rule: connect_any.induct)
    (auto simp: node_exit_def rbind_Inr_iff make_thread_btrx split: if_splits)

lemma accept_turn_btrx:
  "accept_turn env n = Inr n' \<Longrightarrow> btrx_sock (snd (me_accept env)) \<Longrightarrow> btrx_node n \<Longrightarrow> btrx_node n'"
  by (auto simp: accept_turn_def node_exit_def rbind_Inr_iff make_thread_btrx split: prod.splits if_splits)

lemma btrx_main [simp]: "btrx_node (n\<lparr>nd_main := pc\<rparr>) = btrx_node n"
  by (simp add: btrx_node_def)

lemma connback_btrx:
  assumes "connback_turn env pr i n = Inr (go, n')" and "i < length (pi_ids pr)" and "btrx_event (Main env)" and "btrx_node n"
  shows "btrx_node n'"
proof (cases "nd_peerid n = pi_ids pr ! i")
  case True
  then show ?thesis using assms(1,2,4) by (auto simp: connback_turn_def rbind_Inr_iff btrx_node_def)
next
  case False
  then obtain host port where n2: "(let (stat, res) = me_gai env host port
      in if stat < 0 then node_exit ''NODE: Getaddrinfo: %s'' (me_err env) n
         else rbind (connect_any env (pi_ids pr ! i) res n) (\<lambda>n. Inr (True, n))) = Inr (go, n')"
    using assms(1,2) by (auto simp: connback_turn_def rbind_Inr_iff)
  obtain stat res where g: "me_gai env host port = (stat, res)" by (cases "me_gai env host port")
  with n2 have "connect_any env (pi_ids pr ! i) res n = Inr n'"
    by (auto simp: node_exit_def rbind_Inr_iff split: if_splits)
  moreover have "\<forall>(srv, crv, s) \<in> set (snd (me_gai env host port)). btrx_sock s"
    using assms(3) unfolding btrx_event_def event.case by blast
  ultimately show ?thesis using connect_any_btrx assms(4) g by simp
qed

lemma main_turn_btrx:
  assumes "main_turn env pr n = Inr n'" and "btrx_event (Main env)" and "btrx_node n"
  shows "btrx_node n'"
proof (cases "nd_main n")
  case (Connecting i)
  then show ?thesis using assms connback_btrx
    by (cases "i < length (pi_ids pr)") (auto simp: main_turn_def rbind_Inr_iff)
next
  case (Accepting i)
  then show ?thesis using assms accept_turn_btrx
    by (cases "i < length (pi_ids pr)") (auto simp: main_turn_def rbind_Inr_iff btrx_event_def)
qed (use assms in \<open>auto simp: main_turn_def rbind_Inr_iff split: if_splits\<close>)

text \<open>A turn of a connection thread keeps the pieces and, of every connection, the kind.\<close>

lemma btrx_put:
  "btrx_node n \<Longrightarrow> btrx_sock (cn_sock c) \<Longrightarrow> btrx_node (thr_put k st c n)"
  by (auto simp: btrx_node_def thr_put_def dest!: set_update_subset_insert [THEN subsetD])

lemma cli_start_keeps:
  assumes "cli_start env u self peer c = Inr (l, c')"
  shows "field_bits (cn_ost c') = field_bits (cn_ost c)"
  using assms by (auto simp: cli_start_def rbind_Inr_iff Let_def dest!: keepsDs split: if_splits)

lemma cli_finish_keeps: "cli_finish l c = Inr c' \<Longrightarrow> field_bits (cn_ost c') = field_bits (cn_ost c)"
  by (auto simp: cli_finish_def dest: keepsD [OF keeps_cn_nbr])

lemma thread_turn_btrx:
  assumes "thread_turn env u k n = Inr n'" and "pkt_ok (he_pkt env)" and "btrx_node n"
  shows "btrx_node n' \<and> field_bits (nd_ostore n') = field_bits (nd_ostore n)"
proof (cases "length (nd_threads n) \<le> k")
  case True
  then show ?thesis using assms by (simp add: thread_turn_def)
next
  case False
  let ?c = "thr_conn n (nd_threads n ! k)"
  have s: "btrx_sock (cn_sock ?c)" using assms(3) False by (simp add: btrx_node_def thr_conn_def)
  have put: "nd_ostore (thr_put k st c' n) = cn_ost c'" "cn_ost ?c = nd_ostore n" for st c'
    by (simp_all add: thr_put_def thr_conn_def)
  show ?thesis
  proof (cases "th_state (nd_threads n ! k)")
    case Created
    then obtain l c' where "cli_start env u (nd_peerid n) (th_peer (nd_threads n ! k)) ?c = Inr (l, c')"
        "n' = thr_put k (Running l) c' n"
      using assms False by (auto simp: thread_turn_def rbind_Inr_iff Let_def)
    then show ?thesis using cli_start_keeps cli_start_framed framed_btrx s put btrx_put assms(3) by metis
  next
    case (Running l)
    then obtain r where r: "cli_turn env (nd_peerid n) l ?c = Inr r"
      and e: "(case r of Next l c \<Rightarrow> Inr (thr_put k (Running l) c n)
                  | Break l c \<Rightarrow> rbind (cli_finish l c) (\<lambda>c. Inr (thr_put k Returned c n))
                  | Waiting \<Rightarrow> Inr n) = (Inr n' :: node res)"
      using assms False by (auto simp: thread_turn_def rbind_Inr_iff Let_def)
    note turn = btrx_turn [OF s assms(2) r]
    show ?thesis
    proof (cases r)
      case (Next l' c')
      then show ?thesis using e turn [of l' c'] put btrx_put [OF assms(3)] by auto
    next
      case (Break l' c')
      then obtain c'' where c'': "cli_finish l' c' = Inr c''" "n' = thr_put k Returned c'' n"
        using e by (auto simp: rbind_Inr_iff)
      then have "btrx_sock (cn_sock c'')" using framed_btrx [OF cli_finish_framed] turn [of l' c'] Break by blast
      then show ?thesis using c'' turn [of l' c'] Break put btrx_put [OF assms(3)] cli_finish_keeps by metis
    qed (use e assms(3) in simp)
  qed (use assms False in \<open>simp add: thread_turn_def Let_def\<close>)
qed

text \<open>Once the field is there, the main thread is past making it, and nothing else changes its bits.\<close>

lemma main_turn_field:
  assumes "main_turn env pr n = Inr n'" and "field_unset n" and "os_bfield (nd_ostore n) \<noteq> None"
  shows "nd_ostore n' = nd_ostore n"
proof (cases "nd_main n")
  case (Connecting i)
  then show ?thesis using assms(2,3) by (simp add: field_unset_def)
next
  case (Accepting i)
  then show ?thesis using assms(1) by (auto simp: main_turn_def rbind_Inr_iff dest!: accept_turn_one_more one_more_ost split: if_splits)
qed (use assms(1) in \<open>auto simp: main_turn_def rbind_Inr_iff split: if_splits\<close>)

lemma handler_turn_ost: "handler_turn rnd k n = Inr n' \<Longrightarrow> nd_ostore n' = nd_ostore n"
  by (auto simp: handler_turn_def rbind_Inr_iff Let_def
      split: if_splits prod.splits bool.splits handler.splits option.splits)

lemma btrx_step:
  assumes "node_step pr ev n = Inr n'" and "btrx_event ev" and "btrx_node n" and "field_unset n"
  shows "btrx_node n' \<and> field_unset n' \<and> (os_bfield (nd_ostore n) \<noteq> None \<longrightarrow> field_bits (nd_ostore n') = field_bits (nd_ostore n))"
proof (cases ev)
  case (Main env)
  then have m: "main_turn env pr n = Inr n'" using assms(1) by (simp add: node_step_def)
  show ?thesis using field_unset_step [OF assms(1,4)] main_turn_btrx [OF m] main_turn_field [OF m] assms Main by auto
next
  case (Thread k env u)
  then have "thread_turn env u k n = Inr n'" using assms(1) by (simp add: node_step_def)
  from thread_turn_btrx [OF this _ assms(3)] show ?thesis
    using field_unset_step [OF assms(1,4)] assms(2) Thread by (simp add: btrx_event_def)
next
  case (Handler k rnd)
  then have h: "handler_turn rnd k n = Inr n'" using assms(1) by (simp add: node_step_def)
  show ?thesis
    using field_unset_step [OF assms(1,4)] thread_handler_frame(2) [OF h] handler_turn_ost [OF h] assms(3) by (simp add: btrx_node_def)
qed

lemma btrx_run:
  assumes "node_run pr evs n = Inr n'" and "list_all btrx_event evs" and "btrx_node n" and "field_unset n"
  shows "btrx_node n' \<and> field_unset n' \<and> (os_bfield (nd_ostore n) \<noteq> None \<longrightarrow> field_bits (nd_ostore n') = field_bits (nd_ostore n))"
  using assms
proof (induction evs arbitrary: n)
  case (Cons ev evs)
  then obtain m where m: "node_step pr ev n = Inr m" "node_run pr evs m = Inr n'"
    by (auto simp: node_run_def rbind_Inr_iff)
  have ev: "btrx_event ev" "list_all btrx_event evs" using Cons.prems(2) by simp_all
  note s = btrx_step [OF m(1) ev(1) Cons.prems(3,4)]
  have i: "btrx_node n' \<and> field_unset n' \<and> (os_bfield (nd_ostore m) \<noteq> None \<longrightarrow> field_bits (nd_ostore n') = field_bits (nd_ostore m))"
    using Cons.IH [OF m(2) ev(2)] s by blast
  show ?case using s i by (auto simp: field_bits_def)
qed (simp add: node_run_def)

section \<open>Properties\<close>

text \<open>
  A run of the first of two nodes: it makes its field from the file it has, accepts a connection, starts its
  handler and gets a choke packet on it.
\<close>

definition choke_sock :: "bytes \<Rightarrow> sock" where
  "choke_sock bs = \<lparr>sk_in = bs, sk_evs = [Got (2 ^ 32), Got (2 ^ 32)], sk_out = [], sk_sendrc = (\<lambda>_. 2 ^ 32), sk_nsend = 0\<rparr>"

definition choke_menv :: "bytes \<Rightarrow> menv" where
  "choke_menv bs = demo_menv\<lparr>me_gai := (\<lambda>_ _. (0, [])), me_accept := (5, choke_sock bs)\<rparr>"

definition seed_node :: node where
  "seed_node = demo_node\<lparr>nd_peerid := 1001, nd_fs := (\<lambda>_. Some [65])\<rparr>"

definition seed_open :: node where
  "seed_open = seed_node\<lparr>nd_ostore := (nd_ostore seed_node)\<lparr>os_bfield := Some (bf_demo [full_mask]),
     os_cache := (os_cache (nd_ostore seed_node))\<lparr>c_fd := Some \<lparr>f_data = [65], f_off = 0\<rparr>\<rparr>\<rparr>, nd_main := Accepting 1\<rparr>"

definition seed_thread :: "bytes \<Rightarrow> thr_state \<Rightarrow> thr" where
  "seed_thread bs st = \<lparr>th_peer = 0, th_sock = choke_sock bs, th_state = st\<rparr>"

definition seed_cli :: cli where
  "seed_cli = \<lparr>cl_client = True, cl_peerid = 7, cl_ntimeouts = 0, cl_choked_node = False, cl_choked_peer = False,
     cl_nbr = None, cl_diff = [], cl_bfield_peer = [], cl_reqs = []\<rparr>"

definition seed_at :: "bytes \<Rightarrow> thr_state \<Rightarrow> node" where
  "seed_at bs st = seed_open\<lparr>nd_threads := [seed_thread bs st], nd_main := Accepting 2\<rparr>"

lemma seed_ctor: "Node_ctor (choke_menv bs) (3, 0, 0) 1001 ''f'' demo_peers [1, 5, 15, 9, 4] (\<lambda>_. Some [65]) demo_log = Inr seed_node"
  by (simp add: Node_ctor_def sock_create_def vec_at_def piece_count_def c_div_def c_mod_def int_ok_def demo_menv_def
      new_store_ctor NbrMap_ctor_def Bfield_npcs_def vector_fill_def demo_peers_def demo_node_def numeral_3_eq_3
      choke_menv_def seed_node_def)

lemma seed_init: "node_step demo_peers (Main (choke_menv bs)) seed_node = Inr seed_open"
  by (simp add: node_step_def main_turn_def seed_node_def demo_node_def demo_peers_def connback_turn_def vec_at_def
      seed_open_def bfield_init_def Bfield_hasfile_def c_div_def c_mod_def vector_fill_def Cache_file_open_def bf_demo_def
      choke_menv_def demo_menv_def new_store_def init_call_def)

lemma seed_accept: "node_step demo_peers (Main (choke_menv bs)) seed_open = Inr (seed_at bs Created)"
  by (simp add: node_step_def main_turn_def seed_open_def demo_peers_def accept_turn_def choke_menv_def demo_menv_def
      make_thread_def seed_at_def seed_thread_def seed_node_def demo_node_def)

lemma seed_start: "node_step demo_peers (Thread 0 demo_env 7) (seed_at bs Created) = Inr (seed_at bs (Running seed_cli))"
  by (simp add: node_step_def thread_turn_def seed_at_def seed_thread_def cli_start_def thr_conn_def thr_put_def seed_cli_def
      seed_open_def)

lemma seed_choke:
  assumes "encode_PktMsg (pkt_blank Choke) = Inr bs"
  shows "\<exists>n. node_step demo_peers (Thread 0 demo_env 7) (seed_at bs (Running seed_cli)) = Inr n"
proof -
  have ok: "pkt_ok (pkt_blank Choke)" by (rule pkt_blank_ok) (simp add: named_types_def)
  obtain n where n: "calc_entries_size (msg_body (pkt_blank Choke) @ [(bytes_of ''type'', to_json_enum (msg_code (pm_type (pkt_blank Choke))))]) = Inr n"
      "n \<le> 59"
    using short_entries_size [of "pkt_blank Choke"] by (auto simp: pkt_blank_def short_types_def)
  have len: "length bs < 2 ^ 32" "length bs \<le> he_stack demo_env" "length bs \<le> 2 ^ 32"
    using encode_length [OF assms n(1)] n(2) by (simp_all add: demo_env_def)
  let ?c = "thr_conn (seed_at bs (Running seed_cli)) (seed_thread bs (Running seed_cli))"
  have c: "sk_in (cn_sock ?c) = bs @ []" "sk_evs (cn_sock ?c) = Got (2 ^ 32) # Got (2 ^ 32) # []"
    by (simp_all add: thr_conn_def seed_thread_def choke_sock_def)
  have "(4 :: nat) \<le> 2 ^ 32" by simp
  note turn = turn_frame [OF assms len(1,2) c this len(3), of 1001 seed_cli]
  have decode: "decode_PktMsg (he_pkt demo_env) bs = Inr (pkt_blank Choke)"
    using decode_encode [OF ok _ assms, of "he_pkt demo_env"] ok by (simp add: demo_env_def pkt_merge_def pkt_blank_def)
  obtain lg where w: "write_msg_pair (he_date demo_env) LOG_CHK 1001 7 demo_log = Inr lg"
    using write_msg_pair_text [of demo_log] by (simp add: log_ok_def demo_log_def)
  have "cn_log ?c = demo_log" by (simp add: thr_conn_def seed_at_def seed_open_def seed_node_def demo_node_def)
  then have "\<exists>l c. cli_turn demo_env 1001 seed_cli ?c = Inr (Next l c)"
    unfolding turn decode rbind_simps
    by (simp add: next_turn_def dispatch_def pkt_blank_def choke_status_check_def seed_cli_def cn_write_def w int_of_u32_def)
  then show ?thesis
    by (auto simp: node_step_def thread_turn_def seed_at_def seed_open_def seed_node_def demo_node_def seed_thread_def)
qed

text \<open>
  C30: a node whose connections all lead to nodes of the program, delivering whole packets, never gets a piece:
  once the main thread has made its bit field the field stays as it is, whatever the order of the events,
  for as long as the process lives.
\<close>

theorem nothing_is_downloaded:
  assumes "Node_ctor env ls peerid fname pr vals fs lg = Inr n0"
    and "node_run pr evs n0 = Inr n1" and "list_all btrx_event evs" and "os_bfield (nd_ostore n1) = Some b"
    and "node_run pr evs' n1 = Inr n2" and "list_all btrx_event evs'"
  shows "\<exists>b'. os_bfield (nd_ostore n2) = Some b' \<and> bf_bfield b' = bf_bfield b"
proof -
  note n0 = Node_ctor_start [OF assms(1)]
  have "os_bfield (nd_ostore n0) = None"
    using assms(1) by (auto simp: Node_ctor_def ObjStore_ctor_def rbind_Inr_iff split: prod.splits if_splits)
  then have "btrx_node n0" "field_unset n0" using n0 by (simp_all add: btrx_node_def field_unset_def)
  then have "btrx_node n1" "field_unset n1" using btrx_run [OF assms(2,3)] by blast+
  then have "field_bits (nd_ostore n2) = Some (bf_bfield b)"
    using btrx_run [OF assms(5,6)] assms(4) by (simp add: field_bits_def)
  then show ?thesis by (auto simp: field_bits_def)
qed

lemma nothing_is_downloaded_witness:
  "\<exists>bs n b. encode_PktMsg (pkt_blank Choke) = Inr bs
    \<and> node_run demo_peers [Thread 0 demo_env 7, Thread 0 demo_env 7] (seed_at bs Created) = Inr n
    \<and> os_bfield (nd_ostore n) = Some b \<and> bf_bfield b = [full_mask]"
proof -
  have ok: "pkt_ok (pkt_blank Choke)" by (rule pkt_blank_ok) (simp add: named_types_def)
  obtain bs where bs: "encode_PktMsg (pkt_blank Choke) = Inr bs" using encode_total [OF ok] by blast
  have len: "length bs < 2 ^ 32"
    using pkt_blank_short [of Choke demo_env] bs by (auto simp: short_types_def demo_env_def pkt_fits_def)
  have "btrx_stream (bs @ [])" by (rule btrx_stream.packet [OF ok bs len btrx_stream.no_more])
  then have s: "btrx_sock (choke_sock bs)" by (simp add: btrx_sock_def choke_sock_def btrx_recv_def)
  have evs: "list_all btrx_event [Main (choke_menv bs), Main (choke_menv bs)]"
    "list_all btrx_event [Thread 0 demo_env 7, Thread 0 demo_env 7]"
    using s ok by (simp_all add: btrx_event_def choke_menv_def demo_env_def)
  have run: "node_run demo_peers [Main (choke_menv bs), Main (choke_menv bs)] seed_node = Inr (seed_at bs Created)"
    using seed_init seed_accept by (simp add: node_run_def)
  obtain n where n: "node_run demo_peers [Thread 0 demo_env 7, Thread 0 demo_env 7] (seed_at bs Created) = Inr n"
    using seed_start seed_choke [OF bs] by (auto simp: node_run_def)
  have "os_bfield (nd_ostore (seed_at bs Created)) = Some (bf_demo [full_mask])"
    by (simp add: seed_at_def seed_open_def)
  from nothing_is_downloaded [OF seed_ctor run evs(1) this n evs(2)] show ?thesis
    using bs n by (auto simp: bf_demo_def)
qed

end
