(* ===== verification/Entrypoint.thy ===== *)
theory Entrypoint
  imports Node
begin

text \<open>
  The start of the program, \<^verbatim>\<open>entrypoint.cpp\<close>: the two configuration files are read line by line with
  \<^verbatim>\<open>getline\<close>, \<^verbatim>\<open>strtok\<close> and \<^verbatim>\<open>strtol\<close>, and the node is made from what they hold.
\<close>

section \<open>The C library functions the readers use\<close>

definition newline :: char where
  "newline = CHR 0x0A"

text \<open>The lines successive calls of \<^verbatim>\<open>getline\<close> return, each with its newline; the last one may lack it.\<close>

fun getlines :: "string \<Rightarrow> string \<Rightarrow> string list" where
  "getlines line [] = (if line = [] then [] else [line])"
| "getlines line (c # cs) = (if c = newline then (line @ [c]) # getlines [] cs else getlines (line @ [c]) cs)"

text \<open>\<^verbatim>\<open>strtok(s, " ")\<close>: the token and where the next call with a null pointer goes on, or a null pointer.\<close>

definition strtok :: "string \<Rightarrow> (string \<times> string) option" where
  "strtok s = (let s = dropWhile (\<lambda>c. c = CHR '' '') s
     in if s = [] then None
        else Some (takeWhile (\<lambda>c. c \<noteq> CHR '' '') s, drop 1 (dropWhile (\<lambda>c. c \<noteq> CHR '' '') s)))"

text \<open>A token that is used without a check for the null pointer.\<close>

definition strtok_next :: "string \<Rightarrow> (string \<times> string) res" where
  "strtok_next s = (case strtok s of None \<Rightarrow> Inl (UB NullDeref) | Some r \<Rightarrow> Inr r)"

definition c_isspace :: "char \<Rightarrow> bool" where
  "c_isspace c \<longleftrightarrow> c = CHR '' '' \<or> (9 \<le> (of_char c :: nat) \<and> (of_char c :: nat) \<le> 13)"

definition c_isdigit :: "char \<Rightarrow> bool" where
  "c_isdigit c \<longleftrightarrow> 48 \<le> (of_char c :: nat) \<and> (of_char c :: nat) \<le> 57"

definition digits_value :: "string \<Rightarrow> nat" where
  "digits_value ds = foldl (\<lambda>n c. 10 * n + (of_char c - 48)) 0 ds"

text \<open>\<^verbatim>\<open>strtol(s, NULL, 10)\<close>, clamped to the range of \<^verbatim>\<open>long\<close>, and the conversion to \<^verbatim>\<open>int\<close>.\<close>

definition strtol :: "string \<Rightarrow> int" where
  "strtol s =
     (let s = dropWhile c_isspace s;
          neg = (s \<noteq> [] \<and> hd s = CHR ''-'');
          s = (if s \<noteq> [] \<and> (hd s = CHR ''-'' \<or> hd s = CHR ''+'') then tl s else s);
          v = int (digits_value (takeWhile c_isdigit s))
      in if neg then max (- (2 ^ 63)) (- v) else min (2 ^ 63 - 1) v)"

definition int_of_long :: "int \<Rightarrow> int" where
  "int_of_long v = signed_take_bit 31 v"

section \<open>The readers\<close>

text \<open>A line of \<^verbatim>\<open>PeerInfo.cfg\<close>; \<open>ret\<close> is the port of the node itself.\<close>

definition peer_line :: "int \<Rightarrow> string \<Rightarrow> int \<times> peers \<Rightarrow> (int \<times> peers) res" where
  "peer_line pid line st =
     (case st of (ret, pr) \<Rightarrow>
      rbind (strtok_next (c_string line)) (\<lambda>(id, s).
      let peerid = int_of_long (strtol id)
      in rbind (strtok_next s) (\<lambda>(host, s).
         rbind (strtok_next s) (\<lambda>(port, s).
         rbind (strtok_next s) (\<lambda>(hasfile, _).
         Inr (if peerid = pid then int_of_long (strtol port) else ret,
              \<lparr>pi_ids = pi_ids pr @ [peerid], pi_hosts = pi_hosts pr @ [host], pi_ports = pi_ports pr @ [port],
               pi_hasfile = pi_hasfile pr @ [strtol hasfile \<noteq> 0]\<rparr>))))))"

definition file_text :: "u8 list \<Rightarrow> string" where
  "file_text d = map (\<lambda>b. char_of (unat b)) d"

definition fopen_fail :: "string \<Rightarrow> Logger \<Rightarrow> 'a res" where
  "fopen_fail fname lg = rbind (write_msg LOG_ERR ''ENTRYPOINT: Fopen: %s'' [PStr (c_string fname)] lg) (\<lambda>_. Inl (Exit 1))"

definition read_peer_info :: "filesys \<Rightarrow> Logger \<Rightarrow> string \<Rightarrow> int \<Rightarrow> (int \<times> peers) res" where
  "read_peer_info fs lg fname pid =
     (case fs (c_string fname) of
        None \<Rightarrow> fopen_fail fname lg
      | Some d \<Rightarrow> rfold (peer_line pid) (getlines [] (file_text d))
                   (0, \<lparr>pi_ids = [], pi_hosts = [], pi_ports = [], pi_hasfile = []\<rparr>))"

text \<open>
  A line of \<^verbatim>\<open>Common.cfg\<close>, copied by \<^verbatim>\<open>strncpy\<close> into a buffer of 512 bytes. A longer line leaves no NUL there,
  and \<^verbatim>\<open>strtok\<close> reads on where the rest of the buffer has no blank that ends a token.
\<close>

definition strtok_in :: "bool \<Rightarrow> string \<Rightarrow> (string \<times> string) res" where
  "strtok_in whole s =
     (if \<not> whole \<and> CHR '' '' \<notin> set (dropWhile (\<lambda>c. c = CHR '' '') s) then Inl (UB OutOfBounds) else strtok_next s)"

definition conf_line :: "string \<Rightarrow> string \<Rightarrow> string \<times> int list \<Rightarrow> (string \<times> int list) res" where
  "conf_line peerid line st =
     (case st of (sh_fname, vals) \<Rightarrow>
      let whole = length (c_string line) < 512; tmp = take 512 (c_string line)
      in rbind (strtok_in whole tmp) (\<lambda>(field, s).
         rbind (strtok_in whole s) (\<lambda>(tok, _).
         Inr (if field = ''FileName'' then (peerid @ ''/'' @ tok, vals)
              else (sh_fname, vals @ [int_of_long (strtol tok)])))))"

definition read_conf_file :: "filesys \<Rightarrow> Logger \<Rightarrow> string \<Rightarrow> string \<Rightarrow> (string \<times> int list) res" where
  "read_conf_file fs lg fname peerid =
     (case fs (c_string fname) of
        None \<Rightarrow> fopen_fail fname lg
      | Some d \<Rightarrow> rfold (conf_line peerid) (getlines [] (file_text d)) ([], []))"

section \<open>Main\<close>

text \<open>
  \<^verbatim>\<open>main\<close> up to the loop of \<^verbatim>\<open>connback\<close>: the node made and the peers it is to run with. \<open>fopen_ok\<close> says whether
  the log opens, \<open>ls port\<close> how the listening socket at \<open>port\<close> goes.
\<close>

definition main_start :: "menv \<Rightarrow> (int \<Rightarrow> int \<times> int \<times> int) \<Rightarrow> bool \<Rightarrow> filesys \<Rightarrow> string list \<Rightarrow> (peers \<times> node) res" where
  "main_start env ls fopen_ok fs argv =
     (if length argv \<noteq> 2 then Inl (Exit 1)
      else let arg = argv ! 1
           in rbind (Logger_ctor fopen_ok (me_stat env) (arg @ ''/log_peer_'' @ arg) LOG_DBG) (\<lambda>lvar.
              let peerid = int_of_long (strtol arg)
              in rbind (read_conf_file fs lvar ''./Common.cfg'' arg) (\<lambda>(sh_fname, vals).
                 rbind (read_peer_info fs lvar ''PeerInfo.cfg'' peerid) (\<lambda>(port, pr).
                 rbind (vec_at vals 0) (\<lambda>_. rbind (vec_at vals 1) (\<lambda>_. rbind (vec_at vals 2) (\<lambda>_.
                 rbind (Node_ctor env (ls port) peerid sh_fname pr vals fs lvar) (\<lambda>n. Inr (pr, n)))))))))"

section \<open>Printing and reading back\<close>

lemma char_of_digit: "d < 10 \<Longrightarrow> c_isdigit (char_of (48 + d :: nat)) \<and> of_char (char_of (48 + d :: nat)) = 48 + d"
  by (simp add: c_isdigit_def)

lemma show_nat_digits: "(\<forall>c \<in> set (show_nat n). c_isdigit c) \<and> digits_value (show_nat n) = n \<and> show_nat n \<noteq> []"
proof (induction n rule: show_nat.induct)
  case (1 n)
  show ?case
  proof (cases "n < 10")
    case True
    then show ?thesis using char_of_digit [of n] by (subst (1 2 3) show_nat.simps) (simp add: digits_value_def)
  next
    case False
    have "digits_value (show_nat (n div 10) @ [char_of (48 + n mod 10)]) = n"
      using 1 [OF False] char_of_digit [of "n mod 10"] by (simp add: digits_value_def)
    then show ?thesis using 1 [OF False] char_of_digit [of "n mod 10"] False by (subst (1 2 3) show_nat.simps) simp
  qed
qed

lemma digit_plain: "c_isdigit c \<Longrightarrow> c \<noteq> CHR '' '' \<and> c \<noteq> CHR ''-'' \<and> c \<noteq> CHR ''+'' \<and> c \<noteq> CHR 0x00 \<and> c \<noteq> newline \<and> \<not> c_isspace c"
  by (auto simp: c_isdigit_def c_isspace_def newline_def)

text \<open>A number that is followed by anything but a digit is read back.\<close>

lemma strtol_show_int:
  assumes "rest = [] \<or> \<not> c_isdigit (hd rest)" and "- (2 ^ 63) \<le> v" and "v < 2 ^ 63"
  shows "strtol (show_int v @ rest) = v"
proof -
  have tw: "takeWhile c_isdigit (show_nat n @ rest) = show_nat n" for n
    using show_nat_digits [of n] assms(1) by (cases rest) (auto simp: takeWhile_append)
  have hd: "c_isdigit (hd (show_nat n @ rest))" "show_nat n @ rest \<noteq> []" for n
    using show_nat_digits [of n] by (auto simp: hd_append)
  show ?thesis
  proof (cases "v < 0")
    case True
    have "\<not> c_isspace (CHR ''-'')" by (simp add: c_isspace_def)
    then show ?thesis using True tw [of "nat (- v)"] show_nat_digits [of "nat (- v)"] assms(2)
      by (simp add: strtol_def show_int_def Let_def)
  next
    case False
    let ?s = "show_nat (nat v) @ rest"
    have "dropWhile c_isspace ?s = ?s" using hd [of "nat v"] digit_plain by (metis dropWhile_eq_self_iff)
    moreover have "hd ?s \<noteq> CHR ''-'' \<and> hd ?s \<noteq> CHR ''+''" using hd(1) [of "nat v"] digit_plain by blast
    ultimately show ?thesis using False tw [of "nat v"] show_nat_digits [of "nat v"] assms(3)
      by (simp add: strtol_def show_int_def Let_def)
  qed
qed

text \<open>A word: something \<^verbatim>\<open>strtok\<close> returns whole.\<close>

definition word_ok :: "string \<Rightarrow> bool" where
  "word_ok s \<longleftrightarrow> s \<noteq> [] \<and> CHR '' '' \<notin> set s \<and> CHR 0x00 \<notin> set s \<and> newline \<notin> set s"

lemma show_int_word: "word_ok (show_int v)"
proof -
  have "word_ok (show_nat n)" for n using show_nat_digits [of n] digit_plain by (fastforce simp: word_ok_def)
  then show ?thesis by (auto simp: show_int_def word_ok_def newline_def)
qed

lemma strtok_word:
  assumes "s \<noteq> []" and "CHR '' '' \<notin> set s"
  shows "strtok_next (s @ CHR '' '' # rest) = Inr (s, rest)" "strtok_next s = Inr (s, [])"
proof -
  have d: "dropWhile (\<lambda>c. c = CHR '' '') (s @ t) = s @ t" for t
    using assms by (cases s) auto
  have "\<forall>c \<in> set s. c \<noteq> CHR '' ''" using assms(2) by blast
  then have t: "takeWhile (\<lambda>c. c \<noteq> CHR '' '') (s @ CHR '' '' # rest) = s" "dropWhile (\<lambda>c. c \<noteq> CHR '' '') (s @ CHR '' '' # rest) = CHR '' '' # rest"
    "takeWhile (\<lambda>c. c \<noteq> CHR '' '') s = s" "dropWhile (\<lambda>c. c \<noteq> CHR '' '') s = []"
    by (simp_all add: takeWhile_append2 dropWhile_append2 takeWhile_eq_all_conv)
  show "strtok_next (s @ CHR '' '' # rest) = Inr (s, rest)"
    using assms(1) unfolding strtok_next_def strtok_def Let_def d t by simp
  show "strtok_next s = Inr (s, [])"
    using assms(1) unfolding strtok_next_def strtok_def Let_def d [of "[]", simplified] t by simp
qed

lemma getlines_line:
  "newline \<notin> set s \<Longrightarrow> getlines line (s @ newline # rest) = (line @ s @ [newline]) # getlines [] rest"
  by (induction s arbitrary: line) auto

lemma getlines_concat: "\<forall>l \<in> set ls. newline \<notin> set l \<Longrightarrow> getlines [] (concat (map (\<lambda>l. l @ [newline]) ls)) = map (\<lambda>l. l @ [newline]) ls"
  by (induction ls) (simp_all add: getlines_line)

lemma c_string_id: "CHR 0x00 \<notin> set s \<Longrightarrow> c_string s = s"
  unfolding c_string_def by (rule takeWhile_eq_all_conv [THEN iffD2]) blast

lemma int_of_long_id: "int_ok v \<Longrightarrow> int_of_long v = v"
  by (simp add: int_of_long_def int_ok_def signed_take_bit_int_eq_self)

section \<open>The configuration files\<close>

text \<open>What a line of \<^verbatim>\<open>Common.cfg\<close> says: a number under a name, or the name of the file.\<close>

datatype conf_entry = Num string int | File string

fun conf_text :: "conf_entry \<Rightarrow> string" where
  "conf_text (Num key v) = key @ CHR '' '' # show_int v"
| "conf_text (File f) = ''FileName'' @ CHR '' '' # f"

fun conf_ok :: "conf_entry \<Rightarrow> bool" where
  "conf_ok (Num key v) \<longleftrightarrow> word_ok key \<and> key \<noteq> ''FileName'' \<and> int_ok v \<and> length (conf_text (Num key v)) < 511"
| "conf_ok (File f) \<longleftrightarrow> word_ok f \<and> length (conf_text (File f)) < 511"

fun conf_put :: "string \<Rightarrow> conf_entry \<Rightarrow> string \<times> int list \<Rightarrow> string \<times> int list" where
  "conf_put peerid (Num key v) (f, vals) = (f, vals @ [v])"
| "conf_put peerid (File f) (_, vals) = (peerid @ ''/'' @ f @ [newline], vals)"

definition cfg_file :: "('e \<Rightarrow> string) \<Rightarrow> 'e list \<Rightarrow> string" where
  "cfg_file text es = concat (map (\<lambda>l. l @ [newline]) (map text es))"

lemma newline_plain: "newline \<noteq> CHR '' ''" "newline \<noteq> CHR 0x00" "\<not> c_isdigit newline"
  by (simp_all add: newline_def c_isdigit_def)

lemma conf_text_plain: "conf_ok e \<Longrightarrow> newline \<notin> set (conf_text e) \<and> CHR 0x00 \<notin> set (conf_text e) \<and> length (conf_text e) < 511"
  using show_int_word by (cases e) (auto simp: word_ok_def newline_def)

lemma conf_line_entry:
  assumes "conf_ok e"
  shows "conf_line peerid (conf_text e @ [newline]) st = Inr (conf_put peerid e st)"
proof -
  obtain f vals where st: "st = (f, vals)" by (cases st)
  have c: "c_string (conf_text e @ [newline]) = conf_text e @ [newline]"
    by (rule c_string_id) (use conf_text_plain [OF assms] newline_plain(2) in auto)
  have len: "\<not> 512 \<le> length (conf_text e @ [newline])" using conf_text_plain [OF assms] by simp
  show ?thesis
  proof (cases e)
    case (Num key v)
    then have k: "key \<noteq> []" "CHR '' '' \<notin> set key" "key \<noteq> ''FileName''" "int_ok v" using assms by (auto simp: word_ok_def)
    have n: "show_int v @ [newline] \<noteq> []" "CHR '' '' \<notin> set (show_int v @ [newline])"
      using show_int_word [of v] newline_plain(1) by (auto simp: word_ok_def)
    have v: "int_of_long (strtol (show_int v @ [newline])) = v"
      using k(4) strtol_show_int [of "[newline]" v] newline_plain(3) by (simp add: int_ok_def int_of_long_id)
    show ?thesis using len strtok_word(1) [OF k(1,2), of "show_int v @ [newline]"] strtok_word(2) [OF n] k(3) v
      unfolding conf_line_def strtok_in_def c by (simp add: st Num)
  next
    case (File g)
    then have n: "g @ [newline] \<noteq> []" "CHR '' '' \<notin> set (g @ [newline])"
      using assms newline_plain(1) by (auto simp: word_ok_def)
    show ?thesis using len strtok_word(1) [of "''FileName''" "g @ [newline]"] strtok_word(2) [OF n]
      unfolding conf_line_def strtok_in_def c by (simp add: st File)
  qed
qed

text \<open>A loop whose turns all succeed is a fold.\<close>

lemma rfold_fold: "(\<And>x s. x \<in> set xs \<Longrightarrow> f (h x) s = Inr (g x s)) \<Longrightarrow> rfold f (map h xs) s = Inr (fold g xs s)"
  by (induction xs arbitrary: s) simp_all

text \<open>A line of \<^verbatim>\<open>PeerInfo.cfg\<close>.\<close>

record peer_entry =
  pe_id :: int
  pe_host :: string
  pe_port :: string
  pe_hasfile :: bool

definition peer_text :: "peer_entry \<Rightarrow> string" where
  "peer_text e = show_int (pe_id e) @ CHR '' '' # pe_host e @ CHR '' '' # pe_port e @ CHR '' '' # show_int (of_bool (pe_hasfile e))"

definition peer_ok :: "peer_entry \<Rightarrow> bool" where
  "peer_ok e \<longleftrightarrow> int_ok (pe_id e) \<and> word_ok (pe_host e) \<and> word_ok (pe_port e)"

definition peer_put :: "int \<Rightarrow> peer_entry \<Rightarrow> int \<times> peers \<Rightarrow> int \<times> peers" where
  "peer_put pid e st = (case st of (ret, pr) \<Rightarrow>
     (if pe_id e = pid then int_of_long (strtol (pe_port e)) else ret,
      \<lparr>pi_ids = pi_ids pr @ [pe_id e], pi_hosts = pi_hosts pr @ [pe_host e], pi_ports = pi_ports pr @ [pe_port e],
       pi_hasfile = pi_hasfile pr @ [pe_hasfile e]\<rparr>))"

lemma peer_line_entry:
  assumes "peer_ok e"
  shows "peer_line pid (peer_text e @ [newline]) st = Inr (peer_put pid e st)"
proof -
  obtain ret pr where st: "st = (ret, pr)" by (cases st)
  let ?h = "show_int (of_bool (pe_hasfile e)) @ [newline]"
  have ok: "word_ok (pe_host e)" "word_ok (pe_port e)" "int_ok (pe_id e)" using assms by (simp_all add: peer_ok_def)
  have c: "c_string (peer_text e @ [newline]) = peer_text e @ [newline]"
    by (rule c_string_id) (use ok show_int_word newline_plain(2) in \<open>auto simp: peer_text_def word_ok_def\<close>)
  have w: "w \<noteq> []" "CHR '' '' \<notin> set w" if "word_ok w" for w using that by (auto simp: word_ok_def)
  have h: "?h \<noteq> []" "CHR '' '' \<notin> set ?h" using w(2) [OF show_int_word] newline_plain(1) by auto
  have id: "int_of_long (strtol (show_int (pe_id e))) = pe_id e"
    using ok(3) strtol_show_int [of "[]" "pe_id e"] by (simp add: int_ok_def int_of_long_id)
  have has: "strtol ?h \<noteq> 0 \<longleftrightarrow> pe_hasfile e"
    using strtol_show_int [of "[newline]" "of_bool (pe_hasfile e)"] newline_plain(3) by simp
  note t = strtok_word(1) [OF w [OF show_int_word [of "pe_id e"]]] strtok_word(1) [OF w [OF ok(1)]]
    strtok_word(1) [OF w [OF ok(2)]] strtok_word(2) [OF h]
  show ?thesis unfolding peer_line_def c unfolding peer_text_def st using t id has by (simp add: peer_put_def)
qed

lemma getlines_cfg:
  assumes "\<forall>e \<in> set es. newline \<notin> set (text e)"
  shows "getlines [] (cfg_file text es) = map (\<lambda>e. text e @ [newline]) es"
  using getlines_concat [of "map text es"] assms by (simp add: cfg_file_def)

lemma cfg_names: "c_string ''./Common.cfg'' = ''./Common.cfg''" "c_string ''PeerInfo.cfg'' = ''PeerInfo.cfg''"
  by (rule c_string_id; simp)+

text \<open>
  C31: a \<^verbatim>\<open>Common.cfg\<close> that is written out from named numbers and a file name is read back: the numbers in
  their order, and the last file name behind the peer id and a slash, but with the newline of its line still
  at its end.
\<close>

theorem conf_roundtrip:
  assumes "\<forall>e \<in> set es. conf_ok e" and "fs ''./Common.cfg'' = Some d" and "file_text d = cfg_file conf_text es"
  shows "read_conf_file fs lg ''./Common.cfg'' peerid = Inr (fold (conf_put peerid) es ([], []))"
proof -
  have "getlines [] (cfg_file conf_text es) = map (\<lambda>e. conf_text e @ [newline]) es"
    by (rule getlines_cfg) (use assms(1) conf_text_plain in blast)
  then show ?thesis using assms(2,3) rfold_fold [of es "conf_line peerid" "\<lambda>e. conf_text e @ [newline]" "conf_put peerid"]
      conf_line_entry assms(1) by (simp add: read_conf_file_def cfg_names)
qed

definition text_bytes :: "string \<Rightarrow> u8 list" where
  "text_bytes s = map (\<lambda>c. of_nat (of_char c)) s"

lemma file_text_bytes: "file_text (text_bytes s) = s"
proof -
  have "char_of (unat (of_nat (of_char c) :: u8)) = c" for c :: char
    using nat_of_char_less_256 [of c] by (simp add: unat_of_nat)
  then show ?thesis by (simp add: file_text_def text_bytes_def comp_def map_idI)
qed

definition demo_fs :: filesys where
  "demo_fs = [''./Common.cfg'' \<mapsto> text_bytes (cfg_file conf_text [Num ''PieceSize'' 4, File ''tree.jpg'']),
     ''PeerInfo.cfg'' \<mapsto> text_bytes (cfg_file peer_text [\<lparr>pe_id = 1001, pe_host = ''lin'', pe_port = ''60'', pe_hasfile = True\<rparr>])]"

lemma conf_roundtrip_witness:
  "read_conf_file demo_fs demo_log ''./Common.cfg'' ''1001'' = Inr (''1001/tree.jpg'' @ [newline], [4])"
  using conf_roundtrip [of "[Num ''PieceSize'' 4, File ''tree.jpg'']" demo_fs _ demo_log "''1001''"]
  by (simp add: demo_fs_def file_text_bytes word_ok_def newline_def int_ok_def show_int_def show_nat.simps)

text \<open>
  A \<^verbatim>\<open>PeerInfo.cfg\<close> that is written out from peers is read back: their ids, hosts, ports and whether they
  have the file, and the port of the last entry with the node's own id.
\<close>

theorem peers_roundtrip:
  assumes "\<forall>e \<in> set es. peer_ok e" and "fs ''PeerInfo.cfg'' = Some d" and "file_text d = cfg_file peer_text es"
  shows "\<exists>ret. read_peer_info fs lg ''PeerInfo.cfg'' pid =
      Inr (ret, \<lparr>pi_ids = map pe_id es, pi_hosts = map pe_host es, pi_ports = map pe_port es, pi_hasfile = map pe_hasfile es\<rparr>)
    \<and> (\<forall>es1 e es2. es = es1 @ e # es2 \<longrightarrow> pe_id e = pid \<longrightarrow> pid \<notin> pe_id ` set es2 \<longrightarrow> ret = int_of_long (strtol (pe_port e)))"
proof -
  let ?p0 = "\<lparr>pi_ids = [], pi_hosts = [], pi_ports = [], pi_hasfile = []\<rparr>"
  have "getlines [] (cfg_file peer_text es) = map (\<lambda>e. peer_text e @ [newline]) es"
  proof (rule getlines_cfg, rule ballI)
    fix e assume "e \<in> set es"
    then show "newline \<notin> set (peer_text e)" using assms(1) show_int_word
      by (auto simp: peer_text_def peer_ok_def word_ok_def newline_def)
  qed
  then have run: "read_peer_info fs lg ''PeerInfo.cfg'' pid = Inr (fold (peer_put pid) es (0, ?p0))"
    using assms(2,3) rfold_fold [of es "peer_line pid" "\<lambda>e. peer_text e @ [newline]" "peer_put pid"]
      peer_line_entry assms(1) by (simp add: read_peer_info_def cfg_names)
  have snd: "snd (fold (peer_put pid) xs (r, pr)) =
      \<lparr>pi_ids = pi_ids pr @ map pe_id xs, pi_hosts = pi_hosts pr @ map pe_host xs, pi_ports = pi_ports pr @ map pe_port xs,
       pi_hasfile = pi_hasfile pr @ map pe_hasfile xs\<rparr>" for xs r and pr :: peers
    by (induction xs arbitrary: r pr) (simp_all add: peer_put_def)
  have other: "pid \<notin> pe_id ` set xs \<Longrightarrow> fst (fold (peer_put pid) xs st) = fst st" for xs and st :: "int \<times> peers"
    by (induction xs arbitrary: st) (auto simp: peer_put_def split: prod.split)
  have "fst (fold (peer_put pid) (es1 @ e # es2) (0, ?p0)) = int_of_long (strtol (pe_port e))"
    if "pe_id e = pid" "pid \<notin> pe_id ` set es2" for es1 e es2
    using that(1) other [OF that(2)] by (simp add: peer_put_def split: prod.split)
  moreover have "fold (peer_put pid) es (0, ?p0) = (fst (fold (peer_put pid) es (0, ?p0)), snd (fold (peer_put pid) es (0, ?p0)))"
    by simp
  ultimately show ?thesis using run snd [of es 0 ?p0]
    by (intro exI [of _ "fst (fold (peer_put pid) es (0, ?p0))"] conjI allI impI) (simp_all del: prod.collapse)
qed

lemma peers_roundtrip_witness:
  "\<exists>ret. read_peer_info demo_fs demo_log ''PeerInfo.cfg'' 1001 =
      Inr (ret, \<lparr>pi_ids = [1001], pi_hosts = [''lin''], pi_ports = [''60''], pi_hasfile = [True]\<rparr>)"
  using peers_roundtrip [of "[\<lparr>pe_id = 1001, pe_host = ''lin'', pe_port = ''60'', pe_hasfile = True\<rparr>]" demo_fs _ demo_log 1001]
  by (auto simp: demo_fs_def file_text_bytes peer_ok_def word_ok_def newline_def int_ok_def)

end
