(* ===== verification/JsonLexer.thy ===== *)
theory JsonLexer
  imports Json
begin

text \<open>
  The scanner of JSON text (class \<^verbatim>\<open>lexer\<close> of \<^verbatim>\<open>include/json/json.hpp\<close>) over an input of bytes: whitespace, comments,
  literals, strings with their escapes and the UTF-8 check, numbers. The wording of error messages is left out.
\<close>

section \<open>State\<close>

datatype token_type =
    uninitialized | literal_true | literal_false | literal_null | value_string | value_unsigned | value_integer
  | value_float | begin_array | begin_object | end_array | end_object | name_separator | value_separator
  | parse_error | end_of_input | literal_or_value

text \<open>
  The input still to be read, \<^verbatim>\<open>current\<close> (none at the end of the input), \<^verbatim>\<open>next_unget\<close>, the three counters of
  \<^verbatim>\<open>position\<close>, \<^verbatim>\<open>token_string\<close>, \<^verbatim>\<open>token_buffer\<close>, the three values and the two fields that do not change.
\<close>

record lexer =
  lx_in :: bytes
  lx_current :: "u8 option"
  lx_next_unget :: bool
  lx_total :: nat
  lx_line :: nat
  lx_lines :: nat
  lx_token :: bytes
  lx_buffer :: bytes
  lx_integer :: u64
  lx_unsigned :: u64
  lx_float :: u64
  lx_ignore_comments :: bool
  lx_decimal_point :: u8

definition lexer_ctor :: "bool \<Rightarrow> u8 \<Rightarrow> bytes \<Rightarrow> lexer" where
  "lexer_ctor ignore_comments point i =
     \<lparr>lx_in = i, lx_current = None, lx_next_unget = False, lx_total = 0, lx_line = 0, lx_lines = 0, lx_token = [],
      lx_buffer = [], lx_integer = 0, lx_unsigned = 0, lx_float = 0, lx_ignore_comments = ignore_comments,
      lx_decimal_point = point\<rparr>"

section \<open>Input\<close>

text \<open>\<^verbatim>\<open>to_char_type\<close> of the character read; that of the end of the input is -1.\<close>

definition char_of_current :: "u8 option \<Rightarrow> u8" where
  "char_of_current c = (case c of Some b \<Rightarrow> b | None \<Rightarrow> 0xFF)"

definition lex_reset :: "lexer \<Rightarrow> lexer" where
  "lex_reset lx = lx\<lparr>lx_buffer := [], lx_token := [char_of_current (lx_current lx)]\<rparr>"

definition lex_read :: "lexer \<Rightarrow> lexer" where
  "lex_read lx = (if lx_next_unget lx then lx\<lparr>lx_next_unget := False\<rparr>
     else case lx_in lx of [] \<Rightarrow> lx\<lparr>lx_current := None\<rparr> | b # i \<Rightarrow> lx\<lparr>lx_in := i, lx_current := Some b\<rparr>)"

definition lex_get :: "lexer \<Rightarrow> lexer" where
  "lex_get lx =
     (let lx = lex_read (lx\<lparr>lx_total := lx_total lx + 1, lx_line := lx_line lx + 1\<rparr>);
          lx = (case lx_current lx of Some b \<Rightarrow> lx\<lparr>lx_token := lx_token lx @ [b]\<rparr> | None \<Rightarrow> lx)
      in if lx_current lx = Some 0x0A then lx\<lparr>lx_lines := lx_lines lx + 1, lx_line := 0\<rparr> else lx)"

definition lex_unget :: "lexer \<Rightarrow> lexer res" where
  "lex_unget lx =
     (let lx = lx\<lparr>lx_next_unget := True, lx_total := lx_total lx - 1\<rparr>;
          lx = (if lx_line lx = 0 then lx\<lparr>lx_lines := lx_lines lx - 1\<rparr> else lx\<lparr>lx_line := lx_line lx - 1\<rparr>)
      in if lx_current lx = None then Inr lx
         else if lx_token lx = [] then Inl AssertFail
         else Inr (lx\<lparr>lx_token := butlast (lx_token lx)\<rparr>))"

definition lex_add :: "u8 \<Rightarrow> lexer \<Rightarrow> lexer" where
  "lex_add c lx = lx\<lparr>lx_buffer := lx_buffer lx @ [c]\<rparr>"

text \<open>What is still to come: the input, and the current character if it was put back.\<close>

definition lex_rest :: "lexer \<Rightarrow> bytes" where
  "lex_rest lx = (if lx_next_unget lx then (case lx_current lx of Some b \<Rightarrow> b # lx_in lx | None \<Rightarrow> lx_in lx) else lx_in lx)"

lemma lex_get_in:
  "lx_current (lex_get lx) = (if lx_next_unget lx then lx_current lx else case lx_in lx of [] \<Rightarrow> None | b # i \<Rightarrow> Some b)"
  "lx_in (lex_get lx) = (if lx_next_unget lx then lx_in lx else tl (lx_in lx))"
  by (cases "lx_next_unget lx"; cases "lx_in lx"; cases "lx_current lx"; simp add: lex_get_def lex_read_def Let_def)+

lemma lex_get_token: "lx_current (lex_get lx) = Some b \<Longrightarrow> lx_token (lex_get lx) \<noteq> []"
  by (auto simp: lex_get_def Let_def split: option.splits if_splits)

lemma lex_get_sel [simp]:
  "lx_next_unget (lex_get lx) = False" "lx_buffer (lex_get lx) = lx_buffer lx"
  "lx_ignore_comments (lex_get lx) = lx_ignore_comments lx" "lx_decimal_point (lex_get lx) = lx_decimal_point lx"
  "lx_total (lex_get lx) = lx_total lx + 1"
  by (cases "lx_next_unget lx"; cases "lx_in lx"; cases "lx_current lx"; simp add: lex_get_def lex_read_def Let_def)+

lemma lex_get_shrinks:
  "length (lex_rest (lex_get lx)) \<le> length (lex_rest lx)"
  "lx_current (lex_get lx) \<noteq> None \<Longrightarrow> length (lex_rest (lex_get lx)) < length (lex_rest lx)"
  by (cases "lx_in lx"; cases "lx_current lx"; cases "lx_next_unget lx"; simp add: lex_rest_def lex_get_in)+

lemma lex_rest_ops [simp]:
  "lex_rest (lex_add c lx) = lex_rest lx" "lex_rest (lex_reset lx) = lex_rest lx"
  by (simp_all add: lex_add_def lex_reset_def lex_rest_def split: option.split)

lemma lex_rest_values [simp]:
  "lex_rest (lx\<lparr>lx_float := x\<rparr>) = lex_rest lx" "lex_rest (lx\<lparr>lx_unsigned := x\<rparr>) = lex_rest lx"
  "lex_rest (lx\<lparr>lx_integer := x\<rparr>) = lex_rest lx"
  by (simp_all add: lex_rest_def split: option.split)

lemma lex_unget_rest:
  "lex_unget lx = Inr lx' \<Longrightarrow> lex_rest lx' = (case lx_current lx of Some b \<Rightarrow> b # lx_in lx | None \<Rightarrow> lx_in lx)"
  by (auto simp: lex_unget_def lex_rest_def Let_def split: if_splits option.split)

section \<open>Strings\<close>

fun codepoint_loop :: "nat list \<Rightarrow> nat \<Rightarrow> lexer \<Rightarrow> nat option \<times> lexer" where
  "codepoint_loop [] codepoint lx = (Some codepoint, lx)"
| "codepoint_loop (factor # factors) codepoint lx =
     (let lx = lex_get lx in case lx_current lx of
        None \<Rightarrow> (None, lx)
      | Some c \<Rightarrow>
          if 0x30 \<le> c \<and> c \<le> 0x39 then codepoint_loop factors (codepoint + push_bit factor (unat c - 0x30)) lx
          else if 0x41 \<le> c \<and> c \<le> 0x46 then codepoint_loop factors (codepoint + push_bit factor (unat c - 0x37)) lx
          else if 0x61 \<le> c \<and> c \<le> 0x66 then codepoint_loop factors (codepoint + push_bit factor (unat c - 0x57)) lx
          else (None, lx))"

text \<open>None is the result -1.\<close>

definition get_codepoint :: "lexer \<Rightarrow> (nat option \<times> lexer) res" where
  "get_codepoint lx =
     (if lx_current lx \<noteq> Some 0x75 then Inl AssertFail
      else case codepoint_loop [12, 8, 4, 0] 0 lx of
          (Some codepoint, lx) \<Rightarrow> if codepoint \<le> 0xFFFF then Inr (Some codepoint, lx) else Inl AssertFail
        | (None, lx) \<Rightarrow> Inr (None, lx))"

fun next_bytes_in :: "(u8 \<times> u8) list \<Rightarrow> lexer \<Rightarrow> bool \<times> lexer" where
  "next_bytes_in [] lx = (True, lx)"
| "next_bytes_in ((lo, hi) # ranges) lx =
     (let lx = lex_get lx in case lx_current lx of
        None \<Rightarrow> (False, lx)
      | Some c \<Rightarrow> if lo \<le> c \<and> c \<le> hi then next_bytes_in ranges (lex_add c lx) else (False, lx))"

definition next_byte_in_range :: "(u8 \<times> u8) list \<Rightarrow> lexer \<Rightarrow> bool \<times> lexer" where
  "next_byte_in_range ranges lx = next_bytes_in ranges (lex_add (char_of_current (lx_current lx)) lx)"

text \<open>The bytes of a code point.\<close>

definition utf8_bytes :: "nat \<Rightarrow> bytes" where
  "utf8_bytes cp =
     (let c = of_nat cp :: u32 in
      if cp < 0x80 then [ucast c]
      else if cp \<le> 0x7FF then [ucast (0xC0 OR drop_bit 6 c), ucast (0x80 OR (c AND 0x3F))]
      else if cp \<le> 0xFFFF then [ucast (0xE0 OR drop_bit 12 c), ucast (0x80 OR (drop_bit 6 c AND 0x3F)), ucast (0x80 OR (c AND 0x3F))]
      else [ucast (0xF0 OR drop_bit 18 c), ucast (0x80 OR (drop_bit 12 c AND 0x3F)), ucast (0x80 OR (drop_bit 6 c AND 0x3F)),
            ucast (0x80 OR (c AND 0x3F))])"

definition add_codepoint :: "nat \<Rightarrow> lexer \<Rightarrow> (bool \<times> lexer) res" where
  "add_codepoint cp lx = (if 0x10FFFF < cp then Inl AssertFail else Inr (True, fold lex_add (utf8_bytes cp) lx))"

text \<open>The escape \<^verbatim>\<open>\u\<close>, with a surrogate pair when the first number is a high surrogate; false is an error.\<close>

definition scan_unicode :: "lexer \<Rightarrow> (bool \<times> lexer) res" where
  "scan_unicode lx =
     rbind (get_codepoint lx) (\<lambda>(codepoint1, lx). case codepoint1 of
        None \<Rightarrow> Inr (False, lx)
      | Some cp1 \<Rightarrow>
          if 0xD800 \<le> cp1 \<and> cp1 \<le> 0xDBFF
          then let lx = lex_get lx
               in if lx_current lx \<noteq> Some 0x5C then Inr (False, lx)
                  else let lx = lex_get lx
                       in if lx_current lx \<noteq> Some 0x75 then Inr (False, lx)
                          else rbind (get_codepoint lx) (\<lambda>(codepoint2, lx). case codepoint2 of
                              None \<Rightarrow> Inr (False, lx)
                            | Some cp2 \<Rightarrow>
                                if 0xDC00 \<le> cp2 \<and> cp2 \<le> 0xDFFF
                                then add_codepoint (unat (push_bit 10 (of_nat cp1) + of_nat cp2 - 0x35FDC00 :: u32)) lx
                                else Inr (False, lx))
          else if 0xDC00 \<le> cp1 \<and> cp1 \<le> 0xDFFF then Inr (False, lx)
          else add_codepoint cp1 lx)"

definition scan_escape :: "lexer \<Rightarrow> (bool \<times> lexer) res" where
  "scan_escape lx =
     (let lx = lex_get lx in case lx_current lx of
        None \<Rightarrow> Inr (False, lx)
      | Some c \<Rightarrow>
          if c = 0x22 then Inr (True, lex_add 0x22 lx)
          else if c = 0x5C then Inr (True, lex_add 0x5C lx)
          else if c = 0x2F then Inr (True, lex_add 0x2F lx)
          else if c = 0x62 then Inr (True, lex_add 0x08 lx)
          else if c = 0x66 then Inr (True, lex_add 0x0C lx)
          else if c = 0x6E then Inr (True, lex_add 0x0A lx)
          else if c = 0x72 then Inr (True, lex_add 0x0D lx)
          else if c = 0x74 then Inr (True, lex_add 0x09 lx)
          else if c = 0x75 then scan_unicode lx
          else Inr (False, lx))"

text \<open>One turn of the loop of \<^verbatim>\<open>scan_string\<close>: a token ends it.\<close>

definition go_on :: "bool \<times> lexer \<Rightarrow> token_type option \<times> lexer" where
  "go_on r = (case r of (ok, lx) \<Rightarrow> (if ok then None else Some parse_error, lx))"

definition control_char :: "u8 \<Rightarrow> bool" where
  "control_char c \<longleftrightarrow> c \<le> 0x1F"

definition plain_char :: "u8 \<Rightarrow> bool" where
  "plain_char c \<longleftrightarrow> 0x20 \<le> c \<and> c \<le> 0x7F \<and> c \<noteq> 0x22 \<and> c \<noteq> 0x5C"

text \<open>The sequences of bytes that begin with \<open>c\<close>.\<close>

definition string_multibyte :: "u8 \<Rightarrow> lexer \<Rightarrow> bool \<times> lexer" where
  "string_multibyte c lx =
     (if 0xC2 \<le> c \<and> c \<le> 0xDF then next_byte_in_range [(0x80, 0xBF)] lx
      else if c = 0xE0 then next_byte_in_range [(0xA0, 0xBF), (0x80, 0xBF)] lx
      else if 0xE1 \<le> c \<and> c \<le> 0xEC \<or> c = 0xEE \<or> c = 0xEF then next_byte_in_range [(0x80, 0xBF), (0x80, 0xBF)] lx
      else if c = 0xED then next_byte_in_range [(0x80, 0x9F), (0x80, 0xBF)] lx
      else if c = 0xF0 then next_byte_in_range [(0x90, 0xBF), (0x80, 0xBF), (0x80, 0xBF)] lx
      else if 0xF1 \<le> c \<and> c \<le> 0xF3 then next_byte_in_range [(0x80, 0xBF), (0x80, 0xBF), (0x80, 0xBF)] lx
      else if c = 0xF4 then next_byte_in_range [(0x80, 0x8F), (0x80, 0xBF), (0x80, 0xBF)] lx
      else (False, lx))"

definition string_step :: "lexer \<Rightarrow> (token_type option \<times> lexer) res" where
  "string_step lx =
     (let lx = lex_get lx in case lx_current lx of
        None \<Rightarrow> Inr (Some parse_error, lx)
      | Some c \<Rightarrow>
          if c = 0x22 then Inr (Some value_string, lx)
          else if c = 0x5C then rbind (scan_escape lx) (\<lambda>r. Inr (go_on r))
          else if control_char c then Inr (Some parse_error, lx)
          else if plain_char c then Inr (None, lex_add c lx)
          else Inr (go_on (string_multibyte c lx)))"

text \<open>No part of it moves backwards.\<close>

definition ahead :: "lexer \<Rightarrow> lexer \<Rightarrow> bool" where
  "ahead lx lx' \<longleftrightarrow> length (lex_rest lx') \<le> length (lex_rest lx)"

named_theorems ahead_intros

lemma ahead_refl [ahead_intros]: "ahead lx lx"
  by (simp add: ahead_def)

lemma ahead_trans [trans]: "ahead lx lx' \<Longrightarrow> ahead lx' lx'' \<Longrightarrow> ahead lx lx''"
  by (simp add: ahead_def)

lemma ahead_get [ahead_intros]: "ahead lx lx' \<Longrightarrow> ahead lx (lex_get lx')"
  using lex_get_shrinks(1) [of lx'] by (simp add: ahead_def)

lemma ahead_get_self [simp]: "ahead lx (lex_get lx)"
  by (simp add: ahead_intros)

lemma ahead_ops [simp]: "ahead lx (lex_add c lx') = ahead lx lx'" "ahead lx (lex_reset lx') = ahead lx lx'"
  by (simp_all add: ahead_def)

lemma ahead_codepoint_loop: "codepoint_loop fs cp lx = (r, lx') \<Longrightarrow> ahead lx lx'"
proof (induction fs cp lx rule: codepoint_loop.induct)
  case (2 f fs cp lx)
  show ?case
  proof (cases "lx_current (lex_get lx)")
    case None
    then show ?thesis using "2.prems" by (auto intro: ahead_intros)
  next
    case (Some c)
    then have "ahead (lex_get lx) lx'" using 2 by (auto simp: Let_def split: if_splits intro: ahead_intros)
    then show ?thesis by (rule ahead_trans [OF ahead_get [OF ahead_refl]])
  qed
qed (auto intro: ahead_intros)

lemma ahead_get_codepoint: "get_codepoint lx = Inr (r, lx') \<Longrightarrow> ahead lx lx'"
  using ahead_codepoint_loop by (auto simp: get_codepoint_def simp del: codepoint_loop.simps split: if_splits prod.splits option.splits)

lemma ahead_next_bytes_in: "next_bytes_in rs lx = (r, lx') \<Longrightarrow> ahead lx lx'"
proof (induction rs lx rule: next_bytes_in.induct)
  case (2 lo hi rs lx)
  show ?case
  proof (cases "lx_current (lex_get lx)")
    case None
    then show ?thesis using "2.prems" by (auto intro: ahead_intros)
  next
    case (Some c)
    show ?thesis
    proof (cases "lo \<le> c \<and> c \<le> hi")
      case True
      then have "ahead (lex_add c (lex_get lx)) lx'" using 2 Some by (auto simp: Let_def)
      then show ?thesis by (rule ahead_trans [rotated]) (simp add: ahead_intros)
    qed (use Some "2.prems" in \<open>auto simp: Let_def intro: ahead_intros\<close>)
  qed
qed (auto intro: ahead_intros)

lemma ahead_next_byte_in_range: "next_byte_in_range rs lx = (r, lx') \<Longrightarrow> ahead lx lx'"
  unfolding next_byte_in_range_def by (drule ahead_next_bytes_in) (auto simp: ahead_def)

lemma ahead_fold_add [simp]: "ahead lx (fold lex_add bs lx') = ahead lx lx'"
  by (induction bs arbitrary: lx') simp_all

lemma ahead_add_codepoint: "add_codepoint cp lx = Inr (r, lx') \<Longrightarrow> ahead lx lx'"
  by (auto simp: add_codepoint_def ahead_intros split: if_splits)

lemma ahead_scan_unicode:
  assumes "scan_unicode lx = Inr (r, lx')"
  shows "ahead lx lx'"
proof -
  obtain c1 lx1 where 1: "get_codepoint lx = Inr (c1, lx1)" using assms by (auto simp: scan_unicode_def rbind_Inr_iff)
  have "ahead lx1 lx'"
    using assms unfolding scan_unicode_def 1 rbind_simps
    by (auto simp: Let_def rbind_Inr_iff dest!: ahead_add_codepoint ahead_get_codepoint
        intro: ahead_intros ahead_trans [OF ahead_get [OF ahead_get [OF ahead_refl]]] ahead_trans
        split: option.splits if_splits)
  then show ?thesis using ahead_get_codepoint [OF 1] ahead_trans by blast
qed

lemma ahead_scan_escape: "scan_escape lx = Inr (r, lx') \<Longrightarrow> ahead lx lx'"
  by (auto simp: scan_escape_def Let_def ahead_intros dest!: ahead_scan_unicode
      intro: ahead_trans [OF ahead_get [OF ahead_refl]] split: option.splits if_splits)

lemma ahead_string_multibyte: "string_multibyte c lx = (r, lx') \<Longrightarrow> ahead lx lx'"
  by (auto simp: string_multibyte_def ahead_refl dest: ahead_next_byte_in_range split: if_splits)

lemma string_step_shrinks:
  assumes "string_step lx = Inr (None, lx')"
  shows "length (lex_rest lx') < length (lex_rest lx)"
proof -
  have "ahead (lex_get lx) lx' \<and> lx_current (lex_get lx) \<noteq> None"
    using assms
    by (auto simp: string_step_def Let_def go_on_def rbind_Inr_iff ahead_intros dest!: ahead_scan_escape
        dest: ahead_string_multibyte split: option.splits if_splits prod.splits)
  then show ?thesis using lex_get_shrinks(2) [of lx] by (simp add: ahead_def)
qed

function string_loop :: "lexer \<Rightarrow> (token_type \<times> lexer) res" where
  "string_loop lx = rbind (string_step lx) (\<lambda>(t, lx'). case t of None \<Rightarrow> string_loop lx' | Some t \<Rightarrow> Inr (t, lx'))"
  by pat_completeness auto

termination string_loop
  by (relation "measure (\<lambda>lx. length (lex_rest lx))") (auto dest: string_step_shrinks)

declare string_loop.simps [simp del]

definition scan_string :: "lexer \<Rightarrow> (token_type \<times> lexer) res" where
  "scan_string lx = (let lx = lex_reset lx in if lx_current lx \<noteq> Some 0x22 then Inl AssertFail else string_loop lx)"

text \<open>Reading a character and putting it back.\<close>

lemma ahead_put_back: "lex_unget (lex_get lx) = Inr lx' \<Longrightarrow> ahead lx lx'"
  by (drule lex_unget_rest; cases "lx_in lx"; cases "lx_current lx"; cases "lx_next_unget lx")
    (simp_all add: ahead_def lex_rest_def lex_get_in)

section \<open>Numbers\<close>

text \<open>
  The conversions of the C library, for the texts the scanner hands to them: the value, the length that was
  converted, and whether the value is out of range. \<^verbatim>\<open>strtod\<close> rounds to the nearest double, ties to even.
\<close>

definition is_digit :: "u8 \<Rightarrow> bool" where
  "is_digit b \<longleftrightarrow> 0x30 \<le> b \<and> b \<le> 0x39"

definition digits_val :: "bytes \<Rightarrow> nat" where
  "digits_val ds = foldl (\<lambda>n b. 10 * n + (unat b - 0x30)) 0 ds"

definition strtoull :: "bytes \<Rightarrow> u64 \<times> nat \<times> bool" where
  "strtoull s =
     (let ds = takeWhile is_digit s; n = digits_val ds
      in if n < 2 ^ 64 then (of_nat n, length ds, False) else (- 1, length ds, True))"

definition strtoll :: "bytes \<Rightarrow> u64 \<times> nat \<times> bool" where
  "strtoll s =
     (let neg = (take 1 s = [0x2D]); s = (if neg then drop 1 s else s); ds = takeWhile is_digit s;
          v = (if neg then - int (digits_val ds) else int (digits_val ds)); n = length ds + of_bool neg
      in if v < - (2 ^ 63) then (of_int (- (2 ^ 63)), n, True)
         else if 2 ^ 63 \<le> v then (of_int (2 ^ 63 - 1), n, True)
         else (of_int v, n, False))"

fun floor_log2 :: "nat \<Rightarrow> nat" where
  "floor_log2 n = (if n < 2 then 0 else Suc (floor_log2 (n div 2)))"

declare floor_log2.simps [simp del]

definition round_half_even :: "nat \<Rightarrow> nat \<Rightarrow> nat" where
  "round_half_even n d = (let q = n div d; r = n mod d in if d < 2 * r \<or> d = 2 * r \<and> odd q then q + 1 else q)"

text \<open>The bits of the double nearest to \<open>n / d\<close>; too large a number becomes infinite.\<close>

definition round_double :: "nat \<Rightarrow> nat \<Rightarrow> nat" where
  "round_double n d =
     (let a = int (floor_log2 n) - int (floor_log2 d);
          a = (if d * 2 ^ nat a \<le> n * 2 ^ nat (- a) then a else a - 1);
          e = max (a - 52) (-1074);
          q = round_half_even (n * 2 ^ nat (- e)) (d * 2 ^ nat e)
      in min (nat (e + 1074) * 2 ^ 52 + q) (2047 * 2 ^ 52))"

definition decimal_double :: "bool \<Rightarrow> nat \<Rightarrow> int \<Rightarrow> u64" where
  "decimal_double neg m e =
     of_nat ((if neg then 2 ^ 63 else 0) + (if m = 0 then 0 else round_double (m * 10 ^ nat e) (10 ^ nat (- e))))"

definition strtod_exponent :: "bytes \<Rightarrow> int \<times> nat" where
  "strtod_exponent s = (case s of
      c # t \<Rightarrow>
        if c = 0x65 \<or> c = 0x45
        then let signed = (take 1 t = [0x2D] \<or> take 1 t = [0x2B]); ds = takeWhile is_digit (if signed then drop 1 t else t);
                 v = int (digits_val ds)
             in if ds = [] then (0, 0) else (if take 1 t = [0x2D] then - v else v, 1 + of_bool signed + length ds)
        else (0, 0)
    | [] \<Rightarrow> (0, 0))"

definition strtod :: "u8 \<Rightarrow> bytes \<Rightarrow> u64 \<times> nat" where
  "strtod point s =
     (let neg = (take 1 s = [0x2D]); s1 = (if neg then drop 1 s else s); ds = takeWhile is_digit s1;
          s2 = drop (length ds) s1; dot = (take 1 s2 = [point]); fs = (if dot then takeWhile is_digit (drop 1 s2) else []);
          s3 = (if dot then drop (1 + length fs) s2 else s2); (e, n) = strtod_exponent s3
      in if ds @ fs = [] then (0, 0)
         else (decimal_double neg (digits_val (ds @ fs)) (e - int (length fs)),
               of_bool neg + length ds + of_bool dot + length fs + n))"

text \<open>The labels of \<^verbatim>\<open>scan_number\<close>, and where the character read there leads; none is an error.\<close>

datatype num_state = num_minus | num_zero | num_any1 | num_decimal1 | num_decimal2 | num_exponent | num_sign | num_any2 | num_done

definition digit_at :: "u8 option \<Rightarrow> bool" where
  "digit_at current = (case current of None \<Rightarrow> False | Some c \<Rightarrow> is_digit c)"

definition num_goto_mantissa :: "num_state \<Rightarrow> u8 option \<Rightarrow> num_state option" where
  "num_goto_mantissa st current =
     (let digit = digit_at current; point = (current = Some 0x2E); expo = (current = Some 0x65 \<or> current = Some 0x45)
      in case st of
           num_minus \<Rightarrow> if current = Some 0x30 then Some num_zero else if digit then Some num_any1 else None
         | num_zero \<Rightarrow> if point then Some num_decimal1 else if expo then Some num_exponent else Some num_done
         | num_any1 \<Rightarrow> if digit then Some num_any1 else if point then Some num_decimal1 else if expo then Some num_exponent
                       else Some num_done
         | num_decimal1 \<Rightarrow> if digit then Some num_decimal2 else None
         | num_decimal2 \<Rightarrow> if digit then Some num_decimal2 else if expo then Some num_exponent else Some num_done
         | _ \<Rightarrow> None)"

definition num_goto_exponent :: "num_state \<Rightarrow> u8 option \<Rightarrow> num_state option" where
  "num_goto_exponent st current =
     (case st of
        num_exponent \<Rightarrow> if current = Some 0x2B \<or> current = Some 0x2D then Some num_sign
                        else if digit_at current then Some num_any2 else None
      | num_sign \<Rightarrow> if digit_at current then Some num_any2 else None
      | num_any2 \<Rightarrow> if digit_at current then Some num_any2 else Some num_done
      | _ \<Rightarrow> None)"

definition num_goto :: "num_state \<Rightarrow> u8 option \<Rightarrow> num_state option" where
  "num_goto st current =
     (if st \<in> {num_exponent, num_sign, num_any2} then num_goto_exponent st current else num_goto_mantissa st current)"

definition scan_float :: "lexer \<Rightarrow> (token_type \<times> lexer) res" where
  "scan_float lx =
     (let (x, n) = strtod (lx_decimal_point lx) (lx_buffer lx)
      in if n \<noteq> length (lx_buffer lx) then Inl AssertFail else Inr (value_float, lx\<lparr>lx_float := x\<rparr>))"

definition scan_number_done :: "token_type \<Rightarrow> lexer \<Rightarrow> (token_type \<times> lexer) res" where
  "scan_number_done number_type lx =
     rbind (lex_unget lx) (\<lambda>lx.
     if number_type = value_unsigned
     then let (x, n, erange) = strtoull (lx_buffer lx)
          in if n \<noteq> length (lx_buffer lx) then Inl AssertFail
             else if erange then scan_float lx else Inr (value_unsigned, lx\<lparr>lx_unsigned := x\<rparr>)
     else if number_type = value_integer
     then let (x, n, erange) = strtoll (lx_buffer lx)
          in if n \<noteq> length (lx_buffer lx) then Inl AssertFail
             else if erange then scan_float lx else Inr (value_integer, lx\<lparr>lx_integer := x\<rparr>)
     else scan_float lx)"

definition num_type :: "num_state \<Rightarrow> token_type \<Rightarrow> token_type" where
  "num_type st number_type = (case st of num_minus \<Rightarrow> value_integer | num_decimal1 \<Rightarrow> value_float | num_exponent \<Rightarrow> value_float
     | _ \<Rightarrow> number_type)"

lemma num_goto_current: "num_goto st current = Some st' \<Longrightarrow> st' \<noteq> num_done \<Longrightarrow> current \<noteq> None"
  by (cases st; cases current) (auto simp: num_goto_def num_goto_mantissa_def num_goto_exponent_def digit_at_def Let_def split: if_splits)

function number_loop :: "num_state \<Rightarrow> token_type \<Rightarrow> lexer \<Rightarrow> (token_type \<times> lexer) res" where
  "number_loop st number_type lx =
     (let number_type = num_type st number_type; lx = lex_get lx
      in case num_goto st (lx_current lx) of
           None \<Rightarrow> Inr (parse_error, lx)
         | Some st' \<Rightarrow>
             if st' = num_done then scan_number_done number_type lx
             else number_loop st' number_type
                    (lex_add (if lx_current lx = Some 0x2E then lx_decimal_point lx else char_of_current (lx_current lx)) lx))"
  by pat_completeness auto

termination number_loop
  by (relation "measure (\<lambda>(st, ty, lx). length (lex_rest lx))") (auto dest: num_goto_current intro: lex_get_shrinks(2))

declare number_loop.simps [simp del]

definition scan_number :: "lexer \<Rightarrow> (token_type \<times> lexer) res" where
  "scan_number lx =
     (let lx = lex_reset lx in case lx_current lx of
        None \<Rightarrow> Inl AssertFail
      | Some c \<Rightarrow>
          if c = 0x2D then number_loop num_minus value_unsigned (lex_add c lx)
          else if c = 0x30 then number_loop num_zero value_unsigned (lex_add c lx)
          else if is_digit c then number_loop num_any1 value_unsigned (lex_add c lx)
          else Inl AssertFail)"

section \<open>Literals, whitespace and comments\<close>

fun literal_loop :: "bytes \<Rightarrow> token_type \<Rightarrow> lexer \<Rightarrow> token_type \<times> lexer" where
  "literal_loop [] return_type lx = (return_type, lx)"
| "literal_loop (c # cs) return_type lx =
     (let lx = lex_get lx
      in if char_of_current (lx_current lx) \<noteq> c then (parse_error, lx) else literal_loop cs return_type lx)"

definition scan_literal :: "bytes \<Rightarrow> token_type \<Rightarrow> lexer \<Rightarrow> (token_type \<times> lexer) res" where
  "scan_literal literal_text return_type lx =
     (if char_of_current (lx_current lx) \<noteq> literal_text ! 0 then Inl AssertFail
      else Inr (literal_loop (drop 1 literal_text) return_type lx))"

definition is_space :: "u8 option \<Rightarrow> bool" where
  "is_space c \<longleftrightarrow> c \<in> {Some 0x20, Some 0x09, Some 0x0A, Some 0x0D}"

function skip_whitespace :: "lexer \<Rightarrow> lexer" where
  "skip_whitespace lx = (let lx = lex_get lx in if is_space (lx_current lx) then skip_whitespace lx else lx)"
  by pat_completeness auto

termination skip_whitespace
  by (relation "measure (\<lambda>lx. length (lex_rest lx))") (auto simp: is_space_def intro!: lex_get_shrinks(2))

declare skip_whitespace.simps [simp del]

function line_comment :: "lexer \<Rightarrow> lexer" where
  "line_comment lx =
     (let lx = lex_get lx in if lx_current lx \<in> {Some 0x0A, Some 0x0D, None, Some 0} then lx else line_comment lx)"
  by pat_completeness auto

termination line_comment
  by (relation "measure (\<lambda>lx. length (lex_rest lx))") (auto intro!: lex_get_shrinks(2))

declare line_comment.simps [simp del]

text \<open>After a star, anything but a slash is put back and read again.\<close>

definition after_star :: "lexer \<Rightarrow> (bool \<times> lexer) res" where
  "after_star lx =
     (let lx = lex_get lx
      in if lx_current lx = Some 0x2F then Inr (True, lx) else rbind (lex_unget lx) (\<lambda>lx. Inr (False, lx)))"

lemma after_star_ahead: "after_star lx = Inr (r, lx') \<Longrightarrow> ahead lx lx'"
  by (auto simp: after_star_def Let_def rbind_Inr_iff dest: ahead_put_back split: if_splits)

function block_comment :: "lexer \<Rightarrow> (bool \<times> lexer) res" where
  "block_comment lx =
     (let lx = lex_get lx
      in if lx_current lx = None \<or> lx_current lx = Some 0 then Inr (False, lx)
         else if lx_current lx = Some 0x2A
         then rbind (after_star lx) (\<lambda>(closed, lx). if closed then Inr (True, lx) else block_comment lx)
         else block_comment lx)"
  by pat_completeness auto

termination block_comment
proof (relation "measure (\<lambda>lx. length (lex_rest lx))", simp, goal_cases)
  case (1 lx l r r' lx')
  then have "ahead (lex_get lx) lx'" using after_star_ahead by blast
  then show ?case using lex_get_shrinks(2) [of lx] 1 by (simp add: ahead_def)
next
  case (2 lx l)
  then show ?case using lex_get_shrinks(2) [of lx] by simp
qed

declare block_comment.simps [simp del]

definition scan_comment :: "lexer \<Rightarrow> (bool \<times> lexer) res" where
  "scan_comment lx =
     (let lx = lex_get lx
      in if lx_current lx = Some 0x2F then Inr (True, line_comment lx)
         else if lx_current lx = Some 0x2A then block_comment lx
         else Inr (False, lx))"

section \<open>The scanner\<close>

definition skip_bom :: "lexer \<Rightarrow> (bool \<times> lexer) res" where
  "skip_bom lx =
     (let lx = lex_get lx
      in if lx_current lx = Some 0xEF
         then let lx = lex_get lx
              in if lx_current lx = Some 0xBB then let lx = lex_get lx in Inr (lx_current lx = Some 0xBF, lx)
                 else Inr (False, lx)
         else rbind (lex_unget lx) (\<lambda>lx. Inr (True, lx)))"

lemma ahead_skip_whitespace: "ahead lx (skip_whitespace lx)"
proof (induction lx rule: skip_whitespace.induct)
  case (1 lx)
  then show ?case
    by (subst skip_whitespace.simps) (auto simp: Let_def intro: ahead_trans [OF ahead_get_self])
qed

lemma skip_whitespace_shrinks:
  "lx_current (skip_whitespace lx) \<noteq> None \<Longrightarrow> length (lex_rest (skip_whitespace lx)) < length (lex_rest lx)"
proof (induction lx rule: skip_whitespace.induct)
  case (1 lx)
  show ?case
  proof (cases "is_space (lx_current (lex_get lx))")
    case True
    have s: "skip_whitespace lx = skip_whitespace (lex_get lx)" by (subst skip_whitespace.simps) (simp add: True)
    have "length (lex_rest (skip_whitespace (lex_get lx))) < length (lex_rest (lex_get lx))"
      using "1.IH" [OF refl True] "1.prems" s by simp
    then show ?thesis using s lex_get_shrinks(1) [of lx] by simp
  next
    case False
    then have "skip_whitespace lx = lex_get lx" by (subst skip_whitespace.simps) simp
    then show ?thesis using "1.prems" lex_get_shrinks(2) by simp
  qed
qed

lemma ahead_line_comment: "ahead lx (line_comment lx)"
proof (induction lx rule: line_comment.induct)
  case (1 lx)
  then show ?case
    by (subst line_comment.simps) (auto simp: Let_def intro: ahead_trans [OF ahead_get_self])
qed

lemma ahead_block_comment: "block_comment lx = Inr (r, lx') \<Longrightarrow> ahead lx lx'"
proof (induction lx rule: block_comment.induct)
  case (1 lx)
  let ?lx = "lex_get lx"
  have g: "ahead lx ?lx" by simp
  consider "lx_current ?lx = None \<or> lx_current ?lx = Some 0" | "lx_current ?lx = Some 0x2A"
    | "\<not> (lx_current ?lx = None \<or> lx_current ?lx = Some 0)" "lx_current ?lx \<noteq> Some 0x2A" by blast
  then show ?case
  proof cases
    case 1
    then show ?thesis using "1.prems" by (subst (asm) block_comment.simps) (auto simp: Let_def)
  next
    case 2
    then obtain closed l2 where a: "after_star ?lx = Inr (closed, l2)"
        "(if closed then Inr (True, l2) else block_comment l2) = Inr (r, lx')"
      using "1.prems" by (subst (asm) block_comment.simps) (auto simp: Let_def rbind_Inr_iff)
    then have "ahead l2 lx'" using "1.IH"(1) [OF refl _ 2 a(1)] 2 by (cases closed) (auto simp: ahead_refl)
    then show ?thesis using after_star_ahead [OF a(1)] g ahead_trans by blast
  next
    case 3
    then have "block_comment ?lx = Inr (r, lx')" using "1.prems" by (subst (asm) block_comment.simps) (auto simp: Let_def)
    then have "ahead ?lx lx'" using "1.IH"(2) [OF refl] 3 by auto
    then show ?thesis using g ahead_trans by blast
  qed
qed

lemma ahead_scan_comment: "scan_comment lx = Inr (r, lx') \<Longrightarrow> ahead lx lx'"
  by (auto simp: scan_comment_def Let_def split: if_splits dest!: ahead_block_comment
      intro: ahead_trans [OF ahead_get_self] ahead_line_comment)

function skip_comments :: "lexer \<Rightarrow> (bool \<times> lexer) res" where
  "skip_comments lx =
     (if lx_ignore_comments lx \<and> lx_current lx = Some 0x2F
      then rbind (scan_comment lx) (\<lambda>(ok, lx). if \<not> ok then Inr (False, lx) else skip_comments (skip_whitespace lx))
      else Inr (True, lx))"
  by pat_completeness auto

definition comment_left :: "lexer \<Rightarrow> nat" where
  "comment_left lx = 2 * length (lex_rest lx) + of_bool (lx_current lx \<noteq> None)"

termination skip_comments
proof (relation "measure comment_left", simp, goal_cases)
  case (1 lx r ok lx')
  have "ahead lx lx'" using 1 ahead_scan_comment by blast
  moreover have "lx_current lx \<noteq> None" using 1 by simp
  ultimately show ?case using skip_whitespace_shrinks [of lx'] ahead_skip_whitespace [of lx']
    by (cases "lx_current (skip_whitespace lx')") (simp_all add: comment_left_def ahead_def)
qed

declare skip_comments.simps [simp del]

definition scan_token :: "lexer \<Rightarrow> (token_type \<times> lexer) res" where
  "scan_token lx = (case lx_current lx of
      None \<Rightarrow> Inr (end_of_input, lx)
    | Some c \<Rightarrow>
        if c = 0x5B then Inr (begin_array, lx)
        else if c = 0x5D then Inr (end_array, lx)
        else if c = 0x7B then Inr (begin_object, lx)
        else if c = 0x7D then Inr (end_object, lx)
        else if c = 0x3A then Inr (name_separator, lx)
        else if c = 0x2C then Inr (value_separator, lx)
        else if c = 0x74 then scan_literal (bytes_of ''true'') literal_true lx
        else if c = 0x66 then scan_literal (bytes_of ''false'') literal_false lx
        else if c = 0x6E then scan_literal (bytes_of ''null'') literal_null lx
        else if c = 0x22 then scan_string lx
        else if c = 0x2D \<or> is_digit c then scan_number lx
        else if c = 0 then Inr (end_of_input, lx)
        else Inr (parse_error, lx))"

definition scan :: "lexer \<Rightarrow> (token_type \<times> lexer) res" where
  "scan lx =
     rbind (if lx_total lx = 0 then skip_bom lx else Inr (True, lx)) (\<lambda>(ok, lx).
     if \<not> ok then Inr (parse_error, lx)
     else rbind (skip_comments (skip_whitespace lx)) (\<lambda>(ok, lx).
          if \<not> ok then Inr (parse_error, lx) else scan_token lx))"

lemma ahead_string_loop: "string_loop lx = Inr (t, lx') \<Longrightarrow> ahead lx lx'"
proof (induction lx rule: string_loop.induct)
  case (1 lx)
  obtain t1 lx1 where s: "string_step lx = Inr (t1, lx1)"
    using "1.prems" by (subst (asm) string_loop.simps) (auto simp: rbind_Inr_iff)
  have a: "ahead lx lx1"
    using s by (auto simp: string_step_def Let_def go_on_def rbind_Inr_iff ahead_intros
        dest!: ahead_scan_escape dest: ahead_string_multibyte intro: ahead_trans [OF ahead_get_self]
        split: option.splits if_splits prod.splits)
  show ?case
  proof (cases t1)
    case None
    then have "string_loop lx1 = Inr (t, lx')" using "1.prems" s by (subst (asm) string_loop.simps) simp
    then show ?thesis using "1.IH" [OF s refl None] a ahead_trans by blast
  next
    case (Some t2)
    then have "lx' = lx1" using "1.prems" s by (subst (asm) string_loop.simps) simp
    then show ?thesis using a by simp
  qed
qed

lemma ahead_scan_float: "scan_float lx = Inr (t, lx') \<Longrightarrow> ahead lx lx'"
  by (auto simp: scan_float_def ahead_def split: prod.splits if_splits)

lemma ahead_scan_number_done: "scan_number_done ty (lex_get lx) = Inr (t, lx') \<Longrightarrow> ahead lx lx'"
  by (auto simp: scan_number_done_def rbind_Inr_iff ahead_def dest!: ahead_put_back [unfolded ahead_def]
      dest: ahead_scan_float [unfolded ahead_def] split: prod.splits if_splits)

lemma ahead_number_loop: "number_loop st ty lx = Inr (t, lx') \<Longrightarrow> ahead lx lx'"
proof (induction st ty lx rule: number_loop.induct)
  case (1 st ty lx)
  show ?case
  proof (cases "num_goto st (lx_current (lex_get lx))")
    case None
    then show ?thesis using "1.prems" by (subst (asm) number_loop.simps) (auto simp: Let_def)
  next
    case (Some st')
    show ?thesis
    proof (cases "st' = num_done")
      case True
      then have "scan_number_done (num_type st ty) (lex_get lx) = Inr (t, lx')"
        using "1.prems" Some by (subst (asm) number_loop.simps) (simp add: Let_def)
      then show ?thesis by (rule ahead_scan_number_done)
    next
      case False
      let ?lx = "lex_add (if lx_current (lex_get lx) = Some 0x2E then lx_decimal_point (lex_get lx)
        else char_of_current (lx_current (lex_get lx))) (lex_get lx)"
      have "number_loop st' (num_type st ty) ?lx = Inr (t, lx')"
        using "1.prems" Some False by (subst (asm) number_loop.simps) (simp add: Let_def)
      then have "ahead ?lx lx'" using "1.IH" [OF refl refl Some False] by simp
      then show ?thesis by (rule ahead_trans [rotated]) simp
    qed
  qed
qed

lemma ahead_literal_loop: "literal_loop cs ty lx = (t, lx') \<Longrightarrow> ahead lx lx'"
  by (induction cs ty lx rule: literal_loop.induct)
    (auto simp: Let_def ahead_refl intro: ahead_trans [OF ahead_get_self] split: if_splits)

lemma ahead_scan_token: "scan_token lx = Inr (t, lx') \<Longrightarrow> ahead lx lx'"
  by (auto simp: scan_token_def scan_literal_def scan_string_def scan_number_def Let_def ahead_refl
      dest!: ahead_string_loop ahead_number_loop dest: ahead_literal_loop split: option.splits if_splits)
    (auto simp: ahead_def)

lemma ahead_skip_bom: "skip_bom lx = Inr (ok, lx') \<Longrightarrow> ahead lx lx'"
  by (auto simp: skip_bom_def Let_def rbind_Inr_iff ahead_intros dest: ahead_put_back split: if_splits)

text \<open>Comments may be skipped without moving only where there are none.\<close>

lemma skip_comments_ahead:
  "skip_comments lx = Inr (ok, lx') \<Longrightarrow> ahead lx lx'
    \<and> (ok \<longrightarrow> lx_current lx' \<noteq> None \<longrightarrow> lx' = lx \<or> length (lex_rest lx') < length (lex_rest lx))"
proof (induction lx rule: skip_comments.induct)
  case (1 lx)
  show ?case
  proof (cases "lx_ignore_comments lx \<and> lx_current lx = Some 0x2F")
    case False
    then have "skip_comments lx = Inr (True, lx)" by (subst skip_comments.simps) (simp only: if_False)
    then show ?thesis using "1.prems" by (simp add: ahead_refl)
  next
    case True
    then have eq: "skip_comments lx = rbind (scan_comment lx) (\<lambda>(ok, lx). if \<not> ok then Inr (False, lx) else skip_comments (skip_whitespace lx))"
      by (subst skip_comments.simps) (simp only: if_True simp_thms)
    obtain good lx1 where c: "scan_comment lx = Inr (good, lx1)"
        "(if \<not> good then Inr (False, lx1) else skip_comments (skip_whitespace lx1)) = Inr (ok, lx')"
      using "1.prems" unfolding eq by (auto simp: rbind_Inr_iff)
    have a: "ahead lx lx1" using c(1) by (rule ahead_scan_comment)
    show ?thesis
    proof (cases good)
      case False
      then show ?thesis using a c(2) by simp
    next
      case good: True
      then have "ahead (skip_whitespace lx1) lx' \<and> (ok \<longrightarrow> lx_current lx' \<noteq> None \<longrightarrow> lx' = skip_whitespace lx1
          \<or> length (lex_rest lx') < length (lex_rest (skip_whitespace lx1)))"
        using "1.IH" [OF True c(1) refl] c(2) by simp
      then show ?thesis
        using a ahead_skip_whitespace [of lx1] skip_whitespace_shrinks [of lx1] by (auto simp: ahead_def)
    qed
  qed
qed

lemma scan_ahead:
  assumes "scan lx = Inr (t, lx')"
  shows "ahead lx lx' \<and> (t \<notin> {end_of_input, parse_error} \<longrightarrow> length (lex_rest lx') < length (lex_rest lx))"
proof -
  obtain ok lx1 where 1: "(if lx_total lx = 0 then skip_bom lx else Inr (True, lx)) = Inr (ok, lx1)"
      "(if \<not> ok then Inr (parse_error, lx1)
        else rbind (skip_comments (skip_whitespace lx1)) (\<lambda>(ok, lx). if \<not> ok then Inr (parse_error, lx) else scan_token lx)) = Inr (t, lx')"
    using assms by (auto simp: scan_def rbind_Inr_iff)
  have a1: "ahead lx lx1" using 1(1) ahead_skip_bom by (auto simp: ahead_refl split: if_splits)
  show ?thesis
  proof (cases ok)
    case False
    then show ?thesis using a1 1(2) by simp
  next
    case True
    then obtain good lx2 where 2: "skip_comments (skip_whitespace lx1) = Inr (good, lx2)"
        "(if \<not> good then Inr (parse_error, lx2) else scan_token lx2) = Inr (t, lx')"
      using 1(2) by (auto simp: rbind_Inr_iff)
    note a2 = skip_comments_ahead [OF 2(1)]
    show ?thesis
    proof (cases good)
      case False
      then show ?thesis using a1 a2 2(2) ahead_skip_whitespace [of lx1] by (auto simp: ahead_def)
    next
      case True
      then have st: "scan_token lx2 = Inr (t, lx')" using 2(2) by simp
      then have "t \<noteq> end_of_input \<longrightarrow> lx_current lx2 \<noteq> None" by (cases "lx_current lx2") (simp_all add: scan_token_def)
      then show ?thesis using a1 a2 ahead_scan_token [OF st] True ahead_skip_whitespace [of lx1] skip_whitespace_shrinks [of lx1]
        by (auto simp: ahead_def)
    qed
  qed
qed

end
