(* ===== verification/Cbor.thy ===== *)
theory Cbor
  imports Bson
begin

text \<open>
  The CBOR writer and reader of \<^verbatim>\<open>include/json/json.hpp\<close>: the same values as theory Bson, in the format
  that keeps every one of them and needs no enclosing object. Numbers go in network byte order.
\<close>

section \<open>Floating-point numbers\<close>

text \<open>
  A \<^verbatim>\<open>double\<close> and a \<^verbatim>\<open>float\<close> are their IEEE bits. \<open>ldexp_bits m e\<close> is \<^verbatim>\<open>std::ldexp(m, e)\<close> for a small
  natural number \<open>m\<close> whose result is a normal number.
\<close>

fun ilog2 :: "nat \<Rightarrow> nat" where
  "ilog2 n = (if n \<le> 1 then 0 else Suc (ilog2 (n div 2)))"

declare ilog2.simps [simp del]

definition ldexp_bits :: "nat \<Rightarrow> int \<Rightarrow> u64" where
  "ldexp_bits m e =
     (if m = 0 then 0
      else let k = ilog2 m in of_nat (nat (int k + e + 1023) * 2 ^ 52 + (m - 2 ^ k) * 2 ^ 52 div 2 ^ k))"

definition f64_sign :: "bool \<Rightarrow> u64 \<Rightarrow> u64" where
  "f64_sign s x = (if s then x OR push_bit 63 1 else x)"

definition f64_inf :: u64 where
  "f64_inf = 0x7FF0000000000000"

definition f64_nan :: u64 where
  "f64_nan = 0x7FF8000000000000"

text \<open>The two-byte format, decoded by the code itself.\<close>

definition half_value :: "nat \<Rightarrow> u64" where
  "half_value half =
     (let e = half div 1024 mod 32; mant = half mod 1024;
          val = (if e = 0 then ldexp_bits mant (- 24)
                 else if e = 31 then (if mant = 0 then f64_inf else f64_nan)
                 else ldexp_bits (mant + 1024) (int e - 25))
      in f64_sign (half div 32768 mod 2 = 1) val)"

text \<open>\<^verbatim>\<open>static_cast<double>\<close> of a \<^verbatim>\<open>float\<close>; a signalling NaN becomes quiet.\<close>

definition f32_to_f64 :: "u32 \<Rightarrow> u64" where
  "f32_to_f64 w =
     (let n = unat w; e = n div 2 ^ 23 mod 256; mant = n mod 2 ^ 23;
          val = (if e = 0 then ldexp_bits mant (- 149)
                 else if e = 255 then (if mant = 0 then f64_inf else f64_nan OR of_nat (mant * 2 ^ 29))
                 else ldexp_bits (mant + 2 ^ 23) (int e - 150))
      in f64_sign (2 ^ 31 \<le> n) val)"

text \<open>
  \<^verbatim>\<open>static_cast<float>\<close> of a \<^verbatim>\<open>double\<close> that is exactly a finite \<^verbatim>\<open>float\<close>; for any other the result
  does not matter to the code, which then finds that it does not convert back.
\<close>

definition f64_to_f32 :: "u64 \<Rightarrow> u32" where
  "f64_to_f32 x =
     (let n = unat x; e = int (n div 2 ^ 52 mod 2048) - 1023; mant = n mod 2 ^ 52; s = (if 2 ^ 63 \<le> n then 2 ^ 31 else 0)
      in of_nat (s + (if - 126 \<le> e \<and> e \<le> 127 then nat (e + 127) * 2 ^ 23 + mant div 2 ^ 29
                      else if - 149 \<le> e \<and> e < - 126 then (2 ^ 52 + mant) div 2 ^ nat (- 97 - e)
                      else 0)))"

definition f64_isnan :: "u64 \<Rightarrow> bool" where
  "f64_isnan x \<longleftrightarrow> 0x7FF0000000000000 < unat x mod 2 ^ 63"

definition f64_isinf :: "u64 \<Rightarrow> bool" where
  "f64_isinf x \<longleftrightarrow> unat x mod 2 ^ 63 = 0x7FF0000000000000"

section \<open>The writer\<close>

text \<open>Network byte order.\<close>

definition write_number_be :: "'w :: len word \<Rightarrow> bytes" where
  "write_number_be n = rev (write_number n)"

text \<open>
  A control byte of major type \<open>base\<close> with a number: in the byte itself, or in the one, two, four or eight
  bytes that follow.
\<close>

definition cbor_head :: "nat \<Rightarrow> nat \<Rightarrow> bytes" where
  "cbor_head base n =
     (if n \<le> 0x17 then write_number_be (of_nat (base + n) :: u8)
      else if n \<le> 0xFF then of_nat (base + 0x18) # write_number_be (of_nat n :: u8)
      else if n \<le> 0xFFFF then of_nat (base + 0x19) # write_number_be (of_nat n :: u16)
      else if n \<le> 0xFFFFFFFF then of_nat (base + 0x1A) # write_number_be (of_nat n :: u32)
      else of_nat (base + 0x1B) # write_number_be (of_nat n :: u64))"

definition write_cbor_unsigned :: "u64 \<Rightarrow> bytes" where
  "write_cbor_unsigned u = cbor_head 0x00 (unat u)"

definition write_cbor_integer :: "u64 \<Rightarrow> bytes" where
  "write_cbor_integer i =
     (if 0 \<le> sint i then cbor_head 0x00 (nat (sint i))
      else let positive_number = - 1 - sint i in cbor_head 0x20 (nat positive_number))"

datatype input_format_t = Fmt_json | Fmt_cbor | Fmt_msgpack | Fmt_ubjson | Fmt_bson

text \<open>The prefixes are those of \<^verbatim>\<open>get_cbor_float_prefix\<close> and \<^verbatim>\<open>get_msgpack_float_prefix\<close>.\<close>

definition float_prefix :: "input_format_t \<Rightarrow> bool \<Rightarrow> u8" where
  "float_prefix fmt double = (if fmt = Fmt_cbor then (if double then 0xFB else 0xFA) else (if double then 0xCB else 0xCA))"

definition write_compact_float :: "u64 \<Rightarrow> input_format_t \<Rightarrow> bytes" where
  "write_compact_float n fmt =
     (let f = f64_to_f32 n
      in if f32_to_f64 f = n then float_prefix fmt False # write_number_be f else float_prefix fmt True # write_number_be n)"

definition write_cbor_float :: "u64 \<Rightarrow> bytes" where
  "write_cbor_float d =
     (if f64_isnan d then [0xF9, 0x7E, 0x00]
      else if f64_isinf d then [0xF9, if unat d < 2 ^ 63 then 0x7C else 0xFC, 0x00]
      else write_compact_float d Fmt_cbor)"

definition write_cbor_string :: "bytes \<Rightarrow> bytes" where
  "write_cbor_string s = cbor_head 0x60 (length s) @ s"

definition write_cbor_binary :: "bytes \<Rightarrow> u8 option \<Rightarrow> bytes" where
  "write_cbor_binary b subtype =
     (case subtype of None \<Rightarrow> [] | Some t \<Rightarrow> write_number_be (0xD8 :: u8) @ write_number_be t)
       @ cbor_head 0x40 (length b) @ b"

fun write_cbor :: "json \<Rightarrow> bytes"
  and write_cbor_array :: "json list \<Rightarrow> bytes"
  and write_cbor_object :: "(bytes \<times> json) list \<Rightarrow> bytes" where
  "write_cbor JNull = [0xF6]"
| "write_cbor (JBoolean b) = [if b then 0xF5 else 0xF4]"
| "write_cbor (JInteger i) = write_cbor_integer i"
| "write_cbor (JUnsigned u) = write_cbor_unsigned u"
| "write_cbor (JFloat d) = write_cbor_float d"
| "write_cbor (JString s) = write_cbor_string s"
| "write_cbor (JArray vs) = cbor_head 0x80 (length vs) @ write_cbor_array vs"
| "write_cbor (JBinary b subtype) = write_cbor_binary b subtype"
| "write_cbor (JObject es) = cbor_head 0xA0 (length es) @ write_cbor_object es"
| "write_cbor JDiscarded = []"
| "write_cbor_array [] = []"
| "write_cbor_array (v # vs) = write_cbor v @ write_cbor_array vs"
| "write_cbor_object [] = []"
| "write_cbor_object ((k, v) # es) = write_cbor_string k @ write_cbor v @ write_cbor_object es"

definition to_cbor :: "json \<Rightarrow> bytes" where
  "to_cbor j = write_cbor j"

section \<open>The reader\<close>

definition get_number_be :: "bytes \<Rightarrow> 'w :: len word rd" where
  "get_number_be i = pbind (get_string (LENGTH('w) div 8) i) (\<lambda>vec i. Inr (Some (bytes_word (rev vec), i)))"

text \<open>The number that goes with a control byte whose lower five bits are at most \<open>0x1B\<close>.\<close>

definition cbor_arg :: "u8 \<Rightarrow> bytes \<Rightarrow> nat rd" where
  "cbor_arg b i =
     (let low = unat b mod 32
      in if low \<le> 0x17 then Inr (Some (low, i))
         else if low = 0x18 then pbind (get_number_be i) (\<lambda>(n :: u8) i. Inr (Some (unat n, i)))
         else if low = 0x19 then pbind (get_number_be i) (\<lambda>(n :: u16) i. Inr (Some (unat n, i)))
         else if low = 0x1A then pbind (get_number_be i) (\<lambda>(n :: u32) i. Inr (Some (unat n, i)))
         else pbind (get_number_be i) (\<lambda>(n :: u64) i. Inr (Some (unat n, i))))"

text \<open>
  A text or byte string whose control bytes start at \<open>base\<close>: its length and its bytes, or chunks up to a
  byte \<open>0xFF\<close>. The first argument bounds the number of control bytes still to be read.
\<close>

fun cbor_chunk :: "nat \<Rightarrow> nat \<Rightarrow> u8 \<Rightarrow> bytes \<Rightarrow> bytes rd"
  and cbor_chunks :: "nat \<Rightarrow> nat \<Rightarrow> bytes \<Rightarrow> bytes \<Rightarrow> bytes rd" where
  "cbor_chunk base n b i =
     (if base \<le> unat b \<and> unat b \<le> base + 0x1B then pbind (cbor_arg b i) (\<lambda>len i. get_string len i)
      else if unat b = base + 0x1F then cbor_chunks base n [] i
      else Inl (Uncaught (ParseError 113)))"
| "cbor_chunks base 0 result i = Inl (UB StackOverflow)"
| "cbor_chunks base (Suc n) result i =
     pbind (get_byte i) (\<lambda>b i.
     if b = 0xFF then Inr (Some (result, i))
     else pbind (cbor_chunk base n b i) (\<lambda>chunk i. cbor_chunks base n (result @ chunk) i))"

definition get_cbor_string :: "nat \<Rightarrow> u8 \<Rightarrow> bytes \<Rightarrow> bytes rd" where
  "get_cbor_string n b i = cbor_chunk 0x60 n b i"

definition get_cbor_binary :: "nat \<Rightarrow> u8 \<Rightarrow> bytes \<Rightarrow> bytes rd" where
  "get_cbor_binary n b i = cbor_chunk 0x40 n b i"

definition cbor_float :: "u8 \<Rightarrow> bytes \<Rightarrow> json rd" where
  "cbor_float b i =
     (if b = 0xF9 then pbind (get_byte i) (\<lambda>byte1 i. pbind (get_byte i) (\<lambda>byte2 i.
        Inr (Some (JFloat (half_value (unat byte1 * 256 + unat byte2)), i))))
      else if b = 0xFA then pbind (get_number_be i) (\<lambda>f i. Inr (Some (JFloat (f32_to_f64 f), i)))
      else pbind (get_number_be i) (\<lambda>d i. Inr (Some (JFloat d, i))))"

text \<open>
  What the containers of the DOM can hold: \<^verbatim>\<open>max_size()\<close> of a \<^verbatim>\<open>vector\<close> of 16-byte values and of a \<^verbatim>\<open>map\<close>
  with 80-byte nodes. A length that says indefinite is \<^verbatim>\<open>size_t(-1)\<close>.
\<close>

definition array_max_size :: nat where
  "array_max_size = (2 ^ 63 - 1) div 16"

definition object_max_size :: nat where
  "object_max_size = (2 ^ 63 - 1) div 80"

definition npos :: nat where
  "npos = 2 ^ 64 - 1"

datatype cbor_tag_handler_t = TagError | TagIgnore

text \<open>The number of a tag, which is read and dropped.\<close>

definition cbor_tag :: "u8 \<Rightarrow> bytes \<Rightarrow> unit rd" where
  "cbor_tag b i = (if unat b < 0xD8 then Inr (Some ((), i)) else pbind (cbor_arg b i) (\<lambda>_ i. Inr (Some ((), i))))"

text \<open>The values that are neither containers nor tagged: numbers, byte and text strings, and the others.\<close>

definition cbor_number :: "u8 \<Rightarrow> bytes \<Rightarrow> json rd" where
  "cbor_number b i =
     (if unat b \<le> 0x1B then pbind (cbor_arg b i) (\<lambda>number i. Inr (Some (JUnsigned (of_nat number), i)))
      else pbind (cbor_arg b i) (\<lambda>number i. Inr (Some (JInteger (- 1 - of_nat number), i))))"

definition cbor_bytes :: "nat \<Rightarrow> u8 \<Rightarrow> bytes \<Rightarrow> json rd" where
  "cbor_bytes n b i =
     (if unat b \<le> 0x5F then pbind (get_cbor_binary n b i) (\<lambda>s i. Inr (Some (JBinary s None, i)))
      else pbind (get_cbor_string n b i) (\<lambda>s i. Inr (Some (JString s, i))))"

definition cbor_scalar :: "nat \<Rightarrow> u8 \<Rightarrow> bytes \<Rightarrow> json rd" where
  "cbor_scalar n b i =
     (let c = unat b
      in if c \<le> 0x1B \<or> 0x20 \<le> c \<and> c \<le> 0x3B then cbor_number b i
         else if 0x40 \<le> c \<and> c \<le> 0x5B \<or> c = 0x5F \<or> 0x60 \<le> c \<and> c \<le> 0x7B \<or> c = 0x7F then cbor_bytes n b i
         else if c = 0xF4 then Inr (Some (JBoolean False, i))
         else if c = 0xF5 then Inr (Some (JBoolean True, i))
         else if c = 0xF6 then Inr (Some (JNull, i))
         else if 0xF9 \<le> c \<and> c \<le> 0xFB then cbor_float b i
         else Inl (Uncaught (ParseError 112)))"

text \<open>\<^verbatim>\<open>start_array\<close> and \<^verbatim>\<open>start_object\<close> of the DOM refuse a definite length that is too long.\<close>

definition cbor_start :: "nat \<Rightarrow> u8 \<Rightarrow> bytes \<Rightarrow> nat rd" where
  "cbor_start max_size b i = pbind (cbor_arg b i) (\<lambda>len i.
     if len \<noteq> npos \<and> max_size < len then Inl (Uncaught (OutOfRange 408)) else Inr (Some (len, i)))"

text \<open>
  The reader proper, on the control byte already read; the first number bounds the control bytes still to be
  read. A definite array or object counts its elements down; \<open>cbor_tagged\<close> is the item behind a tag.
\<close>

function (sequential) parse_cbor_internal :: "cbor_tag_handler_t \<Rightarrow> nat \<Rightarrow> u8 \<Rightarrow> bytes \<Rightarrow> json rd"
  and cbor_tagged :: "cbor_tag_handler_t \<Rightarrow> nat \<Rightarrow> bytes \<Rightarrow> json rd"
  and get_cbor_array :: "cbor_tag_handler_t \<Rightarrow> nat \<Rightarrow> nat \<Rightarrow> json list \<Rightarrow> bytes \<Rightarrow> json rd"
  and get_cbor_object :: "cbor_tag_handler_t \<Rightarrow> nat \<Rightarrow> nat \<Rightarrow> json \<Rightarrow> bytes \<Rightarrow> json rd" where
  "parse_cbor_internal h n b i =
     (if 0x80 \<le> unat b \<and> unat b \<le> 0x9B then pbind (cbor_start array_max_size b i) (\<lambda>len i. get_cbor_array h n len [] i)
      else if unat b = 0x9F then get_cbor_array h n npos [] i
      else if 0xA0 \<le> unat b \<and> unat b \<le> 0xBB then
        pbind (cbor_start object_max_size b i) (\<lambda>len i. get_cbor_object h n len (JObject []) i)
      else if unat b = 0xBF then get_cbor_object h n npos (JObject []) i
      else if 0xC6 \<le> unat b \<and> unat b \<le> 0xD4 \<or> 0xD8 \<le> unat b \<and> unat b \<le> 0xDB then
        (case h of TagError \<Rightarrow> Inl (Uncaught (ParseError 112))
         | TagIgnore \<Rightarrow> pbind (cbor_tag b i) (\<lambda>_ i. cbor_tagged h n i))
      else cbor_scalar n b i)"
| "cbor_tagged h 0 i = Inl (UB StackOverflow)"
| "cbor_tagged h (Suc n) i = pbind (get_byte i) (\<lambda>b i. parse_cbor_internal h n b i)"
| "get_cbor_array h 0 len vs i = (if len = 0 then Inr (Some (JArray vs, i)) else Inl (UB StackOverflow))"
| "get_cbor_array h (Suc n) len vs i =
     (if len = 0 then Inr (Some (JArray vs, i))
      else pbind (get_byte i) (\<lambda>b i.
           if len = npos \<and> b = 0xFF then Inr (Some (JArray vs, i))
           else pbind (parse_cbor_internal h n b i) (\<lambda>v i.
                get_cbor_array h n (if len = npos then npos else len - 1) (vs @ [v]) i)))"
| "get_cbor_object h 0 len obj i = (if len = 0 then Inr (Some (obj, i)) else Inl (UB StackOverflow))"
| "get_cbor_object h (Suc n) len obj i =
     (if len = 0 then Inr (Some (obj, i))
      else pbind (get_byte i) (\<lambda>b i.
           if len = npos \<and> b = 0xFF then Inr (Some (obj, i))
           else pbind (get_cbor_string n b i) (\<lambda>key i.
                pbind (get_byte i) (\<lambda>b i.
                pbind (parse_cbor_internal h n b i) (\<lambda>v i.
                get_cbor_object h n (if len = npos then npos else len - 1) (dom_put obj key v) i)))))"
  by pat_completeness auto

termination
  by (relation "measures [\<lambda>x. case x of Inl (Inl (h, n, b, i)) \<Rightarrow> n | Inl (Inr (h, n, i)) \<Rightarrow> n
        | Inr (Inl (h, n, len, vs, i)) \<Rightarrow> n | Inr (Inr (h, n, len, obj, i)) \<Rightarrow> n,
      \<lambda>x. case x of Inl (Inl _) \<Rightarrow> 1 | _ \<Rightarrow> 0]") simp_all

definition cbor_sax_parse :: "cbor_tag_handler_t \<Rightarrow> bytes \<Rightarrow> json option res" where
  "cbor_sax_parse h i =
     rbind (pbind (get_byte i) (\<lambda>b i'. parse_cbor_internal h (length i) b i')) (\<lambda>r. case r of
         None \<Rightarrow> Inr None
       | Some (j, []) \<Rightarrow> Inr (Some j)
       | Some (j, _ # _) \<Rightarrow> Inl (Uncaught (ParseError 110)))"

definition from_cbor :: "cbor_tag_handler_t \<Rightarrow> bytes \<Rightarrow> json res" where
  "from_cbor h i = rbind (cbor_sax_parse h i) (\<lambda>res. Inr (case res of None \<Rightarrow> JDiscarded | Some j \<Rightarrow> j))"

section \<open>Heads\<close>

lemma get_number_be_write:
  fixes n :: "'w :: len word"
  assumes "8 dvd LENGTH('w)"
  shows "get_number_be (write_number_be n @ i) = Inr (Some (n, i))"
proof -
  have "get_string (LENGTH('w) div 8) (write_number_be n @ i) = Inr (Some (write_number_be n, i))"
    by (rule get_string_append) (simp add: write_number_be_def)
  then show ?thesis by (simp add: get_number_be_def) (simp add: write_number_be_def bytes_word_write_number [OF assms])
qed

lemma get_number_be_writes [simp]:
  "get_number_be (write_number_be (a :: u8) @ i) = Inr (Some (a, i))"
  "get_number_be (write_number_be (b :: u16) @ i) = Inr (Some (b, i))"
  "get_number_be (write_number_be (c :: u32) @ i) = Inr (Some (c, i))"
  "get_number_be (write_number_be (d :: u64) @ i) = Inr (Some (d, i))"
  by (rule get_number_be_write, simp)+

lemma write_number_be_8: "write_number_be (n :: u8) = [n]"
  by (simp add: write_number_be_def write_number_def)

text \<open>Every head is one control byte of its major type, with the number behind it.\<close>

lemma cbor_head_arg:
  assumes "n < 2 ^ 64" and "32 dvd base" and "base \<le> 0xA0"
  shows "\<exists>b t. cbor_head base n = b # t \<and> base \<le> unat b \<and> unat b \<le> base + 0x1B \<and> (\<forall>i. cbor_arg b (t @ i) = Inr (Some (n, i)))"
proof -
  obtain m where m: "base = 32 * m" using assms(2) by blast
  have b: "unat (of_nat (base + k) :: u8) = base + k" "(base + k) mod 32 = k" if "k < 32" for k
  proof -
    have "base + k < 256" using that assms(3) by simp
    then show "unat (of_nat (base + k) :: u8) = base + k" by (simp add: unat_of_nat del: of_nat_add)
    show "(base + k) mod 32 = k" using that by (simp add: m)
  qed
  consider "n \<le> 0x17" | "0x17 < n" "n \<le> 0xFF" | "0xFF < n" "n \<le> 0xFFFF" | "0xFFFF < n" "n \<le> 0xFFFFFFFF" | "0xFFFFFFFF < n"
    by linarith
  then show ?thesis
  proof cases
    case 1
    then have "unat (of_nat (base + n) :: u8) = base + n" "(base + n) mod 32 = n" using b [of n] by simp_all
    then show ?thesis using 1
      by (intro exI [of _ "of_nat (base + n)"] exI [of _ "[]"])
        (simp add: cbor_head_def write_number_be_8 cbor_arg_def del: of_nat_add)
  next
    case 2
    then have "unat (of_nat n :: u8) = n" by (simp add: unat_of_nat)
    then show ?thesis using 2 b [of "0x18"]
      by (intro exI [of _ "of_nat (base + 0x18)"] exI [of _ "write_number_be (of_nat n :: u8)"])
        (simp add: cbor_head_def cbor_arg_def del: of_nat_add)
  next
    case 3
    then have "unat (of_nat n :: u16) = n" by (simp add: unat_of_nat)
    then show ?thesis using 3 b [of "0x19"]
      by (intro exI [of _ "of_nat (base + 0x19)"] exI [of _ "write_number_be (of_nat n :: u16)"])
        (simp add: cbor_head_def cbor_arg_def del: of_nat_add)
  next
    case 4
    then have "unat (of_nat n :: u32) = n" by (simp add: unat_of_nat)
    then show ?thesis using 4 b [of "0x1A"]
      by (intro exI [of _ "of_nat (base + 0x1A)"] exI [of _ "write_number_be (of_nat n :: u32)"])
        (simp add: cbor_head_def cbor_arg_def del: of_nat_add)
  next
    case 5
    have "unat (of_nat n :: u64) = n" using assms(1) by (simp add: unat_of_nat)
    then show ?thesis using 5 b [of "0x1B"]
      by (intro exI [of _ "of_nat (base + 0x1B)"] exI [of _ "write_number_be (of_nat n :: u64)"])
        (simp add: cbor_head_def cbor_arg_def del: of_nat_add)
  qed
qed

section \<open>The round trip\<close>

text \<open>
  What a value is after a round trip: CBOR does not tell a signed number from an unsigned one when it is not
  negative, there is one NaN, and the subtype of a binary value, written as a tag, is dropped.
\<close>

fun cbor_norm :: "json \<Rightarrow> json" where
  "cbor_norm (JObject es) = JObject (map (\<lambda>(k, v). (k, cbor_norm v)) es)"
| "cbor_norm (JArray vs) = JArray (map cbor_norm vs)"
| "cbor_norm (JInteger i) = (if 0 \<le> sint i then JUnsigned i else JInteger i)"
| "cbor_norm (JFloat d) = JFloat (if f64_isnan d then f64_nan else d)"
| "cbor_norm (JBinary b st) = JBinary b None"
| "cbor_norm j = j"

text \<open>The values that can be read back; a subtype only when the reader ignores tags.\<close>

fun cbor_ok :: "cbor_tag_handler_t \<Rightarrow> json \<Rightarrow> bool" where
  "cbor_ok h (JObject es) = (keys_ascend es \<and> length es \<le> object_max_size \<and> (\<forall>(k, v) \<in> set es. length k < 2 ^ 64 \<and> cbor_ok h v))"
| "cbor_ok h (JArray vs) = (length vs \<le> array_max_size \<and> (\<forall>v \<in> set vs. cbor_ok h v))"
| "cbor_ok h (JString s) = (length s < 2 ^ 64)"
| "cbor_ok h (JBinary b st) = (length b < 2 ^ 64 \<and> (st = None \<or> h = TagIgnore))"
| "cbor_ok h JDiscarded = False"
| "cbor_ok h j = True"

lemma max_sizes: "array_max_size < npos" "object_max_size < npos" "npos < 2 ^ 64"
  by (simp_all add: array_max_size_def object_max_size_def npos_def)

definition cbor_reads :: "cbor_tag_handler_t \<Rightarrow> json \<Rightarrow> bytes \<Rightarrow> bool" where
  "cbor_reads h j bs \<longleftrightarrow> (\<exists>b t. bs = b # t \<and>
     (\<forall>n i. length t \<le> n \<longrightarrow> parse_cbor_internal h n b (t @ i) = Inr (Some (cbor_norm j, i))))"

declare parse_cbor_internal.simps [simp del]

lemma cbor_chunk_write:
  assumes "length s < 2 ^ 64" and "32 dvd base" and "base \<le> 0xA0"
  shows "\<exists>b t. cbor_head base (length s) @ s = b # t \<and> base \<le> unat b \<and> unat b \<le> base + 0x1B
    \<and> (\<forall>n i. cbor_chunk base n b (t @ i) = Inr (Some (s, i)))"
proof -
  obtain b t where b: "cbor_head base (length s) = b # t" "base \<le> unat b" "unat b \<le> base + 0x1B"
    "\<And>i. cbor_arg b (t @ i) = Inr (Some (length s, i))"
    using cbor_head_arg [OF assms] by blast
  have "cbor_chunk base n b ((t @ s) @ i) = Inr (Some (s, i))" for n i
    using b(2,3) b(4) [of "s @ i"] by (simp add: get_string_append)
  then show ?thesis using b(1-3) by auto
qed

lemma reads_string: "length s < 2 ^ 64 \<Longrightarrow> cbor_reads h (JString s) (write_cbor_string s)"
proof -
  assume "length s < 2 ^ 64"
  then obtain b t where "write_cbor_string s = b # t" "0x60 \<le> unat b" "unat b \<le> 0x7B"
    "\<And>n i. cbor_chunk 0x60 n b (t @ i) = Inr (Some (s, i))"
    using cbor_chunk_write [of s "0x60"] by (auto simp: write_cbor_string_def)
  then show ?thesis
    by (auto simp: cbor_reads_def parse_cbor_internal.simps cbor_scalar_def cbor_number_def cbor_bytes_def get_cbor_string_def Let_def simp del: cbor_chunk.simps)
qed

lemma reads_unsigned: "n < 2 ^ 64 \<Longrightarrow> cbor_reads h (JUnsigned (of_nat n)) (cbor_head 0 n)"
proof -
  assume n: "n < 2 ^ 64"
  obtain b t where "cbor_head 0 n = b # t" "unat b \<le> 0x1B" "\<And>i. cbor_arg b (t @ i) = Inr (Some (n, i))"
    using cbor_head_arg [OF n, of 0] by auto
  then show ?thesis
    by (auto simp: cbor_reads_def parse_cbor_internal.simps cbor_scalar_def cbor_number_def cbor_bytes_def Let_def)
qed

lemma reads_negative:
  assumes "sint (i :: u64) < 0"
  shows "cbor_reads h (JInteger i) (cbor_head 0x20 (nat (- 1 - sint i)))"
proof -
  have "- (2 ^ 63) \<le> sint i" using sint_ge [of i] by simp
  then have n: "nat (- 1 - sint i) < 2 ^ 64" by simp
  obtain b t where b: "cbor_head 0x20 (nat (- 1 - sint i)) = b # t" "0x20 \<le> unat b" "unat b \<le> 0x3B"
    "\<And>r. cbor_arg b (t @ r) = Inr (Some (nat (- 1 - sint i), r))"
    using cbor_head_arg [OF n, of "0x20"] by auto
  have "- 1 - of_nat (nat (- 1 - sint i)) = (of_int (- 1 - (- 1 - sint i)) :: u64)"
    using assms by (simp add: of_nat_nat)
  also have "\<dots> = i" by simp
  finally have "- 1 - of_nat (nat (- 1 - sint i)) = i" .
  with b assms show ?thesis
    by (auto simp: cbor_reads_def parse_cbor_internal.simps cbor_scalar_def cbor_number_def cbor_bytes_def Let_def)
qed

lemma reads_integer: "cbor_reads h (JInteger i) (write_cbor_integer i)"
proof (cases "0 \<le> sint i")
  case True
  have "sint i < 2 ^ 63" using sint_lt [of i] by simp
  then have n: "nat (sint i) < 2 ^ 64" using True by simp
  have "of_nat (nat (sint i)) = i" using True by (simp add: of_nat_nat)
  then show ?thesis using reads_unsigned [OF n, of h] True by (simp add: cbor_reads_def write_cbor_integer_def)
qed (use reads_negative in \<open>simp add: write_cbor_integer_def\<close>)

lemma half_values: "half_value 32256 = f64_nan" "half_value 31744 = f64_inf" "half_value 64512 = f64_inf OR push_bit 63 1"
  by (simp_all add: half_value_def f64_sign_def)

lemma cbor_float_half: "cbor_float 0xF9 (x # y # i) = Inr (Some (JFloat (half_value (unat x * 256 + unat y)), i))"
  by (simp add: cbor_float_def)

lemma reads_float: "cbor_reads h (JFloat d) (write_cbor_float d)"
proof -
  have p: "parse_cbor_internal h n b i = cbor_float b i" if "b = 0xF9 \<or> b = 0xFA \<or> b = 0xFB" for n b i
    using that by (elim disjE) (simp_all add: parse_cbor_internal.simps cbor_scalar_def cbor_number_def cbor_bytes_def)
  show ?thesis
  proof (cases "f64_isnan d \<or> f64_isinf d")
    case True
    have inf: "(if unat d < 2 ^ 63 then f64_inf else f64_inf OR push_bit 63 1) = d" if "f64_isinf d"
    proof -
      have unat_eq: "unat d = k \<Longrightarrow> d = of_nat k" for k
        by (drule arg_cong [where f = "of_nat :: nat \<Rightarrow> u64"]) simp
      have "unat d < 2 * 2 ^ 63" using unsigned_less [of d] by simp
      then have "unat d div 2 ^ 63 < 2" by (rule less_mult_imp_div_less)
      moreover have "unat d = unat d div 2 ^ 63 * 2 ^ 63 + 0x7FF0000000000000"
        using that unfolding f64_isinf_def by (metis div_mult_mod_eq)
      ultimately obtain q where "q < 2" "unat d = q * 2 ^ 63 + 0x7FF0000000000000" by blast
      then have "unat d = 0x7FF0000000000000 \<or> unat d = 0x7FF0000000000000 + 2 ^ 63"
        by (auto simp: less_2_cases_iff)
      then have "d = of_nat 0x7FF0000000000000 \<or> d = of_nat (0x7FF0000000000000 + 2 ^ 63)"
        by (elim disjE) (rule disjI1, erule unat_eq, rule disjI2, erule unat_eq)
      then show ?thesis by (auto simp: f64_inf_def)
    qed
    have h: "parse_cbor_internal h n 0xF9 (x # y # i) = Inr (Some (JFloat (half_value (unat x * 256 + unat y)), i))" for n x y i
      using p cbor_float_half by simp
    show ?thesis
    proof (cases "f64_isnan d")
      case True
      then show ?thesis by (simp add: cbor_reads_def write_cbor_float_def h half_values)
    next
      case False
      then have "f64_isinf d" using \<open>f64_isnan d \<or> f64_isinf d\<close> by simp
      with inf False show ?thesis
        by (cases "unat d < 2 ^ 63") (simp_all add: cbor_reads_def write_cbor_float_def h half_values)
    qed
  next
    case False
    have "cbor_reads h (JFloat d) (write_compact_float d Fmt_cbor)"
    proof (cases "f32_to_f64 (f64_to_f32 d) = d")
      case True
      then have "write_compact_float d Fmt_cbor = 0xFA # write_number_be (f64_to_f32 d)"
        by (simp add: write_compact_float_def float_prefix_def Let_def)
      then show ?thesis unfolding cbor_reads_def using False True
        by (intro exI [of _ "0xFA"] exI [of _ "write_number_be (f64_to_f32 d)"]) (simp add: p cbor_float_def)
    next
      case False': False
      then have "write_compact_float d Fmt_cbor = 0xFB # write_number_be d"
        by (simp add: write_compact_float_def float_prefix_def Let_def)
      then show ?thesis unfolding cbor_reads_def using False
        by (intro exI [of _ "0xFB"] exI [of _ "write_number_be d"]) (simp add: p cbor_float_def)
    qed
    then show ?thesis using False by (simp add: write_cbor_float_def)
  qed
qed

lemma reads_binary:
  assumes "length s < 2 ^ 64" and "st = None \<or> h = TagIgnore"
  shows "cbor_reads h (JBinary s st) (write_cbor_binary s st)"
proof -
  obtain b t where b: "cbor_head 0x40 (length s) @ s = b # t" "0x40 \<le> unat b" "unat b \<le> 0x5B"
    "\<And>n i. cbor_chunk 0x40 n b (t @ i) = Inr (Some (s, i))"
    using cbor_chunk_write [OF assms(1), of "0x40"] by auto
  have p: "parse_cbor_internal h n b (t @ i) = Inr (Some (JBinary s None, i))" for n i
    using b(2-4) by (auto simp: parse_cbor_internal.simps cbor_scalar_def cbor_number_def cbor_bytes_def get_cbor_binary_def Let_def simp del: cbor_chunk.simps)
  show ?thesis
  proof (cases st)
    case None
    then show ?thesis using b(1) p by (simp add: cbor_reads_def write_cbor_binary_def)
  next
    case (Some a)
    then have h: "h = TagIgnore" using assms(2) by simp
    have w: "write_cbor_binary s st = 0xD8 # a # b # t"
      using b(1) by (simp add: write_cbor_binary_def Some write_number_be_8)
    have arg: "cbor_arg 0xD8 (a # b # t @ i) = Inr (Some (unat a, b # t @ i))" for i
      using get_number_be_writes(1) [of a "b # t @ i"] by (simp add: cbor_arg_def write_number_be_8)
    have "parse_cbor_internal h n 0xD8 ((a # b # t) @ i) = Inr (Some (JBinary s None, i))"
      if len: "length (a # b # t) \<le> n" for n i
    proof -
      obtain m where m: "n = Suc m" using len by (cases n) auto
      show ?thesis unfolding m h parse_cbor_internal.simps [of TagIgnore "Suc m"] using p [unfolded h] arg by (simp add: cbor_tag_def)
    qed
    then show ?thesis unfolding w cbor_reads_def by auto
  qed
qed

lemma write_cbor_reads:
  "cbor_ok h j \<Longrightarrow> cbor_reads h j (write_cbor j)"
  "(\<forall>v \<in> set vs. cbor_ok h v) \<Longrightarrow> length vs < npos \<Longrightarrow>
    \<forall>acc n i. length (write_cbor_array vs) \<le> n \<longrightarrow>
      get_cbor_array h n (length vs) acc (write_cbor_array vs @ i) = Inr (Some (JArray (acc @ map cbor_norm vs), i))"
  "keys_ascend es \<and> (\<forall>(k, v) \<in> set es. length k < 2 ^ 64 \<and> cbor_ok h v) \<Longrightarrow> length es < npos \<Longrightarrow>
    \<forall>acc n i. length (write_cbor_object es) \<le> n \<longrightarrow> (\<forall>e \<in> set acc. \<forall>e' \<in> set es. bytes_less (fst e) (fst e')) \<longrightarrow>
      get_cbor_object h n (length es) (JObject acc) (write_cbor_object es @ i) =
        Inr (Some (JObject (acc @ map (\<lambda>(k, v). (k, cbor_norm v)) es), i))"
proof (induction j and vs and es rule: write_cbor_write_cbor_array_write_cbor_object.induct)
  case 1
  then show ?case by (auto simp: cbor_reads_def parse_cbor_internal.simps cbor_scalar_def cbor_number_def cbor_bytes_def Let_def)
next
  case (2 b)
  then show ?case by (auto simp: cbor_reads_def parse_cbor_internal.simps cbor_scalar_def cbor_number_def cbor_bytes_def Let_def)
next
  case (3 i)
  then show ?case using reads_integer by simp
next
  case (4 u)
  then show ?case using reads_unsigned [of "unat u" h] unsigned_less [of u]
    by (simp add: write_cbor_unsigned_def)
next
  case (5 d)
  then show ?case using reads_float by simp
next
  case (6 s)
  then show ?case using reads_string by simp
next
  case (7 vs)
  then have l: "length vs \<le> array_max_size" "\<forall>v \<in> set vs. cbor_ok h v" by auto
  have len: "length vs < npos" "length vs < 2 ^ 64" using l(1) max_sizes by linarith+
  obtain b t where b: "cbor_head 0x80 (length vs) = b # t" "0x80 \<le> unat b" "unat b \<le> 0x9B"
    "\<And>i. cbor_arg b (t @ i) = Inr (Some (length vs, i))"
    using cbor_head_arg [OF len(2), of "0x80"] by auto
  note IH = 7(1) [OF l(2) len(1), rule_format, where acc = "[]"]
  have "parse_cbor_internal h n b ((t @ write_cbor_array vs) @ i) = Inr (Some (JArray (map cbor_norm vs), i))"
    if "length (t @ write_cbor_array vs) \<le> n" for n i
    using b(2-4) l(1) IH [of n i] that by (simp add: parse_cbor_internal.simps [of h n] cbor_start_def)
  then show ?case using b(1) by (simp add: cbor_reads_def)
next
  case (8 s st)
  then show ?case using reads_binary by simp
next
  case (9 es)
  then have l: "length es \<le> object_max_size" "keys_ascend es \<and> (\<forall>(k, v) \<in> set es. length k < 2 ^ 64 \<and> cbor_ok h v)" by auto
  have len: "length es < npos" "length es < 2 ^ 64" using l(1) max_sizes by linarith+
  obtain b t where b: "cbor_head 0xA0 (length es) = b # t" "0xA0 \<le> unat b" "unat b \<le> 0xBB"
    "\<And>i. cbor_arg b (t @ i) = Inr (Some (length es, i))"
    using cbor_head_arg [OF len(2), of "0xA0"] by auto
  note IH = 9(1) [OF l(2) len(1), rule_format, where acc = "[]"]
  have "parse_cbor_internal h n b ((t @ write_cbor_object es) @ i) = Inr (Some (JObject (map (\<lambda>(k, v). (k, cbor_norm v)) es), i))"
    if "length (t @ write_cbor_object es) \<le> n" for n i
    using b(2-4) l(1) IH [of n i] that by (simp add: parse_cbor_internal.simps [of h n] cbor_start_def)
  then show ?case using b(1) by (simp add: cbor_reads_def)
next
  case 10
  then show ?case by simp
next
  case 11
  have "get_cbor_array h n 0 acc i = Inr (Some (JArray acc, i))" for n acc i by (cases n) simp_all
  then show ?case by simp
next
  case (12 v vs)
  then have "cbor_reads h v (write_cbor v)" by simp
  then obtain b t where v: "write_cbor v = b # t" "\<And>n i. length t \<le> n \<Longrightarrow> parse_cbor_internal h n b (t @ i) = Inr (Some (cbor_norm v, i))"
    unfolding cbor_reads_def by blast
  have IH: "length (write_cbor_array vs) \<le> n \<Longrightarrow>
      get_cbor_array h n (length vs) acc (write_cbor_array vs @ i) = Inr (Some (JArray (acc @ map cbor_norm vs), i))" for acc n i
    using 12 by simp
  show ?case
  proof (intro allI impI)
    fix acc n i assume n: "length (write_cbor_array (v # vs)) \<le> n"
    obtain m where m: "n = Suc m" "length t \<le> m" "length (write_cbor_array vs) \<le> m" using n v(1) by (cases n) auto
    show "get_cbor_array h n (length (v # vs)) acc (write_cbor_array (v # vs) @ i) = Inr (Some (JArray (acc @ map cbor_norm (v # vs)), i))"
      using v m(2) IH [OF m(3), of "acc @ [cbor_norm v]" i] 12(4) unfolding m(1) by auto
  qed
next
  case 13
  have "get_cbor_object h n 0 obj i = Inr (Some (obj, i))" for n obj i by (cases n) simp_all
  then show ?case by simp
next
  case (14 k v es)
  then have ok: "length k < 2 ^ 64" "cbor_ok h v" "keys_ascend es \<and> (\<forall>(k, v) \<in> set es. length k < 2 ^ 64 \<and> cbor_ok h v)"
    "\<forall>e' \<in> set es. bytes_less k (fst e')"
    by (auto simp: keys_ascend_Cons)
  obtain kb kt where k: "write_cbor_string k = kb # kt" "\<And>n i. get_cbor_string n kb (kt @ i) = Inr (Some (k, i))"
    using cbor_chunk_write [OF ok(1), of "0x60"] by (auto simp: write_cbor_string_def get_cbor_string_def)
  have "cbor_reads h v (write_cbor v)" using 14 ok(2) by blast
  then obtain b t where v: "write_cbor v = b # t" "\<And>n i. length t \<le> n \<Longrightarrow> parse_cbor_internal h n b (t @ i) = Inr (Some (cbor_norm v, i))"
    unfolding cbor_reads_def by blast
  have len: "length es < npos" "length ((k, v) # es) \<noteq> npos" using 14(4) by simp_all
  note IH = 14(2) [OF ok(3) len(1), rule_format]
  show ?case
  proof (intro allI impI)
    fix acc :: "(bytes \<times> json) list" and n i
    assume n: "length (write_cbor_object ((k, v) # es)) \<le> n"
      and less: "\<forall>e \<in> set acc. \<forall>e' \<in> set ((k, v) # es). bytes_less (fst e) (fst e')"
    obtain m where m: "n = Suc m" "length t \<le> m" "length (write_cbor_object es) \<le> m" using n v(1) k(1) by (cases n) auto
    have put: "obj_assign k (cbor_norm v) acc = acc @ [(k, cbor_norm v)]"
      using less by (intro obj_assign_last) simp
    have "\<forall>e \<in> set (acc @ [(k, cbor_norm v)]). \<forall>e' \<in> set es. bytes_less (fst e) (fst e')"
      using less ok(4) by auto
    then have "get_cbor_object h m (length es) (JObject (acc @ [(k, cbor_norm v)])) (write_cbor_object es @ i) =
        Inr (Some (JObject ((acc @ [(k, cbor_norm v)]) @ map (\<lambda>(k, v). (k, cbor_norm v)) es), i))"
      by (intro IH [OF m(3)]) blast+
    then show "get_cbor_object h n (length ((k, v) # es)) (JObject acc) (write_cbor_object ((k, v) # es) @ i) =
        Inr (Some (JObject (acc @ map (\<lambda>(k, v). (k, cbor_norm v)) ((k, v) # es)), i))"
      using v k m(2) put len(2) unfolding m(1) by auto
  qed
qed

lemma from_cbor_reads:
  assumes "cbor_reads h j bs"
  shows "from_cbor h bs = Inr (cbor_norm j)"
proof -
  obtain b t where b: "bs = b # t" "\<And>n i. length t \<le> n \<Longrightarrow> parse_cbor_internal h n b (t @ i) = Inr (Some (cbor_norm j, i))"
    using assms unfolding cbor_reads_def by blast
  from b(2) [of "length bs" "[]"] show ?thesis by (simp add: b(1) from_cbor_def cbor_sax_parse_def)
qed

section \<open>The reader on any input\<close>

text \<open>
  Fuel of the length of the input is enough: the reader then only ever throws a parse error or refuses a length.
\<close>

definition cbor_faults :: "fault set" where
  "cbor_faults = {Uncaught (ParseError 110), Uncaught (ParseError 112), Uncaught (ParseError 113), Uncaught (OutOfRange 408)}"

lemma cbor_faults_in [simp]:
  "Uncaught (ParseError k) \<in> cbor_faults \<longleftrightarrow> k \<in> {110, 112, 113}" "Uncaught (OutOfRange k) \<in> cbor_faults \<longleftrightarrow> k = 408"
  by (auto simp: cbor_faults_def)

lemma rd_in_get_number_be: "Uncaught (ParseError 110) \<in> E \<Longrightarrow> rd_in E (length i) (get_number_be i)"
  unfolding get_number_be_def by (rule rd_in_pbind [OF rd_in_get_string]) auto

lemma rd_in_get_string_all: "Uncaught (ParseError 110) \<in> E \<Longrightarrow> rd_in E (length i) (get_string n i)"
  by (rule rd_in_mono [OF rd_in_get_string]) auto

lemma rd_in_byte:
  assumes "Uncaught (ParseError 110) \<in> E"
    and "\<And>b i'. get_byte i = Inr (Some (b, i')) \<Longrightarrow> length i = Suc (length i') \<Longrightarrow> rd_in E n (f b i')"
  shows "rd_in E n (pbind (get_byte i) f)"
  using assms by (cases i) auto

lemmas rd_get_number_be = rd_in_get_number_be [where E = cbor_faults, simplified]
lemmas rd_get_string = rd_in_get_string_all [where E = cbor_faults, simplified]
lemmas rd_byte = rd_in_byte [where E = cbor_faults, simplified]

lemma rd_cbor_arg: "rd_in cbor_faults (length i) (cbor_arg b i)"
  unfolding cbor_arg_def Let_def by (auto intro!: rd_in_pbind [OF rd_get_number_be])

lemma rd_chunk:
  "length i < n \<Longrightarrow> rd_in cbor_faults (length i) (cbor_chunk base n b i)"
  "length i < n \<Longrightarrow> rd_in cbor_faults (length i) (cbor_chunks base n r i)"
proof (induction base n b i and base n r i rule: cbor_chunk_cbor_chunks.induct)
  case (1 base n b i)
  have num: "rd_in cbor_faults (length i) (pbind (cbor_arg b i) (\<lambda>len i. get_string len i))"
    by (rule rd_in_pbind [OF rd_cbor_arg]) (rule rd_in_mono [OF rd_get_string])
  show ?case using num "1.IH" "1.prems" by simp
next
  case (3 base n r i)
  show ?case unfolding cbor_chunks.simps
  proof (rule rd_byte)
    fix b i' assume b: "get_byte i = Inr (Some (b, i'))" "length i = Suc (length i')"
    show "rd_in cbor_faults (length i) (if b = 0xFF then Inr (Some (r, i'))
        else pbind (cbor_chunk base n b i') (\<lambda>chunk i. cbor_chunks base n (r @ chunk) i))"
    proof (cases "b = 0xFF")
      case False
      have i': "length i' < n" using b(2) "3.prems" by simp
      have "rd_in cbor_faults (length i) (pbind (cbor_chunk base n b i') (\<lambda>chunk i. cbor_chunks base n (r @ chunk) i))"
      proof (rule rd_in_pbind [OF "3.IH"(1) [OF b(1) False i']])
        fix chunk i2 assume c: "cbor_chunk base n b i' = Inr (Some (chunk, i2))" "length i2 \<le> length i'"
        then have "rd_in cbor_faults (length i2) (cbor_chunks base n (r @ chunk) i2)"
          using "3.IH"(2) [OF b(1) False c(1)] i' by simp
        then show "rd_in cbor_faults (length i) (cbor_chunks base n (r @ chunk) i2)"
          by (rule rd_in_mono) (use c(2) b(2) in simp)
      qed
      then show ?thesis using False by simp
    qed (use b in simp)
  qed
qed simp

lemma rd_scalar:
  assumes "length i < n"
  shows "rd_in cbor_faults (length i) (cbor_scalar n b i)"
proof -
  have num: "rd_in cbor_faults (length i) (pbind (cbor_arg b i) (\<lambda>u i. Inr (Some (f u, i))))" for f :: "nat \<Rightarrow> json"
    by (rule rd_in_pbind [OF rd_cbor_arg]) simp
  have str: "rd_in cbor_faults (length i) (pbind (cbor_chunk base n b i) (\<lambda>s i. Inr (Some (f s, i))))" for base and f :: "bytes \<Rightarrow> json"
    by (rule rd_in_pbind [OF rd_chunk(1) [OF assms]]) simp
  have be: "rd_in cbor_faults (length i) (pbind (get_number_be i) (\<lambda>x i. Inr (Some (f x, i))))" for f :: "'w :: len word \<Rightarrow> json"
    by (rule rd_in_pbind [OF rd_get_number_be]) simp
  have be32: "rd_in cbor_faults (length i) (pbind (get_number_be i) (\<lambda>(x :: u32) i. Inr (Some (JFloat (f32_to_f64 x), i))))"
    and be64: "rd_in cbor_faults (length i) (pbind (get_number_be i) (\<lambda>x i. Inr (Some (JFloat x, i))))"
    by (rule rd_in_pbind [OF rd_get_number_be], simp)+
  have float: "rd_in cbor_faults (length i) (cbor_float b i)"
    unfolding cbor_float_def using be32 be64 by (auto intro!: rd_byte)
  show ?thesis
    unfolding cbor_scalar_def cbor_number_def cbor_bytes_def get_cbor_binary_def get_cbor_string_def Let_def using num str float by (simp del: cbor_chunk.simps)
qed

lemma rd_start: "rd_in cbor_faults (length i) (cbor_start m b i)"
  unfolding cbor_start_def by (rule rd_in_pbind [OF rd_cbor_arg]) simp

lemma rd_tag: "rd_in cbor_faults (length i) (cbor_tag b i)"
  unfolding cbor_tag_def by (auto intro!: rd_in_pbind [OF rd_cbor_arg])

lemma rd_parse_cbor:
  "length i < n \<Longrightarrow> rd_in cbor_faults (length i) (parse_cbor_internal h n b i)"
  "length i < n \<Longrightarrow> rd_in cbor_faults (length i) (cbor_tagged h n i)"
  "length i < n \<Longrightarrow> rd_in cbor_faults (length i) (get_cbor_array h n len vs i)"
  "length i < n \<Longrightarrow> rd_in cbor_faults (length i) (get_cbor_object h n len obj i)"
proof (induction h n b i and h n i and h n len vs i and h n len obj i
    rule: parse_cbor_internal_cbor_tagged_get_cbor_array_get_cbor_object.induct)
  case (1 h n b i)
  have arr: "rd_in cbor_faults (length i) (pbind (cbor_start array_max_size b i) (\<lambda>len i. get_cbor_array h n len [] i))"
    if "0x80 \<le> unat b \<and> unat b \<le> 0x9B"
  proof (rule rd_in_pbind [OF rd_start])
    fix len i' assume s: "cbor_start array_max_size b i = Inr (Some (len, i'))" "length i' \<le> length i"
    then show "rd_in cbor_faults (length i) (get_cbor_array h n len [] i')"
      using "1.IH"(1) [OF that s(1)] "1.prems" rd_in_mono by fastforce
  qed
  have obj: "rd_in cbor_faults (length i) (pbind (cbor_start object_max_size b i) (\<lambda>len i. get_cbor_object h n len (JObject []) i))"
    if "\<not> (0x80 \<le> unat b \<and> unat b \<le> 0x9B)" "unat b \<noteq> 0x9F" "0xA0 \<le> unat b \<and> unat b \<le> 0xBB"
  proof (rule rd_in_pbind [OF rd_start])
    fix len i' assume s: "cbor_start object_max_size b i = Inr (Some (len, i'))" "length i' \<le> length i"
    then show "rd_in cbor_faults (length i) (get_cbor_object h n len (JObject []) i')"
      using "1.IH"(3) [OF that s(1)] "1.prems" rd_in_mono by fastforce
  qed
  have tag: "rd_in cbor_faults (length i) (pbind (cbor_tag b i) (\<lambda>_ i. cbor_tagged h n i))"
    if "\<not> (0x80 \<le> unat b \<and> unat b \<le> 0x9B)" "unat b \<noteq> 0x9F" "\<not> (0xA0 \<le> unat b \<and> unat b \<le> 0xBB)" "unat b \<noteq> 0xBF"
      "0xC6 \<le> unat b \<and> unat b \<le> 0xD4 \<or> 0xD8 \<le> unat b \<and> unat b \<le> 0xDB" "h = TagIgnore"
  proof (rule rd_in_pbind [OF rd_tag])
    fix u i' assume s: "cbor_tag b i = Inr (Some (u, i'))" "length i' \<le> length i"
    then show "rd_in cbor_faults (length i) (cbor_tagged h n i')"
      using "1.IH"(5) [OF that s(1)] "1.prems" rd_in_mono by fastforce
  qed
  show ?case
    unfolding parse_cbor_internal.simps [of h n b i]
    using arr obj tag "1.IH"(2,4) "1.prems" rd_scalar [OF "1.prems", of b]
    by (simp split: cbor_tag_handler_t.split)
next
  case (3 h n i)
  show ?case unfolding cbor_tagged.simps
  proof (rule rd_byte)
    fix b i' assume b: "get_byte i = Inr (Some (b, i'))" "length i = Suc (length i')"
    then show "rd_in cbor_faults (length i) (parse_cbor_internal h n b i')"
      using "3.IH" [OF b(1)] "3.prems" rd_in_mono by fastforce
  qed
next
  case (5 h n len vs i)
  show ?case
  proof (cases "len = 0")
    case False
    have "rd_in cbor_faults (length i) (pbind (get_byte i) (\<lambda>b i.
           if len = npos \<and> b = 0xFF then Inr (Some (JArray vs, i))
           else pbind (parse_cbor_internal h n b i) (\<lambda>v i.
                get_cbor_array h n (if len = npos then npos else len - 1) (vs @ [v]) i)))"
    proof (rule rd_byte)
      fix b i' assume b: "get_byte i = Inr (Some (b, i'))" "length i = Suc (length i')"
      have i': "length i' < n" using b(2) "5.prems" by simp
      have "rd_in cbor_faults (length i) (pbind (parse_cbor_internal h n b i') (\<lambda>v i.
                get_cbor_array h n (if len = npos then npos else len - 1) (vs @ [v]) i))"
        if e: "\<not> (len = npos \<and> b = 0xFF)"
      proof (rule rd_in_pbind [OF "5.IH"(1) [OF False b(1) e i']])
        fix v i2 assume v: "parse_cbor_internal h n b i' = Inr (Some (v, i2))" "length i2 \<le> length i'"
        then show "rd_in cbor_faults (length i) (get_cbor_array h n (if len = npos then npos else len - 1) (vs @ [v]) i2)"
          using "5.IH"(2) [OF False b(1) e v(1)] i' b(2) rd_in_mono by fastforce
      qed
      then show "rd_in cbor_faults (length i) (if len = npos \<and> b = 0xFF then Inr (Some (JArray vs, i'))
           else pbind (parse_cbor_internal h n b i') (\<lambda>v i.
                get_cbor_array h n (if len = npos then npos else len - 1) (vs @ [v]) i))"
        using b(2) by simp
    qed
    then show ?thesis using False by simp
  qed simp
next
  case (7 h n len obj i)
  show ?case
  proof (cases "len = 0")
    case False
    let ?item = "\<lambda>b i. pbind (get_cbor_string n b i) (\<lambda>key i. pbind (get_byte i) (\<lambda>b i.
                pbind (parse_cbor_internal h n b i) (\<lambda>v i.
                get_cbor_object h n (if len = npos then npos else len - 1) (dom_put obj key v) i)))"
    have "rd_in cbor_faults (length i) (pbind (get_byte i) (\<lambda>b i.
           if len = npos \<and> b = 0xFF then Inr (Some (obj, i)) else ?item b i))"
    proof (rule rd_byte)
      fix b i' assume b: "get_byte i = Inr (Some (b, i'))" "length i = Suc (length i')"
      have i': "length i' < n" using b(2) "7.prems" by simp
      have "rd_in cbor_faults (length i) (?item b i')" if e: "\<not> (len = npos \<and> b = 0xFF)"
      proof (rule rd_in_pbind [of _ "length i'"])
        show "rd_in cbor_faults (length i') (get_cbor_string n b i')"
          unfolding get_cbor_string_def by (rule rd_chunk(1) [OF i'])
        fix key i2 assume k: "get_cbor_string n b i' = Inr (Some (key, i2))" "length i2 \<le> length i'"
        show "rd_in cbor_faults (length i) (pbind (get_byte i2) (\<lambda>b i. pbind (parse_cbor_internal h n b i) (\<lambda>v i.
                get_cbor_object h n (if len = npos then npos else len - 1) (dom_put obj key v) i)))"
        proof (rule rd_byte)
          fix b2 i3 assume b2: "get_byte i2 = Inr (Some (b2, i3))" "length i2 = Suc (length i3)"
          have i3: "length i3 < n" using b2(2) k(2) i' by simp
          show "rd_in cbor_faults (length i) (pbind (parse_cbor_internal h n b2 i3) (\<lambda>v i.
                get_cbor_object h n (if len = npos then npos else len - 1) (dom_put obj key v) i))"
          proof (rule rd_in_pbind [OF "7.IH"(1) [OF False b(1) e k(1) b2(1) i3]])
            fix v i4 assume v: "parse_cbor_internal h n b2 i3 = Inr (Some (v, i4))" "length i4 \<le> length i3"
            then show "rd_in cbor_faults (length i) (get_cbor_object h n (if len = npos then npos else len - 1) (dom_put obj key v) i4)"
              using "7.IH"(2) [OF False b(1) e k(1) b2(1) v(1)] i3 b(2) b2(2) k(2) rd_in_mono by fastforce
          qed
        qed
      qed
      then show "rd_in cbor_faults (length i) (if len = npos \<and> b = 0xFF then Inr (Some (obj, i')) else ?item b i')"
        using b(2) by simp
    qed
    then show ?thesis using False by simp
  qed simp
qed simp_all

lemma from_cbor_fault:
  assumes "from_cbor h i = Inl e"
  shows "e \<in> cbor_faults"
proof -
  have "rd_in cbor_faults (length i) (pbind (get_byte i) (\<lambda>b i'. parse_cbor_internal h (length i) b i'))"
  proof (rule rd_byte)
    fix b i' assume "get_byte i = Inr (Some (b, i'))" "length i = Suc (length i')"
    then show "rd_in cbor_faults (length i) (parse_cbor_internal h (length i) b i')"
      using rd_parse_cbor(1) [of i' "length i" h b] rd_in_mono by fastforce
  qed
  then consider k where "pbind (get_byte i) (\<lambda>b i'. parse_cbor_internal h (length i) b i') = Inl k" "k \<in> cbor_faults"
    | "pbind (get_byte i) (\<lambda>b i'. parse_cbor_internal h (length i) b i') = Inr None"
    | j r where "pbind (get_byte i) (\<lambda>b i'. parse_cbor_internal h (length i) b i') = Inr (Some (j, r))"
    by (cases "pbind (get_byte i) (\<lambda>b i'. parse_cbor_internal h (length i) b i')" rule: sum.exhaust)
      (simp, metis (no_types) option.exhaust surj_pair)
  then show ?thesis
  proof cases
    case (3 j r)
    then show ?thesis using assms
      by (cases r) (auto simp: from_cbor_def cbor_sax_parse_def rbind_def cbor_faults_def)
  qed (use assms in \<open>simp_all add: from_cbor_def cbor_sax_parse_def rbind_def\<close>)
qed

section \<open>Properties\<close>



text \<open>
  Reading any bytes as CBOR ends, with a value or with one of three parse errors or the refusal of a
  length, whatever the depth and the lengths the input claims.
\<close>

theorem from_cbor_outcomes:
  "(\<exists>j. from_cbor h i = Inr j) \<or> (\<exists>k \<in> {110, 112, 113}. from_cbor h i = Inl (Uncaught (ParseError k)))
    \<or> from_cbor h i = Inl (Uncaught (OutOfRange 408))"
  using from_cbor_fault [of h i] by (cases "from_cbor h i") (auto simp: cbor_faults_def)

end
