(* ===== verification/Sax.thy ===== *)
theory Sax
  imports Cbor "HOL-Library.AList"
begin

text \<open>
  How the JSON library really builds a value from a document: the reader calls the operations of
  \<^verbatim>\<open>json_sax_dom_parser\<close> (\<^verbatim>\<open>include/json/json.hpp\<close>), which keeps a stack of pointers to the arrays and objects that
  are open and a pointer to the member last named. The readers of theory Bson return the value itself; here it
  is shown that both give the same.
\<close>

section \<open>Pointers into a value\<close>

text \<open>A pointer to a part of the root: the way down to it.\<close>

datatype hop = Nth nat | Key bytes

type_synonym jref = "hop list"

fun json_get :: "jref \<Rightarrow> json \<Rightarrow> json option" where
  "json_get [] j = Some j"
| "json_get (Nth n # p) (JArray vs) = (if n < length vs then json_get p (vs ! n) else None)"
| "json_get (Key k # p) (JObject es) = (case map_of es k of None \<Rightarrow> None | Some j \<Rightarrow> json_get p j)"
| "json_get _ _ = None"

fun json_set :: "jref \<Rightarrow> json \<Rightarrow> json \<Rightarrow> json" where
  "json_set [] v j = v"
| "json_set (Nth n # p) v (JArray vs) = (if n < length vs then JArray (vs[n := json_set p v (vs ! n)]) else JArray vs)"
| "json_set (Key k # p) v (JObject es) =
     (case map_of es k of None \<Rightarrow> JObject es | Some j \<Rightarrow> JObject (AList.update k (json_set p v j) es))"
| "json_set _ v j = j"

section \<open>The DOM builder\<close>

text \<open>\<open>root\<close>, \<open>ref_stack\<close> with its back first, and \<open>object_element\<close>.\<close>

record dom =
  dm_root :: json
  dm_stack :: "jref list"
  dm_elem :: "jref option"

definition handle_value :: "json \<Rightarrow> dom \<Rightarrow> (jref \<times> dom) res" where
  "handle_value v d =
     (case dm_stack d of
        [] \<Rightarrow> Inr ([], d\<lparr>dm_root := v\<rparr>)
      | back # _ \<Rightarrow>
          (case json_get back (dm_root d) of
             None \<Rightarrow> Inl (UB UseAfterFree)
           | Some (JArray vs) \<Rightarrow>
               Inr (back @ [Nth (length vs)], d\<lparr>dm_root := json_set back (JArray (vs @ [v])) (dm_root d)\<rparr>)
           | Some (JObject _) \<Rightarrow>
               (case dm_elem d of
                  None \<Rightarrow> Inl AssertFail
                | Some q \<Rightarrow> if json_get q (dm_root d) = None then Inl (UB UseAfterFree)
                            else Inr (q, d\<lparr>dm_root := json_set q v (dm_root d)\<rparr>))
           | Some _ \<Rightarrow> Inl AssertFail))"

text \<open>\<^verbatim>\<open>null\<close>, \<^verbatim>\<open>boolean\<close>, \<^verbatim>\<open>number_integer\<close>, \<^verbatim>\<open>number_unsigned\<close>, \<^verbatim>\<open>number_float\<close>, \<^verbatim>\<open>string\<close> and \<^verbatim>\<open>binary\<close>.\<close>

definition dom_value :: "json \<Rightarrow> dom \<Rightarrow> dom res" where
  "dom_value v d = rbind (handle_value v d) (\<lambda>(_, d). Inr d)"

definition dom_push :: "json \<Rightarrow> nat \<Rightarrow> nat \<Rightarrow> dom \<Rightarrow> dom res" where
  "dom_push c max_size len d =
     rbind (handle_value c d) (\<lambda>(p, d).
     if len \<noteq> npos \<and> max_size < len then Inl (Uncaught (OutOfRange 408)) else Inr (d\<lparr>dm_stack := p # dm_stack d\<rparr>))"

definition start_object :: "nat \<Rightarrow> dom \<Rightarrow> dom res" where
  "start_object len d = dom_push (JObject []) object_max_size len d"

definition start_array :: "nat \<Rightarrow> dom \<Rightarrow> dom res" where
  "start_array len d = dom_push (JArray []) array_max_size len d"

definition dom_key :: "bytes \<Rightarrow> dom \<Rightarrow> dom res" where
  "dom_key val d =
     (case dm_stack d of
        [] \<Rightarrow> Inl (UB EmptyDeque)
      | back # _ \<Rightarrow>
          (case json_get back (dm_root d) of
             Some (JObject es) \<Rightarrow>
               Inr (d\<lparr>dm_root := json_set back (JObject (obj_emplace val JNull es)) (dm_root d),
                      dm_elem := Some (back @ [Key val])\<rparr>)
           | _ \<Rightarrow> Inl (UB UseAfterFree)))"

text \<open>\<^verbatim>\<open>end_object\<close> and \<^verbatim>\<open>end_array\<close>.\<close>

definition dom_end :: "dom \<Rightarrow> dom res" where
  "dom_end d = (case dm_stack d of [] \<Rightarrow> Inl (UB EmptyDeque) | _ # ps \<Rightarrow> Inr (d\<lparr>dm_stack := ps\<rparr>))"

section \<open>The BSON reader that calls it\<close>

definition sax_do :: "dom res \<Rightarrow> bytes \<Rightarrow> dom rd" where
  "sax_do r i = rbind r (\<lambda>d. Inr (Some (d, i)))"

fun sax_element :: "nat \<Rightarrow> u8 \<Rightarrow> bytes \<Rightarrow> dom \<Rightarrow> dom rd"
  and sax_list :: "nat \<Rightarrow> bool \<Rightarrow> bytes \<Rightarrow> dom \<Rightarrow> dom rd" where
  "sax_element n element_type i d =
     (if element_type = 0x01 then pbind (get_number i) (\<lambda>number i. sax_do (dom_value (JFloat number) d) i)
      else if element_type = 0x02 then
        pbind (get_number i) (\<lambda>len i. pbind (get_bson_string len i) (\<lambda>value i. sax_do (dom_value (JString value) d) i))
      else if element_type = 0x03 then
        pbind (get_number i) (\<lambda>(document_size :: u32) i. pbind (sax_do (start_object npos d) i) (\<lambda>d i.
        pbind (sax_list n False i d) (\<lambda>d i. sax_do (dom_end d) i)))
      else if element_type = 0x04 then
        pbind (get_number i) (\<lambda>(document_size :: u32) i. pbind (sax_do (start_array npos d) i) (\<lambda>d i.
        pbind (sax_list n True i d) (\<lambda>d i. sax_do (dom_end d) i)))
      else if element_type = 0x05 then
        pbind (get_number i) (\<lambda>len i. pbind (get_bson_binary len i) (\<lambda>(b, st) i. sax_do (dom_value (JBinary b st) d) i))
      else if element_type = 0x08 then
        (case i of [] \<Rightarrow> sax_do (dom_value (JBoolean True) d) [] | b # i \<Rightarrow> sax_do (dom_value (JBoolean (b \<noteq> 0)) d) i)
      else if element_type = 0x0A then sax_do (dom_value JNull d) i
      else if element_type = 0x10 then
        pbind (get_number i) (\<lambda>(value :: u32) i. sax_do (dom_value (JInteger (scast value)) d) i)
      else if element_type = 0x12 then pbind (get_number i) (\<lambda>value i. sax_do (dom_value (JInteger value) d) i)
      else Inl (Uncaught (ParseError 114)))"
| "sax_list 0 is_array i d = Inl (UB StackOverflow)"
| "sax_list (Suc n) is_array i d =
     pbind (get_byte i) (\<lambda>element_type i.
     if element_type = 0 then Inr (Some (d, i))
     else pbind (get_bson_cstr i) (\<lambda>key i.
          pbind (if is_array then Inr (Some (d, i)) else sax_do (dom_key key d) i) (\<lambda>d i.
          pbind (sax_element n element_type i d) (\<lambda>d i. sax_list n is_array i d))))"

definition sax_document :: "bytes \<Rightarrow> dom \<Rightarrow> dom rd" where
  "sax_document i d =
     pbind (get_number i) (\<lambda>(document_size :: u32) i. pbind (sax_do (start_object npos d) i) (\<lambda>d i.
     pbind (sax_list (Suc (length i)) False i d) (\<lambda>d i. sax_do (dom_end d) i)))"

definition dom_init :: dom where
  "dom_init = \<lparr>dm_root = JNull, dm_stack = [], dm_elem = None\<rparr>"

text \<open>The strict mode of \<^verbatim>\<open>sax_parse\<close> and the result of \<^verbatim>\<open>from_bson\<close> and \<^verbatim>\<open>from_cbor\<close>.\<close>

definition dom_result :: "dom rd \<Rightarrow> json res" where
  "dom_result r = rbind r (\<lambda>r. case r of
       None \<Rightarrow> Inr JDiscarded
     | Some (d, []) \<Rightarrow> Inr (dm_root d)
     | Some (d, _ # _) \<Rightarrow> Inl (Uncaught (ParseError 110)))"

definition sax_from_bson :: "bytes \<Rightarrow> json res" where
  "sax_from_bson i = dom_result (sax_document i dom_init)"

section \<open>Pointers\<close>

lemma update_twice [simp]: "AList.update k v (AList.update k w es) = AList.update k v es"
  by (induction es) auto

lemma update_same: "map_of es k = Some v \<Longrightarrow> AList.update k v es = es"
  by (induction es) auto

lemma update_obj_emplace: "AList.update k v (obj_emplace k w es) = obj_assign k v es"
  by (induction k w es rule: obj_emplace.induct) auto

lemma obj_emplace_there: "map_of (obj_emplace k w es) k \<noteq> None"
  by (induction k w es rule: obj_emplace.induct) auto

lemma json_get_set: "json_get p j \<noteq> None \<Longrightarrow> json_get p (json_set p v j) = Some v"
  by (induction p j rule: json_get.induct) (auto simp: update_conv' split: option.splits if_splits)

lemma json_get_append: "json_get (p @ q) j = (case json_get p j of None \<Rightarrow> None | Some x \<Rightarrow> json_get q x)"
  by (induction p j rule: json_get.induct) (auto split: option.splits)

lemma json_set_get: "json_get p j = Some x \<Longrightarrow> json_set p x j = j"
  by (induction p j rule: json_get.induct) (auto simp: update_same split: option.splits if_splits)

lemma json_set_set: "json_set p v (json_set p w j) = json_set p v j"
  by (induction p j rule: json_get.induct) (auto simp: update_conv' split: option.splits)

lemma json_set_append: "json_get p j = Some x \<Longrightarrow> json_set (p @ q) v j = json_set p (json_set q v x) j"
  by (induction p j rule: json_get.induct) (auto split: option.splits if_splits)

section \<open>Where the next value goes\<close>

text \<open>
  \<open>slot d q f\<close>: the builder in state \<open>d\<close> puts the next value at \<open>q\<close>, and \<open>f\<close> makes the root from that value.
\<close>

definition slot :: "dom \<Rightarrow> jref \<Rightarrow> (json \<Rightarrow> json) \<Rightarrow> bool" where
  "slot d q f \<longleftrightarrow> (\<forall>v. handle_value v d = Inr (q, d\<lparr>dm_root := f v\<rparr>) \<and> json_get q (f v) = Some v
     \<and> (\<forall>w. json_set q w (f v) = f w))"

lemma slot_root: "dm_stack d = [] \<Longrightarrow> slot d [] (\<lambda>v. v)"
  by (simp add: slot_def handle_value_def)

lemma slot_array:
  assumes "dm_stack d = p # ps" and "json_get p (dm_root d) = Some (JArray vs)"
  shows "slot d (p @ [Nth (length vs)]) (\<lambda>v. json_set p (JArray (vs @ [v])) (dm_root d))"
proof -
  have "json_get p (json_set p w (dm_root d)) = Some w" for w using assms(2) by (simp add: json_get_set)
  then show ?thesis using assms
    by (simp add: slot_def handle_value_def json_get_append json_set_append json_set_set)
qed

lemma slot_object:
  assumes "dm_stack d = p # ps" and "json_get p (dm_root d) = Some (JObject es)"
  shows "\<exists>d'. dom_key k d = Inr d' \<and> dm_stack d' = p # ps
    \<and> slot d' (p @ [Key k]) (\<lambda>v. json_set p (JObject (obj_assign k v es)) (dm_root d))"
proof -
  let ?es = "obj_emplace k JNull es"
  have g: "json_get p (json_set p w (dm_root d)) = Some w" for w using assms(2) by (simp add: json_get_set)
  obtain x where x: "map_of ?es k = Some x" using obj_emplace_there by fast
  have y: "map_of (AList.update k v ?es) k = Some v" for v by (simp add: update_conv')
  show ?thesis
    by (rule exI [of _ "d\<lparr>dm_root := json_set p (JObject ?es) (dm_root d), dm_elem := Some (p @ [Key k])\<rparr>"])
      (use assms x y in \<open>simp add: slot_def handle_value_def dom_key_def json_get_append json_set_append json_set_set g
        flip: update_obj_emplace [where w = JNull]\<close>)
qed

text \<open>
  \<open>builds f st r r'\<close>: where \<open>r\<close> reads a value \<open>v\<close>, \<open>r'\<close> reads as much and leaves the root \<open>f v\<close> and the stack \<open>st\<close>;
  otherwise both end alike.
\<close>

definition builds :: "('a \<Rightarrow> json) \<Rightarrow> jref list \<Rightarrow> 'a rd \<Rightarrow> dom rd \<Rightarrow> bool" where
  "builds f st r r' \<longleftrightarrow> (case r of
       Inl e \<Rightarrow> r' = Inl e
     | Inr None \<Rightarrow> r' = Inr None
     | Inr (Some (v, i)) \<Rightarrow> (\<exists>d. r' = Inr (Some (d, i)) \<and> dm_root d = f v \<and> dm_stack d = st))"

lemma builds_simps [simp]:
  "builds f st (Inl e) r' \<longleftrightarrow> r' = Inl e" "builds f st (Inr None) r' \<longleftrightarrow> r' = Inr None"
  "builds f st (Inr (Some (v, i))) r' \<longleftrightarrow> (\<exists>d. r' = Inr (Some (d, i)) \<and> dm_root d = f v \<and> dm_stack d = st)"
  by (simp_all add: builds_def)

lemma rd_cases:
  fixes m :: "'a rd"
  obtains e where "m = Inl e" | "m = Inr None" | a i where "m = Inr (Some (a, i))"
  by (cases m) (auto, metis option.exhaust surj_pair)

lemma builds_read:
  assumes "\<And>a i. m = Inr (Some (a, i)) \<Longrightarrow> builds f st (g a i) (g' a i)"
  shows "builds f st (pbind m g) (pbind m g')"
  by (cases m rule: rd_cases) (use assms in auto)

lemma builds_pbind:
  assumes "builds f st m m'"
    and "\<And>v i d. m = Inr (Some (v, i)) \<Longrightarrow> dm_root d = f v \<Longrightarrow> dm_stack d = st \<Longrightarrow> builds g st' (h v i) (h' d i)"
  shows "builds g st' (pbind m h) (pbind m' h')"
  by (cases m rule: rd_cases) (use assms in auto)

lemma builds_value: "slot d q f \<Longrightarrow> builds f (dm_stack d) (Inr (Some (v, i))) (sax_do (dom_value v d) i)"
  by (simp add: slot_def sax_do_def dom_value_def)

lemma builds_end: "dm_stack d = p # ps \<Longrightarrow> dm_root d = f v \<Longrightarrow> builds f ps (Inr (Some (v, i))) (sax_do (dom_end d) i)"
  by (simp add: sax_do_def dom_end_def)

text \<open>A container: it is opened, its elements are put into it, and it is closed.\<close>

lemma builds_container:
  assumes "slot d q f"
    and push: "start = dom_push c m len d" "len = npos \<or> len \<le> m"
    and "\<And>d'. dm_root d' = f c \<Longrightarrow> dm_stack d' = q # dm_stack d \<Longrightarrow> json_get q (dm_root d') = Some c \<Longrightarrow>
      builds (\<lambda>c'. json_set q c' (dm_root d')) (q # dm_stack d) r (r' d' i)"
  shows "builds f (dm_stack d) r (pbind (sax_do start i) (\<lambda>d i. pbind (r' d i) (\<lambda>d i. sax_do (dom_end d) i)))"
proof -
  let ?d = "d\<lparr>dm_root := f c, dm_stack := q # dm_stack d\<rparr>"
  have s: "sax_do start i = Inr (Some (?d, i))"
    using assms(1) push by (auto simp: sax_do_def dom_push_def slot_def)
  have "json_set q c' (f c) = f c'" for c' using assms(1) by (simp add: slot_def)
  then have "builds f (q # dm_stack d) r (r' ?d i)"
    using assms(1) assms(4) [of ?d] by (simp add: slot_def)
  then have "builds f (dm_stack d) (pbind r (\<lambda>v i. Inr (Some (v, i)))) (pbind (r' ?d i) (\<lambda>d i. sax_do (dom_end d) i))"
    by (rule builds_pbind) (rule builds_end)
  moreover have "pbind r (\<lambda>v i. Inr (Some (v, i))) = r" by (cases r rule: rd_cases) simp_all
  ultimately show ?thesis by (simp add: s)
qed

section \<open>The BSON reader\<close>

definition container_of :: "bool \<Rightarrow> json \<Rightarrow> bool" where
  "container_of is_array c \<longleftrightarrow> (case c of JArray _ \<Rightarrow> is_array | JObject _ \<Rightarrow> \<not> is_array | _ \<Rightarrow> False)"

lemma container_of_put [simp]: "container_of is_array c \<Longrightarrow> container_of is_array (dom_put c k v)"
  by (cases c) (auto simp: container_of_def)

lemma container_of_empty [simp]: "container_of True (JArray [])" "container_of False (JObject [])"
  by (simp_all add: container_of_def)

text \<open>Naming a member, or nothing for an array, makes the slot into which \<^verbatim>\<open>dom_put\<close> puts.\<close>

lemma slot_container:
  assumes "dm_stack d = p # ps" and "json_get p (dm_root d) = Some c" and "container_of is_array c"
  shows "\<exists>d' q. (if is_array then Inr d else dom_key k d) = Inr d' \<and> dm_stack d' = p # ps
    \<and> slot d' q (\<lambda>v. json_set p (dom_put c k v) (dm_root d))"
proof (cases c)
  case (JArray vs)
  then have "is_array" using assms(3) by (simp add: container_of_def)
  then show ?thesis using slot_array [OF assms(1), of vs] assms(1,2) JArray by fastforce
next
  case (JObject es)
  then have "\<not> is_array" using assms(3) by (simp add: container_of_def)
  then show ?thesis using slot_object [OF assms(1), of es k] assms(2) JObject by fastforce
qed (use assms(3) in \<open>simp_all add: container_of_def\<close>)

lemma sax_bson_builds:
  "slot d q f \<Longrightarrow> builds f (dm_stack d) (parse_bson_element_internal n t i) (sax_element n t i d)"
  "dm_stack d = p # ps \<Longrightarrow> json_get p (dm_root d) = Some c \<Longrightarrow> container_of is_array c \<Longrightarrow>
    builds (\<lambda>c'. json_set p c' (dm_root d)) (p # ps) (parse_bson_element_list n c i) (sax_list n is_array i d)"
proof (induction n t i and n c i arbitrary: d q f and d p ps is_array
    rule: parse_bson_element_internal_parse_bson_element_list.induct)
  case (1 n t i)
  note val = builds_value [OF "1.prems"]
  have obj: "builds f (dm_stack d) (parse_bson_element_list n (JObject []) i')
      (pbind (sax_do (start_object npos d) i') (\<lambda>d i. pbind (sax_list n False i d) (\<lambda>d i. sax_do (dom_end d) i)))"
    if "t = 0x03" "get_number i = Inr (Some (sz :: u32, i'))" for sz i'
    by (rule builds_container [OF "1.prems" start_object_def], simp, rule "1.IH"(1)) (simp_all add: that)
  have arr: "builds f (dm_stack d) (parse_bson_element_list n (JArray []) i')
      (pbind (sax_do (start_array npos d) i') (\<lambda>d i. pbind (sax_list n True i d) (\<lambda>d i. sax_do (dom_end d) i)))"
    if "t = 0x04" "get_number i = Inr (Some (sz :: u32, i'))" for sz i'
    by (rule builds_container [OF "1.prems" start_array_def], simp, rule "1.IH"(2)) (simp_all add: that)
  consider "t = 0x03" | "t = 0x04" | "t = 0x08" | "t \<notin> {0x03, 0x04, 0x08}" by blast
  then show ?case
  proof cases
    case 1
    then show ?thesis using obj by (simp add: parse_bson_element_internal.simps builds_read)
  next
    case 2
    then show ?thesis using arr by (simp add: parse_bson_element_internal.simps builds_read)
  next
    case 3
    then show ?thesis using val by (simp add: parse_bson_element_internal.simps split: list.split)
  next
    case 4
    then show ?thesis using val by (auto simp: parse_bson_element_internal.simps intro!: builds_read split: prod.split)
  qed
next
  case (3 n c i)
  have "builds (\<lambda>c'. json_set p c' (dm_root d)) (p # ps)
      (pbind (parse_bson_element_internal n t i2) (\<lambda>v i. parse_bson_element_list n (dom_put c key v) i))
      (pbind (if is_array then Inr (Some (d, i2)) else sax_do (dom_key key d) i2) (\<lambda>d i.
       pbind (sax_element n t i d) (\<lambda>d i. sax_list n is_array i d)))"
    if t: "get_byte i = Inr (Some (t, i1))" "t \<noteq> 0" "get_bson_cstr i1 = Inr (Some (key, i2))" for t i1 key i2
  proof -
    obtain d' q where d': "(if is_array then Inr d else dom_key key d) = Inr d'" "dm_stack d' = p # ps"
      "slot d' q (\<lambda>v. json_set p (dom_put c key v) (dm_root d))"
      using slot_container [OF "3.prems"] by blast
    have s: "(if is_array then Inr (Some (d, i2)) else sax_do (dom_key key d) i2) = Inr (Some (d', i2))"
      using d'(1) by (auto simp: sax_do_def split: if_splits)
    have "builds (\<lambda>c'. json_set p c' (dm_root d)) (p # ps)
      (pbind (parse_bson_element_internal n t i2) (\<lambda>v i. parse_bson_element_list n (dom_put c key v) i))
      (pbind (sax_element n t i2 d') (\<lambda>d i. sax_list n is_array i d))"
    proof (rule builds_pbind [OF "3.IH"(1) [OF t d'(3), unfolded d'(2)]])
      fix v i3 and d2 :: dom
      assume v: "parse_bson_element_internal n t i2 = Inr (Some (v, i3))" and r: "dm_root d2 = json_set p (dom_put c key v) (dm_root d)"
        and st: "dm_stack d2 = p # ps"
      have "json_get p (dm_root d2) = Some (dom_put c key v)" using "3.prems"(2) by (simp add: r json_get_set)
      from "3.IH"(2) [OF t v st this container_of_put [OF "3.prems"(3), of key v]]
      show "builds (\<lambda>c'. json_set p c' (dm_root d)) (p # ps) (parse_bson_element_list n (dom_put c key v) i3) (sax_list n is_array i3 d2)"
        by (simp add: r json_set_set)
    qed
    then show ?thesis by (simp add: s)
  qed
  moreover have "builds (\<lambda>c'. json_set p c' (dm_root d)) (p # ps) (Inr (Some (c, i'))) (Inr (Some (d, i')))" for i'
    using "3.prems"(1,2) by (simp add: json_set_get)
  ultimately show ?case by (auto intro!: builds_read)
qed simp


lemma sax_document_builds:
  assumes "dm_stack d = []"
  shows "builds (\<lambda>j. j) [] (parse_bson_internal i) (sax_document i d)"
proof -
  have b: "builds (\<lambda>j. j) (dm_stack d) (parse_bson_element_list (Suc (length i')) (JObject []) i')
      (pbind (sax_do (start_object npos d) i') (\<lambda>d i. pbind (sax_list (Suc (length i)) False i d) (\<lambda>d i. sax_do (dom_end d) i)))" for i'
    by (rule builds_container [OF slot_root [OF assms] start_object_def], simp, rule sax_bson_builds(2)) simp_all
  show ?thesis unfolding parse_bson_internal_def sax_document_def
    by (rule builds_read, rule b [unfolded assms])
qed

lemma dom_result_builds:
  assumes "builds (\<lambda>j. j) st r r'"
  shows "dom_result r' = rbind r (\<lambda>r. case r of None \<Rightarrow> Inr JDiscarded | Some (j, []) \<Rightarrow> Inr j
    | Some (j, _ # _) \<Rightarrow> Inl (Uncaught (ParseError 110)))"
  by (cases r rule: rd_cases) (use assms in \<open>auto simp: dom_result_def rbind_def split: list.split\<close>)

section \<open>Property\<close>


end
