(* ===== verification/JsonParser.thy ===== *)
theory JsonParser
  imports JsonLexer Sax
begin

text \<open>
  The parser of JSON text (class \<^verbatim>\<open>parser\<close> of \<^verbatim>\<open>include/json/json.hpp\<close>): a loop over tokens with a stack that says
  whether an array or an object is open, which calls the DOM builder of theory Sax. Without a callback.
\<close>

section \<open>The parser\<close>

record parser =
  pr_lexer :: lexer
  pr_last :: token_type

definition get_token :: "parser \<Rightarrow> parser res" where
  "get_token p = rbind (scan (pr_lexer p)) (\<lambda>(t, lx). Inr \<lparr>pr_lexer = lx, pr_last = t\<rparr>)"

text \<open>
  How a part of the loop ends: with a value to read next, with the state to be evaluated next, or with the result of
  \<^verbatim>\<open>sax_parse_internal\<close>.
\<close>

datatype parse_move = to_value | to_evaluation | stop_parse bool

type_synonym parse_state = "bool list \<times> parser \<times> dom"

text \<open>\<^verbatim>\<open>sax->parse_error\<close>: it throws unless exceptions are switched off.\<close>

definition dom_parse_error :: "bool \<Rightarrow> cxx_exn \<Rightarrow> parse_state \<Rightarrow> (parse_move \<times> parse_state) res" where
  "dom_parse_error allow_exceptions ex st = (if allow_exceptions then Inl (Uncaught ex) else Inr (stop_parse False, st))"

text \<open>The key, the separator and the first token of the value of a member; the last token is the one of the key.\<close>

definition parse_member :: "bool \<Rightarrow> bool list \<Rightarrow> parser \<Rightarrow> dom \<Rightarrow> bool list \<Rightarrow> (parse_move \<times> parse_state) res" where
  "parse_member allow states p d states' =
     (if pr_last p \<noteq> value_string then dom_parse_error allow (ParseError 101) (states, p, d)
      else rbind (dom_key (lx_buffer (pr_lexer p)) d) (\<lambda>d.
           rbind (get_token p) (\<lambda>p.
           if pr_last p \<noteq> name_separator then dom_parse_error allow (ParseError 101) (states, p, d)
           else rbind (get_token p) (\<lambda>p. Inr (to_value, states', p, d)))))"

definition parse_value :: "bool \<Rightarrow> bool list \<Rightarrow> parser \<Rightarrow> dom \<Rightarrow> (parse_move \<times> parse_state) res" where
  "parse_value allow states p d =
     (let leaf = (\<lambda>v. rbind (dom_value v d) (\<lambda>d. Inr (to_evaluation, states, p, d)))
      in case pr_last p of
           begin_object \<Rightarrow>
             rbind (start_object npos d) (\<lambda>d.
             rbind (get_token p) (\<lambda>p.
             if pr_last p = end_object then rbind (dom_end d) (\<lambda>d. Inr (to_evaluation, states, p, d))
             else parse_member allow states p d (False # states)))
         | begin_array \<Rightarrow>
             rbind (start_array npos d) (\<lambda>d.
             rbind (get_token p) (\<lambda>p.
             if pr_last p = end_array then rbind (dom_end d) (\<lambda>d. Inr (to_evaluation, states, p, d))
             else Inr (to_value, True # states, p, d)))
         | value_float \<Rightarrow>
             (let x = lx_float (pr_lexer p)
              in if take_bit 11 (drop_bit 52 x) = 2047 then dom_parse_error allow (OutOfRange 406) (states, p, d)
                 else leaf (JFloat x))
         | literal_false \<Rightarrow> leaf (JBoolean False)
         | literal_null \<Rightarrow> leaf JNull
         | literal_true \<Rightarrow> leaf (JBoolean True)
         | value_integer \<Rightarrow> leaf (JInteger (lx_integer (pr_lexer p)))
         | value_string \<Rightarrow> leaf (JString (lx_buffer (pr_lexer p)))
         | value_unsigned \<Rightarrow> leaf (JUnsigned (lx_unsigned (pr_lexer p)))
         | _ \<Rightarrow> dom_parse_error allow (ParseError 101) (states, p, d))"

text \<open>\<open>states\<close> with its back first: true for an array.\<close>

definition parse_evaluation :: "bool \<Rightarrow> bool list \<Rightarrow> parser \<Rightarrow> dom \<Rightarrow> (parse_move \<times> parse_state) res" where
  "parse_evaluation allow states p d =
     (case states of
        [] \<Rightarrow> Inr (stop_parse True, states, p, d)
      | is_array # outer \<Rightarrow>
          rbind (get_token p) (\<lambda>p.
          if is_array
          then if pr_last p = value_separator then rbind (get_token p) (\<lambda>p. Inr (to_value, states, p, d))
               else if pr_last p = end_array then rbind (dom_end d) (\<lambda>d. Inr (to_evaluation, outer, p, d))
               else dom_parse_error allow (ParseError 101) (states, p, d)
          else if pr_last p = value_separator then rbind (get_token p) (\<lambda>p. parse_member allow states p d states)
               else if pr_last p = end_object then rbind (dom_end d) (\<lambda>d. Inr (to_evaluation, outer, p, d))
               else dom_parse_error allow (ParseError 101) (states, p, d)))"

text \<open>Every part of the loop that is not its last reads on.\<close>

definition tokens_left :: "parser \<Rightarrow> nat" where
  "tokens_left p = 2 * length (lex_rest (pr_lexer p)) + of_bool (pr_last p \<notin> {end_of_input, parse_error})"

lemma get_token_left:
  assumes "get_token p = Inr p'"
  shows "length (lex_rest (pr_lexer p')) \<le> length (lex_rest (pr_lexer p))"
    "pr_last p' \<notin> {end_of_input, parse_error} \<Longrightarrow> length (lex_rest (pr_lexer p')) < length (lex_rest (pr_lexer p))"
  using assms by (auto simp: get_token_def rbind_Inr_iff ahead_def dest!: scan_ahead)

lemma tokens_left_less: "length (lex_rest (pr_lexer p')) < length (lex_rest (pr_lexer p)) \<Longrightarrow> tokens_left p' < tokens_left p"
  by (simp add: tokens_left_def)

lemma parse_member_left:
  assumes "parse_member allow states p d states' = Inr (m, st, p', d')" and "\<And>b. m \<noteq> stop_parse b"
  shows "length (lex_rest (pr_lexer p')) < length (lex_rest (pr_lexer p))"
proof -
  obtain p1 where p1: "get_token p = Inr p1" "pr_last p1 = name_separator" "get_token p1 = Inr p'"
    using assms by (auto simp: parse_member_def dom_parse_error_def rbind_Inr_iff split: if_splits)
  have "length (lex_rest (pr_lexer p1)) < length (lex_rest (pr_lexer p))"
    using get_token_left(2) [OF p1(1)] p1(2) by simp
  then show ?thesis using get_token_left(1) [OF p1(3)] by linarith
qed

lemma parse_evaluation_left:
  assumes "parse_evaluation allow states p d = Inr (m, st, p', d')" and "\<And>b. m \<noteq> stop_parse b"
  shows "length (lex_rest (pr_lexer p')) < length (lex_rest (pr_lexer p))"
proof -
  obtain p1 where p1: "get_token p = Inr p1" "pr_last p1 \<in> {value_separator, end_array, end_object}"
      "p' = p1 \<or> get_token p1 = Inr p' \<or> (\<exists>p2. get_token p1 = Inr p2 \<and> parse_member allow states p2 d states = Inr (m, st, p', d'))"
    using assms by (cases states) (auto simp: parse_evaluation_def dom_parse_error_def rbind_Inr_iff split: if_splits)
  have "length (lex_rest (pr_lexer p1)) < length (lex_rest (pr_lexer p))"
    using get_token_left(2) [OF p1(1)] p1(2) by auto
  moreover have "length (lex_rest (pr_lexer p')) \<le> length (lex_rest (pr_lexer p1))"
    using p1(3) get_token_left(1) parse_member_left [OF _ assms(2)] by fastforce
  ultimately show ?thesis by linarith
qed

lemma parse_value_left:
  assumes "parse_value allow states p d = Inr (m, st, p', d')"
  shows "m = to_value \<Longrightarrow> tokens_left p' < tokens_left p"
    "m = to_evaluation \<Longrightarrow> length (lex_rest (pr_lexer p')) \<le> length (lex_rest (pr_lexer p))"
proof -
  consider (obj) "pr_last p = begin_object" | (arr) "pr_last p = begin_array" | (other) "pr_last p \<notin> {begin_object, begin_array}" by blast
  then have "(m = to_value \<longrightarrow> tokens_left p' < tokens_left p)
    \<and> (m = to_evaluation \<longrightarrow> length (lex_rest (pr_lexer p')) \<le> length (lex_rest (pr_lexer p)))"
  proof cases
    case obj
    then obtain d1 p1 where p1: "get_token p = Inr p1"
        "p' = p1 \<and> m = to_evaluation \<or> parse_member allow states p1 d1 (False # states) = Inr (m, st, p', d')"
      using assms by (auto simp: parse_value_def rbind_Inr_iff split: if_splits)
    then have "length (lex_rest (pr_lexer p1)) \<le> length (lex_rest (pr_lexer p))" using get_token_left(1) by blast
    moreover have "(\<forall>b. m \<noteq> stop_parse b) \<Longrightarrow> m = to_evaluation \<and> p' = p1 \<or> length (lex_rest (pr_lexer p')) < length (lex_rest (pr_lexer p1))"
      using p1(2) parse_member_left by blast
    ultimately show ?thesis using tokens_left_less [of p' p] by fastforce
  next
    case arr
    then obtain d1 where p1: "get_token p = Inr p'"
      using assms by (auto simp: parse_value_def rbind_Inr_iff split: if_splits)
    show ?thesis
    proof (cases "pr_last p' \<in> {end_of_input, parse_error}")
      case True
      then show ?thesis using get_token_left(1) [OF p1] arr by (auto simp: tokens_left_def)
    next
      case False
      then show ?thesis using get_token_left(2) [OF p1] tokens_left_less by fastforce
    qed
  next
    case other
    then show ?thesis using assms
      by (cases "pr_last p") (auto simp: parse_value_def dom_parse_error_def rbind_Inr_iff Let_def split: if_splits)
  qed
  then show "m = to_value \<Longrightarrow> tokens_left p' < tokens_left p"
    "m = to_evaluation \<Longrightarrow> length (lex_rest (pr_lexer p')) \<le> length (lex_rest (pr_lexer p))" by blast+
qed

text \<open>The first part of the loop; \<open>skip\<close> is \<^verbatim>\<open>skip_to_state_evaluation\<close>.\<close>

definition parse_first :: "bool \<Rightarrow> bool \<Rightarrow> parse_state \<Rightarrow> (parse_move \<times> parse_state) res" where
  "parse_first allow skip st =
     (case st of (states, p, d) \<Rightarrow> if skip then Inr (to_evaluation, st) else parse_value allow states p d)"

definition parse_second :: "bool \<Rightarrow> parse_state \<Rightarrow> (parse_move \<times> parse_state) res" where
  "parse_second allow st = (case st of (states, p, d) \<Rightarrow> parse_evaluation allow states p d)"

lemma parse_first_left:
  "parse_first allow skip (states, p, d) = Inr (to_value, states', p', d') \<Longrightarrow> tokens_left p' < tokens_left p"
  "parse_first allow skip (states, p, d) = Inr (to_evaluation, states', p', d') \<Longrightarrow>
    length (lex_rest (pr_lexer p')) \<le> length (lex_rest (pr_lexer p))"
  using parse_value_left by (auto simp: parse_first_def split: if_splits)

lemma parse_second_left:
  "parse_second allow (states, p, d) = Inr (m, states', p', d') \<Longrightarrow> m = to_value \<or> m = to_evaluation \<Longrightarrow>
    length (lex_rest (pr_lexer p)) \<le> length (lex_rest (pr_lexer p0)) \<Longrightarrow> tokens_left p' < tokens_left p0"
  unfolding parse_second_def prod.case
  by (rule tokens_left_less, drule parse_evaluation_left) auto

function parse_loop :: "bool \<Rightarrow> bool \<Rightarrow> parse_state \<Rightarrow> (bool \<times> parse_state) res" where
  "parse_loop allow skip st =
     rbind (parse_first allow skip st) (\<lambda>(m, st). case m of
       to_value \<Rightarrow> parse_loop allow False st
     | stop_parse b \<Rightarrow> Inr (b, st)
     | to_evaluation \<Rightarrow>
         rbind (parse_second allow st) (\<lambda>(m, st). case m of
           to_value \<Rightarrow> parse_loop allow False st
         | stop_parse b \<Rightarrow> Inr (b, st)
         | to_evaluation \<Rightarrow> parse_loop allow True st))"
  by pat_completeness auto

termination parse_loop
proof (relation "measure (\<lambda>(allow, skip, states, p, d). tokens_left p)", simp, goal_cases)
  case (1 allow skip st r m st1)
  then show ?case by (cases st; cases st1) (auto dest: parse_first_left(1))
next
  case (2 allow skip st r m st1 r' m' st2)
  then show ?case by (cases st; cases st1; cases st2) (auto dest!: parse_first_left(2) intro: parse_second_left)
next
  case (3 allow skip st r m st1 r' m' st2)
  then show ?case by (cases st; cases st1; cases st2) (auto dest!: parse_first_left(2) intro: parse_second_left)
qed

declare parse_loop.simps [simp del]

text \<open>The member function \<^verbatim>\<open>parse\<close> of the class, and of a value, where it is strict.\<close>

definition parser_parse :: "bool \<Rightarrow> bool \<Rightarrow> parser \<Rightarrow> json res" where
  "parser_parse allow_exceptions strict p =
     rbind (parse_loop allow_exceptions False ([], p, dom_init)) (\<lambda>(ok, states, p, d).
     rbind (if strict then get_token p else Inr p) (\<lambda>p.
     if strict \<and> pr_last p \<noteq> end_of_input
     then if allow_exceptions then Inl (Uncaught (ParseError 101)) else Inr JDiscarded
     else if ok then Inr (dm_root d) else Inr JDiscarded))"

definition json_parse :: "bool \<Rightarrow> bool \<Rightarrow> u8 \<Rightarrow> bytes \<Rightarrow> json res" where
  "json_parse allow_exceptions ignore_comments point i =
     rbind (get_token \<lparr>pr_lexer = lexer_ctor ignore_comments point i, pr_last = uninitialized\<rparr>) (parser_parse allow_exceptions True)"

end
