(* ===== verification/Dtoa.thy ===== *)
theory Dtoa
  imports BTRx_Prelude
begin

text \<open>
  How the JSON library writes a double (\<^verbatim>\<open>namespace dtoa_impl\<close> of \<^verbatim>\<open>include/json/json.hpp\<close>): the algorithm Grisu2,
  which finds the digits of a short decimal number between the two halfway points to the neighbouring doubles.
  A double is its 64 IEEE bits.
\<close>

section \<open>Numbers f times two to the e\<close>

record diyfp =
  df_f :: u64
  df_e :: int

definition mk_diyfp :: "u64 \<Rightarrow> int \<Rightarrow> diyfp" where
  "mk_diyfp f e = \<lparr>df_f = f, df_e = e\<rparr>"

definition diyfp_sub :: "diyfp \<Rightarrow> diyfp \<Rightarrow> diyfp res" where
  "diyfp_sub x y = (if df_e x = df_e y \<and> df_f y \<le> df_f x then Inr (mk_diyfp (df_f x - df_f y) (df_e x)) else Inl AssertFail)"

definition diyfp_mul :: "diyfp \<Rightarrow> diyfp \<Rightarrow> diyfp" where
  "diyfp_mul x y =
     (let u_lo = df_f x AND 0xFFFFFFFF; u_hi = drop_bit 32 (df_f x);
          v_lo = df_f y AND 0xFFFFFFFF; v_hi = drop_bit 32 (df_f y);
          p0 = u_lo * v_lo; p1 = u_lo * v_hi; p2 = u_hi * v_lo; p3 = u_hi * v_hi;
          p0_hi = drop_bit 32 p0; p1_lo = p1 AND 0xFFFFFFFF; p1_hi = drop_bit 32 p1;
          p2_lo = p2 AND 0xFFFFFFFF; p2_hi = drop_bit 32 p2;
          Q = p0_hi + p1_lo + p2_lo;
          Q = Q + push_bit (64 - 32 - 1) 1;
          h = p3 + p2_hi + p1_hi + drop_bit 32 Q
      in mk_diyfp h (df_e x + df_e y + 64))"

text \<open>The loop leaves a significand that is not zero not zero, so the assertion in front of it can stand inside.\<close>

function diyfp_normalize :: "diyfp \<Rightarrow> diyfp res" where
  "diyfp_normalize x =
     (if df_f x = 0 then Inl AssertFail
      else if drop_bit 63 (df_f x) = 0 then diyfp_normalize (mk_diyfp (push_bit 1 (df_f x)) (df_e x - 1))
      else Inr x)"
  by pat_completeness auto

lemma double_grows:
  fixes f :: u64
  assumes "f \<noteq> 0" and "drop_bit 63 f = 0"
  shows "unat (push_bit 1 f) = 2 * unat f"
proof -
  have "drop_bit 63 (unat f) = 0" using assms(2) unat_drop_bit_eq [of 63 f] by simp
  then have "unat f div 2 ^ 63 = 0" by (simp only: drop_bit_eq_div)
  then have "unat f < 2 ^ 63" by (simp add: div_eq_0_iff)
  then show ?thesis by (simp add: push_bit_eq_mult unat_word_ariths)
qed

termination diyfp_normalize
proof (relation "measure (\<lambda>x. 2 ^ 64 - unat (df_f x))", simp, simp only: in_measure mk_diyfp_def diyfp.simps)
  fix x assume f: "df_f x \<noteq> 0" "drop_bit 63 (df_f x) = 0"
  have "0 < unat (df_f x)" using f(1) by (simp add: unat_gt_0)
  moreover have "unat (push_bit 1 (df_f x)) < 2 ^ 64" using unsigned_less [of "push_bit 1 (df_f x)"] by simp
  ultimately show "2 ^ 64 - unat (push_bit 1 (df_f x)) < 2 ^ 64 - unat (df_f x)"
    using double_grows [OF f] by linarith
qed

declare diyfp_normalize.simps [simp del]

definition diyfp_normalize_to :: "diyfp \<Rightarrow> int \<Rightarrow> diyfp res" where
  "diyfp_normalize_to x target_exponent =
     (let delta = df_e x - target_exponent
      in if delta < 0 then Inl AssertFail
         else if 64 \<le> delta then Inl (UB ShiftRange)
         else if drop_bit (nat delta) (push_bit (nat delta) (df_f x)) \<noteq> df_f x then Inl AssertFail
         else Inr (mk_diyfp (push_bit (nat delta) (df_f x)) target_exponent))"

section \<open>The halfway points to the neighbours\<close>

definition dbl_finite :: "u64 \<Rightarrow> bool" where
  "dbl_finite d \<longleftrightarrow> take_bit 11 (drop_bit 52 d) \<noteq> 2047"

definition dbl_signbit :: "u64 \<Rightarrow> bool" where
  "dbl_signbit d \<longleftrightarrow> bit d 63"

definition dbl_positive :: "u64 \<Rightarrow> bool" where
  "dbl_positive d \<longleftrightarrow> \<not> bit d 63 \<and> d \<noteq> 0"

record boundaries =
  bd_w :: diyfp
  bd_minus :: diyfp
  bd_plus :: diyfp

definition compute_boundaries :: "u64 \<Rightarrow> boundaries res" where
  "compute_boundaries v =
     (if \<not> dbl_finite v \<or> \<not> dbl_positive v then Inl AssertFail
      else let E = drop_bit 52 v; F = v AND (push_bit 52 1 - 1);
               x = (if E = 0 then mk_diyfp F (-1074) else mk_diyfp (F + push_bit 52 1) (int (unat E) - 1075));
               lower_boundary_is_closer = (F = 0 \<and> 1 < E);
               m_plus = mk_diyfp (2 * df_f x + 1) (df_e x - 1);
               m_minus = (if lower_boundary_is_closer then mk_diyfp (4 * df_f x - 1) (df_e x - 2)
                          else mk_diyfp (2 * df_f x - 1) (df_e x - 1))
           in rbind (diyfp_normalize m_plus) (\<lambda>w_plus.
              rbind (diyfp_normalize_to m_minus (df_e w_plus)) (\<lambda>w_minus.
              rbind (diyfp_normalize x) (\<lambda>w.
              Inr \<lparr>bd_w = w, bd_minus = w_minus, bd_plus = w_plus\<rparr>))))"

section \<open>Powers of ten\<close>

definition kCachedPowers :: "(u64 \<times> int \<times> int) list" where
  "kCachedPowers =
    [(0xAB70FE17C79AC6CA, -1060, -300),
     (0xFF77B1FCBEBCDC4F, -1034, -292),
     (0xBE5691EF416BD60C, -1007, -284),
     (0x8DD01FAD907FFC3C, -980, -276),
     (0xD3515C2831559A83, -954, -268),
     (0x9D71AC8FADA6C9B5, -927, -260),
     (0xEA9C227723EE8BCB, -901, -252),
     (0xAECC49914078536D, -874, -244),
     (0x823C12795DB6CE57, -847, -236),
     (0xC21094364DFB5637, -821, -228),
     (0x9096EA6F3848984F, -794, -220),
     (0xD77485CB25823AC7, -768, -212),
     (0xA086CFCD97BF97F4, -741, -204),
     (0xEF340A98172AACE5, -715, -196),
     (0xB23867FB2A35B28E, -688, -188),
     (0x84C8D4DFD2C63F3B, -661, -180),
     (0xC5DD44271AD3CDBA, -635, -172),
     (0x936B9FCEBB25C996, -608, -164),
     (0xDBAC6C247D62A584, -582, -156),
     (0xA3AB66580D5FDAF6, -555, -148),
     (0xF3E2F893DEC3F126, -529, -140),
     (0xB5B5ADA8AAFF80B8, -502, -132),
     (0x87625F056C7C4A8B, -475, -124),
     (0xC9BCFF6034C13053, -449, -116),
     (0x964E858C91BA2655, -422, -108),
     (0xDFF9772470297EBD, -396, -100),
     (0xA6DFBD9FB8E5B88F, -369, -92),
     (0xF8A95FCF88747D94, -343, -84),
     (0xB94470938FA89BCF, -316, -76),
     (0x8A08F0F8BF0F156B, -289, -68),
     (0xCDB02555653131B6, -263, -60),
     (0x993FE2C6D07B7FAC, -236, -52),
     (0xE45C10C42A2B3B06, -210, -44),
     (0xAA242499697392D3, -183, -36),
     (0xFD87B5F28300CA0E, -157, -28),
     (0xBCE5086492111AEB, -130, -20),
     (0x8CBCCC096F5088CC, -103, -12),
     (0xD1B71758E219652C, -77, -4),
     (0x9C40000000000000, -50, 4),
     (0xE8D4A51000000000, -24, 12),
     (0xAD78EBC5AC620000, 3, 20),
     (0x813F3978F8940984, 30, 28),
     (0xC097CE7BC90715B3, 56, 36),
     (0x8F7E32CE7BEA5C70, 83, 44),
     (0xD5D238A4ABE98068, 109, 52),
     (0x9F4F2726179A2245, 136, 60),
     (0xED63A231D4C4FB27, 162, 68),
     (0xB0DE65388CC8ADA8, 189, 76),
     (0x83C7088E1AAB65DB, 216, 84),
     (0xC45D1DF942711D9A, 242, 92),
     (0x924D692CA61BE758, 269, 100),
     (0xDA01EE641A708DEA, 295, 108),
     (0xA26DA3999AEF774A, 322, 116),
     (0xF209787BB47D6B85, 348, 124),
     (0xB454E4A179DD1877, 375, 132),
     (0x865B86925B9BC5C2, 402, 140),
     (0xC83553C5C8965D3D, 428, 148),
     (0x952AB45CFA97A0B3, 455, 156),
     (0xDE469FBD99A05FE3, 481, 164),
     (0xA59BC234DB398C25, 508, 172),
     (0xF6C69A72A3989F5C, 534, 180),
     (0xB7DCBF5354E9BECE, 561, 188),
     (0x88FCF317F22241E2, 588, 196),
     (0xCC20CE9BD35C78A5, 614, 204),
     (0x98165AF37B2153DF, 641, 212),
     (0xE2A0B5DC971F303A, 667, 220),
     (0xA8D9D1535CE3B396, 694, 228),
     (0xFB9B7CD9A4A7443C, 720, 236),
     (0xBB764C4CA7A44410, 747, 244),
     (0x8BAB8EEFB6409C1A, 774, 252),
     (0xD01FEF10A657842C, 800, 260),
     (0x9B10A4E5E9913129, 827, 268),
     (0xE7109BFBA19C0C9D, 853, 276),
     (0xAC2820D9623BF429, 880, 284),
     (0x80444B5E7AA7CF85, 907, 292),
     (0xBF21E44003ACDD2D, 933, 300),
     (0x8E679C2F5E44FF8F, 960, 308),
     (0xD433179D9C8CB841, 986, 316),
     (0x9E19DB92B4E31BA9, 1013, 324)]"

definition get_cached_power_for_binary_exponent :: "int \<Rightarrow> (u64 \<times> int \<times> int) res" where
  "get_cached_power_for_binary_exponent e =
     (if e < -1500 \<or> 1500 < e then Inl AssertFail
      else let f = -60 - e - 1;
               k = c_div (f * 78913) (2 ^ 18) + of_bool (0 < f);
               index = c_div (300 + k + (8 - 1)) 8
           in if index < 0 \<or> 79 \<le> index then Inl AssertFail
              else let (cf, ce, ck) = kCachedPowers ! nat index
                   in if -60 \<le> ce + e + 64 \<and> ce + e + 64 \<le> -32 then Inr (cf, ce, ck) else Inl AssertFail)"

text \<open>The number of digits and the power of ten of the first one.\<close>

definition find_largest_pow10 :: "u32 \<Rightarrow> nat \<times> u32" where
  "find_largest_pow10 n =
     (if 1000000000 \<le> n then (10, 1000000000)
      else if 100000000 \<le> n then (9, 100000000)
      else if 10000000 \<le> n then (8, 10000000)
      else if 1000000 \<le> n then (7, 1000000)
      else if 100000 \<le> n then (6, 100000)
      else if 10000 \<le> n then (5, 10000)
      else if 1000 \<le> n then (4, 1000)
      else if 100 \<le> n then (3, 100)
      else if 10 \<le> n then (2, 10)
      else (1, 1))"

section \<open>Digit generation\<close>

text \<open>The loop of \<^verbatim>\<open>grisu2_round\<close> on the last digit: lower it while that gets closer to the number itself.\<close>

function round_loop :: "u8 \<Rightarrow> u64 \<Rightarrow> u64 \<Rightarrow> u64 \<Rightarrow> u64 \<Rightarrow> u8 res" where
  "round_loop c dist delta rst ten_k =
     (if rst < dist \<and> ten_k \<le> delta - rst \<and> (rst + ten_k < dist \<or> rst + ten_k - dist < dist - rst)
      then if c = 0x30 then Inl AssertFail else round_loop (c - 1) dist delta (rst + ten_k) ten_k
      else Inr c)"
  by pat_completeness auto

termination round_loop
proof (relation "measure (\<lambda>(c, _). unat (c - 0x30))", simp, simp only: in_measure prod.case)
  fix c :: u8 assume c: "c \<noteq> 0x30"
  have "c - 0x30 \<noteq> 0" using c by simp
  then have "unat (c - 0x30 - 1) = unat (c - 0x30) - 1" "0 < unat (c - 0x30)" by (rule unat_minus_one, simp add: unat_gt_0)
  then have "unat (c - 0x30 - 1) < unat (c - 0x30)" by linarith
  then show "unat (c - 1 - 0x30) < unat (c - 0x30)" by (simp only: diff_right_commute [of c 1])
qed

declare round_loop.simps [simp del]

definition grisu2_round :: "bytes \<Rightarrow> u64 \<Rightarrow> u64 \<Rightarrow> u64 \<Rightarrow> u64 \<Rightarrow> bytes res" where
  "grisu2_round buf dist delta rst ten_k =
     (if buf = [] \<or> delta < dist \<or> delta < rst \<or> ten_k = 0 then Inl AssertFail
      else rbind (round_loop (last buf) dist delta rst ten_k) (\<lambda>c. Inr (butlast buf @ [c])))"

text \<open>
  The digits behind the decimal point. Every turn makes the fraction divisible by another power of two, so after
  at most 64 of them nothing is left of it.
\<close>

definition kept_bits :: "u64 \<Rightarrow> nat set" where
  "kept_bits x = {i. i \<le> 64 \<and> take_bit i x \<noteq> 0}"

lemma kept_bits_shrink:
  fixes x :: u64
  assumes "10 * x AND y \<noteq> 0"
  shows "kept_bits (10 * x AND y) \<subset> kept_bits x"
proof -
  have ten: "take_bit (Suc i) (10 * x) = 0" if "take_bit i x = 0" for i
  proof -
    have "x = push_bit i (drop_bit i x)" using bits_ident [of i x] that by simp
    moreover have "10 * push_bit i d = push_bit (Suc i) (5 * d)" for d :: u64
      by (simp add: push_bit_eq_mult algebra_simps)
    ultimately have "10 * x = push_bit (Suc i) (5 * drop_bit i x)" by metis
    then show ?thesis by (simp only: take_bit_push_bit diff_self_eq_0 take_bit_0 push_bit_of_0)
  qed
  have zero: "take_bit i x = 0 \<Longrightarrow> take_bit j (10 * x AND y) = 0" if "j \<le> Suc i" for i j
  proof -
    assume "take_bit i x = 0"
    then have "take_bit j (take_bit (Suc i) (10 * x)) = 0" using ten by simp
    then show ?thesis using that by (simp add: take_bit_take_bit min_def take_bit_and)
  qed
  have x: "x \<noteq> 0" using assms by auto
  define t where "t = (LEAST i. take_bit i x \<noteq> 0)"
  have "take_bit 64 x \<noteq> 0" using x by (simp add: take_bit_word_eq_self)
  then have t: "take_bit t x \<noteq> 0" "t \<le> 64" unfolding t_def by (rule LeastI, rule Least_le)
  have "t \<noteq> 0" using t(1) by (metis take_bit_0)
  moreover have "take_bit (t - 1) x = 0" using \<open>t \<noteq> 0\<close> not_less_Least [of "t - 1" "\<lambda>i. take_bit i x \<noteq> 0"] unfolding t_def by auto
  ultimately have "take_bit t (10 * x AND y) = 0" using zero [of t "t - 1"] by simp
  then have "t \<notin> kept_bits (10 * x AND y)" "t \<in> kept_bits x" using t by (simp_all add: kept_bits_def)
  moreover have "kept_bits (10 * x AND y) \<subseteq> kept_bits x"
    using zero [OF le_SucI [OF order_refl]] by (auto simp: kept_bits_def)
  ultimately show ?thesis by blast
qed

function digits_fract :: "nat \<Rightarrow> nat \<Rightarrow> u64 \<Rightarrow> u64 \<Rightarrow> u64 \<Rightarrow> bytes \<Rightarrow> (bytes \<times> nat) res" where
  "digits_fract s m p2 delta dist buf =
     (if 1844674407370955161 < p2 then Inl AssertFail
      else let p2 = 10 * p2; d = drop_bit s p2; r = p2 AND (push_bit s 1 - 1)
           in if 9 < d then Inl AssertFail
              else let buf = buf @ [0x30 + ucast d]; p2 = r; m = m + 1; delta = delta * 10; dist = dist * 10
                   in if p2 \<le> delta then rbind (grisu2_round buf dist delta p2 (push_bit s 1)) (\<lambda>buf. Inr (buf, m))
                      else digits_fract s m p2 delta dist buf)"
  by pat_completeness auto

termination digits_fract
proof (relation "measure (\<lambda>(s, m, p2, _). card (kept_bits p2))", simp, simp only: in_measure prod.case)
  fix s and p2 delta :: u64
  assume "\<not> 10 * p2 AND (push_bit s 1 - 1) \<le> delta * 10"
  then have "10 * p2 AND (push_bit s 1 - 1) \<noteq> 0" by auto
  from kept_bits_shrink [OF this] show "card (kept_bits (10 * p2 AND (push_bit s 1 - 1))) < card (kept_bits p2)"
    by (intro psubset_card_mono) (simp_all add: kept_bits_def)
qed

declare digits_fract.simps [simp del]

text \<open>The digits before the decimal point, and the rest of \<^verbatim>\<open>grisu2_digit_gen\<close>.\<close>

fun digits_int :: "nat \<Rightarrow> nat \<Rightarrow> u32 \<Rightarrow> u32 \<Rightarrow> u64 \<Rightarrow> u64 \<Rightarrow> u64 \<Rightarrow> int \<Rightarrow> bytes \<Rightarrow> (bytes \<times> int) res" where
  "digits_int s 0 p1 pow10 p2 delta dist decimal_exponent buf =
     (if p2 \<le> delta then Inl AssertFail
      else rbind (digits_fract s 0 p2 delta dist buf) (\<lambda>(buf, m). Inr (buf, decimal_exponent - int m)))"
| "digits_int s (Suc n) p1 pow10 p2 delta dist decimal_exponent buf =
     (if pow10 = 0 then Inl (UB DivByZero)
      else let d = p1 div pow10; r = p1 mod pow10
           in if 9 < d then Inl AssertFail
              else let buf = buf @ [0x30 + ucast d]; p1 = r; rst = push_bit s (ucast p1) + p2
                   in if rst \<le> delta
                      then rbind (grisu2_round buf dist delta rst (push_bit s (ucast pow10))) (\<lambda>buf.
                           Inr (buf, decimal_exponent + int n))
                      else digits_int s n p1 (pow10 div 10) p2 delta dist decimal_exponent buf)"

definition grisu2_digit_gen :: "int \<Rightarrow> diyfp \<Rightarrow> diyfp \<Rightarrow> diyfp \<Rightarrow> (bytes \<times> int) res" where
  "grisu2_digit_gen decimal_exponent M_minus w M_plus =
     (if df_e M_plus < -60 \<or> -32 < df_e M_plus then Inl AssertFail
      else rbind (diyfp_sub M_plus M_minus) (\<lambda>delta.
           rbind (diyfp_sub M_plus w) (\<lambda>dist.
           let s = nat (- df_e M_plus); one = push_bit s 1 :: u64;
               p1 = ucast (drop_bit s (df_f M_plus)); p2 = df_f M_plus AND (one - 1)
           in if p1 = 0 then Inl AssertFail
              else let (k, pow10) = find_largest_pow10 p1
                   in digits_int s k p1 pow10 p2 (df_f delta) (df_f dist) decimal_exponent [])))"

definition grisu2_diyfp :: "diyfp \<Rightarrow> diyfp \<Rightarrow> diyfp \<Rightarrow> (bytes \<times> int) res" where
  "grisu2_diyfp m_minus v m_plus =
     (if df_e m_plus \<noteq> df_e m_minus \<or> df_e m_plus \<noteq> df_e v then Inl AssertFail
      else rbind (get_cached_power_for_binary_exponent (df_e m_plus)) (\<lambda>(cf, ce, ck).
           let c_minus_k = mk_diyfp cf ce;
               w = diyfp_mul v c_minus_k; w_minus = diyfp_mul m_minus c_minus_k; w_plus = diyfp_mul m_plus c_minus_k;
               M_minus = mk_diyfp (df_f w_minus + 1) (df_e w_minus); M_plus = mk_diyfp (df_f w_plus - 1) (df_e w_plus)
           in grisu2_digit_gen (- ck) M_minus w M_plus))"

definition grisu2 :: "u64 \<Rightarrow> (bytes \<times> int) res" where
  "grisu2 v =
     (if \<not> dbl_finite v \<or> \<not> dbl_positive v then Inl AssertFail
      else rbind (compute_boundaries v) (\<lambda>w. grisu2_diyfp (bd_minus w) (bd_w w) (bd_plus w)))"

section \<open>Formatting\<close>

definition append_exponent :: "int \<Rightarrow> bytes res" where
  "append_exponent e =
     (if e \<le> -1000 \<or> 1000 \<le> e then Inl AssertFail
      else let sign = (if e < 0 then 0x2D else 0x2B); k = nat \<bar>e\<bar>
           in Inr (sign # (if k < 10 then [0x30, 0x30 + of_nat k]
                           else if k < 100 then [0x30 + of_nat (k div 10), 0x30 + of_nat (k mod 10)]
                           else [0x30 + of_nat (k div 100), 0x30 + of_nat (k mod 100 div 10), 0x30 + of_nat (k mod 100 mod 10)])))"

text \<open>The text from \<^verbatim>\<open>buf\<close> to the pointer returned; \<open>buf\<close> holds the digits.\<close>

definition format_buffer :: "bytes \<Rightarrow> int \<Rightarrow> int \<Rightarrow> int \<Rightarrow> bytes res" where
  "format_buffer buf decimal_exponent min_exp max_exp =
     (if 0 \<le> min_exp \<or> max_exp \<le> 0 then Inl AssertFail
      else let k = int (length buf); n = k + decimal_exponent
           in if k \<le> n \<and> n \<le> max_exp then Inr (buf @ replicate (nat n - nat k) 0x30 @ [0x2E, 0x30])
              else if 0 < n \<and> n \<le> max_exp
              then if n < k then Inr (take (nat n) buf @ 0x2E # drop (nat n) buf) else Inl AssertFail
              else if min_exp < n \<and> n \<le> 0 then Inr ([0x30, 0x2E] @ replicate (nat (- n)) 0x30 @ buf)
              else rbind (append_exponent (n - 1)) (\<lambda>ex.
                   Inr ((if k = 1 then buf else take 1 buf @ 0x2E # drop 1 buf) @ 0x65 # ex)))"

text \<open>\<open>room\<close> is how many bytes the caller's buffer has.\<close>

definition to_chars :: "nat \<Rightarrow> u64 \<Rightarrow> bytes res" where
  "to_chars room v =
     (if \<not> dbl_finite v then Inl AssertFail
      else let sign = (if dbl_signbit v then [0x2D] else []); v = take_bit 63 v; room = int room - int (length sign)
           in if v = 0 then Inr (sign @ [0x30, 0x2E, 0x30])
              else if room < 17 then Inl AssertFail
              else rbind (grisu2 v) (\<lambda>(buf, decimal_exponent).
                   if 17 < length buf \<or> room < 15 + 2 \<or> room < 2 + (4 - 1) + 17 \<or> room < 17 + 6 then Inl AssertFail
                   else rbind (format_buffer buf decimal_exponent (-4) 15) (\<lambda>text. Inr (sign @ text))))"

end
