(* ===== verification/JsonDump.thy ===== *)
theory JsonDump
  imports Json Dtoa
begin

text \<open>
  Writing JSON text (class \<^verbatim>\<open>serializer\<close> of \<^verbatim>\<open>include/json/json.hpp\<close>): escaped strings, integers, and values with or
  without indentation.
\<close>

section \<open>State\<close>

datatype error_handler_t = eh_strict | eh_replace | eh_ignore

text \<open>The output written so far, the indentation string, and the two options that are fields.\<close>

record serializer =
  sr_out :: bytes
  sr_indent_string :: bytes
  sr_indent_char :: u8
  sr_handler :: error_handler_t

definition write_characters :: "bytes \<Rightarrow> serializer \<Rightarrow> serializer" where
  "write_characters bs s = s\<lparr>sr_out := sr_out s @ bs\<rparr>"

section \<open>Escaped strings\<close>

text \<open>The table of the UTF-8 automaton: classes of bytes, then one row of 16 for each of the states 0 to 8.\<close>

definition utf8d :: "nat list" where
  "utf8d = concat
    [[0, 0, 0, 0, 0, 0, 0, 0, 0, 0, 0, 0, 0, 0, 0, 0, 0, 0, 0, 0, 0, 0, 0, 0, 0, 0, 0, 0, 0, 0, 0, 0],
     [0, 0, 0, 0, 0, 0, 0, 0, 0, 0, 0, 0, 0, 0, 0, 0, 0, 0, 0, 0, 0, 0, 0, 0, 0, 0, 0, 0, 0, 0, 0, 0],
     [0, 0, 0, 0, 0, 0, 0, 0, 0, 0, 0, 0, 0, 0, 0, 0, 0, 0, 0, 0, 0, 0, 0, 0, 0, 0, 0, 0, 0, 0, 0, 0],
     [0, 0, 0, 0, 0, 0, 0, 0, 0, 0, 0, 0, 0, 0, 0, 0, 0, 0, 0, 0, 0, 0, 0, 0, 0, 0, 0, 0, 0, 0, 0, 0],
     [1, 1, 1, 1, 1, 1, 1, 1, 1, 1, 1, 1, 1, 1, 1, 1, 9, 9, 9, 9, 9, 9, 9, 9, 9, 9, 9, 9, 9, 9, 9, 9],
     [7, 7, 7, 7, 7, 7, 7, 7, 7, 7, 7, 7, 7, 7, 7, 7, 7, 7, 7, 7, 7, 7, 7, 7, 7, 7, 7, 7, 7, 7, 7, 7],
     [8, 8, 2, 2, 2, 2, 2, 2, 2, 2, 2, 2, 2, 2, 2, 2, 2, 2, 2, 2, 2, 2, 2, 2, 2, 2, 2, 2, 2, 2, 2, 2],
     [10, 3, 3, 3, 3, 3, 3, 3, 3, 3, 3, 3, 3, 4, 3, 3],
     [11, 6, 6, 6, 5, 8, 8, 8, 8, 8, 8, 8, 8, 8, 8, 8],
     [0, 1, 2, 3, 5, 8, 7, 1, 1, 1, 4, 6, 1, 1, 1, 1],
     [1, 1, 1, 1, 1, 1, 1, 1, 1, 1, 1, 1, 1, 1, 1, 1, 1, 0, 1, 1, 1, 1, 1, 0, 1, 0, 1, 1, 1, 1, 1, 1],
     [1, 2, 1, 1, 1, 1, 1, 2, 1, 2, 1, 1, 1, 1, 1, 1, 1, 1, 1, 1, 1, 1, 1, 2, 1, 1, 1, 1, 1, 1, 1, 1],
     [1, 2, 1, 1, 1, 1, 1, 1, 1, 2, 1, 1, 1, 1, 1, 1, 1, 1, 1, 1, 1, 1, 1, 3, 1, 3, 1, 1, 1, 1, 1, 1],
     [1, 3, 1, 1, 1, 1, 1, 3, 1, 3, 1, 1, 1, 1, 1, 1, 1, 3, 1, 1, 1, 1, 1, 1, 1, 1, 1, 1, 1, 1, 1, 1]]"

definition utf8_decode :: "u8 \<Rightarrow> u32 \<Rightarrow> u8 \<Rightarrow> (u8 \<times> u32) res" where
  "utf8_decode state codep byte =
     (let t = utf8d ! unat byte;
          codep = (if state \<noteq> 0 then (ucast byte AND 0x3F) OR push_bit 6 codep else drop_bit t 0xFF AND ucast byte);
          index = 256 + unat state * 16 + t
      in if 400 \<le> index then Inl AssertFail else Inr (of_nat (utf8d ! index), codep))"

text \<open>
  The local variables of \<^verbatim>\<open>dump_escaped\<close>: state and code point of the automaton, \<^verbatim>\<open>string_buffer\<close> up to \<^verbatim>\<open>bytes\<close>,
  \<^verbatim>\<open>bytes_after_last_accept\<close> and \<^verbatim>\<open>undumped_chars\<close>; and what has been written.
\<close>

record esc =
  es_state :: u8
  es_codepoint :: u32
  es_buf :: bytes
  es_last_accept :: nat
  es_undumped :: nat
  es_out :: bytes

text \<open>\<open>n\<close> bytes are written to the buffer of 512, of which \<open>bs\<close> count.\<close>

definition buf_put :: "nat \<Rightarrow> bytes \<Rightarrow> esc \<Rightarrow> esc res" where
  "buf_put n bs e = (if 512 < length (es_buf e) + n then Inl (UB OutOfBounds) else Inr (e\<lparr>es_buf := es_buf e @ bs\<rparr>))"

definition hex_digit :: "nat \<Rightarrow> u8" where
  "hex_digit d = (if d < 10 then 0x30 + of_nat d else 0x57 + of_nat d)"

text \<open>\<^verbatim>\<open>\u%04x\<close>.\<close>

definition u_escape :: "u16 \<Rightarrow> bytes" where
  "u_escape w = [0x5C, 0x75] @ map (\<lambda>i. hex_digit (unat w div 16 ^ i mod 16)) [3, 2, 1, 0]"

definition buf_flush :: "esc \<Rightarrow> esc" where
  "buf_flush e = (if 512 - length (es_buf e) < 13 then e\<lparr>es_out := es_out e @ es_buf e, es_buf := []\<rparr> else e)"

text \<open>A code point is complete; \<open>b\<close> is its last byte.\<close>

definition escape_accept :: "bool \<Rightarrow> u8 \<Rightarrow> esc \<Rightarrow> esc res" where
  "escape_accept ensure_ascii b e =
     (let cp = es_codepoint e in
      rbind (if cp = 0x08 then buf_put 2 [0x5C, 0x62] e
             else if cp = 0x09 then buf_put 2 [0x5C, 0x74] e
             else if cp = 0x0A then buf_put 2 [0x5C, 0x6E] e
             else if cp = 0x0C then buf_put 2 [0x5C, 0x66] e
             else if cp = 0x0D then buf_put 2 [0x5C, 0x72] e
             else if cp = 0x22 then buf_put 2 [0x5C, 0x22] e
             else if cp = 0x5C then buf_put 2 [0x5C, 0x5C] e
             else if cp \<le> 0x1F \<or> ensure_ascii \<and> 0x7F \<le> cp
             then if cp \<le> 0xFFFF then buf_put 7 (u_escape (ucast cp)) e
                  else buf_put 13 (u_escape (ucast (0xD7C0 + drop_bit 10 cp)) @ u_escape (ucast (0xDC00 + (cp AND 0x3FF)))) e
             else buf_put 1 [b] e) (\<lambda>e.
      let e = buf_flush e in Inr (e\<lparr>es_last_accept := length (es_buf e), es_undumped := 0\<rparr>)))"

definition replacement :: "bool \<Rightarrow> bytes" where
  "replacement ensure_ascii = (if ensure_ascii then [0x5C, 0x75, 0x66, 0x66, 0x66, 0x64] else [0xEF, 0xBF, 0xBD])"

text \<open>A byte is wrong and the handler does not throw.\<close>

definition escape_reject :: "bool \<Rightarrow> bool \<Rightarrow> esc \<Rightarrow> esc res" where
  "escape_reject replace ensure_ascii e =
     (let e = e\<lparr>es_buf := take (es_last_accept e) (es_buf e)\<rparr>
      in if replace
         then rbind (buf_put (length (replacement ensure_ascii)) (replacement ensure_ascii) e) (\<lambda>e.
              let e = buf_flush e in Inr (e\<lparr>es_last_accept := length (es_buf e)\<rparr>))
         else Inr e)"

function escape_loop :: "error_handler_t \<Rightarrow> bool \<Rightarrow> bytes \<Rightarrow> esc \<Rightarrow> esc res" where
  "escape_loop h ensure_ascii [] e = Inr e"
| "escape_loop h ensure_ascii (b # s) e =
     rbind (utf8_decode (es_state e) (es_codepoint e) b) (\<lambda>(st, cp).
     let e = e\<lparr>es_state := st, es_codepoint := cp\<rparr>
     in if st = 0 then rbind (escape_accept ensure_ascii b e) (escape_loop h ensure_ascii s)
        else if st = 1
        then if h = eh_strict then Inl (Uncaught (TypeError 316))
             else rbind (escape_reject (h = eh_replace) ensure_ascii e) (\<lambda>e'.
                  escape_loop h ensure_ascii (if 0 < es_undumped e then b # s else s) (e'\<lparr>es_undumped := 0, es_state := 0\<rparr>))
        else rbind (if ensure_ascii then Inr e else buf_put 1 [b] e) (\<lambda>e.
             escape_loop h ensure_ascii s (e\<lparr>es_undumped := es_undumped e + 1\<rparr>)))"
  by pat_completeness auto

lemma escape_accept_undumped: "escape_accept a b e = Inr e' \<Longrightarrow> es_undumped e' = 0"
  by (auto simp: escape_accept_def Let_def rbind_Inr_iff)

termination escape_loop
  by (relation "measure (\<lambda>(h, a, s, e). 2 * length s + (if 0 < es_undumped e then 1 else 0))")
    (auto dest: escape_accept_undumped)

definition dump_escaped :: "bytes \<Rightarrow> bool \<Rightarrow> serializer \<Rightarrow> serializer res" where
  "dump_escaped s ensure_ascii sr =
     rbind (escape_loop (sr_handler sr) ensure_ascii s
       \<lparr>es_state = 0, es_codepoint = 0, es_buf = [], es_last_accept = 0, es_undumped = 0, es_out = []\<rparr>) (\<lambda>e.
     let sr = write_characters (es_out e) sr
     in if es_state e = 0 then Inr (write_characters (es_buf e) sr)
        else case sr_handler sr of
            eh_strict \<Rightarrow> Inl (Uncaught (TypeError 316))
          | eh_ignore \<Rightarrow> Inr (write_characters (take (es_last_accept e) (es_buf e)) sr)
          | eh_replace \<Rightarrow> Inr (write_characters (take (es_last_accept e) (es_buf e) @ replacement ensure_ascii) sr))"

section \<open>Integers\<close>

function count_digits :: "u64 \<Rightarrow> nat" where
  "count_digits x =
     (if x < 10 then 1 else if x < 100 then 2 else if x < 1000 then 3 else if x < 10000 then 4
      else count_digits (x div 10000) + 4)"
  by pat_completeness auto

termination count_digits
proof (relation "measure unat", simp, simp only: in_measure)
  fix x :: u64 assume "\<not> x < 10000"
  then have "10000 \<le> unat x" by (simp add: word_less_nat_alt)
  then show "unat (x div 10000) < unat x" by (simp add: unat_div)
qed

declare count_digits.simps [simp del]

definition digits_to_99 :: "nat \<Rightarrow> u8 \<times> u8" where
  "digits_to_99 i = (0x30 + of_nat (i div 10), 0x30 + of_nat (i mod 10))"

text \<open>\<open>*(--buffer_ptr) = c\<close>: the number's buffer is filled from its end.\<close>

definition put_back :: "u8 \<Rightarrow> nat \<times> bytes \<Rightarrow> (nat \<times> bytes) res" where
  "put_back c pb = (case pb of (p, buf) \<Rightarrow> if p = 0 then Inl (UB OutOfBounds) else Inr (p - 1, buf[p - 1 := c]))"

definition put_pair :: "nat \<Rightarrow> nat \<times> bytes \<Rightarrow> (nat \<times> bytes) res" where
  "put_pair i pb = rbind (put_back (snd (digits_to_99 i)) pb) (put_back (fst (digits_to_99 i)))"

function digit_loop :: "u64 \<Rightarrow> nat \<times> bytes \<Rightarrow> (nat \<times> bytes) res" where
  "digit_loop v pb =
     (if 100 \<le> v then rbind (put_pair (unat (v mod 100)) pb) (digit_loop (v div 100))
      else if 10 \<le> v then put_pair (unat v) pb
      else put_back (0x30 + ucast v) pb)"
  by pat_completeness auto

termination digit_loop
proof (relation "measure (\<lambda>(v, _). unat v)", simp, simp only: in_measure prod.case)
  fix v :: u64 assume "100 \<le> v"
  then have "100 \<le> unat v" by (simp add: word_le_nat_alt)
  then show "unat (v div 100) < unat v" by (simp add: unat_div)
qed

declare digit_loop.simps [simp del]

definition remove_sign :: "u64 \<Rightarrow> u64 res" where
  "remove_sign x = (if sint x < 0 then Inr (of_int (- (sint x + 1)) + 1) else Inl AssertFail)"

text \<open>\<open>is_signed\<close>: the instance for \<^verbatim>\<open>number_integer_t\<close>. Of the buffer only the \<^verbatim>\<open>n_chars\<close> bytes that are written out appear.\<close>

definition dump_integer :: "bool \<Rightarrow> u64 \<Rightarrow> serializer \<Rightarrow> serializer res" where
  "dump_integer is_signed x sr =
     (if x = 0 then Inr (write_characters [0x30] sr)
      else let is_negative = (is_signed \<and> sint x < 0)
           in rbind (if is_negative then remove_sign x else Inr x) (\<lambda>abs_value.
              let n_chars = of_bool is_negative + count_digits abs_value;
                  buf = (replicate n_chars 0)[0 := (if is_negative then 0x2D else 0)]
              in if 63 \<le> n_chars then Inl AssertFail
                 else rbind (digit_loop abs_value (n_chars, buf)) (\<lambda>(_, buf). Inr (write_characters buf sr))))"

definition dump_float :: "u64 \<Rightarrow> serializer \<Rightarrow> serializer res" where
  "dump_float x sr =
     (if \<not> dbl_finite x then Inr (write_characters (bytes_of ''null'') sr)
      else rbind (to_chars 64 x) (\<lambda>text. Inr (write_characters text sr)))"

section \<open>Values\<close>

text \<open>The first \<open>n\<close> characters of the indentation string, which ends in a NUL.\<close>

definition write_indent :: "u32 \<Rightarrow> serializer \<Rightarrow> serializer res" where
  "write_indent n sr =
     (if length (sr_indent_string sr) + 1 < unat n then Inl (UB OutOfBounds)
      else Inr (write_characters (take (unat n) (sr_indent_string sr @ [0])) sr))"

definition grow_indent :: "u32 \<Rightarrow> serializer \<Rightarrow> serializer" where
  "grow_indent new_indent sr =
     (let i = sr_indent_string sr
      in if length i < unat new_indent then sr\<lparr>sr_indent_string := i @ replicate (length i) 0x20\<rparr> else sr)"

text \<open>The two kinds of output differ in what stands around the parts of a container.\<close>

definition open_container :: "bool \<Rightarrow> u8 \<Rightarrow> u32 \<Rightarrow> serializer \<Rightarrow> serializer" where
  "open_container pretty c new_indent sr =
     (if pretty then grow_indent new_indent (write_characters [c, 0x0A] sr) else write_characters [c] sr)"

definition close_container :: "bool \<Rightarrow> u8 \<Rightarrow> u32 \<Rightarrow> serializer \<Rightarrow> serializer res" where
  "close_container pretty c current_indent sr =
     (if pretty then rbind (write_indent current_indent (write_characters [0x0A] sr)) (\<lambda>sr. Inr (write_characters [c] sr))
      else Inr (write_characters [c] sr))"

definition begin_part :: "bool \<Rightarrow> u32 \<Rightarrow> serializer \<Rightarrow> serializer res" where
  "begin_part pretty new_indent sr = (if pretty then write_indent new_indent sr else Inr sr)"

definition part_separator :: "bool \<Rightarrow> bytes" where
  "part_separator pretty = (if pretty then [0x2C, 0x0A] else [0x2C])"

definition dump_key :: "bytes \<Rightarrow> bool \<Rightarrow> bool \<Rightarrow> serializer \<Rightarrow> serializer res" where
  "dump_key k pretty ensure_ascii sr =
     rbind (dump_escaped k ensure_ascii (write_characters [0x22] sr)) (\<lambda>sr.
     Inr (write_characters (if pretty then [0x22, 0x3A, 0x20] else [0x22, 0x3A]) sr))"

fun dump_bytes :: "bytes \<Rightarrow> bytes \<Rightarrow> serializer \<Rightarrow> serializer res" where
  "dump_bytes sep [] sr = Inr sr"
| "dump_bytes sep [b] sr = dump_integer False (ucast b) sr"
| "dump_bytes sep (b # bs) sr = rbind (dump_integer False (ucast b) sr) (\<lambda>sr. dump_bytes sep bs (write_characters sep sr))"

definition dump_subtype :: "u8 option \<Rightarrow> serializer \<Rightarrow> serializer res" where
  "dump_subtype st sr = (case st of Some t \<Rightarrow> dump_integer False (ucast t) sr | None \<Rightarrow> Inr (write_characters (bytes_of ''null'') sr))"

definition dump_binary :: "bool \<Rightarrow> u32 \<Rightarrow> u32 \<Rightarrow> bytes \<Rightarrow> u8 option \<Rightarrow> serializer \<Rightarrow> serializer res" where
  "dump_binary pretty new_indent current_indent b st sr =
     (if pretty
      then rbind (write_indent new_indent (grow_indent new_indent (write_characters [0x7B, 0x0A] sr))) (\<lambda>sr.
           rbind (dump_bytes [0x2C, 0x20] b (write_characters (0x22 # bytes_of ''bytes'' @ [0x22, 0x3A, 0x20, 0x5B]) sr)) (\<lambda>sr.
           rbind (write_indent new_indent (write_characters [0x5D, 0x2C, 0x0A] sr)) (\<lambda>sr.
           rbind (dump_subtype st (write_characters (0x22 # bytes_of ''subtype'' @ [0x22, 0x3A, 0x20]) sr)) (\<lambda>sr.
           rbind (write_indent current_indent (write_characters [0x0A] sr)) (\<lambda>sr.
           Inr (write_characters [0x7D] sr))))))
      else rbind (dump_bytes [0x2C] b (write_characters ([0x7B, 0x22] @ bytes_of ''bytes'' @ [0x22, 0x3A, 0x5B]) sr)) (\<lambda>sr.
           rbind (dump_subtype st (write_characters ([0x5D, 0x2C, 0x22] @ bytes_of ''subtype'' @ [0x22, 0x3A]) sr)) (\<lambda>sr.
           Inr (write_characters [0x7D] sr))))"

fun dump :: "bool \<Rightarrow> bool \<Rightarrow> u32 \<Rightarrow> u32 \<Rightarrow> json \<Rightarrow> serializer \<Rightarrow> serializer res"
  and dump_members :: "bool \<Rightarrow> bool \<Rightarrow> u32 \<Rightarrow> u32 \<Rightarrow> (bytes \<times> json) list \<Rightarrow> serializer \<Rightarrow> serializer res"
  and dump_elements :: "bool \<Rightarrow> bool \<Rightarrow> u32 \<Rightarrow> u32 \<Rightarrow> json list \<Rightarrow> serializer \<Rightarrow> serializer res" where
  "dump pretty ascii step current (JObject es) sr =
     (if es = [] then Inr (write_characters [0x7B, 0x7D] sr)
      else let new_indent = current + step
           in rbind (dump_members pretty ascii step (if pretty then new_indent else current) es
                       (open_container pretty 0x7B new_indent sr)) (\<lambda>sr.
              close_container pretty 0x7D current sr))"
| "dump pretty ascii step current (JArray vs) sr =
     (if vs = [] then Inr (write_characters [0x5B, 0x5D] sr)
      else let new_indent = current + step
           in rbind (dump_elements pretty ascii step (if pretty then new_indent else current) vs
                       (open_container pretty 0x5B new_indent sr)) (\<lambda>sr.
              close_container pretty 0x5D current sr))"
| "dump pretty ascii step current (JString s) sr =
     rbind (dump_escaped s ascii (write_characters [0x22] sr)) (\<lambda>sr. Inr (write_characters [0x22] sr))"
| "dump pretty ascii step current (JBinary b st) sr = dump_binary pretty (current + step) current b st sr"
| "dump pretty ascii step current (JBoolean b) sr =
     Inr (write_characters (if b then bytes_of ''true'' else bytes_of ''false'') sr)"
| "dump pretty ascii step current (JInteger i) sr = dump_integer True i sr"
| "dump pretty ascii step current (JUnsigned n) sr = dump_integer False n sr"
| "dump pretty ascii step current (JFloat x) sr = dump_float x sr"
| "dump pretty ascii step current JDiscarded sr = Inr (write_characters (bytes_of ''<discarded>'') sr)"
| "dump pretty ascii step current JNull sr = Inr (write_characters (bytes_of ''null'') sr)"
| "dump_members pretty ascii step indent [] sr = Inr sr"
| "dump_members pretty ascii step indent ((k, v) # es) sr =
     rbind (begin_part pretty indent sr) (\<lambda>sr.
     rbind (dump_key k pretty ascii sr) (\<lambda>sr.
     rbind (dump pretty ascii step indent v sr) (\<lambda>sr.
     if es = [] then Inr sr
     else dump_members pretty ascii step indent es (write_characters (part_separator pretty) sr))))"
| "dump_elements pretty ascii step indent [] sr = Inr sr"
| "dump_elements pretty ascii step indent (v # vs) sr =
     rbind (begin_part pretty indent sr) (\<lambda>sr.
     rbind (dump pretty ascii step indent v sr) (\<lambda>sr.
     if vs = [] then Inr sr
     else dump_elements pretty ascii step indent vs (write_characters (part_separator pretty) sr)))"

text \<open>The member function \<^verbatim>\<open>dump\<close> of a value.\<close>

definition json_dump :: "int \<Rightarrow> u8 \<Rightarrow> bool \<Rightarrow> error_handler_t \<Rightarrow> json \<Rightarrow> bytes res" where
  "json_dump indent indent_char ensure_ascii handler j =
     rbind (dump (0 \<le> indent) ensure_ascii (if 0 \<le> indent then of_int indent else 0) 0 j
       \<lparr>sr_out = [], sr_indent_string = replicate 512 indent_char, sr_indent_char = indent_char, sr_handler = handler\<rparr>) (\<lambda>sr.
     Inr (sr_out sr))"

end
