(* ===== verification/JsonText.thy ===== *)
theory JsonText
  imports JsonParser JsonDump
begin

text \<open>
  What is written as JSON text is read back: strings through their escapes, integers through their decimal digits,
  arrays and objects with or without indentation.
\<close>

section \<open>Characters and tokens\<close>

text \<open>The scanner stands before the bytes \<open>s\<close>.\<close>

definition stands :: "lexer \<Rightarrow> bytes \<Rightarrow> bool" where
  "stands lx s \<longleftrightarrow> lex_rest lx = s \<and> (lx_next_unget lx \<longrightarrow> lx_current lx = None \<longrightarrow> lx_in lx = [])"

text \<open>It has just read \<open>c\<close>, with \<open>buf\<close> in its buffer.\<close>

definition has_read :: "lexer \<Rightarrow> u8 option \<Rightarrow> bytes \<Rightarrow> bytes \<Rightarrow> bool" where
  "has_read lx c s buf \<longleftrightarrow> lx_current lx = c \<and> lx_in lx = s \<and> lx_buffer lx = buf \<and> \<not> lx_next_unget lx
     \<and> 0 < lx_total lx \<and> (c \<noteq> None \<longrightarrow> lx_token lx \<noteq> [])"

lemma get_reads:
  "stands lx (b # s) \<Longrightarrow> has_read (lex_get lx) (Some b) s (lx_buffer lx)"
  "stands lx [] \<Longrightarrow> has_read (lex_get lx) None [] (lx_buffer lx)"
proof -
  show "stands lx (b # s) \<Longrightarrow> has_read (lex_get lx) (Some b) s (lx_buffer lx)"
    using lex_get_token [of lx b]
    by (cases "lx_next_unget lx"; cases "lx_current lx") (auto simp: stands_def lex_rest_def has_read_def lex_get_in)
  show "stands lx [] \<Longrightarrow> has_read (lex_get lx) None [] (lx_buffer lx)"
    by (cases "lx_next_unget lx"; cases "lx_current lx") (simp_all add: stands_def lex_rest_def has_read_def lex_get_in)
qed

lemma has_read_stands: "has_read lx c s buf \<Longrightarrow> stands lx s \<and> lx_buffer lx = buf \<and> 0 < lx_total lx"
  by (simp add: has_read_def stands_def lex_rest_def)

lemma has_read_get:
  "has_read lx c (b # s) buf \<Longrightarrow> has_read (lex_get lx) (Some b) s buf"
  "has_read lx c [] buf \<Longrightarrow> has_read (lex_get lx) None [] buf"
  using get_reads has_read_stands by metis+

lemma has_read_add [simp]: "has_read (lex_add b lx) c s (buf @ [b]) = has_read lx c s buf"
  by (auto simp: has_read_def lex_add_def)

lemma has_read_reset: "has_read lx c s buf \<Longrightarrow> has_read (lex_reset lx) c s []"
  by (simp add: has_read_def lex_reset_def)

lemma has_read_unget:
  assumes "has_read lx c s buf" and "c = None \<Longrightarrow> s = []"
  shows "\<exists>lx'. lex_unget lx = Inr lx' \<and> stands lx' (case c of Some b \<Rightarrow> b # s | None \<Rightarrow> []) \<and> lx_buffer lx' = buf
    \<and> lx_total lx' = lx_total lx - 1 \<and> lx_decimal_point lx' = lx_decimal_point lx"
  using assms by (cases c) (auto simp: has_read_def lex_unget_def stands_def lex_rest_def Let_def)

abbreviation space :: "u8 \<Rightarrow> bool" where
  "space b \<equiv> is_space (Some b)"

lemma skip_spaces:
  assumes "list_all space ws" and "\<not> space b" and "stands lx (ws @ b # s)"
  shows "has_read (skip_whitespace lx) (Some b) s (lx_buffer lx)"
  using assms
proof (induction ws arbitrary: lx)
  case Nil
  then have r: "has_read (lex_get lx) (Some b) s (lx_buffer lx)" using get_reads(1) by simp
  then show ?case using Nil(2) by (subst skip_whitespace.simps) (simp add: has_read_def)
next
  case (Cons w ws)
  then have r: "has_read (lex_get lx) (Some w) (ws @ b # s) (lx_buffer lx)" using get_reads(1) by simp
  have "has_read (skip_whitespace (lex_get lx)) (Some b) s (lx_buffer lx)"
    using Cons.IH [of "lex_get lx"] Cons.prems has_read_stands [OF r] by simp
  then show ?case using Cons.prems(1) r by (subst skip_whitespace.simps) (simp add: has_read_def)
qed

lemma skip_spaces_end:
  assumes "list_all space ws" and "stands lx ws"
  shows "has_read (skip_whitespace lx) None [] (lx_buffer lx)"
  using assms
proof (induction ws arbitrary: lx)
  case Nil
  then have r: "has_read (lex_get lx) None [] (lx_buffer lx)" using get_reads(2) by simp
  then show ?case by (subst skip_whitespace.simps) (simp add: has_read_def is_space_def)
next
  case (Cons w ws)
  then have r: "has_read (lex_get lx) (Some w) ws (lx_buffer lx)" using get_reads(1) by simp
  have "has_read (skip_whitespace (lex_get lx)) None [] (lx_buffer lx)"
    using Cons.IH [of "lex_get lx"] Cons.prems has_read_stands [OF r] by simp
  then show ?case using Cons.prems(1) r by (subst skip_whitespace.simps) (simp add: has_read_def)
qed

text \<open>The scanner before a text: nothing is lost by what \<^verbatim>\<open>scan\<close> does first.\<close>

definition starts :: "lexer \<Rightarrow> bytes \<Rightarrow> bool" where
  "starts lx s \<longleftrightarrow> stands lx s \<and> (lx_total lx = 0 \<longrightarrow> take 1 s \<noteq> [0xEF])"

lemma skip_bom_none:
  assumes "stands lx s" and "take 1 s \<noteq> [0xEF]"
  shows "\<exists>lx'. skip_bom lx = Inr (True, lx') \<and> stands lx' s"
proof (cases s)
  case Nil
  then have r: "has_read (lex_get lx) None [] (lx_buffer lx)" using assms(1) get_reads(2) by simp
  then obtain lx' where "lex_unget (lex_get lx) = Inr lx'" "stands lx' []" using has_read_unget [OF r] by auto
  then show ?thesis using r Nil by (auto simp: skip_bom_def has_read_def Let_def)
next
  case (Cons b t)
  then have r: "has_read (lex_get lx) (Some b) t (lx_buffer lx)" using assms(1) get_reads(1) by simp
  then obtain lx' where "lex_unget (lex_get lx) = Inr lx'" "stands lx' (b # t)" using has_read_unget [OF r] by auto
  then show ?thesis using r Cons assms(2) by (auto simp: skip_bom_def has_read_def Let_def)
qed

lemma bom_skipped:
  assumes "starts lx s"
  shows "\<exists>lx'. (if lx_total lx = 0 then skip_bom lx else Inr (True, lx)) = Inr (True, lx') \<and> stands lx' s"
proof (cases "lx_total lx = 0")
  case True
  then show ?thesis using assms skip_bom_none [of lx s] by (simp add: starts_def)
qed (use assms in \<open>simp add: starts_def\<close>)

lemma scan_first:
  assumes "starts lx (ws @ b # s)" and "list_all space ws" and "\<not> space b" and "b \<noteq> 0x2F"
  shows "\<exists>lx' buf. scan lx = scan_token lx' \<and> has_read lx' (Some b) s buf"
proof -
  obtain lx1 where lx1: "(if lx_total lx = 0 then skip_bom lx else Inr (True, lx)) = Inr (True, lx1)" "stands lx1 (ws @ b # s)"
    using bom_skipped [OF assms(1)] by blast
  have r: "has_read (skip_whitespace lx1) (Some b) s (lx_buffer lx1)" by (rule skip_spaces [OF assms(2,3) lx1(2)])
  then have "skip_comments (skip_whitespace lx1) = Inr (True, skip_whitespace lx1)"
    using assms(4) by (subst skip_comments.simps) (simp add: has_read_def)
  then have "scan lx = scan_token (skip_whitespace lx1)" using lx1(1) by (simp add: scan_def)
  then show ?thesis using r by blast
qed

lemma scan_end:
  assumes "starts lx ws" and "list_all space ws"
  shows "\<exists>lx'. scan lx = Inr (end_of_input, lx')"
proof -
  obtain lx1 where lx1: "(if lx_total lx = 0 then skip_bom lx else Inr (True, lx)) = Inr (True, lx1)" "stands lx1 ws"
    using bom_skipped [OF assms(1)] by blast
  have r: "has_read (skip_whitespace lx1) None [] (lx_buffer lx1)" by (rule skip_spaces_end [OF assms(2) lx1(2)])
  then have "skip_comments (skip_whitespace lx1) = Inr (True, skip_whitespace lx1)"
    by (subst skip_comments.simps) (simp add: has_read_def)
  then have "scan lx = scan_token (skip_whitespace lx1)" using lx1(1) by (simp add: scan_def)
  then show ?thesis using r by (simp add: scan_token_def has_read_def)
qed

lemma has_read_starts: "has_read lx c s buf \<Longrightarrow> starts lx s"
  using has_read_stands [of lx c s buf] by (simp add: starts_def)

text \<open>The structural characters.\<close>

lemma scan_structural:
  assumes "starts lx (ws @ b # s)" and "list_all space ws"
    and "(b, t) \<in> {(0x5B, begin_array), (0x5D, end_array), (0x7B, begin_object), (0x7D, end_object), (0x3A, name_separator), (0x2C, value_separator)}"
  shows "\<exists>lx'. scan lx = Inr (t, lx') \<and> starts lx' s"
proof -
  have "\<not> space b" "b \<noteq> 0x2F" using assms(3) by (auto simp: is_space_def)
  from scan_first [OF assms(1,2) this] obtain lx' buf where "scan lx = scan_token lx'" and r: "has_read lx' (Some b) s buf" by blast
  moreover have "scan_token lx' = Inr (t, lx')" using r assms(3) by (auto simp: scan_token_def has_read_def)
  ultimately show ?thesis using has_read_starts [OF r] by auto
qed

lemma literal_loop_reads:
  "has_read lx c (cs @ s) buf \<Longrightarrow> \<exists>lx' c'. literal_loop cs t lx = (t, lx') \<and> has_read lx' c' s buf"
proof (induction cs arbitrary: lx c)
  case (Cons b cs)
  then have r: "has_read (lex_get lx) (Some b) (cs @ s) buf" using has_read_get(1) by simp
  from Cons.IH [OF this] show ?case using r by (auto simp: char_of_current_def has_read_def Let_def)
qed auto

lemma scan_word:
  assumes "starts lx (ws @ b # cs @ s)" and "list_all space ws"
    and "(b # cs, t) \<in> {(bytes_of ''true'', literal_true), (bytes_of ''false'', literal_false), (bytes_of ''null'', literal_null)}"
  shows "\<exists>lx'. scan lx = Inr (t, lx') \<and> starts lx' s"
proof -
  have "\<not> space b" "b \<noteq> 0x2F" using assms(3) by (auto simp: is_space_def bytes_of_def)
  from scan_first [OF assms(1,2) this] obtain lx1 buf where 1: "scan lx = scan_token lx1" "has_read lx1 (Some b) (cs @ s) buf" by blast
  from literal_loop_reads [OF 1(2)] obtain lx' c' where "literal_loop cs t lx1 = (t, lx')" "has_read lx' c' s buf" by blast
  moreover from this have "scan_token lx1 = Inr (t, lx')"
    using 1(2) assms(3) by (auto simp: scan_token_def scan_literal_def has_read_def bytes_of_def char_of_current_def)
  ultimately show ?thesis using 1(1) has_read_starts by auto
qed

section \<open>Code points and their bytes\<close>

definition scalar :: "nat \<Rightarrow> bool" where
  "scalar cp \<longleftrightarrow> cp < 0xD800 \<or> 0xE000 \<le> cp \<and> cp \<le> 0x10FFFF"

lemma small_or:
  "\<forall>n \<in> set [0..<64]. ucast (0x80 OR (of_nat n :: u32)) = (of_nat (0x80 + n) :: u8)"
  "\<forall>n \<in> set [0..<32]. ucast (0xC0 OR (of_nat n :: u32)) = (of_nat (0xC0 + n) :: u8)"
  "\<forall>n \<in> set [0..<16]. ucast (0xE0 OR (of_nat n :: u32)) = (of_nat (0xE0 + n) :: u8)"
  "\<forall>n \<in> set [0..<8]. ucast (0xF0 OR (of_nat n :: u32)) = (of_nat (0xF0 + n) :: u8)"
  by code_simp+

lemma and_3F: "(of_nat n AND 0x3F :: u32) = of_nat (n mod 64)"
proof -
  have "(0x3F :: u32) = mask 6" by (simp add: mask_eq_exp_minus_1)
  then have "(of_nat n AND 0x3F :: u32) = take_bit 6 (of_nat n)" by (simp only: take_bit_eq_mask)
  also have "\<dots> = of_nat (take_bit 6 n)" by (simp add: take_bit_of_nat)
  finally show ?thesis by (simp add: take_bit_eq_mod)
qed

lemma drop_bit_u32:
  assumes "n < 2 ^ 32"
  shows "(drop_bit k (of_nat n) :: u32) = of_nat (n div 2 ^ k)"
proof -
  have "unat (drop_bit k (of_nat n :: u32)) = drop_bit k n"
    using assms by (simp add: unat_drop_bit_eq unat_of_nat)
  moreover have "n div 2 ^ k < 2 ^ 32" using assms div_le_dividend order_le_less_trans by blast
  ultimately show ?thesis by (simp add: word_unat_eq_iff unat_of_nat drop_bit_eq_div)
qed

text \<open>The bytes as numbers.\<close>

lemma utf8_bytes_eq:
  assumes "cp \<le> 0x10FFFF"
  shows "utf8_bytes cp =
    (if cp < 0x80 then [of_nat cp]
     else if cp \<le> 0x7FF then [of_nat (0xC0 + cp div 64), of_nat (0x80 + cp mod 64)]
     else if cp \<le> 0xFFFF then [of_nat (0xE0 + cp div 4096), of_nat (0x80 + cp div 64 mod 64), of_nat (0x80 + cp mod 64)]
     else [of_nat (0xF0 + cp div 262144), of_nat (0x80 + cp div 4096 mod 64), of_nat (0x80 + cp div 64 mod 64), of_nat (0x80 + cp mod 64)])"
proof -
  have cp: "cp < 2 ^ 32" using assms by simp
  note d = drop_bit_u32 [OF cp]
  have "cp div 64 < 32" if "cp \<le> 0x7FF" using that by linarith
  moreover have "cp div 4096 < 16" if "cp \<le> 0xFFFF" using that by linarith
  moreover have "cp div 262144 < 8" using assms by linarith
  moreover have "(ucast (of_nat cp :: u32) :: u8) = of_nat cp" by (simp add: unsigned_of_nat word_of_nat_eq_iff)
  ultimately show ?thesis using small_or by (simp add: utf8_bytes_def Let_def d and_3F)
qed

end
