(* ===== verification/EscText.thy ===== *)
theory EscText
  imports JsonText
begin

text \<open>
  Strings in JSON text: what the serializer writes for each code point of a UTF-8 string.
\<close>

section \<open>Writing a code point\<close>

definition esc_text :: "bool \<Rightarrow> nat \<Rightarrow> bytes" where
  "esc_text ascii cp =
     (if cp = 0x08 then [0x5C, 0x62] else if cp = 0x09 then [0x5C, 0x74] else if cp = 0x0A then [0x5C, 0x6E]
      else if cp = 0x0C then [0x5C, 0x66] else if cp = 0x0D then [0x5C, 0x72] else if cp = 0x22 then [0x5C, 0x22]
      else if cp = 0x5C then [0x5C, 0x5C]
      else if cp \<le> 0x1F \<or> ascii \<and> 0x7F \<le> cp
      then if cp \<le> 0xFFFF then u_escape (of_nat cp)
           else u_escape (of_nat (0xD7C0 + cp div 1024)) @ u_escape (of_nat (0xDC00 + cp mod 1024))
      else utf8_bytes cp)"

lemma decode_first: "utf8_decode 0 c b = utf8_decode 0 0 b"
  by (simp add: utf8_decode_def Let_def)

lemma decode_next:
  "st \<noteq> 0 \<Longrightarrow> utf8_decode st c b = rbind (utf8_decode st 0 b) (\<lambda>(st', _). Inr (st', (ucast b AND 0x3F) OR push_bit 6 c))"
  by (simp add: utf8_decode_def Let_def)

lemma decode_first_bytes:
  "\<forall>n \<in> set [0..<0x80]. utf8_decode 0 0 (of_nat n) = Inr (0, of_nat n)"
  "\<forall>n \<in> set [2..<0x20]. utf8_decode 0 0 (of_nat (0xC0 + n)) = Inr (2, of_nat n)"
  "\<forall>n \<in> set [0..<0x10]. utf8_decode 0 0 (of_nat (0xE0 + n)) = Inr (if n = 0 then 4 else if n = 13 then 5 else 3, of_nat n)"
  "\<forall>n \<in> set [0..<5]. utf8_decode 0 0 (of_nat (0xF0 + n)) = Inr (if n = 0 then 6 else if n = 4 then 8 else 7, of_nat n)"
  by code_simp+

lemmas decode_lead = decode_first_bytes [THEN bspec, unfolded set_upt atLeastLessThan_iff]

text \<open>The states between two bytes, the range of the next byte and the state it leads to.\<close>

definition cont_row :: "u8 \<Rightarrow> nat \<times> nat \<times> u8" where
  "cont_row st = (if st = 2 then (0, 64, 0) else if st = 3 then (0, 64, 2) else if st = 4 then (32, 64, 2)
     else if st = 5 then (0, 32, 2) else if st = 6 then (16, 64, 3) else if st = 7 then (0, 64, 3) else (0, 16, 3))"

lemma decode_cont_states:
  "\<forall>st \<in> {2, 3, 4, 5, 6, 7, 8}. case cont_row st of (lo, hi, st') \<Rightarrow>
     \<forall>m \<in> set [lo..<hi]. map_sum id fst (utf8_decode st 0 (of_nat (0x80 + m))) = Inr st'"
  by code_simp

lemma mod_64_add: "m < 64 \<Longrightarrow> (0x80 + m) mod 64 = (m :: nat)"
  using mod_mult_self3 [of 2 64 m] by simp

lemma join_bits:
  assumes "m < 64"
  shows "(ucast (of_nat (0x80 + m) :: u8) AND 0x3F) OR push_bit 6 (of_nat k) = (of_nat (64 * k + m) :: u32)"
proof -
  have u: "(ucast (of_nat (0x80 + m) :: u8) :: u32) = of_nat (0x80 + m)"
    unfolding unsigned_of_nat using assms by (simp add: take_bit_nat_eq_self del: of_nat_add)
  have m: "(ucast (of_nat (0x80 + m) :: u8) AND 0x3F) = (of_nat m :: u32)"
    unfolding u and_3F using assms by (simp add: mod_64_add del: of_nat_add)
  have "(of_nat m :: u32) = take_bit 6 (of_nat m)" using assms by (simp add: take_bit_of_nat take_bit_nat_eq_self)
  then have "(of_nat m :: u32) AND push_bit 6 (of_nat k) = take_bit 6 (of_nat m) AND push_bit 6 (of_nat k)" by simp
  also have "\<dots> = 0" by (rule bit_word_eqI) (auto simp: bit_simps)
  finally have "(of_nat m :: u32) OR push_bit 6 (of_nat k) = of_nat m + push_bit 6 (of_nat k)" by (rule disjunctive_add_eq_or [symmetric])
  then show ?thesis unfolding m by (simp add: push_bit_eq_mult)
qed

lemma decode_cont:
  assumes "st \<in> {2, 3, 4, 5, 6, 7, 8}" and "cont_row st = (lo, hi, st')" and "lo \<le> m" "m < hi"
  shows "utf8_decode st (of_nat k) (of_nat (0x80 + m)) = Inr (st', of_nat (64 * k + m))"
proof -
  have "map_sum id fst (utf8_decode st 0 (of_nat (0x80 + m))) = Inr st'"
    using decode_cont_states [THEN bspec, OF assms(1)] assms(2-4) by simp
  then obtain c where c: "utf8_decode st 0 (of_nat (0x80 + m)) = Inr (st', c)"
    by (cases "utf8_decode st 0 (of_nat (0x80 + m))") auto
  moreover have "m < 64" using assms by (auto simp: cont_row_def split: if_splits)
  moreover have "st \<noteq> 0" using assms(1) by auto
  ultimately show ?thesis using decode_next [of st "of_nat k" "of_nat (0x80 + m)"] join_bits [of m k] by simp
qed

text \<open>The state of the loop after the bytes \<open>bs\<close> of a code point, when \<open>txt\<close> has been written for the ones before it.\<close>

definition esc_at :: "bool \<Rightarrow> u8 \<Rightarrow> u32 \<Rightarrow> bytes \<Rightarrow> bytes \<Rightarrow> esc \<Rightarrow> bool" where
  "esc_at ascii st cp bs txt e \<longleftrightarrow> es_state e = st \<and> es_codepoint e = cp
     \<and> es_out e @ es_buf e = txt @ (if ascii then [] else bs) \<and> length (es_buf e) \<le> 499 + (if ascii then 0 else length bs)"

lemma escape_middle:
  assumes "esc_at a st cp bs txt e" and "utf8_decode st cp b = Inr (st', cp')" and "st' \<noteq> 0" "st' \<noteq> 1" and "length bs \<le> 2"
  shows "\<exists>e'. escape_loop h a (b # s) e = escape_loop h a s e' \<and> esc_at a st' cp' (bs @ [b]) txt e'"
proof (cases a)
  case True
  then show ?thesis using assms by (auto simp: esc_at_def Let_def intro!: exI [of _ "e\<lparr>es_state := st', es_codepoint := cp', es_undumped := es_undumped e + 1\<rparr>"])
next
  case False
  then show ?thesis using assms
    by (auto simp: esc_at_def Let_def buf_put_def intro!: exI [of _ "e\<lparr>es_state := st', es_codepoint := cp', es_buf := es_buf e @ [b], es_undumped := es_undumped e + 1\<rparr>"])
qed

lemma u32_small:
  assumes "n \<le> 0x10FFFF" and "numeral m \<le> (0x10FFFF :: nat)"
  shows "((of_nat n :: u32) = numeral m) = (n = numeral m)" "((of_nat n :: u32) \<le> numeral m) = (n \<le> numeral m)"
    "(numeral m \<le> (of_nat n :: u32)) = (numeral m \<le> n)"
proof -
  have u: "k \<le> 0x10FFFF \<Longrightarrow> unat (of_nat k :: u32) = k" for k by (simp add: unat_of_nat)
  have "unat (of_nat n :: u32) = n" using assms(1) by (rule u)
  moreover have "unat (numeral m :: u32) = numeral m" using u [OF assms(2)] by (simp only: of_nat_numeral)
  ultimately show "((of_nat n :: u32) = numeral m) = (n = numeral m)" "((of_nat n :: u32) \<le> numeral m) = (n \<le> numeral m)"
    "(numeral m \<le> (of_nat n :: u32)) = (numeral m \<le> n)"
    by (simp_all add: word_unat_eq_iff word_le_nat_alt)
qed

lemma and_3FF: "(of_nat n AND 0x3FF :: u32) = of_nat (n mod 1024)"
proof -
  have "(0x3FF :: u32) = mask 10" by (simp add: mask_eq_exp_minus_1)
  then have "(of_nat n AND 0x3FF :: u32) = take_bit 10 (of_nat n)" by (simp only: take_bit_eq_mask)
  also have "\<dots> = of_nat (take_bit 10 n)" by (simp add: take_bit_of_nat)
  finally show ?thesis by (simp add: take_bit_eq_mod)
qed

lemma ucast_u16: "(ucast (of_nat n :: u32) :: u16) = of_nat n"
  by (simp add: unsigned_of_nat word_of_nat_eq_iff)

lemma length_u_escape [simp]: "length (u_escape w) = 6"
  by (simp add: u_escape_def)

text \<open>What is put into the buffer is flushed when there may be too little room for the next code point.\<close>

definition put_flush :: "nat \<Rightarrow> bytes \<Rightarrow> esc \<Rightarrow> esc res" where
  "put_flush k t e = rbind (buf_put k t e) (\<lambda>e. let e = buf_flush e in Inr (e\<lparr>es_last_accept := length (es_buf e), es_undumped := 0\<rparr>))"

lemma put_flushed:
  assumes "length (es_buf e) + k \<le> 512" and "length t \<le> k"
  shows "\<exists>e'. put_flush k t e = Inr e' \<and> es_state e' = es_state e \<and> es_codepoint e' = es_codepoint e
    \<and> es_out e' @ es_buf e' = es_out e @ es_buf e @ t \<and> length (es_buf e') \<le> 499"
  using assms by (auto simp: put_flush_def buf_put_def buf_flush_def Let_def)

definition accept_put :: "bool \<Rightarrow> nat \<Rightarrow> u8 \<Rightarrow> nat \<times> bytes" where
  "accept_put ascii cp b =
     (if cp = 0x08 then (2, [0x5C, 0x62]) else if cp = 0x09 then (2, [0x5C, 0x74]) else if cp = 0x0A then (2, [0x5C, 0x6E])
      else if cp = 0x0C then (2, [0x5C, 0x66]) else if cp = 0x0D then (2, [0x5C, 0x72]) else if cp = 0x22 then (2, [0x5C, 0x22])
      else if cp = 0x5C then (2, [0x5C, 0x5C])
      else if cp \<le> 0x1F \<or> ascii \<and> 0x7F \<le> cp
      then if cp \<le> 0xFFFF then (7, u_escape (of_nat cp))
           else (13, u_escape (of_nat (0xD7C0 + cp div 1024)) @ u_escape (of_nat (0xDC00 + cp mod 1024)))
      else (1, [b]))"

lemma escape_accept_put:
  assumes "es_codepoint e = of_nat n" and "n \<le> 0x10FFFF"
  shows "escape_accept ascii b e = (case accept_put ascii n b of (k, t) \<Rightarrow> put_flush k t e)"
proof -
  have d: "(drop_bit 10 (of_nat n) :: u32) = of_nat (n div 2 ^ 10)" using assms(2) by (intro drop_bit_u32) simp
  have hi: "(ucast (0xD7C0 + drop_bit 10 (of_nat n :: u32)) :: u16) = of_nat (0xD7C0 + n div 1024)"
    unfolding ucast_u16 [symmetric] d by simp
  have lo: "(ucast (0xDC00 + (of_nat n AND 0x3FF :: u32)) :: u16) = of_nat (0xDC00 + n mod 1024)"
    unfolding ucast_u16 [symmetric] and_3FF by simp
  show ?thesis
    unfolding escape_accept_def accept_put_def put_flush_def Let_def assms(1) hi lo ucast_u16 by (simp add: u32_small [OF assms(2)])
qed

lemma accept_put_cases:
  assumes "bs @ [b] = utf8_bytes n" and "n \<le> 0x10FFFF"
  shows "case accept_put ascii n b of (k, t) \<Rightarrow> (if ascii then [] else bs) @ t = esc_text ascii n
    \<and> length (if ascii then [] else bs) + k \<le> 13 \<and> length t \<le> k"
proof -
  have "bs = []" if "n < 0x80" using assms(1) that by (simp add: utf8_bytes_eq)
  moreover have "length bs \<le> 3" using arg_cong [OF assms(1), of length] by (auto simp: utf8_bytes_eq [OF assms(2)] split: if_splits)
  ultimately show ?thesis using assms(1) by (auto simp: accept_put_def esc_text_def)
qed

lemma escape_last:
  assumes "esc_at a st cp bs txt e" and "utf8_decode st cp b = Inr (0, of_nat n)" and "bs @ [b] = utf8_bytes n" and "n \<le> 0x10FFFF"
  shows "\<exists>e' cp'. escape_loop h a (b # s) e = escape_loop h a s e' \<and> esc_at a 0 cp' [] (txt @ esc_text a n) e'"
proof -
  let ?e = "e\<lparr>es_state := 0, es_codepoint := of_nat n\<rparr>"
  obtain k t where kt: "accept_put a n b = (k, t)" by force
  note c = accept_put_cases [OF assms(3,4), of a, unfolded kt prod.case]
  have "length (es_buf ?e) + k \<le> 512" using assms(1) c by (auto simp: esc_at_def split: if_splits)
  from put_flushed [OF this, of t] obtain e' where e': "put_flush k t ?e = Inr e'" "es_state e' = 0" "es_codepoint e' = of_nat n"
      "es_out e' @ es_buf e' = es_out e @ es_buf e @ t" "length (es_buf e') \<le> 499"
    using c by auto
  have "escape_accept a b ?e = Inr e'" using escape_accept_put [of ?e n a b] assms(4) kt e'(1) by simp
  then have "escape_loop h a (b # s) e = escape_loop h a s e'" using assms(1,2) by (simp add: esc_at_def)
  moreover have "es_out e' @ es_buf e' = txt @ esc_text a n"
    using assms(1) c unfolding esc_at_def e'(4) append_assoc [symmetric] by auto
  ultimately show ?thesis using e' by (auto simp: esc_at_def)
qed

text \<open>All the bytes of a code point.\<close>

lemma div_64: "n div 4096 = n div 64 div 64" "n div 262144 = n div 4096 div 64" for n :: nat
  by (simp_all flip: div_mult2_eq)

lemma div_mod_64: "64 * (n div 64) + n mod 64 = n" for n :: nat
  by simp

lemma lead_three:
  assumes "scalar n" and "0x800 \<le> n" "n \<le> 0xFFFF"
  shows "\<exists>st. st \<noteq> 0 \<and> st \<noteq> 1 \<and> utf8_decode 0 0 (of_nat (0xE0 + n div 4096)) = Inr (st, of_nat (n div 4096))
    \<and> utf8_decode st (of_nat (n div 4096)) (of_nat (0x80 + n div 64 mod 64)) = Inr (2, of_nat (n div 64))"
proof -
  have e: "64 * (n div 4096) + n div 64 mod 64 = n div 64" unfolding div_64 by (rule div_mod_64)
  have "n div 4096 < 0x10" using assms(3) by linarith
  note d1 = decode_lead(3) [of "n div 4096"]
  consider "n div 4096 = 0" | "n div 4096 = 13" | "n div 4096 \<noteq> 0" "n div 4096 \<noteq> 13" by blast
  then show ?thesis
  proof cases
    case 1
    have "32 \<le> n div 64" using assms(2) by linarith
    then have "32 \<le> n div 64 mod 64" using e 1 by linarith
    then have "utf8_decode 4 (of_nat (n div 4096)) (of_nat (0x80 + n div 64 mod 64)) = Inr (2, of_nat (n div 64))"
      using decode_cont [of 4 32 64 2 "n div 64 mod 64" "n div 4096"] unfolding e by (simp add: cont_row_def)
    then show ?thesis using d1 1 by (intro exI [of _ 4]) simp
  next
    case 2
    then have "n < 0xE000" by linarith
    then have "n div 64 < 864" using assms(1) unfolding scalar_def by linarith
    then have "n div 64 mod 64 < 32" using e 2 by linarith
    then have "utf8_decode 5 (of_nat (n div 4096)) (of_nat (0x80 + n div 64 mod 64)) = Inr (2, of_nat (n div 64))"
      using decode_cont [of 5 0 32 2 "n div 64 mod 64" "n div 4096"] unfolding e by (simp add: cont_row_def)
    then show ?thesis using d1 2 by (intro exI [of _ 5]) simp
  next
    case 3
    have "utf8_decode 3 (of_nat (n div 4096)) (of_nat (0x80 + n div 64 mod 64)) = Inr (2, of_nat (n div 64))"
      using decode_cont [of 3 0 64 2 "n div 64 mod 64" "n div 4096"] unfolding e by (simp add: cont_row_def)
    then show ?thesis using d1 3 \<open>n div 4096 < 0x10\<close> by (intro exI [of _ 3]) simp
  qed
qed

lemma lead_four:
  assumes "0x10000 \<le> n" "n \<le> 0x10FFFF"
  shows "\<exists>st. st \<noteq> 0 \<and> st \<noteq> 1 \<and> utf8_decode 0 0 (of_nat (0xF0 + n div 262144)) = Inr (st, of_nat (n div 262144))
    \<and> utf8_decode st (of_nat (n div 262144)) (of_nat (0x80 + n div 4096 mod 64)) = Inr (3, of_nat (n div 4096))"
proof -
  have e: "64 * (n div 262144) + n div 4096 mod 64 = n div 4096" unfolding div_64(2) by (rule div_mod_64)
  have "n div 262144 < 5" using assms(2) by linarith
  note d1 = decode_lead(4) [of "n div 262144"]
  consider "n div 262144 = 0" | "n div 262144 = 4" | "n div 262144 \<noteq> 0" "n div 262144 \<noteq> 4" by blast
  then show ?thesis
  proof cases
    case 1
    have "16 \<le> n div 4096" using assms(1) by linarith
    then have "16 \<le> n div 4096 mod 64" using e 1 by linarith
    then have "utf8_decode 6 (of_nat (n div 262144)) (of_nat (0x80 + n div 4096 mod 64)) = Inr (3, of_nat (n div 4096))"
      using decode_cont [of 6 16 64 3 "n div 4096 mod 64" "n div 262144"] unfolding e by (simp add: cont_row_def)
    then show ?thesis using d1 1 by (intro exI [of _ 6]) simp
  next
    case 2
    have "n div 4096 < 272" using assms(2) by linarith
    then have "n div 4096 mod 64 < 16" using e 2 by linarith
    then have "utf8_decode 8 (of_nat (n div 262144)) (of_nat (0x80 + n div 4096 mod 64)) = Inr (3, of_nat (n div 4096))"
      using decode_cont [of 8 0 16 3 "n div 4096 mod 64" "n div 262144"] unfolding e by (simp add: cont_row_def)
    then show ?thesis using d1 2 by (intro exI [of _ 8]) simp
  next
    case 3
    have "utf8_decode 7 (of_nat (n div 262144)) (of_nat (0x80 + n div 4096 mod 64)) = Inr (3, of_nat (n div 4096))"
      using decode_cont [of 7 0 64 3 "n div 4096 mod 64" "n div 262144"] unfolding e by (simp add: cont_row_def)
    then show ?thesis using d1 3 \<open>n div 262144 < 5\<close> by (intro exI [of _ 7]) simp
  qed
qed

lemma escape_code_point:
  assumes "scalar n" and "esc_at a 0 c [] txt e"
  shows "\<exists>e' c'. escape_loop h a (utf8_bytes n @ s) e = escape_loop h a s e' \<and> esc_at a 0 c' [] (txt @ esc_text a n) e'"
proof -
  have n: "n \<le> 0x10FFFF" using assms(1) by (auto simp: scalar_def)
  note mid = escape_middle [where s = "_ # s" and h = h]
  have last: "utf8_decode 2 (of_nat (n div 64)) (of_nat (0x80 + n mod 64)) = Inr (0, of_nat n)"
    using decode_cont [of 2 0 64 0 "n mod 64" "n div 64"] unfolding div_mod_64 by (simp add: cont_row_def)
  consider (one) "n < 0x80" | (two) "0x80 \<le> n" "n \<le> 0x7FF" | (three) "0x800 \<le> n" "n \<le> 0xFFFF" | (four) "0x10000 \<le> n" by linarith
  then show ?thesis
  proof cases
    case one
    then have u: "utf8_bytes n = [of_nat n]" using n by (simp add: utf8_bytes_eq)
    have "utf8_decode 0 c (of_nat n) = Inr (0, of_nat n)" using one decode_lead(1) [of n] by (simp add: decode_first [of c])
    from escape_last [OF assms(2) this _ n] show ?thesis using u by simp
  next
    case two
    let ?b = "of_nat (0xC0 + n div 64) :: u8" and ?c = "of_nat (0x80 + n mod 64) :: u8"
    have u: "utf8_bytes n = [?b, ?c]" using n two by (simp add: utf8_bytes_eq)
    have "2 \<le> n div 64" "n div 64 < 0x20" using two by linarith+
    then have "utf8_decode 0 c ?b = Inr (2, of_nat (n div 64))" using decode_lead(2) [of "n div 64"] by (simp add: decode_first [of c])
    from mid [OF assms(2) this] obtain e1 where e1: "escape_loop h a (?b # ?c # s) e = escape_loop h a (?c # s) e1"
        "esc_at a 2 (of_nat (n div 64)) [?b] txt e1" by auto
    from escape_last [OF e1(2) last _ n, of h s] show ?thesis using e1(1) u by simp
  next
    case three
    let ?b = "of_nat (0xE0 + n div 4096) :: u8" and ?c = "of_nat (0x80 + n div 64 mod 64) :: u8" and ?d = "of_nat (0x80 + n mod 64) :: u8"
    have u: "utf8_bytes n = [?b, ?c, ?d]" using n three by (simp add: utf8_bytes_eq)
    obtain st where st: "st \<noteq> 0" "st \<noteq> 1" "utf8_decode 0 c ?b = Inr (st, of_nat (n div 4096))"
      "utf8_decode st (of_nat (n div 4096)) ?c = Inr (2, of_nat (n div 64))"
      using lead_three [OF assms(1) three] decode_first [of c] by metis
    obtain e1 where e1: "escape_loop h a (?b # ?c # ?d # s) e = escape_loop h a (?c # ?d # s) e1" "esc_at a st (of_nat (n div 4096)) [?b] txt e1"
      using escape_middle [OF assms(2) st(3,1,2), of h "?c # ?d # s"] by auto
    obtain e2 where e2: "escape_loop h a (?c # ?d # s) e1 = escape_loop h a (?d # s) e2" "esc_at a 2 (of_nat (n div 64)) [?b, ?c] txt e2"
      using escape_middle [OF e1(2) st(4), of h "?d # s"] by auto
    from escape_last [OF e2(2) last _ n, of h s] show ?thesis using e1(1) e2(1) u by simp
  next
    case four
    let ?b = "of_nat (0xF0 + n div 262144) :: u8" and ?c = "of_nat (0x80 + n div 4096 mod 64) :: u8"
      and ?d = "of_nat (0x80 + n div 64 mod 64) :: u8" and ?e = "of_nat (0x80 + n mod 64) :: u8"
    have u: "utf8_bytes n = [?b, ?c, ?d, ?e]" using n four by (simp add: utf8_bytes_eq)
    obtain st where st: "st \<noteq> 0" "st \<noteq> 1" "utf8_decode 0 c ?b = Inr (st, of_nat (n div 262144))"
      "utf8_decode st (of_nat (n div 262144)) ?c = Inr (3, of_nat (n div 4096))"
      using lead_four [OF four n] decode_first [of c] by metis
    have st3: "utf8_decode 3 (of_nat (n div 4096)) ?d = Inr (2, of_nat (n div 64))"
      using decode_cont [of 3 0 64 2 "n div 64 mod 64" "n div 4096"] div_mod_64 [of "n div 64"] div_64(1) [of n] by (simp add: cont_row_def)
    obtain e1 where e1: "escape_loop h a (?b # ?c # ?d # ?e # s) e = escape_loop h a (?c # ?d # ?e # s) e1"
      "esc_at a st (of_nat (n div 262144)) [?b] txt e1"
      using escape_middle [OF assms(2) st(3,1,2), of h "?c # ?d # ?e # s"] by auto
    obtain e2 where e2: "escape_loop h a (?c # ?d # ?e # s) e1 = escape_loop h a (?d # ?e # s) e2" "esc_at a 3 (of_nat (n div 4096)) [?b, ?c] txt e2"
      using escape_middle [OF e1(2) st(4), of h "?d # ?e # s"] by auto
    obtain e3 where e3: "escape_loop h a (?d # ?e # s) e2 = escape_loop h a (?e # s) e3" "esc_at a 2 (of_nat (n div 64)) [?b, ?c, ?d] txt e3"
      using escape_middle [OF e2(2) st3, of h "?e # s"] by auto
    from escape_last [OF e3(2) last _ n, of h s] show ?thesis using e1(1) e2(1) e3(1) u by simp
  qed
qed

section \<open>Writing a string\<close>

definition utf8_text :: "nat list \<Rightarrow> bytes" where
  "utf8_text cps = concat (map utf8_bytes cps)"

definition esc_texts :: "bool \<Rightarrow> nat list \<Rightarrow> bytes" where
  "esc_texts ascii cps = concat (map (esc_text ascii) cps)"

lemma write_write [simp]: "write_characters t (write_characters s sr) = write_characters (s @ t) sr"
  by (simp add: write_characters_def)

lemma escape_loop_text:
  assumes "list_all scalar cps" and "esc_at a 0 c [] w e"
  shows "\<exists>e' c'. escape_loop h a (utf8_text cps) e = Inr e' \<and> esc_at a 0 c' [] (w @ esc_texts a cps) e'"
  using assms
proof (induction cps arbitrary: e c w)
  case (Cons n cps)
  obtain e1 c1 where e1: "escape_loop h a (utf8_bytes n @ utf8_text cps) e = escape_loop h a (utf8_text cps) e1"
    "esc_at a 0 c1 [] (w @ esc_text a n) e1"
    using escape_code_point [of n a c w e h "utf8_text cps"] Cons.prems by auto
  from Cons.IH [OF _ e1(2)] Cons.prems(1) show ?case using e1(1) by (simp add: utf8_text_def esc_texts_def)
qed (auto simp: utf8_text_def esc_texts_def)

lemma dump_escaped_text:
  assumes "list_all scalar cps"
  shows "dump_escaped (utf8_text cps) a sr = Inr (write_characters (esc_texts a cps) sr)"
proof -
  let ?e = "\<lparr>es_state = 0, es_codepoint = 0, es_buf = [], es_last_accept = 0, es_undumped = 0, es_out = []\<rparr>"
  have "esc_at a 0 0 [] [] ?e" by (simp add: esc_at_def)
  from escape_loop_text [OF assms this, of "sr_handler sr"] obtain e c where "escape_loop (sr_handler sr) a (utf8_text cps) ?e = Inr e" "esc_at a 0 c [] (esc_texts a cps) e"
    by auto
  then show ?thesis by (simp add: dump_escaped_def esc_at_def)
qed

end
