(* ===== verification/StrRead.thy ===== *)
theory StrRead
  imports EscText
begin

text \<open>
  The scanner reads every code point back from what theory EscText shows to be written for it.
\<close>

section \<open>Reading a code point\<close>

lemma u8_small:
  assumes "n < 256" and "numeral m < (256 :: nat)"
  shows "((of_nat n :: u8) = numeral m) = (n = numeral m)" "((of_nat n :: u8) \<le> numeral m) = (n \<le> numeral m)"
    "(numeral m \<le> (of_nat n :: u8)) = (numeral m \<le> n)"
proof -
  have u: "k < 256 \<Longrightarrow> unat (of_nat k :: u8) = k" for k by (simp add: unat_of_nat)
  have "unat (of_nat n :: u8) = n" using assms(1) by (rule u)
  moreover have "unat (numeral m :: u8) = numeral m" using u [OF assms(2)] by (simp only: of_nat_numeral)
  ultimately show "((of_nat n :: u8) = numeral m) = (n = numeral m)" "((of_nat n :: u8) \<le> numeral m) = (n \<le> numeral m)"
    "(numeral m \<le> (of_nat n :: u8)) = (numeral m \<le> n)"
    by (simp_all add: word_unat_eq_iff word_le_nat_alt)
qed

lemma next_bytes_reads:
  assumes "list_all2 (\<lambda>(lo, hi) b. lo \<le> b \<and> b \<le> hi) rs bs" and "has_read lx c (bs @ s) buf"
  shows "\<exists>lx' c'. next_bytes_in rs lx = (True, lx') \<and> has_read lx' c' s (buf @ bs)"
  using assms
proof (induction arbitrary: lx c buf rule: list_all2_induct)
  case (Cons r rs b bs)
  then have g: "has_read (lex_get lx) (Some b) (bs @ s) buf" using has_read_get(1) by simp
  then have "has_read (lex_add b (lex_get lx)) (Some b) (bs @ s) (buf @ [b])" by simp
  from Cons.IH [OF this] obtain lx' c' where "next_bytes_in rs (lex_add b (lex_get lx)) = (True, lx')" "has_read lx' c' s (buf @ b # bs)" by auto
  then show ?case using g Cons.hyps(1) by (cases r) (auto simp: has_read_def)
qed auto

lemma next_byte_in_range_reads:
  assumes "list_all2 (\<lambda>(lo, hi) b. lo \<le> b \<and> b \<le> hi) rs bs" and "has_read lx (Some b) (bs @ s) buf"
  shows "\<exists>lx' c'. next_byte_in_range rs lx = (True, lx') \<and> has_read lx' c' s (buf @ b # bs)"
proof -
  have "has_read (lex_add b lx) (Some b) (bs @ s) (buf @ [b])" using assms(2) by simp
  from next_bytes_reads [OF assms(1) this] show ?thesis
    using assms(2) by (simp add: next_byte_in_range_def char_of_current_def has_read_def)
qed

lemma has_read_fold_add: "has_read lx c s buf \<Longrightarrow> has_read (fold lex_add bs lx) c s (buf @ bs)"
proof (induction bs arbitrary: lx buf)
  case (Cons b bs)
  then have "has_read (lex_add b lx) c s (buf @ [b])" by simp
  from Cons.IH [OF this] show ?case by simp
qed simp

lemma hex_digits:
  "\<forall>d \<in> set [0..<16]. (let c = hex_digit d in
     0x30 \<le> c \<and> c \<le> 0x39 \<and> unat c - 0x30 = d
     \<or> \<not> (0x30 \<le> c \<and> c \<le> 0x39) \<and> \<not> (0x41 \<le> c \<and> c \<le> 0x46) \<and> 0x61 \<le> c \<and> c \<le> 0x66 \<and> unat c - 0x57 = d)"
  by code_simp

lemmas hex_digit_cases = hex_digits [THEN bspec, unfolded set_upt atLeastLessThan_iff Let_def]

lemma codepoint_digit:
  assumes "has_read lx c (hex_digit d # s) buf" and "d < 16"
  shows "codepoint_loop (f # fs) cp lx = codepoint_loop fs (cp + push_bit f d) (lex_get lx)
    \<and> has_read (lex_get lx) (Some (hex_digit d)) s buf"
proof -
  have r: "has_read (lex_get lx) (Some (hex_digit d)) s buf" using assms(1) has_read_get(1) by simp
  then have "lx_current (lex_get lx) = Some (hex_digit d)" by (simp add: has_read_def)
  then show ?thesis using hex_digit_cases [of d] assms(2) r by (auto simp: Let_def)
qed

lemma hex_value:
  assumes "w < 65536"
  shows "4096 * (w div 16 ^ 3 mod 16) + 256 * (w div 16 ^ 2 mod 16) + 16 * (w div 16 ^ 1 mod 16) + w div 16 ^ 0 mod 16 = (w :: nat)"
proof -
  have "w div 16 ^ 2 = w div 16 div 16" "w div 16 ^ 3 = w div 16 ^ 2 div 16" by (simp_all flip: div_mult2_eq)
  moreover have "16 * (w div 16) + w mod 16 = w" "16 * (w div 16 div 16) + w div 16 mod 16 = w div 16"
    "16 * (w div 16 ^ 2 div 16) + w div 16 ^ 2 mod 16 = w div 16 ^ 2" by simp_all
  moreover have "w div 16 ^ 3 < 16" using assms by (simp add: less_mult_imp_div_less)
  then have "w div 16 ^ 3 mod 16 = w div 16 ^ 3" by simp
  ultimately show ?thesis unfolding power_one_right power_0 div_by_1 by linarith
qed

lemma get_codepoint_reads:
  assumes "has_read lx (Some 0x75) (drop 2 (u_escape w) @ s) buf"
  shows "\<exists>lx' c'. get_codepoint lx = Inr (Some (unat w), lx') \<and> has_read lx' c' s buf"
proof -
  define d where "d i = unat w div 16 ^ i mod 16" for i
  have d: "d i < 16" for i by (simp add: d_def)
  have t: "drop 2 (u_escape w) = map (\<lambda>i. hex_digit (d i)) [3, 2, 1, 0]" by (simp add: u_escape_def d_def)
  note r1 = codepoint_digit [OF assms [unfolded t list.map append_Cons] d, of 12 "[8, 4, 0]" 0]
  note r2 = codepoint_digit [OF conjunct2 [OF r1] d, of 8 "[4, 0]"]
  note r3 = codepoint_digit [OF conjunct2 [OF r2] d, of 4 "[0]"]
  note r4 = codepoint_digit [OF conjunct2 [OF r3] d, of 0 "[]"]
  have "unat w < 2 ^ LENGTH(16)" by (rule unsigned_less)
  then have w: "unat w < 65536" by simp
  have "push_bit 12 (d 3) + push_bit 8 (d 2) + push_bit 4 (d 1) + push_bit 0 (d 0) = unat w"
    using hex_value [OF w, folded d_def] by (simp add: push_bit_eq_mult)
  moreover have "unat w \<le> 0xFFFF" using w by simp
  ultimately show ?thesis
    using assms r1 r2 r3 r4 unfolding get_codepoint_def by (auto simp: has_read_def simp del: codepoint_loop.simps(2))
qed

lemma scan_unicode_small:
  assumes "has_read lx (Some 0x75) (drop 2 (u_escape (of_nat n)) @ s) buf" and "n < 0xD800 \<or> 0xE000 \<le> n \<and> n \<le> 0xFFFF"
  shows "\<exists>lx' c'. scan_unicode lx = Inr (True, lx') \<and> has_read lx' c' s (buf @ utf8_bytes n)"
proof -
  have n: "unat (of_nat n :: u16) = n" using assms(2) by (auto simp: unat_of_nat)
  obtain lx1 c1 where 1: "get_codepoint lx = Inr (Some n, lx1)" "has_read lx1 c1 s buf"
    using get_codepoint_reads [OF assms(1)] unfolding n by blast
  have "scan_unicode lx = Inr (True, fold lex_add (utf8_bytes n) lx1)"
    using assms(2) by (auto simp: scan_unicode_def 1(1) add_codepoint_def)
  then show ?thesis using has_read_fold_add [OF 1(2)] by blast
qed

lemma surrogates:
  assumes "0x10000 \<le> n" and "n \<le> 0x10FFFF"
  shows "0xD800 \<le> 0xD7C0 + n div 1024" "0xD7C0 + n div 1024 \<le> 0xDBFF"
    "0xDC00 \<le> 0xDC00 + n mod 1024" "0xDC00 + n mod 1024 \<le> 0xDFFF"
    "unat (push_bit 10 (of_nat (0xD7C0 + n div 1024)) + of_nat (0xDC00 + n mod 1024) - 0x35FDC00 :: u32) = n"
proof -
  have "0x40 \<le> n div 1024" "n div 1024 \<le> 0x43F" using assms by linarith+
  then show "0xD800 \<le> 0xD7C0 + n div 1024" "0xD7C0 + n div 1024 \<le> 0xDBFF" by linarith+
  have "n mod 1024 < 1024" by simp
  then show "0xDC00 + n mod 1024 \<le> 0xDFFF" by linarith
  have "push_bit 10 (of_nat (0xD7C0 + n div 1024)) + of_nat (0xDC00 + n mod 1024)
      = (of_nat ((0xD7C0 + n div 1024) * 1024 + (0xDC00 + n mod 1024)) :: u32)"
    by (simp only: push_bit_eq_mult of_nat_add of_nat_mult) simp
  also have "(0xD7C0 + n div 1024) * 1024 + (0xDC00 + n mod 1024) = 0x35FDC00 + n"
    unfolding add_mult_distrib using div_mult_mod_eq [of n 1024] by simp
  finally have "push_bit 10 (of_nat (0xD7C0 + n div 1024)) + of_nat (0xDC00 + n mod 1024) - 0x35FDC00 = (of_nat n :: u32)"
    by simp
  then show "unat (push_bit 10 (of_nat (0xD7C0 + n div 1024)) + of_nat (0xDC00 + n mod 1024) - 0x35FDC00 :: u32) = n"
    using assms(2) by (simp add: unat_of_nat)
qed simp

lemma scan_unicode_pair:
  assumes "has_read lx (Some 0x75)
      (drop 2 (u_escape (of_nat (0xD7C0 + n div 1024))) @ u_escape (of_nat (0xDC00 + n mod 1024)) @ s) buf"
    and "0x10000 \<le> n" and "n \<le> 0x10FFFF"
  shows "\<exists>lx' c'. scan_unicode lx = Inr (True, lx') \<and> has_read lx' c' s (buf @ utf8_bytes n)"
proof -
  let ?hi = "0xD7C0 + n div 1024" and ?lo = "0xDC00 + n mod 1024"
  note sur = surrogates [OF assms(2,3)]
  have hi: "unat (of_nat ?hi :: u16) = ?hi" and lo: "unat (of_nat ?lo :: u16) = ?lo"
    using sur(2,4) by (subst unat_of_nat, simp)+
  obtain lx1 c1 where 1: "get_codepoint lx = Inr (Some ?hi, lx1)" "has_read lx1 c1 (u_escape (of_nat ?lo) @ s) buf"
    using get_codepoint_reads [OF assms(1)] unfolding hi by blast
  have "u_escape (of_nat ?lo) = 0x5C # 0x75 # drop 2 (u_escape (of_nat ?lo))" by (simp add: u_escape_def)
  then have r1: "has_read lx1 c1 (0x5C # 0x75 # drop 2 (u_escape (of_nat ?lo)) @ s) buf" using 1(2) by (metis append_Cons)
  note 2 = has_read_get(1) [OF r1] and 3 = has_read_get(1) [OF has_read_get(1) [OF r1]]
  obtain lx4 c4 where 4: "get_codepoint (lex_get (lex_get lx1)) = Inr (Some ?lo, lx4)" "has_read lx4 c4 s buf"
    using get_codepoint_reads [OF 3] unfolding lo by blast
  have c: "lx_current (lex_get lx1) = Some 0x5C" "lx_current (lex_get (lex_get lx1)) = Some 0x75"
    using 2 3 by (simp_all add: has_read_def)
  have "scan_unicode lx = Inr (True, fold lex_add (utf8_bytes n) lx4)"
    unfolding scan_unicode_def 1(1) rbind_simps prod.case option.case Let_def c 4(1) sur(5)
    using sur(1-4) assms(3) by (simp add: add_codepoint_def)
  then show ?thesis using has_read_fold_add [OF 4(2)] by blast
qed


lemma string_step_plain:
  assumes "has_read lx c (of_nat n # s) buf" and "0x20 \<le> n" "n < 0x80" "n \<noteq> 0x22" "n \<noteq> 0x5C"
  shows "\<exists>lx' c'. string_step lx = Inr (None, lx') \<and> has_read lx' c' s (buf @ utf8_bytes n)"
proof -
  have r: "has_read (lex_get lx) (Some (of_nat n)) s buf" using has_read_get(1) [OF assms(1)] .
  moreover have "plain_char (of_nat n)" "\<not> control_char (of_nat n)" "(of_nat n :: u8) \<noteq> 0x22" "(of_nat n :: u8) \<noteq> 0x5C"
    using assms(2-5) by (simp_all add: plain_char_def control_char_def u8_small)
  ultimately have "string_step lx = Inr (None, lex_add (of_nat n) (lex_get lx))"
    by (simp add: string_step_def has_read_def)
  moreover have "utf8_bytes n = [of_nat n]" using assms(3) by (simp add: utf8_bytes_eq)
  ultimately show ?thesis using r by fastforce
qed

lemma string_step_escape:
  assumes "has_read lx c (0x5C # b # s) buf"
    and "(b, v) \<in> {(0x22, 0x22), (0x5C, 0x5C), (0x62, 0x08), (0x66, 0x0C), (0x6E, 0x0A), (0x72, 0x0D), (0x74, 0x09)}"
  shows "\<exists>lx' c'. string_step lx = Inr (None, lx') \<and> has_read lx' c' s (buf @ [v])"
proof -
  note 1 = has_read_get(1) [OF assms(1)] and 2 = has_read_get(1) [OF has_read_get(1) [OF assms(1)]]
  have "scan_escape (lex_get lx) = Inr (True, lex_add v (lex_get (lex_get lx)))"
    using 2 assms(2) by (auto simp: scan_escape_def has_read_def)
  then have "string_step lx = Inr (None, lex_add v (lex_get (lex_get lx)))"
    using 1 by (simp add: string_step_def has_read_def go_on_def)
  then show ?thesis using 2 by fastforce
qed

lemma string_step_unicode:
  assumes "has_read lx c (u_escape w @ s) buf"
    and "\<And>lx1. has_read lx1 (Some 0x75) (drop 2 (u_escape w) @ s) buf \<Longrightarrow>
      \<exists>lx' c'. scan_unicode lx1 = Inr (True, lx') \<and> has_read lx' c' s' buf'"
  shows "\<exists>lx' c'. string_step lx = Inr (None, lx') \<and> has_read lx' c' s' buf'"
proof -
  have "u_escape w = 0x5C # 0x75 # drop 2 (u_escape w)" by (simp add: u_escape_def)
  then have r1: "has_read lx c (0x5C # 0x75 # drop 2 (u_escape w) @ s) buf" using assms(1) by (metis append_Cons)
  note 1 = has_read_get(1) [OF r1] and 2 = has_read_get(1) [OF has_read_get(1) [OF r1]]
  obtain lx' c' where 3: "scan_unicode (lex_get (lex_get lx)) = Inr (True, lx')" "has_read lx' c' s' buf'"
    using assms(2) [OF 2] by blast
  have "scan_escape (lex_get lx) = Inr (True, lx')" using 2 3(1) by (simp add: scan_escape_def has_read_def)
  then have "string_step lx = Inr (None, lx')" using 1 by (simp add: string_step_def has_read_def go_on_def)
  then show ?thesis using 3(2) by blast
qed

text \<open>The bytes of a code point of several bytes lie in the ranges the scanner asks for.\<close>

lemma string_step_bytes:
  assumes "has_read lx c (b # bs @ s) buf" and "0x80 \<le> b"
    and "\<And>lx1. has_read lx1 (Some b) (bs @ s) buf \<Longrightarrow> \<exists>lx' c'. string_multibyte b lx1 = (True, lx') \<and> has_read lx' c' s (buf @ b # bs)"
  shows "\<exists>lx' c'. string_step lx = Inr (None, lx') \<and> has_read lx' c' s (buf @ b # bs)"
proof -
  note 1 = has_read_get(1) [OF assms(1)]
  obtain lx' c' where 2: "string_multibyte b (lex_get lx) = (True, lx')" "has_read lx' c' s (buf @ b # bs)"
    using assms(3) [OF 1] by blast
  have "b \<noteq> 0x22" "b \<noteq> 0x5C" "\<not> control_char b" "\<not> plain_char b \<or> b = 0x80"
    using assms(2) by (auto simp: control_char_def plain_char_def word_le_nat_alt)
  moreover have "\<not> plain_char 0x80" by (simp add: plain_char_def)
  ultimately have "string_step lx = Inr (None, lx')" using 1 2(1) by (auto simp: string_step_def has_read_def go_on_def)
  then show ?thesis using 2(2) by blast
qed

lemma cont_byte: "0x80 \<le> (of_nat (0x80 + k mod 64) :: u8)" "(of_nat (0x80 + k mod 64) :: u8) \<le> 0xBF"
proof -
  have "k mod 64 < 64" by simp
  then have "0x80 + k mod 64 < 256" "0x80 + k mod 64 \<le> 0xBF" by linarith+
  then show "0x80 \<le> (of_nat (0x80 + k mod 64) :: u8)" "(of_nat (0x80 + k mod 64) :: u8) \<le> 0xBF"
    by (simp_all add: u8_small del: of_nat_add)
qed

definition multibyte :: "bytes \<Rightarrow> bool" where
  "multibyte bs \<longleftrightarrow> (\<forall>lx s buf. has_read lx (Some (hd bs)) (tl bs @ s) buf \<longrightarrow>
     (\<exists>lx' c'. string_multibyte (hd bs) lx = (True, lx') \<and> has_read lx' c' s (buf @ bs)))"

lemma multibyteI:
  assumes "\<And>lx. string_multibyte b lx = next_byte_in_range rs lx" and "list_all2 (\<lambda>(lo, hi) b. lo \<le> b \<and> b \<le> hi) rs bs"
  shows "multibyte (b # bs)"
  using next_byte_in_range_reads [OF assms(2)] by (simp add: multibyte_def assms(1))

lemma multibyte_two:
  assumes "0x80 \<le> n" and "n \<le> 0x7FF"
  shows "multibyte [of_nat (0xC0 + n div 64), of_nat (0x80 + n mod 64)]"
proof (rule multibyteI [where rs = "[(0x80, 0xBF)]"])
  have "2 \<le> n div 64" "n div 64 < 0x20" using assms by linarith+
  then show "string_multibyte (of_nat (0xC0 + n div 64)) lx = next_byte_in_range [(0x80, 0xBF)] lx" for lx
    by (simp add: string_multibyte_def u8_small del: of_nat_add)
qed (simp add: cont_byte del: of_nat_add)

lemma multibyte_three:
  assumes "scalar n" and "0x800 \<le> n" "n \<le> 0xFFFF"
  shows "multibyte [of_nat (0xE0 + n div 4096), of_nat (0x80 + n div 64 mod 64), of_nat (0x80 + n mod 64)]"
proof -
  let ?b = "of_nat (0xE0 + n div 4096) :: u8" and ?c = "of_nat (0x80 + n div 64 mod 64) :: u8"
  define r :: "u8 \<times> u8" where "r = (if n div 4096 = 0 then (0xA0, 0xBF) else if n div 4096 = 13 then (0x80, 0x9F) else (0x80, 0xBF))"
  have k: "n div 4096 < 16" using assms(3) by linarith
  have m: "n div 64 mod 64 < 64" by simp
  have lo: "32 \<le> n div 64 mod 64" if "n div 4096 = 0" using that assms(2) div_mod_64 [of "n div 64"] div_64(1) [of n] by linarith
  have hi: "n div 64 mod 64 < 32" if "n div 4096 = 13"
  proof -
    have "n < 0xE000" using that by linarith
    then have "n div 64 < 864" using assms(1) unfolding scalar_def by linarith
    then show ?thesis using that div_mod_64 [of "n div 64"] div_64(1) [of n] by linarith
  qed
  have "string_multibyte ?b lx = next_byte_in_range [r, (0x80, 0xBF)] lx" for lx
    using k by (auto simp: string_multibyte_def r_def u8_small simp del: of_nat_add)
  moreover have "fst r \<le> ?c \<and> ?c \<le> snd r"
    using lo hi m by (auto simp: r_def u8_small cont_byte simp del: of_nat_add)
  ultimately show ?thesis by (intro multibyteI [where rs = "[r, (0x80, 0xBF)]"]) (simp_all add: cont_byte split_beta del: of_nat_add)
qed

lemma multibyte_four:
  assumes "0x10000 \<le> n" "n \<le> 0x10FFFF"
  shows "multibyte [of_nat (0xF0 + n div 262144), of_nat (0x80 + n div 4096 mod 64), of_nat (0x80 + n div 64 mod 64), of_nat (0x80 + n mod 64)]"
proof -
  let ?b = "of_nat (0xF0 + n div 262144) :: u8" and ?c = "of_nat (0x80 + n div 4096 mod 64) :: u8"
  define r :: "u8 \<times> u8" where "r = (if n div 262144 = 0 then (0x90, 0xBF) else if n div 262144 = 4 then (0x80, 0x8F) else (0x80, 0xBF))"
  have k: "n div 262144 < 5" using assms(2) by linarith
  have m: "n div 4096 mod 64 < 64" by simp
  have lo: "16 \<le> n div 4096 mod 64" if "n div 262144 = 0" using that assms(1) div_mod_64 [of "n div 4096"] div_64(2) [of n] by linarith
  have hi: "n div 4096 mod 64 < 16" if "n div 262144 = 4"
    using that assms(2) div_mod_64 [of "n div 4096"] div_64(2) [of n] by linarith
  have "string_multibyte ?b lx = next_byte_in_range [r, (0x80, 0xBF), (0x80, 0xBF)] lx" for lx
    using k by (auto simp: string_multibyte_def r_def u8_small simp del: of_nat_add)
  moreover have "fst r \<le> ?c \<and> ?c \<le> snd r"
    using lo hi m by (auto simp: r_def u8_small cont_byte simp del: of_nat_add)
  ultimately show ?thesis
    by (intro multibyteI [where rs = "[r, (0x80, 0xBF), (0x80, 0xBF)]"]) (simp_all add: cont_byte split_beta del: of_nat_add)
qed


lemma utf8_multibyte:
  assumes "scalar n" and "0x80 \<le> n"
  shows "multibyte (utf8_bytes n) \<and> utf8_bytes n \<noteq> [] \<and> 0x80 \<le> hd (utf8_bytes n)"
proof -
  have n: "n \<le> 0x10FFFF" using assms(1) by (auto simp: scalar_def)
  have lead: "k < 256 \<Longrightarrow> 0x80 \<le> k \<Longrightarrow> 0x80 \<le> (of_nat k :: u8)" for k by (simp add: u8_small)
  consider "n \<le> 0x7FF" | "0x800 \<le> n" "n \<le> 0xFFFF" | "0x10000 \<le> n" by linarith
  then show ?thesis
  proof cases
    case 1
    then have "n div 64 < 0x20" by linarith
    then show ?thesis using 1 assms(2) multibyte_two [OF assms(2) 1] n lead [of "0xC0 + n div 64"] by (simp add: utf8_bytes_eq del: of_nat_add)
  next
    case 2
    then have "n div 4096 < 16" by linarith
    then show ?thesis using 2 multibyte_three [OF assms(1) 2] n lead [of "0xE0 + n div 4096"] by (simp add: utf8_bytes_eq del: of_nat_add)
  next
    case 3
    have "n div 262144 < 5" using n by linarith
    then show ?thesis using 3 multibyte_four [OF 3 n] n lead [of "0xF0 + n div 262144"] by (simp add: utf8_bytes_eq del: of_nat_add)
  qed
qed

lemma string_step_utf8:
  assumes "has_read lx c (utf8_bytes n @ s) buf" and "scalar n" "0x80 \<le> n"
  shows "\<exists>lx' c'. string_step lx = Inr (None, lx') \<and> has_read lx' c' s (buf @ utf8_bytes n)"
proof -
  note m = utf8_multibyte [OF assms(2,3)]
  then have b: "utf8_bytes n = hd (utf8_bytes n) # tl (utf8_bytes n)" by simp
  have "has_read lx c (hd (utf8_bytes n) # tl (utf8_bytes n) @ s) buf" using assms(1) b by (metis append_Cons)
  from string_step_bytes [OF this] m show ?thesis by (simp add: multibyte_def)
qed

text \<open>One turn of the loop reads one code point.\<close>

lemma string_step_reads:
  assumes "has_read lx c (esc_text a n @ s) buf" and "scalar n"
  shows "\<exists>lx' c'. string_step lx = Inr (None, lx') \<and> has_read lx' c' s (buf @ utf8_bytes n)"
proof -
  have n: "n \<le> 0x10FFFF" using assms(2) by (auto simp: scalar_def)
  note small = utf8_bytes_eq [OF n]
  consider (two) "n \<in> {0x08, 0x09, 0x0A, 0x0C, 0x0D, 0x22, 0x5C}"
    | (unicode) "n \<notin> {0x08, 0x09, 0x0A, 0x0C, 0x0D, 0x22, 0x5C}" "n \<le> 0x1F \<or> a \<and> 0x7F \<le> n" "n \<le> 0xFFFF"
    | (pair) "a" "0x10000 \<le> n"
    | (plain) "n \<notin> {0x08, 0x09, 0x0A, 0x0C, 0x0D, 0x22, 0x5C}" "\<not> (n \<le> 0x1F \<or> a \<and> 0x7F \<le> n)" by linarith
  then show ?thesis
  proof cases
    case two
    then show ?thesis using assms(1) string_step_escape [of lx c _ s buf] unfolding small by (auto simp: esc_text_def)
  next
    case unicode
    then have "has_read lx c (u_escape (of_nat n) @ s) buf" using assms(1) by (simp add: esc_text_def)
    then show ?thesis by (rule string_step_unicode) (rule scan_unicode_small, use unicode assms(2) in \<open>auto simp: scalar_def\<close>)
  next
    case pair
    then have "has_read lx c (u_escape (of_nat (0xD7C0 + n div 1024)) @ u_escape (of_nat (0xDC00 + n mod 1024)) @ s) buf"
      using assms(1) by (simp add: esc_text_def)
    then show ?thesis by (rule string_step_unicode) (rule scan_unicode_pair, use pair n in simp_all)
  next
    case plain
    then have "esc_text a n = utf8_bytes n" by (auto simp: esc_text_def)
    then have r: "has_read lx c (utf8_bytes n @ s) buf" using assms(1) by simp
    show ?thesis
    proof (cases "n < 0x80")
      case True
      then show ?thesis using r plain by (intro string_step_plain) (simp_all add: small)
    next
      case False
      then show ?thesis using string_step_utf8 [OF r assms(2)] by simp
    qed
  qed
qed

lemma string_loop_reads:
  assumes "has_read lx c (esc_texts a cps @ 0x22 # s) buf" and "list_all scalar cps"
  shows "\<exists>lx'. string_loop lx = Inr (value_string, lx') \<and> has_read lx' (Some 0x22) s (buf @ utf8_text cps)"
  using assms
proof (induction cps arbitrary: lx c buf)
  case Nil
  then have r: "has_read (lex_get lx) (Some 0x22) s buf" using has_read_get(1) by (simp add: esc_texts_def)
  then have "string_step lx = Inr (Some value_string, lex_get lx)" by (simp add: string_step_def has_read_def)
  then show ?case using r by (subst string_loop.simps) (simp add: utf8_text_def)
next
  case (Cons n cps)
  have "has_read lx c (esc_text a n @ esc_texts a cps @ 0x22 # s) buf" using Cons.prems(1) by (simp add: esc_texts_def)
  from string_step_reads [OF this] Cons.prems(2) obtain lx1 c1 where 1: "string_step lx = Inr (None, lx1)"
    "has_read lx1 c1 (esc_texts a cps @ 0x22 # s) (buf @ utf8_bytes n)" by auto
  from Cons.IH [OF 1(2)] Cons.prems(2) show ?case using 1(1) by (subst string_loop.simps) (simp add: utf8_text_def)
qed

lemma scan_string_reads:
  assumes "starts lx (ws @ 0x22 # esc_texts a cps @ 0x22 # s)" and "list_all space ws" and "list_all scalar cps"
  shows "\<exists>lx'. scan lx = Inr (value_string, lx') \<and> lx_buffer lx' = utf8_text cps \<and> starts lx' s"
proof -
  have "\<not> space 0x22" "(0x22 :: u8) \<noteq> 0x2F" by (simp_all add: is_space_def)
  from scan_first [OF assms(1,2) this] obtain lx1 buf where 1: "scan lx = scan_token lx1"
    "has_read lx1 (Some 0x22) (esc_texts a cps @ 0x22 # s) buf" by blast
  note r = has_read_reset [OF 1(2)]
  obtain lx' where 2: "string_loop (lex_reset lx1) = Inr (value_string, lx')" "has_read lx' (Some 0x22) s (utf8_text cps)"
    using string_loop_reads [OF r assms(3)] by auto
  have "scan_token lx1 = Inr (value_string, lx')"
    using 1(2) r 2(1) by (simp add: scan_token_def scan_string_def has_read_def)
  then show ?thesis using 1(1) 2(2) has_read_starts [OF 2(2)] by (auto simp: has_read_def)
qed

end
