(* ===== verification/NumRead.thy ===== *)
theory NumRead
  imports StrRead
begin

text \<open>
  Integers in JSON text: the decimal digits that are written, and that the scanner reads the same number from them.
\<close>

section \<open>Decimal digits\<close>

fun dec :: "nat \<Rightarrow> bytes" where
  "dec n = (if n < 10 then [0x30 + of_nat n] else dec (n div 10) @ [0x30 + of_nat (n mod 10)])"

declare dec.simps [simp del]

lemma dec_small: "n < 10 \<Longrightarrow> dec n = [0x30 + of_nat n]"
  by (simp add: dec.simps)

lemma dec_two: "10 \<le> n \<Longrightarrow> n < 100 \<Longrightarrow> dec n = [0x30 + of_nat (n div 10), 0x30 + of_nat (n mod 10)]"
  by (subst dec.simps) (simp add: dec_small less_mult_imp_div_less)

lemma dec_100: "100 \<le> n \<Longrightarrow> dec n = dec (n div 100) @ [0x30 + of_nat (n mod 100 div 10), 0x30 + of_nat (n mod 100 mod 10)]"
proof -
  assume n: "100 \<le> n"
  have "dec n = dec (n div 10) @ [0x30 + of_nat (n mod 10)]" using n by (subst dec.simps) simp
  moreover have "\<not> n div 10 < 10" using n by linarith
  then have "dec (n div 10) = dec (n div 10 div 10) @ [0x30 + of_nat (n div 10 mod 10)]" by (subst dec.simps) simp
  moreover have "n div 10 div 10 = n div 100" by (simp flip: div_mult2_eq)
  moreover have "n div 10 mod 10 = n mod 100 div 10" using mod_mult2_eq [of n 10 10] by simp
  moreover have "n mod 10 = n mod 100 mod 10" by (simp add: mod_mod_cancel)
  ultimately show ?thesis by simp
qed

lemma length_dec_pos [simp]: "dec n \<noteq> []" "0 < length (dec n)"
  by (subst dec.simps, simp)+

lemma length_dec_le: "n < 10 ^ Suc k \<Longrightarrow> length (dec n) \<le> Suc k"
proof (induction k arbitrary: n)
  case (Suc k)
  then have "n div 10 < 10 ^ Suc k" by (simp add: less_mult_imp_div_less)
  from Suc.IH [OF this] show ?case by (subst dec.simps) simp
qed (simp add: dec_small)

lemma unat_u64_numeral: "(numeral m :: nat) < 2 ^ 64 \<Longrightarrow> unat (numeral m :: u64) = numeral m"
proof -
  have "k < 2 ^ 64 \<Longrightarrow> unat (of_nat k :: u64) = k" for k by (simp add: unat_of_nat)
  then show "(numeral m :: nat) < 2 ^ 64 \<Longrightarrow> unat (numeral m :: u64) = numeral m" by (metis of_nat_numeral)
qed

lemma u64_less: "(numeral m :: nat) < 2 ^ 64 \<Longrightarrow> (x :: u64) < numeral m \<longleftrightarrow> unat x < numeral m"
  and u64_le: "(numeral m :: nat) < 2 ^ 64 \<Longrightarrow> numeral m \<le> (x :: u64) \<longleftrightarrow> numeral m \<le> unat x"
  by (simp_all only: word_less_nat_alt word_le_nat_alt unat_u64_numeral)

lemma count_digits_dec: "count_digits x = length (dec (unat x))"
proof (induction x rule: count_digits.induct)
  case (1 x)
  let ?n = "unat x"
  have two: "length (dec n) = Suc (Suc (length (dec (n div 100))))" if "100 \<le> n" for n using dec_100 [OF that] by simp
  show ?case
  proof (cases "?n < 10000")
    case True
    then show ?thesis
      using two [of ?n]
      by (subst count_digits.simps) (auto simp: u64_less dec_small dec_two less_mult_imp_div_less)
  next
    case False
    then have "length (dec ?n) = 4 + length (dec (?n div 10000))"
      using two [of ?n] two [of "?n div 100"] by (simp flip: div_mult2_eq)
    moreover have "count_digits (x div 10000) = length (dec (?n div 10000))"
      using "1.IH" False by (simp add: u64_less unat_div)
    ultimately show ?thesis using False by (subst count_digits.simps) (simp add: u64_less)
  qed
qed

lemma put_back_at: "put_back c (Suc (length pre), pre @ a # suf) = Inr (length pre, pre @ c # suf)"
  by (simp add: put_back_def)

lemma put_pair_at:
  "put_pair i (Suc (Suc (length pre)), pre @ a # b # suf)
    = Inr (length pre, pre @ (0x30 + of_nat (i div 10)) # (0x30 + of_nat (i mod 10)) # suf)"
proof -
  have "put_back (0x30 + of_nat (i mod 10)) (Suc (Suc (length pre)), pre @ a # b # suf)
    = Inr (Suc (length pre), pre @ a # (0x30 + of_nat (i mod 10)) # suf)"
    using put_back_at [of "0x30 + of_nat (i mod 10)" "pre @ [a]" b suf] by simp
  then show ?thesis by (simp add: put_pair_def digits_to_99_def put_back_at)
qed

lemma snoc2: "length j = Suc (Suc m) \<Longrightarrow> \<exists>j' a b. j = j' @ [a, b] \<and> length j' = m"
  by (rule exI [of _ "take m j"], rule exI [of _ "j ! m"], rule exI [of _ "j ! Suc m"])
    (simp add: Cons_nth_drop_Suc flip: append_assoc, simp add: list_eq_iff_nth_eq nth_append less_Suc_eq)

lemma digit_loop_dec:
  assumes "length junk = length (dec (unat v))"
  shows "digit_loop v (length pre + length junk, pre @ junk @ suf) = Inr (length pre, pre @ dec (unat v) @ suf)"
  using assms
proof (induction v arbitrary: junk suf rule: measure_induct_rule [where f = unat])
  case (less v)
  let ?n = "unat v"
  consider (one) "?n < 10" | (two) "10 \<le> ?n" "?n < 100" | (more) "100 \<le> ?n" by linarith
  then show ?case
  proof cases
    case one
    then obtain a where "junk = [a]" using less.prems by (auto simp: dec_small length_Suc_conv)
    moreover have "(ucast v :: u8) = of_nat ?n" by (simp add: unsigned_ucast_eq word_of_nat_eq_iff flip: unsigned_of_nat)
    ultimately show ?thesis using one put_back_at [of _ pre a suf]
      by (subst digit_loop.simps) (simp add: u64_le dec_small)
  next
    case two
    then obtain a b where "junk = [a, b]" using less.prems by (auto simp: dec_two length_Suc_conv)
    then show ?thesis using two put_pair_at [of ?n pre a b suf] by (subst digit_loop.simps) (simp add: u64_le dec_two)
  next
    case more
    let ?t = "[0x30 + of_nat (?n mod 100 div 10), 0x30 + of_nat (?n mod 100 mod 10)] :: bytes"
    obtain j a b where j: "junk = j @ [a, b]" "length j = length (dec (?n div 100))"
      using less.prems snoc2 [of junk] by (auto simp: dec_100 [OF more])
    have p: "put_pair (unat (v mod 100)) (length pre + length junk, pre @ junk @ suf) = Inr (length pre + length j, pre @ j @ ?t @ suf)"
      using put_pair_at [of "?n mod 100" "pre @ j" a b suf] j(1) by (simp add: unat_mod)
    have "digit_loop (v div 100) (length pre + length j, pre @ j @ ?t @ suf) = Inr (length pre, pre @ dec (?n div 100) @ ?t @ suf)"
      using less.IH [of "v div 100" j "?t @ suf"] more j(2) by (simp add: unat_div)
    then show ?thesis using more p by (subst digit_loop.simps) (simp add: u64_le dec_100)
  qed
qed

text \<open>The text of an integer.\<close>

definition int_text :: "bool \<Rightarrow> u64 \<Rightarrow> bytes" where
  "int_text is_signed x = (if is_signed \<and> sint x < 0 then 0x2D # dec (nat (- sint x)) else dec (unat x))"

lemma sint_u64: "- (2 ^ 63) \<le> sint (x :: u64)" "sint (x :: u64) < 2 ^ 63"
  using sint_greater_eq [of x] sint_less [of x] by simp_all

lemma remove_sign_abs: "sint x < 0 \<Longrightarrow> \<exists>y. remove_sign x = Inr y \<and> unat y = nat (- sint x)"
proof -
  assume x: "sint x < 0"
  have "of_int (- (sint x + 1)) + 1 = (of_int (- sint x) :: u64)" by simp
  moreover have "unat (of_int (- sint x) :: u64) = nat (- sint x)"
  proof -
    have "uint (of_int (- sint x) :: u64) = (- sint x) mod 2 ^ 64" by (simp only: uint_word_of_int) simp
    also have "\<dots> = - sint x" using x sint_u64 [of x] by (intro mod_pos_pos_trivial) auto
    finally show ?thesis by (simp flip: nat_uint_eq)
  qed
  ultimately show ?thesis using x by (simp add: remove_sign_def)
qed

lemma unat_u64: "unat (x :: u64) < 2 ^ 64"
  by (rule order_less_le_trans [OF unsigned_less]) simp

lemma length_dec_u64: "n < 2 ^ 64 \<Longrightarrow> length (dec n) \<le> 20"
  using length_dec_le [of n 19] by simp

lemma dump_integer_text: "dump_integer is_signed x sr = Inr (write_characters (int_text is_signed x) sr)"
proof (cases "x = 0")
  case True
  then show ?thesis by (simp add: dump_integer_def int_text_def dec_small)
next
  case x: False
  show ?thesis
  proof (cases "is_signed \<and> sint x < 0")
    case True
    then obtain y where y: "remove_sign x = Inr y" "unat y = nat (- sint x)" using remove_sign_abs by blast
    have l: "length (dec (unat y)) \<le> 20" by (rule length_dec_u64 [OF unat_u64])
    have "digit_loop y (Suc (length (dec (unat y))), 0x2D # replicate (length (dec (unat y))) 0) = Inr (1, 0x2D # dec (unat y))"
      using digit_loop_dec [of "replicate (length (dec (unat y))) 0" y "[0x2D]" "[]"] by simp
    then show ?thesis using True x y l by (simp add: dump_integer_def int_text_def count_digits_dec Let_def)
  next
    case False
    have l: "length (dec (unat x)) \<le> 20" by (rule length_dec_u64 [OF unat_u64])
    have r: "(replicate n 0)[0 := 0] = replicate n (0 :: u8)" for n by (cases n) simp_all
    have "digit_loop x (length (dec (unat x)), replicate (length (dec (unat x))) 0) = Inr (0, dec (unat x))"
      using digit_loop_dec [of "replicate (length (dec (unat x))) 0" x "[]" "[]"] by simp
    then show ?thesis using False x l r by (auto simp: dump_integer_def int_text_def count_digits_dec Let_def)
  qed
qed

section \<open>Reading them\<close>

lemma u8_digit: "n < 10 \<Longrightarrow> unat (0x30 + of_nat n :: u8) = 0x30 + n"
proof -
  assume "n < 10"
  then have "unat (of_nat (0x30 + n) :: u8) = 0x30 + n" by (subst unat_of_nat) simp
  then show ?thesis by simp
qed

lemma digit_of: "n < 10 \<Longrightarrow> is_digit (0x30 + of_nat n)"
  using u8_digit [of n] by (simp add: is_digit_def word_le_nat_alt)

lemma dec_digits: "list_all is_digit (dec n)"
  by (induction n rule: dec.induct) (subst dec.simps, simp add: digit_of)

lemma dec_parts: "is_digit (hd (dec n))" "list_all is_digit (tl (dec n))"
  using dec_digits [of n] by (cases "dec n"; simp)+

lemma digits_val_snoc: "digits_val (ds @ [b]) = 10 * digits_val ds + (unat b - 0x30)"
  by (simp add: digits_val_def)

lemma digits_val_dec [simp]: "digits_val (dec n) = n"
proof (induction n rule: dec.induct)
  case (1 n)
  show ?case
  proof (cases "n < 10")
    case True
    then show ?thesis by (simp add: dec_small digits_val_def u8_digit)
  next
    case False
    then have "dec n = dec (n div 10) @ [0x30 + of_nat (n mod 10)]" by (subst dec.simps) simp
    then show ?thesis using "1.IH" False by (simp add: digits_val_snoc u8_digit)
  qed
qed

lemma takeWhile_dec [simp]: "takeWhile is_digit (dec n) = dec n"
  using dec_digits [of n] by (simp add: list_all_iff)

lemma hd_dec: "hd (dec n) = 0x30 \<longleftrightarrow> n = 0"
proof (induction n rule: dec.induct)
  case (1 n)
  show ?case
  proof (cases "n < 10")
    case True
    have "0x30 + of_nat n = (0x30 :: u8) \<longleftrightarrow> unat (0x30 + of_nat n :: u8) = 0x30" by (simp add: word_unat_eq_iff)
    then show ?thesis using True by (simp add: dec_small u8_digit)
  next
    case False
    then have "dec n = dec (n div 10) @ [0x30 + of_nat (n mod 10)]" by (subst dec.simps) simp
    then show ?thesis using "1.IH" False by simp
  qed
qed

lemma strtoull_dec: "n < 2 ^ 64 \<Longrightarrow> strtoull (dec n) = (of_nat n, length (dec n), False)"
  by (simp add: strtoull_def)

lemma strtoll_dec: "n \<le> 2 ^ 63 \<Longrightarrow> strtoll (0x2D # dec n) = (of_int (- int n), Suc (length (dec n)), False)"
  by (simp add: strtoll_def Let_def)

text \<open>What may follow a number.\<close>

definition stopper :: "bytes \<Rightarrow> bool" where
  "stopper s \<longleftrightarrow> s = [] \<or> \<not> is_digit (hd s) \<and> hd s \<notin> {0x2E, 0x65, 0x45}"

definition read_head :: "lexer \<Rightarrow> bytes \<Rightarrow> bytes \<Rightarrow> bool" where
  "read_head lx s buf \<longleftrightarrow> (case s of [] \<Rightarrow> has_read lx None [] buf | b # t \<Rightarrow> has_read lx (Some b) t buf)"

lemma get_head: "has_read lx c s buf \<Longrightarrow> read_head (lex_get lx) s buf"
  using has_read_get by (cases s) (auto simp: read_head_def)

lemma number_loop_digits:
  assumes "has_read lx c (ds @ s) buf" and "list_all is_digit ds" and "stopper s"
  shows "\<exists>lx'. number_loop num_any1 ty lx = scan_number_done ty lx' \<and> read_head lx' s (buf @ ds) \<and> 1 < lx_total lx'"
  using assms
proof (induction ds arbitrary: lx c buf)
  case Nil
  have h: "read_head (lex_get lx) s buf" using get_head Nil(1) by simp
  then have "num_goto num_any1 (lx_current (lex_get lx)) = Some num_done"
    using Nil(3) by (cases s) (auto simp: read_head_def has_read_def stopper_def num_goto_def num_goto_mantissa_def digit_at_def)
  moreover have "1 < lx_total (lex_get lx)" using Nil(1) by (simp add: has_read_def)
  ultimately show ?case using h by (subst number_loop.simps) (auto simp: num_type_def Let_def)
next
  case (Cons b ds)
  have r: "has_read (lex_get lx) (Some b) (ds @ s) buf" using has_read_get(1) Cons.prems(1) by simp
  have b: "is_digit b" "b \<noteq> 0x2E" using Cons.prems(2) by (auto simp: is_digit_def)
  have "number_loop num_any1 ty lx = number_loop num_any1 ty (lex_add b (lex_get lx))"
    using r b by (subst number_loop.simps) (simp add: has_read_def num_goto_def num_goto_mantissa_def digit_at_def num_type_def char_of_current_def)
  moreover have "has_read (lex_add b (lex_get lx)) (Some b) (ds @ s) (buf @ [b])" using r by simp
  ultimately show ?case using Cons.IH Cons.prems(2,3) by fastforce
qed

lemma number_loop_zero:
  assumes "has_read lx c s buf" and "stopper s"
  shows "\<exists>lx'. number_loop num_zero ty lx = scan_number_done ty lx' \<and> read_head lx' s buf \<and> 1 < lx_total lx'"
proof -
  have h: "read_head (lex_get lx) s buf" using get_head assms(1) by simp
  then have "num_goto num_zero (lx_current (lex_get lx)) = Some num_done"
    using assms(2) by (cases s) (auto simp: read_head_def has_read_def stopper_def num_goto_def num_goto_mantissa_def digit_at_def)
  moreover have "1 < lx_total (lex_get lx)" using assms(1) by (simp add: has_read_def)
  ultimately show ?thesis using h by (subst number_loop.simps) (auto simp: num_type_def Let_def)
qed

lemma unget_head:
  assumes "read_head lx s buf" and "1 < lx_total lx"
  shows "\<exists>lx'. lex_unget lx = Inr lx' \<and> starts lx' s \<and> lx_buffer lx' = buf"
proof -
  obtain c t where c: "has_read lx c t buf" "c = None \<Longrightarrow> t = []" "(case c of Some b \<Rightarrow> b # t | None \<Rightarrow> []) = s"
  proof (cases s)
    case Nil
    then show ?thesis using assms(1) that [of None "[]"] by (simp add: read_head_def)
  next
    case (Cons b t)
    then show ?thesis using assms(1) that [of "Some b" t] by (simp add: read_head_def)
  qed
  from has_read_unget [OF c(1,2)] show ?thesis using assms(2) unfolding c(3) by (auto simp: starts_def)
qed

lemma starts_values [simp]:
  "starts (lx\<lparr>lx_unsigned := x\<rparr>) s = starts lx s" "starts (lx\<lparr>lx_integer := x\<rparr>) s = starts lx s"
  "starts (lx\<lparr>lx_float := x\<rparr>) s = starts lx s"
  by (auto simp: starts_def stands_def)

lemma unsigned_done:
  assumes "read_head lx s (dec (unat x))" and "1 < lx_total lx"
  shows "\<exists>lx'. scan_number_done value_unsigned lx = Inr (value_unsigned, lx') \<and> lx_unsigned lx' = x \<and> starts lx' s"
proof -
  obtain lx1 where "lex_unget lx = Inr lx1" "starts lx1 s" "lx_buffer lx1 = dec (unat x)" using unget_head [OF assms] by blast
  then show ?thesis by (simp add: scan_number_done_def strtoull_dec unat_u64 [simplified])
qed

lemma integer_done:
  assumes "read_head lx s (0x2D # dec (nat (- sint x)))" and "1 < lx_total lx" and "sint x < 0"
  shows "\<exists>lx'. scan_number_done value_integer lx = Inr (value_integer, lx') \<and> lx_integer lx' = x \<and> starts lx' s"
proof -
  obtain lx1 where "lex_unget lx = Inr lx1" "starts lx1 s" "lx_buffer lx1 = 0x2D # dec (nat (- sint x))"
    using unget_head [OF assms(1,2)] by blast
  moreover have "strtoll (0x2D # dec (nat (- sint x))) = (x, Suc (length (dec (nat (- sint x)))), False)"
    using strtoll_dec [of "nat (- sint x)"] sint_u64 [of x] assms(3) by simp
  ultimately show ?thesis by (simp add: scan_number_done_def)
qed

text \<open>The digits after the first character of a number.\<close>

lemma number_loop_dec:
  assumes "has_read lx (Some (hd (dec n))) (tl (dec n) @ s) (buf @ [hd (dec n)])" and "stopper s"
    and "st = (if n = 0 then num_zero else num_any1)"
  shows "\<exists>lx'. number_loop st ty lx = scan_number_done ty lx' \<and> read_head lx' s (buf @ dec n) \<and> 1 < lx_total lx'"
proof (cases "n = 0")
  case True
  then show ?thesis using number_loop_zero [of lx _ s "buf @ [hd (dec n)]" ty] assms by (simp add: dec_small)
next
  case False
  have "dec n = hd (dec n) # tl (dec n)" by simp
  moreover have "list_all is_digit (tl (dec n))" by (rule dec_parts(2))
  ultimately show ?thesis using number_loop_digits [OF assms(1) _ assms(2), of ty] False assms(3) by auto
qed

lemma scan_unsigned_reads:
  assumes "starts lx (ws @ dec (unat x) @ s)" and "list_all space ws" and "stopper s"
  shows "\<exists>lx'. scan lx = Inr (value_unsigned, lx') \<and> lx_unsigned lx' = x \<and> starts lx' s"
proof -
  let ?b = "hd (dec (unat x))" and ?st = "if unat x = 0 then num_zero else num_any1"
  have d: "dec (unat x) = ?b # tl (dec (unat x))" by simp
  have b: "is_digit ?b" by (rule dec_parts(1))
  then have n: "\<not> space ?b" "?b \<noteq> 0x2F" by (auto simp: is_space_def is_digit_def)
  have "starts lx (ws @ ?b # tl (dec (unat x)) @ s)" using assms(1) d by (metis append_Cons)
  from scan_first [OF this assms(2) n] obtain lx1 buf where 1: "scan lx = scan_token lx1"
    "has_read lx1 (Some ?b) (tl (dec (unat x)) @ s) buf" by blast
  have r: "has_read (lex_add ?b (lex_reset lx1)) (Some ?b) (tl (dec (unat x)) @ s) ([] @ [?b])"
    using has_read_reset [OF 1(2)] has_read_add by fastforce
  obtain lx2 where 2: "number_loop ?st value_unsigned (lex_add ?b (lex_reset lx1)) = scan_number_done value_unsigned lx2"
    "read_head lx2 s (dec (unat x))" "1 < lx_total lx2"
    using number_loop_dec [OF r assms(3) refl, of value_unsigned] by auto
  have "scan_token lx1 = scan_number lx1" using 1(2) b by (auto simp: scan_token_def has_read_def is_digit_def)
  also have "\<dots> = scan_number_done value_unsigned lx2"
    using 1(2) 2(1) b hd_dec [of "unat x"] by (auto simp: scan_number_def has_read_def is_digit_def lex_reset_def Let_def)
  finally show ?thesis using 1(1) unsigned_done [OF 2(2,3)] by simp
qed

lemma scan_integer_reads:
  assumes "starts lx (ws @ 0x2D # dec (nat (- sint x)) @ s)" and "list_all space ws" and "stopper s" and "sint x < 0"
  shows "\<exists>lx'. scan lx = Inr (value_integer, lx') \<and> lx_integer lx' = x \<and> starts lx' s"
proof -
  let ?n = "nat (- sint x)"
  let ?b = "hd (dec ?n)"
  have d: "dec ?n = ?b # tl (dec ?n)" by simp
  have b: "is_digit ?b" by (rule dec_parts(1))
  have n: "\<not> space 0x2D" "(0x2D :: u8) \<noteq> 0x2F" by (simp_all add: is_space_def)
  from scan_first [OF assms(1,2) n] obtain lx1 buf where 1: "scan lx = scan_token lx1"
    "has_read lx1 (Some 0x2D) (dec ?n @ s) buf" by blast
  have r1: "has_read (lex_add 0x2D (lex_reset lx1)) (Some 0x2D) (?b # tl (dec ?n) @ s) ([] @ [0x2D])"
    using has_read_reset [OF 1(2)] has_read_add d by (metis append_Cons)
  let ?lx = "lex_get (lex_add 0x2D (lex_reset lx1))"
  have r2: "has_read ?lx (Some ?b) (tl (dec ?n) @ s) ([] @ [0x2D])" using has_read_get(1) [OF r1] .
  then have r3: "has_read (lex_add ?b ?lx) (Some ?b) (tl (dec ?n) @ s) ([0x2D] @ [?b])" using has_read_add by fastforce
  have nz: "?n \<noteq> 0" using assms(4) by simp
  obtain lx2 where 2: "number_loop num_any1 value_integer (lex_add ?b ?lx) = scan_number_done value_integer lx2"
    "read_head lx2 s (0x2D # dec ?n)" "1 < lx_total lx2"
    using number_loop_dec [OF r3 assms(3), of num_any1 value_integer] nz by auto
  have "number_loop num_minus value_unsigned (lex_add 0x2D (lex_reset lx1)) = scan_number_done value_integer lx2"
    using r2 2(1) b hd_dec [of ?n] nz
    by (subst number_loop.simps)
      (auto simp: has_read_def num_goto_def num_goto_mantissa_def digit_at_def num_type_def char_of_current_def is_digit_def Let_def)
  then have "scan_token lx1 = scan_number_done value_integer lx2"
    using 1(2) by (auto simp: scan_token_def scan_number_def has_read_def lex_reset_def)
  then show ?thesis using 1(1) integer_done [OF 2(2,3) assms(4)] by simp
qed

end
