(* ===== verification/JsonPointer.thy ===== *)
theory JsonPointer
  imports NumRead
begin

text \<open>
  JSON pointers of \<^verbatim>\<open>include/json/json.hpp\<close>: the reference tokens of a path into a value, their text, the access
  they give, and the flat form of a value, an object from paths to values without parts.
\<close>

section \<open>Text of a pointer\<close>

text \<open>\<^verbatim>\<open>replace_substring\<close>; what was put in is not searched again. The text searched for is never empty.\<close>

function replace_substring :: "bytes \<Rightarrow> bytes \<Rightarrow> bytes \<Rightarrow> bytes" where
  "replace_substring [] f t = []"
| "replace_substring (c # s) f t =
     (if f \<noteq> [] \<and> take (length f) (c # s) = f then t @ replace_substring (drop (length f) (c # s)) f t
      else c # replace_substring s f t)"
  by pat_completeness auto

termination
  by (relation "measure (\<lambda>(s, f, t). length s)") auto

definition escape :: "bytes \<Rightarrow> bytes" where
  "escape s = replace_substring (replace_substring s [0x7E] [0x7E, 0x30]) [0x2F] [0x7E, 0x31]"

definition unescape :: "bytes \<Rightarrow> bytes" where
  "unescape s = replace_substring (replace_substring s [0x7E, 0x31] [0x2F]) [0x7E, 0x30] [0x7E]"

text \<open>Every tilde of a token is followed by \<open>0\<close> or \<open>1\<close>.\<close>

fun escapes_ok :: "bytes \<Rightarrow> bool" where
  "escapes_ok [] = True"
| "escapes_ok (c # s) = ((c = 0x7E \<longrightarrow> take 1 s = [0x30] \<or> take 1 s = [0x31]) \<and> escapes_ok s)"

definition split_token :: "bytes \<Rightarrow> bytes res" where
  "split_token reference_token =
     (if escapes_ok reference_token then Inr (unescape reference_token) else Inl (Uncaught (ParseError 108)))"

function split_tokens :: "bytes \<Rightarrow> bytes list res" where
  "split_tokens s =
     rbind (split_token (takeWhile (\<lambda>c. c \<noteq> 0x2F) s)) (\<lambda>token.
     case dropWhile (\<lambda>c. c \<noteq> 0x2F) s of
       [] \<Rightarrow> Inr [token]
     | _ # rest \<Rightarrow> rbind (split_tokens rest) (\<lambda>result. Inr (token # result)))"
  by pat_completeness auto

termination
proof (relation "measure length", simp, goal_cases)
  case (1 s x c rest)
  then show ?case using length_dropWhile_le [of "\<lambda>c. c \<noteq> 0x2F" s] by simp
qed

declare split_tokens.simps [simp del]

definition pointer_split :: "bytes \<Rightarrow> bytes list res" where
  "pointer_split reference_string = (case reference_string of
      [] \<Rightarrow> Inr []
    | c # s \<Rightarrow> if c \<noteq> 0x2F then Inl (Uncaught (ParseError 107)) else split_tokens s)"

definition pointer_to_string :: "bytes list \<Rightarrow> bytes" where
  "pointer_to_string reference_tokens = foldl (\<lambda>a b. a @ 0x2F # escape b) [] reference_tokens"

section \<open>The parts of a pointer\<close>

definition parent_pointer :: "bytes list \<Rightarrow> bytes list" where
  "parent_pointer ptr = (if ptr = [] then ptr else butlast ptr)"

definition pointer_pop_back :: "bytes list \<Rightarrow> bytes list res" where
  "pointer_pop_back ptr = (if ptr = [] then Inl (Uncaught (OutOfRange 405)) else Inr (butlast ptr))"

definition pointer_back :: "bytes list \<Rightarrow> bytes res" where
  "pointer_back ptr = (if ptr = [] then Inl (Uncaught (OutOfRange 405)) else Inr (last ptr))"

definition pointer_top :: "bytes list \<Rightarrow> bytes list res" where
  "pointer_top ptr = (case ptr of [] \<Rightarrow> Inl (Uncaught (OutOfRange 405)) | t # _ \<Rightarrow> Inr [t])"

text \<open>
  \<^verbatim>\<open>std::stoull\<close>: the number and the count of characters it takes, after blanks and a sign; it throws
  \<^verbatim>\<open>invalid_argument\<close> when there is no digit and \<^verbatim>\<open>out_of_range\<close> when the number has more than 64 bits.
\<close>

datatype stoull_result = Stoull_invalid | Stoull_range | Stoull nat nat

definition stoull :: "bytes \<Rightarrow> stoull_result" where
  "stoull s =
     (let ws = takeWhile (\<lambda>c. c = 0x20 \<or> 0x09 \<le> c \<and> c \<le> 0x0D) s; s1 = drop (length ws) s;
          signed = (take 1 s1 = [0x2D] \<or> take 1 s1 = [0x2B]);
          ds = takeWhile is_digit (if signed then drop 1 s1 else s1); n = digits_val ds
      in if ds = [] then Stoull_invalid
         else if 2 ^ 64 \<le> n then Stoull_range
         else Stoull (if take 1 s1 = [0x2D] then unat (- of_nat n :: u64) else n) (length ws + of_bool signed + length ds))"

text \<open>The index a token stands for; \<^verbatim>\<open>invalid_argument\<close> is not caught.\<close>

definition array_index :: "bytes \<Rightarrow> nat res" where
  "array_index s =
     (if 1 < length s \<and> hd s = 0x30 then Inl (Uncaught (ParseError 106))
      else if 1 < length s \<and> \<not> (0x31 \<le> hd s \<and> hd s \<le> 0x39) then Inl (Uncaught (ParseError 109))
      else case stoull s of
          Stoull_invalid \<Rightarrow> Inl (Uncaught InvalidArgument)
        | Stoull_range \<Rightarrow> Inl (Uncaught (OutOfRange 404))
        | Stoull res processed_chars \<Rightarrow>
            if processed_chars \<noteq> length s then Inl (Uncaught (OutOfRange 404))
            else if 2 ^ 64 - 1 \<le> res then Inl (Uncaught (OutOfRange 410))
            else Inr res)"

section \<open>Access\<close>

definition dash :: bytes where
  "dash = [0x2D]"

text \<open>\<^verbatim>\<open>get_checked\<close>: every part of the path must be there.\<close>

fun get_checked :: "bytes list \<Rightarrow> json \<Rightarrow> json res" where
  "get_checked [] j = Inr j"
| "get_checked (t # ts) (JObject es) = (case map_of es t of
      None \<Rightarrow> Inl (Uncaught (OutOfRange 403))
    | Some v \<Rightarrow> get_checked ts v)"
| "get_checked (t # ts) (JArray vs) =
     (if t = dash then Inl (Uncaught (OutOfRange 402))
      else rbind (array_index t) (\<lambda>idx.
           if idx < length vs then get_checked ts (vs ! idx) else Inl (Uncaught (OutOfRange 401))))"
| "get_checked (t # ts) j = Inl (Uncaught (OutOfRange 404))"

text \<open>
  The same function on a value that may change returns a reference. What is done with the reference is a function
  of the value there; the value around it is put together again.
\<close>

fun at_checked :: "bytes list \<Rightarrow> (json \<Rightarrow> json res) \<Rightarrow> json \<Rightarrow> json res" where
  "at_checked [] f j = f j"
| "at_checked (t # ts) f (JObject es) = (case map_of es t of
      None \<Rightarrow> Inl (Uncaught (OutOfRange 403))
    | Some v \<Rightarrow> rbind (at_checked ts f v) (\<lambda>v. Inr (JObject (obj_assign t v es))))"
| "at_checked (t # ts) f (JArray vs) =
     (if t = dash then Inl (Uncaught (OutOfRange 402))
      else rbind (array_index t) (\<lambda>idx.
           if idx < length vs then rbind (at_checked ts f (vs ! idx)) (\<lambda>v. Inr (JArray (vs[idx := v])))
           else Inl (Uncaught (OutOfRange 401))))"
| "at_checked (t # ts) f j = Inl (Uncaught (OutOfRange 404))"

text \<open>
  \<^verbatim>\<open>operator[]\<close> with a number fills an array up with nulls, unless it would be longer than any array
  can be; \<^verbatim>\<open>operator[]\<close> with a key adds a null.
\<close>

definition json_max_size :: nat where
  "json_max_size = (2 ^ 63 - 1) div 16"

definition array_fill :: "nat \<Rightarrow> json list \<Rightarrow> json list res" where
  "array_fill idx vs =
     (if idx < length vs then Inr vs
      else if json_max_size < idx + 1 then Inl (Uncaught LengthError)
      else Inr (vs @ replicate (idx + 1 - length vs) JNull))"

definition obj_lookup :: "bytes \<Rightarrow> (bytes \<times> json) list \<Rightarrow> json" where
  "obj_lookup k es = (case map_of es k of None \<Rightarrow> JNull | Some v \<Rightarrow> v)"

text \<open>\<^verbatim>\<open>get_unchecked\<close>: a null on the way becomes an array for digits and \<open>-\<close>, an object otherwise.\<close>

definition null_container :: "bytes \<Rightarrow> json \<Rightarrow> json" where
  "null_container t j =
     (if j = JNull then if list_all is_digit t \<or> t = dash then JArray [] else JObject [] else j)"

fun at_unchecked :: "bytes list \<Rightarrow> (json \<Rightarrow> json res) \<Rightarrow> json \<Rightarrow> json res" where
  "at_unchecked [] f j = f j"
| "at_unchecked (t # ts) f j = (case null_container t j of
      JObject es \<Rightarrow> rbind (at_unchecked ts f (obj_lookup t es)) (\<lambda>v. Inr (JObject (obj_assign t v es)))
    | JArray vs \<Rightarrow>
        rbind (if t = dash then Inr (length vs) else array_index t) (\<lambda>idx.
        rbind (array_fill idx vs) (\<lambda>vs.
        rbind (at_unchecked ts f (vs ! idx)) (\<lambda>v. Inr (JArray (vs[idx := v])))))
    | _ \<Rightarrow> Inl (Uncaught (OutOfRange 404)))"

text \<open>\<^verbatim>\<open>get_and_create\<close>: a null becomes an array only for \<open>0\<close>.\<close>

fun at_created :: "bytes list \<Rightarrow> (json \<Rightarrow> json res) \<Rightarrow> json \<Rightarrow> json res" where
  "at_created [] f j = f j"
| "at_created (t # ts) f JNull =
     (if t = [0x30] then rbind (at_created ts f JNull) (\<lambda>v. Inr (JArray [v]))
      else rbind (at_created ts f JNull) (\<lambda>v. Inr (JObject [(t, v)])))"
| "at_created (t # ts) f (JObject es) =
     rbind (at_created ts f (obj_lookup t es)) (\<lambda>v. Inr (JObject (obj_assign t v es)))"
| "at_created (t # ts) f (JArray vs) =
     rbind (array_index t) (\<lambda>idx.
     rbind (array_fill idx vs) (\<lambda>vs.
     rbind (at_created ts f (vs ! idx)) (\<lambda>v. Inr (JArray (vs[idx := v])))))"
| "at_created (t # ts) f j = Inl (Uncaught (TypeError 313))"

text \<open>\<^verbatim>\<open>contains\<close>: the tokens that are no index are sorted out first, all but the empty one.\<close>

definition index_shape :: "bytes \<Rightarrow> bool" where
  "index_shape t \<longleftrightarrow> \<not> (length t = 1 \<and> \<not> is_digit (hd t))
     \<and> (1 < length t \<longrightarrow> 0x31 \<le> hd t \<and> hd t \<le> 0x39 \<and> list_all is_digit (tl t))"

fun pointer_contains :: "bytes list \<Rightarrow> json \<Rightarrow> bool res" where
  "pointer_contains [] j = Inr True"
| "pointer_contains (t # ts) (JObject es) = (case map_of es t of
      None \<Rightarrow> Inr False
    | Some v \<Rightarrow> pointer_contains ts v)"
| "pointer_contains (t # ts) (JArray vs) =
     (if t = dash \<or> \<not> index_shape t then Inr False
      else rbind (array_index t) (\<lambda>idx. if length vs \<le> idx then Inr False else pointer_contains ts (vs ! idx)))"
| "pointer_contains (t # ts) j = Inr False"

section \<open>Flat values\<close>

fun json_flatten :: "bytes \<Rightarrow> json \<Rightarrow> (bytes \<times> json) list \<Rightarrow> (bytes \<times> json) list"
  and flatten_array :: "bytes \<Rightarrow> nat \<Rightarrow> json list \<Rightarrow> (bytes \<times> json) list \<Rightarrow> (bytes \<times> json) list"
  and flatten_object :: "bytes \<Rightarrow> (bytes \<times> json) list \<Rightarrow> (bytes \<times> json) list \<Rightarrow> (bytes \<times> json) list" where
  "json_flatten reference_string (JArray vs) result =
     (if vs = [] then obj_assign reference_string JNull result else flatten_array reference_string 0 vs result)"
| "json_flatten reference_string (JObject es) result =
     (if es = [] then obj_assign reference_string JNull result else flatten_object reference_string es result)"
| "json_flatten reference_string j result = obj_assign reference_string j result"
| "flatten_array reference_string i [] result = result"
| "flatten_array reference_string i (v # vs) result =
     flatten_array reference_string (i + 1) vs (json_flatten (reference_string @ 0x2F # dec i) v result)"
| "flatten_object reference_string [] result = result"
| "flatten_object reference_string ((k, v) # es) result =
     flatten_object reference_string es (json_flatten (reference_string @ 0x2F # escape k) v result)"

text \<open>The member functions, and \<^verbatim>\<open>unflatten\<close> of a pointer.\<close>

definition flatten :: "json \<Rightarrow> json" where
  "flatten j = JObject (json_flatten [] j [])"

fun is_primitive :: "json \<Rightarrow> bool" where
  "is_primitive (JObject es) = False"
| "is_primitive (JArray vs) = False"
| "is_primitive JDiscarded = False"
| "is_primitive j = True"

definition unflatten :: "json \<Rightarrow> json res" where
  "unflatten value = (case value of
      JObject es \<Rightarrow>
        rfold (\<lambda>(path, v) result.
          if \<not> is_primitive v then Inl (Uncaught (TypeError 315))
          else rbind (pointer_split path) (\<lambda>ptr. at_created ptr (\<lambda>_. Inr v) result)) es JNull
    | _ \<Rightarrow> Inl (Uncaught (TypeError 314)))"

section \<open>A pointer and its text\<close>

lemma replace_char: "replace_substring s [c] t = concat (map (\<lambda>x. if x = c then t else [x]) s)"
  by (induction s) auto

definition esc_char :: "u8 \<Rightarrow> bytes" where
  "esc_char c = (if c = 0x7E then [0x7E, 0x30] else if c = 0x2F then [0x7E, 0x31] else [c])"

lemma escape_chars: "escape s = concat (map esc_char s)"
  by (induction s) (auto simp: escape_def replace_char esc_char_def)

lemma escape_simps [simp]: "escape [] = []" "escape (c # s) = esc_char c @ escape s"
  by (simp_all add: escape_chars)

lemma unescape_escape [simp]: "unescape (escape s) = s"
proof -
  let ?e = "\<lambda>c :: u8. if c = 0x7E then [0x7E, 0x30] else [c]"
  have "replace_substring (escape s) [0x7E, 0x31] [0x2F] = concat (map ?e s)"
    by (induction s) (auto simp: esc_char_def)
  moreover have "replace_substring (concat (map ?e s)) [0x7E, 0x30] [0x7E] = s"
    by (induction s) auto
  ultimately show ?thesis by (simp add: unescape_def)
qed

lemma escape_ok [simp]: "escapes_ok (escape s)"
  by (induction s) (auto simp: esc_char_def)

lemma escape_no_slash: "\<forall>c \<in> set (escape s). c \<noteq> 0x2F"
  by (induction s) (auto simp: esc_char_def)

lemma takeWhile_escape [simp]: "takeWhile (\<lambda>c. c \<noteq> 0x2F) (escape s @ 0x2F # r) = escape s" "takeWhile (\<lambda>c. c \<noteq> 0x2F) (escape s) = escape s"
  using escape_no_slash [of s] by (simp_all add: takeWhile_append2 takeWhile_eq_all_conv)

lemma dropWhile_escape [simp]: "dropWhile (\<lambda>c. c \<noteq> 0x2F) (escape s @ 0x2F # r) = 0x2F # r" "dropWhile (\<lambda>c. c \<noteq> 0x2F) (escape s) = []"
  using escape_no_slash [of s] by (simp_all add: dropWhile_append2 dropWhile_eq_Nil_conv)

lemma pointer_to_string_snoc [simp]: "pointer_to_string (ts @ [t]) = pointer_to_string ts @ 0x2F # escape t"
  by (simp add: pointer_to_string_def)

lemma pointer_to_string_concat: "pointer_to_string ts = concat (map (\<lambda>t. 0x2F # escape t) ts)"
  by (induction ts rule: rev_induct) (simp_all add: pointer_to_string_def)

lemma split_tokens_escape:
  "split_tokens (escape t @ concat (map (\<lambda>t. 0x2F # escape t) ts)) = Inr (t # ts)"
proof (induction ts arbitrary: t)
  case Nil
  then show ?case by (subst split_tokens.simps) (simp add: split_token_def)
next
  case (Cons u ts)
  then show ?case by (subst split_tokens.simps) (simp add: split_token_def)
qed

theorem pointer_roundtrip: "pointer_split (pointer_to_string ptr) = Inr ptr"
  by (cases ptr) (simp_all add: pointer_to_string_concat pointer_split_def split_tokens_escape)

section \<open>Indices\<close>

lemma escape_dec [simp]: "escape (dec n) = dec n"
proof -
  have "esc_char c = [c]" if "is_digit c" for c using that by (auto simp: esc_char_def is_digit_def)
  then have "list_all is_digit s \<Longrightarrow> escape s = s" for s by (induction s) simp_all
  then show ?thesis using dec_digits by blast
qed

lemma digit_not_blank: "is_digit c \<Longrightarrow> \<not> (c = 0x20 \<or> 0x09 \<le> c \<and> c \<le> 0x0D)" "is_digit c \<Longrightarrow> c \<noteq> 0x2D" "is_digit c \<Longrightarrow> c \<noteq> 0x2B"
  by (unfold is_digit_def, unat_arith) auto

lemma stoull_dec: "n < 2 ^ 64 \<Longrightarrow> stoull (dec n) = Stoull n (length (dec n))"
proof -
  assume n: "n < 2 ^ 64"
  obtain c s where c: "dec n = c # s" by (cases "dec n") simp_all
  then have "is_digit c" using dec_parts(1) [of n] by simp
  then have "takeWhile (\<lambda>c. c = 0x20 \<or> 0x09 \<le> c \<and> c \<le> 0x0D) (dec n) = []" "take 1 (dec n) \<noteq> [0x2D]" "take 1 (dec n) \<noteq> [0x2B]"
    using digit_not_blank [of c] by (simp_all add: c)
  then show ?thesis using n by (simp add: stoull_def Let_def)
qed

lemma array_index_dec: "n < 2 ^ 64 - 1 \<Longrightarrow> array_index (dec n) = Inr n"
proof -
  assume n: "n < 2 ^ 64 - 1"
  have "n \<noteq> 0" if "1 < length (dec n)" using that by (cases "n = 0") (simp_all add: dec_small)
  then have "hd (dec n) \<noteq> 0x30" if "1 < length (dec n)" using that hd_dec by simp
  moreover have "0x30 \<le> hd (dec n)" "hd (dec n) \<le> 0x39" using dec_parts(1) [of n] by (simp_all add: is_digit_def)
  moreover have "0x31 \<le> c" if "0x30 \<le> c" "c \<noteq> 0x30" for c :: u8 using that by unat_arith
  ultimately show ?thesis using n by (auto simp: array_index_def stoull_dec)
qed

lemma dec_not_dash: "dec n \<noteq> dash"
  using dec_digits [of n] by (auto simp: dash_def is_digit_def)

end
