(* ===== verification/JsonPatch.thy ===== *)
theory JsonPatch
  imports JsonPointer
begin

text \<open>
  JSON Patch and JSON Merge Patch of \<^verbatim>\<open>include/json/json.hpp\<close>: the comparison of two values, the operations a patch
  can hold, \<^verbatim>\<open>diff\<close>, which computes one, and \<^verbatim>\<open>merge_patch\<close>.
\<close>

section \<open>Comparison\<close>

datatype value_t =
    null_t | object_t | array_t | string_t | boolean_t | number_integer_t | number_unsigned_t | number_float_t
  | binary_t | discarded_t

fun json_type :: "json \<Rightarrow> value_t" where
  "json_type JNull = null_t"
| "json_type (JObject es) = object_t"
| "json_type (JArray vs) = array_t"
| "json_type (JString s) = string_t"
| "json_type (JBoolean b) = boolean_t"
| "json_type (JInteger n) = number_integer_t"
| "json_type (JUnsigned n) = number_unsigned_t"
| "json_type (JFloat d) = number_float_t"
| "json_type (JBinary b st) = binary_t"
| "json_type JDiscarded = discarded_t"

text \<open>\<^verbatim>\<open>==\<close> of two doubles, and the conversions of the integers to one.\<close>

definition f64_eq :: "u64 \<Rightarrow> u64 \<Rightarrow> bool" where
  "f64_eq a b \<longleftrightarrow> \<not> f64_isnan a \<and> \<not> f64_isnan b \<and> (a = b \<or> take_bit 63 a = 0 \<and> take_bit 63 b = 0)"

definition f64_of_integer :: "u64 \<Rightarrow> u64" where
  "f64_of_integer n = decimal_double (sint n < 0) (nat \<bar>sint n\<bar>) 0"

definition f64_of_unsigned :: "u64 \<Rightarrow> u64" where
  "f64_of_unsigned n = decimal_double False (unat n) 0"

text \<open>Values without parts: of the same type, or two numbers of different types.\<close>

definition scalar_eq :: "json \<Rightarrow> json \<Rightarrow> bool" where
  "scalar_eq lhs rhs = (case lhs of
      JNull \<Rightarrow> rhs = JNull
    | JString s \<Rightarrow> rhs = JString s
    | JBoolean b \<Rightarrow> rhs = JBoolean b
    | JBinary b st \<Rightarrow> rhs = JBinary b st
    | JInteger m \<Rightarrow> (case rhs of JInteger n \<Rightarrow> m = n | JUnsigned n \<Rightarrow> m = n | JFloat e \<Rightarrow> f64_eq (f64_of_integer m) e | _ \<Rightarrow> False)
    | JUnsigned m \<Rightarrow> (case rhs of JInteger n \<Rightarrow> m = n | JUnsigned n \<Rightarrow> m = n | JFloat e \<Rightarrow> f64_eq (f64_of_unsigned m) e | _ \<Rightarrow> False)
    | JFloat d \<Rightarrow> (case rhs of JInteger n \<Rightarrow> f64_eq d (f64_of_integer n) | JUnsigned n \<Rightarrow> f64_eq d (f64_of_unsigned n)
        | JFloat e \<Rightarrow> f64_eq d e | _ \<Rightarrow> False)
    | _ \<Rightarrow> False)"

fun json_eq :: "json \<Rightarrow> json \<Rightarrow> bool"
  and array_eq :: "json list \<Rightarrow> json list \<Rightarrow> bool"
  and object_eq :: "(bytes \<times> json) list \<Rightarrow> (bytes \<times> json) list \<Rightarrow> bool" where
  "json_eq (JArray vs) (JArray ws) = array_eq vs ws"
| "json_eq (JObject es) (JObject fs) = object_eq es fs"
| "json_eq lhs rhs = scalar_eq lhs rhs"
| "array_eq [] [] = True"
| "array_eq (v # vs) (w # ws) = (json_eq v w \<and> array_eq vs ws)"
| "array_eq _ _ = False"
| "object_eq [] [] = True"
| "object_eq ((k, v) # es) ((l, w) # fs) = (k = l \<and> json_eq v w \<and> object_eq es fs)"
| "object_eq _ _ = False"

section \<open>Applying a patch\<close>

datatype patch_operations = op_add | op_remove | op_replace | op_move | op_copy | op_test | op_invalid

definition get_op :: "bytes \<Rightarrow> patch_operations" where
  "get_op op =
     (if op = bytes_of ''add'' then op_add
      else if op = bytes_of ''remove'' then op_remove
      else if op = bytes_of ''replace'' then op_replace
      else if op = bytes_of ''move'' then op_move
      else if op = bytes_of ''copy'' then op_copy
      else if op = bytes_of ''test'' then op_test
      else op_invalid)"

text \<open>What \<^verbatim>\<open>operation_add\<close> does with the parent, and \<^verbatim>\<open>operation_remove\<close>, which leaves any other parent alone.\<close>

definition add_child :: "bytes \<Rightarrow> json \<Rightarrow> json \<Rightarrow> json res" where
  "add_child last_path val parent = (case parent of
      JNull \<Rightarrow> Inr (JObject [(last_path, val)])
    | JObject es \<Rightarrow> Inr (JObject (obj_assign last_path val es))
    | JArray vs \<Rightarrow>
        if last_path = dash then Inr (JArray (vs @ [val]))
        else rbind (array_index last_path) (\<lambda>idx.
             if length vs < idx then Inl (Uncaught (OutOfRange 401))
             else Inr (JArray (take idx vs @ val # drop idx vs)))
    | _ \<Rightarrow> Inl AssertFail)"

definition operation_add :: "bytes list \<Rightarrow> json \<Rightarrow> json \<Rightarrow> json res" where
  "operation_add ptr val result =
     (if ptr = [] then Inr val
      else rbind (pointer_top ptr) (\<lambda>top_pointer.
           rbind (if top_pointer \<noteq> ptr then get_checked top_pointer result else Inr result) (\<lambda>_.
           rbind (pointer_back ptr) (\<lambda>last_path.
           rbind (pointer_pop_back ptr) (\<lambda>ptr.
           at_unchecked ptr (add_child last_path val) result)))))"

definition obj_erase :: "bytes \<Rightarrow> (bytes \<times> json) list \<Rightarrow> (bytes \<times> json) list" where
  "obj_erase k es = filter (\<lambda>(l, v). l \<noteq> k) es"

definition remove_child :: "bytes \<Rightarrow> json \<Rightarrow> json res" where
  "remove_child last_path parent = (case parent of
      JObject es \<Rightarrow>
        if map_of es last_path \<noteq> None then Inr (JObject (obj_erase last_path es)) else Inl (Uncaught (OutOfRange 403))
    | JArray vs \<Rightarrow> rbind (array_index last_path) (\<lambda>idx.
        if length vs \<le> idx then Inl (Uncaught (OutOfRange 401)) else Inr (JArray (take idx vs @ drop (Suc idx) vs)))
    | _ \<Rightarrow> Inr parent)"

definition operation_remove :: "bytes list \<Rightarrow> json \<Rightarrow> json res" where
  "operation_remove ptr result =
     rbind (pointer_back ptr) (\<lambda>last_path.
     rbind (pointer_pop_back ptr) (\<lambda>ptr.
     at_checked ptr (remove_child last_path) result))"

text \<open>The members of an operation.\<close>

definition get_value :: "json \<Rightarrow> string \<Rightarrow> json res" where
  "get_value val member = (case val of
      JObject es \<Rightarrow> (case map_of es (bytes_of member) of
          None \<Rightarrow> Inl (Uncaught (ParseError 105))
        | Some v \<Rightarrow> Inr v)
    | _ \<Rightarrow> Inl (Uncaught (ParseError 104)))"

definition get_string_value :: "json \<Rightarrow> string \<Rightarrow> bytes res" where
  "get_string_value val member =
     rbind (get_value val member) (\<lambda>v. case v of JString s \<Rightarrow> Inr s | _ \<Rightarrow> Inl (Uncaught (ParseError 105)))"

text \<open>
  A test that cannot reach its path has failed, as one that finds another value; the message of the exception
  holds the operation as text. The path is looked up before the member \<^verbatim>\<open>value\<close>.
\<close>

definition operation_test :: "bytes list \<Rightarrow> json \<Rightarrow> json \<Rightarrow> json res" where
  "operation_test ptr val result =
     rbind (case get_checked ptr result of
         Inr v \<Rightarrow> rbind (get_value val ''value'') (\<lambda>w. Inr (json_eq v w))
       | Inl (Uncaught (OutOfRange _)) \<Rightarrow> Inr False
       | Inl e \<Rightarrow> Inl e) (\<lambda>success.
     if success then Inr result
     else rbind (json_dump (- 1) 0x20 False eh_strict val) (\<lambda>_. Inl (Uncaught (OtherError 501))))"

definition apply_operation :: "json \<Rightarrow> json \<Rightarrow> json res" where
  "apply_operation val result =
     (if json_type val \<noteq> object_t then Inl (Uncaught (ParseError 104))
      else rbind (get_string_value val ''op'') (\<lambda>op.
           rbind (get_string_value val ''path'') (\<lambda>path.
           rbind (pointer_split path) (\<lambda>ptr.
           case get_op op of
             op_add \<Rightarrow> rbind (get_value val ''value'') (\<lambda>v. operation_add ptr v result)
           | op_remove \<Rightarrow> operation_remove ptr result
           | op_replace \<Rightarrow> rbind (get_value val ''value'') (\<lambda>v. at_checked ptr (\<lambda>_. Inr v) result)
           | op_move \<Rightarrow>
               rbind (get_string_value val ''from'') (\<lambda>from_path.
               rbind (pointer_split from_path) (\<lambda>from_ptr.
               rbind (get_checked from_ptr result) (\<lambda>v.
               rbind (operation_remove from_ptr result) (\<lambda>result. operation_add ptr v result))))
           | op_copy \<Rightarrow>
               rbind (get_string_value val ''from'') (\<lambda>from_path.
               rbind (pointer_split from_path) (\<lambda>from_ptr.
               rbind (get_checked from_ptr result) (\<lambda>v. operation_add ptr v result)))
           | op_test \<Rightarrow> operation_test ptr val result
           | op_invalid \<Rightarrow> Inl (Uncaught (ParseError 105))))))"

definition json_patch :: "json \<Rightarrow> json \<Rightarrow> json res" where
  "json_patch doc patch = (case patch of
      JArray ops \<Rightarrow> rfold apply_operation ops doc
    | _ \<Rightarrow> Inl (Uncaught (ParseError 104)))"

section \<open>Computing a patch\<close>

definition patch_pair :: "string \<Rightarrow> json \<Rightarrow> json" where
  "patch_pair k v = json_init [JString (bytes_of k), v]"

definition patch_replace :: "bytes \<Rightarrow> json \<Rightarrow> json" where
  "patch_replace path v =
     json_init [patch_pair ''op'' (JString (bytes_of ''replace'')), patch_pair ''path'' (JString path), patch_pair ''value'' v]"

definition patch_remove :: "bytes \<Rightarrow> json" where
  "patch_remove path = json_init [patch_pair ''op'' (JString (bytes_of ''remove'')), patch_pair ''path'' (JString path)]"

definition patch_add :: "bytes \<Rightarrow> json \<Rightarrow> json" where
  "patch_add path v =
     json_init [patch_pair ''op'' (JString (bytes_of ''add'')), patch_pair ''path'' (JString path), patch_pair ''value'' v]"

definition elements_of :: "json \<Rightarrow> json list" where
  "elements_of j = (case j of JArray vs \<Rightarrow> vs | _ \<Rightarrow> [])"

definition members_of :: "json \<Rightarrow> (bytes \<times> json) list" where
  "members_of j = (case j of JObject es \<Rightarrow> es | _ \<Rightarrow> [])"

text \<open>The elements left over on either side of an array, and the members an object does not have yet.\<close>

definition remove_rest :: "nat \<Rightarrow> nat \<Rightarrow> bytes \<Rightarrow> json list" where
  "remove_rest m n path = rev (map (\<lambda>i. patch_remove (path @ 0x2F # dec i)) [m..<n])"

definition add_rest :: "json list \<Rightarrow> bytes \<Rightarrow> json list" where
  "add_rest ws path = map (\<lambda>w. patch_add (path @ 0x2F # dash) w) ws"

definition add_members :: "(bytes \<times> json) list \<Rightarrow> (bytes \<times> json) list \<Rightarrow> bytes \<Rightarrow> json list" where
  "add_members es fs path = map (\<lambda>(k, w). patch_add (path @ 0x2F # escape k) w) (filter (\<lambda>(k, w). map_of es k = None) fs)"

function (sequential) json_diff :: "json \<Rightarrow> json \<Rightarrow> bytes \<Rightarrow> json list"
  and diff_elements :: "nat \<Rightarrow> json list \<Rightarrow> json list \<Rightarrow> bytes \<Rightarrow> json list"
  and diff_members :: "(bytes \<times> json) list \<Rightarrow> (bytes \<times> json) list \<Rightarrow> bytes \<Rightarrow> json list" where
  "json_diff source target path =
     (if json_eq source target then []
      else if json_type source \<noteq> json_type target then [patch_replace path target]
      else case source of
          JArray vs \<Rightarrow>
            diff_elements 0 vs (elements_of target) path @ remove_rest (length (elements_of target)) (length vs) path
            @ add_rest (drop (length vs) (elements_of target)) path
        | JObject es \<Rightarrow> diff_members es (members_of target) path @ add_members es (members_of target) path
        | _ \<Rightarrow> [patch_replace path target])"
| "diff_elements i (v # vs) (w # ws) path = json_diff v w (path @ 0x2F # dec i) @ diff_elements (i + 1) vs ws path"
| "diff_elements i _ _ path = []"
| "diff_members [] fs path = []"
| "diff_members ((k, v) # es) fs path =
     (case map_of fs k of
        Some w \<Rightarrow> json_diff v w (path @ 0x2F # escape k)
      | None \<Rightarrow> [patch_remove (path @ 0x2F # escape k)])
     @ diff_members es fs path"
  by pat_completeness auto

termination
  by (relation "measure (\<lambda>x. case x of Inl (v, w, p) \<Rightarrow> size v | Inr (Inl (i, vs, ws, p)) \<Rightarrow> size_list size vs
       | Inr (Inr (es, fs, p)) \<Rightarrow> size_list (size_prod (\<lambda>_. 0) size) es)") simp_all

definition diff :: "json \<Rightarrow> json \<Rightarrow> json" where
  "diff source target = JArray (json_diff source target [])"

section \<open>Merge patches\<close>

fun merge_patch :: "json \<Rightarrow> json \<Rightarrow> json"
  and merge_members :: "(bytes \<times> json) list \<Rightarrow> (bytes \<times> json) list \<Rightarrow> (bytes \<times> json) list" where
  "merge_patch (JObject ps) target = JObject (merge_members ps (case target of JObject es \<Rightarrow> es | _ \<Rightarrow> []))"
| "merge_patch p target = p"
| "merge_members [] es = es"
| "merge_members ((k, p) # ps) es =
     merge_members ps (if p = JNull then obj_erase k es else obj_assign k (merge_patch p (obj_lookup k es)) es)"

section \<open>Places in a value\<close>

fun json_wf :: "json \<Rightarrow> bool" where
  "json_wf (JObject es) = (keys_ascend es \<and> (\<forall>(k, v) \<in> set es. json_wf v))"
| "json_wf (JArray vs) = (length vs \<le> json_max_size \<and> (\<forall>v \<in> set vs. json_wf v))"
| "json_wf j = True"

lemma map_of_assign_same [simp]: "map_of (obj_assign k v es) k = Some v"
  by (induction k v es rule: obj_assign.induct) auto

lemma obj_assign_twice [simp]: "obj_assign k w (obj_assign k v es) = obj_assign k w es"
  by (induction k v es rule: obj_assign.induct) auto

lemma set_obj_assign_subset: "set (obj_assign k v es) \<subseteq> insert (k, v) (set es)"
  by (induction k v es rule: obj_assign.induct) auto

lemma obj_assign_there:
  assumes "keys_ascend es" and "map_of es k = Some v"
  shows "obj_assign k v es = es"
  using assms
proof (induction es)
  case (Cons e es)
  obtain l w where e: "e = (l, w)" by (cases e)
  show ?case
  proof (cases "k = l")
    case False
    then have m: "map_of es k = Some v" using Cons.prems(2) by (simp add: e)
    then have "bytes_less l k" using Cons.prems(1) map_of_SomeD by (fastforce simp: e keys_ascend_Cons)
    then have "\<not> bytes_less k l" using bytes_less_trans [of l k l] by auto
    then show ?thesis using False m Cons.IH Cons.prems(1) by (simp add: e keys_ascend_Cons)
  qed (use Cons.prems in \<open>simp add: e\<close>)
qed simp

lemma at_checked_append: "at_checked (ts @ us) f D = at_checked ts (at_checked us f) D"
  by (induction ts "at_checked us f" D rule: at_checked.induct) (auto simp: rbind_def split: option.splits sum.splits)

lemma get_checked_append: "get_checked (ts @ us) D = rbind (get_checked ts D) (get_checked us)"
  by (induction ts D rule: get_checked.induct) (auto simp: rbind_def split: option.splits sum.splits)

text \<open>What is done at a place depends on the value there only.\<close>

lemma at_checked_there:
  "get_checked ts D = Inr v \<Longrightarrow> at_checked ts f D = rbind (f v) (\<lambda>w. at_checked ts (\<lambda>_. Inr w) D)"
proof (induction ts f D rule: at_checked.induct)
  case (1 f j)
  then show ?case by (cases "f v") simp_all
next
  case (2 t ts f es)
  then show ?case by (cases "f v") (auto split: option.splits)
next
  case (3 t ts f vs)
  then show ?case by (cases "f v") (auto simp: rbind_Inr_iff split: if_splits)
qed simp_all

lemma at_unchecked_there: "get_checked ts D = Inr v \<Longrightarrow> at_unchecked ts f D = at_checked ts f D"
proof (induction ts f D rule: at_checked.induct)
  case (2 t ts f es)
  then show ?case by (auto simp: null_container_def obj_lookup_def split: option.splits)
next
  case (3 t ts f vs)
  then show ?case by (auto simp: null_container_def array_fill_def rbind_Inr_iff split: if_splits)
qed simp_all

lemma wf_there: "get_checked ts D = Inr v \<Longrightarrow> json_wf D \<Longrightarrow> json_wf v"
proof (induction ts D rule: get_checked.induct)
  case (2 t ts es)
  then show ?case by (auto split: option.splits dest: map_of_SomeD)
next
  case (3 t ts vs)
  then show ?case by (auto simp: rbind_Inr_iff split: if_splits)
qed simp_all

lemma set_there:
  assumes "get_checked ts D = Inr v"
  shows "\<exists>D'. at_checked ts (\<lambda>_. Inr w) D = Inr D' \<and> get_checked ts D' = Inr w
    \<and> (\<forall>u. at_checked ts (\<lambda>_. Inr u) D' = at_checked ts (\<lambda>_. Inr u) D) \<and> (json_wf D \<longrightarrow> json_wf w \<longrightarrow> json_wf D')"
  using assms
proof (induction ts D rule: get_checked.induct)
  case (2 t ts es)
  then obtain x where x: "map_of es t = Some x" "get_checked ts x = Inr v" by (auto split: option.splits)
  from "2.IH" [OF x] obtain y where y: "at_checked ts (\<lambda>_. Inr w) x = Inr y" "get_checked ts y = Inr w"
    "\<forall>u. at_checked ts (\<lambda>_. Inr u) y = at_checked ts (\<lambda>_. Inr u) x" "json_wf x \<longrightarrow> json_wf w \<longrightarrow> json_wf y" by blast
  have "json_wf (JObject (obj_assign t y es))" if "json_wf (JObject es)" "json_wf w"
  proof -
    have "json_wf y" using that x(1) y(4) map_of_SomeD by fastforce
    then show ?thesis using that(1) set_obj_assign_subset [of t y es] keys_ascend_obj_assign [of es t y] by auto
  qed
  then show ?case using x y by auto
next
  case (3 t ts vs)
  then obtain i where i: "t \<noteq> dash" "array_index t = Inr i" "i < length vs" "get_checked ts (vs ! i) = Inr v"
    by (auto simp: rbind_Inr_iff split: if_splits)
  from "3.IH" [OF i] obtain y where y: "at_checked ts (\<lambda>_. Inr w) (vs ! i) = Inr y" "get_checked ts y = Inr w"
    "\<forall>u. at_checked ts (\<lambda>_. Inr u) y = at_checked ts (\<lambda>_. Inr u) (vs ! i)" "json_wf (vs ! i) \<longrightarrow> json_wf w \<longrightarrow> json_wf y" by blast
  have "json_wf (JArray (vs[i := y]))" if "json_wf (JArray vs)" "json_wf w"
    using that i(3) y(4) set_update_subset_insert [of vs i y] by auto
  moreover have "at_checked (t # ts) (\<lambda>_. Inr w) (JArray vs) = Inr (JArray (vs[i := y]))" using i y(1) by simp
  moreover have "get_checked (t # ts) (JArray (vs[i := y])) = Inr w" using i y(2) by simp
  moreover have "at_checked (t # ts) (\<lambda>_. Inr u) (JArray (vs[i := y])) = at_checked (t # ts) (\<lambda>_. Inr u) (JArray vs)" for u
    using i y(3) by simp
  ultimately show ?case by blast
qed simp_all

lemma set_same: "get_checked ts D = Inr v \<Longrightarrow> json_wf D \<Longrightarrow> at_checked ts (\<lambda>_. Inr v) D = Inr D"
proof (induction ts D rule: get_checked.induct)
  case (2 t ts es)
  then obtain x where x: "map_of es t = Some x" "get_checked ts x = Inr v" by (auto split: option.splits)
  then have "json_wf x" using "2.prems"(2) map_of_SomeD by fastforce
  then show ?case using x "2.IH" "2.prems"(2) obj_assign_there [of es t x] by simp
next
  case (3 t ts vs)
  then show ?case by (auto simp: rbind_Inr_iff split: if_splits)
qed simp_all

section \<open>Single operations\<close>

lemma patch_texts [simp]:
  "patch_replace path v = JObject [(bytes_of ''op'', JString (bytes_of ''replace'')), (bytes_of ''path'', JString path), (bytes_of ''value'', v)]"
  "patch_add path v = JObject [(bytes_of ''op'', JString (bytes_of ''add'')), (bytes_of ''path'', JString path), (bytes_of ''value'', v)]"
  "patch_remove path = JObject [(bytes_of ''op'', JString (bytes_of ''remove'')), (bytes_of ''path'', JString path)]"
  by (simp_all add: patch_replace_def patch_add_def patch_remove_def patch_pair_def json_init_def bytes_of_def)

lemma apply_replace: "apply_operation (patch_replace (pointer_to_string ts) w) D = at_checked ts (\<lambda>_. Inr w) D"
  by (simp add: apply_operation_def get_string_value_def get_value_def pointer_roundtrip get_op_def bytes_of_def)

lemma apply_remove: "apply_operation (patch_remove (pointer_to_string (ts @ [t]))) D = at_checked ts (remove_child t) D"
  unfolding apply_operation_def
  by (simp add: get_string_value_def get_value_def pointer_roundtrip [of "ts @ [t]", simplified] get_op_def bytes_of_def
      operation_remove_def pointer_back_def pointer_pop_back_def)

lemma apply_add:
  assumes "get_checked ts D = Inr v"
  shows "apply_operation (patch_add (pointer_to_string (ts @ [t])) w) D = at_checked ts (add_child t w) D"
proof -
  have "operation_add (ts @ [t]) w D = at_checked ts (add_child t w) D"
  proof (cases ts)
    case Nil
    then show ?thesis by (simp add: operation_add_def pointer_top_def pointer_back_def pointer_pop_back_def)
  next
    case (Cons u us)
    then have "get_checked ([u] @ us) D = Inr v" using assms by simp
    then obtain x where "get_checked [u] D = Inr x" unfolding get_checked_append by (auto simp: rbind_Inr_iff)
    then show ?thesis using Cons at_unchecked_there [OF assms]
      by (simp add: operation_add_def pointer_top_def pointer_back_def pointer_pop_back_def)
  qed
  then show ?thesis unfolding apply_operation_def
    by (simp add: get_string_value_def get_value_def pointer_roundtrip [of "ts @ [t]", simplified] get_op_def bytes_of_def)
qed

end
