(* ===== verification/DiffPatch.thy ===== *)
theory DiffPatch
  imports JsonPatch
begin

text \<open>
  What \<^verbatim>\<open>diff\<close> computes, \<^verbatim>\<open>patch\<close> carries out: the operations of a patch applied one by one below a place, the three
  passes over the parts of two arrays or objects, and where comparison and patches do not do what their documents say.
\<close>

section \<open>Patches that change one place\<close>

text \<open>\<open>turns ops ts a b\<close>: wherever the value at \<open>ts\<close> is \<open>a\<close>, the operations make it \<open>b\<close> and change nothing else.\<close>

definition turns :: "json list \<Rightarrow> bytes list \<Rightarrow> json \<Rightarrow> json \<Rightarrow> bool" where
  "turns ops ts a b \<longleftrightarrow>
     (\<forall>D. json_wf D \<longrightarrow> get_checked ts D = Inr a \<longrightarrow> rfold apply_operation ops D = at_checked ts (\<lambda>_. Inr b) D)"

lemma turns_Nil: "turns [] ts a a"
  by (simp add: turns_def set_same)

lemma turns_append:
  assumes "turns ops ts a b" and "turns ops' ts b c" and "json_wf b"
  shows "turns (ops @ ops') ts a c"
  unfolding turns_def
proof (intro allI impI)
  fix D assume D: "json_wf D" "get_checked ts D = Inr a"
  obtain D' where D': "at_checked ts (\<lambda>_. Inr b) D = Inr D'" "get_checked ts D' = Inr b"
    "at_checked ts (\<lambda>_. Inr c) D' = at_checked ts (\<lambda>_. Inr c) D" "json_wf D'"
    using set_there [OF D(2), of b] D(1) assms(3) by blast
  have "rfold apply_operation ops D = Inr D'" using assms(1) D D'(1) by (simp add: turns_def)
  moreover have "rfold apply_operation ops' D' = at_checked ts (\<lambda>_. Inr c) D" using assms(2) D' by (simp add: turns_def)
  ultimately show "rfold apply_operation (ops @ ops') D = at_checked ts (\<lambda>_. Inr c) D" by (simp add: rfold_append)
qed

text \<open>One operation, by what it does to the value.\<close>

lemma turns_one:
  assumes "\<And>D. get_checked ts D = Inr a \<Longrightarrow> apply_operation op D = at_checked ts f D" and "f a = Inr b"
  shows "turns [op] ts a b"
  unfolding turns_def
proof (intro allI impI)
  fix D assume D: "get_checked ts D = Inr a"
  then have "apply_operation op D = at_checked ts (\<lambda>_. Inr b) D" using assms at_checked_there [OF D, of f] by simp
  then show "rfold apply_operation [op] D = at_checked ts (\<lambda>_. Inr b) D"
    by (cases "at_checked ts (\<lambda>_. Inr b) D") simp_all
qed

lemma turns_replace: "turns [patch_replace (pointer_to_string ts) w] ts a w"
  by (rule turns_one [where f = "\<lambda>_. Inr w"]) (simp_all only: apply_replace)

lemma turns_remove: "remove_child t a = Inr b \<Longrightarrow> turns [patch_remove (pointer_to_string (ts @ [t]))] ts a b"
  by (rule turns_one [where f = "remove_child t"]) (simp_all only: apply_remove)

lemma turns_add: "add_child t w a = Inr b \<Longrightarrow> turns [patch_add (pointer_to_string (ts @ [t])) w] ts a b"
  by (rule turns_one [where f = "add_child t w"]) (simp_all only: apply_add)

text \<open>Operations further down.\<close>

lemma turns_below:
  assumes "turns ops (ts @ [t]) a b" and "get_checked [t] p = Inr a" and "at_checked [t] (\<lambda>_. Inr b) p = Inr q"
  shows "turns ops ts p q"
  unfolding turns_def
proof (intro allI impI)
  fix D assume D: "json_wf D" "get_checked ts D = Inr p"
  have "get_checked (ts @ [t]) D = Inr a" using D(2) assms(2) by (simp add: get_checked_append)
  then have "rfold apply_operation ops D = at_checked (ts @ [t]) (\<lambda>_. Inr b) D" using assms(1) D(1) by (simp add: turns_def)
  also have "\<dots> = at_checked ts (\<lambda>_. Inr q) D"
    using at_checked_there [OF D(2), of "at_checked [t] (\<lambda>_. Inr b)"] assms(3) by (simp add: at_checked_append)
  finally show "rfold apply_operation ops D = at_checked ts (\<lambda>_. Inr q) D" .
qed

lemma turns_member:
  assumes "turns ops (ts @ [k]) a b" and "map_of es k = Some a"
  shows "turns ops ts (JObject es) (JObject (obj_assign k b es))"
  by (rule turns_below [OF assms(1)]) (use assms(2) in simp_all)

lemma json_max_size_64: "json_max_size < 2 ^ 64 - 1"
  by (simp add: json_max_size_def)

lemma index_ok: "i \<le> json_max_size \<Longrightarrow> array_index (dec i) = Inr i"
  using json_max_size_64 by (intro array_index_dec) simp

lemma turns_element:
  assumes "turns ops (ts @ [dec i]) (vs ! i) b" and "i < length vs" and "length vs \<le> json_max_size"
  shows "turns ops ts (JArray vs) (JArray (vs[i := b]))"
  by (rule turns_below [OF assms(1)]) (use assms(2,3) dec_not_dash index_ok in simp_all)

section \<open>Arrays\<close>

lemma path_dec: "pointer_to_string ts @ 0x2F # dec i = pointer_to_string (ts @ [dec i])"
  by simp

lemma escape_dash [simp]: "escape dash = dash"
  by (simp add: dash_def esc_char_def)

lemma turns_remove_rest:
  assumes "length (xs @ ys) \<le> json_max_size" and "\<forall>v \<in> set (xs @ ys). json_wf v"
  shows "turns (remove_rest (length xs) (length (xs @ ys)) (pointer_to_string ts)) ts (JArray (xs @ ys)) (JArray xs)"
  using assms
proof (induction ys rule: rev_induct)
  case Nil
  show ?case using turns_Nil by (simp add: remove_rest_def)
next
  case (snoc y ys)
  let ?n = "length (xs @ ys)"
  have r: "remove_rest (length xs) (length (xs @ ys @ [y])) (pointer_to_string ts)
      = [patch_remove (pointer_to_string (ts @ [dec ?n]))] @ remove_rest (length xs) ?n (pointer_to_string ts)"
    by (simp add: remove_rest_def del: patch_texts)
  have i: "array_index (dec ?n) = Inr ?n" using snoc.prems(1) by (intro index_ok) simp
  have "remove_child (dec ?n) (JArray (xs @ ys @ [y])) = Inr (JArray (xs @ ys))"
    unfolding remove_child_def json.case i by simp
  then have "turns [patch_remove (pointer_to_string (ts @ [dec ?n]))] ts (JArray (xs @ ys @ [y])) (JArray (xs @ ys))"
    by (rule turns_remove)
  moreover have "turns (remove_rest (length xs) ?n (pointer_to_string ts)) ts (JArray (xs @ ys)) (JArray xs)"
    by (rule snoc.IH) (use snoc.prems in auto)
  moreover have "json_wf (JArray (xs @ ys))" using snoc.prems by auto
  ultimately show ?case unfolding r by (rule turns_append)
qed

lemma turns_add_rest:
  assumes "length (xs @ ws) \<le> json_max_size" and "\<forall>v \<in> set (xs @ ws). json_wf v"
  shows "turns (add_rest ws (pointer_to_string ts)) ts (JArray xs) (JArray (xs @ ws))"
  using assms
proof (induction ws arbitrary: xs)
  case Nil
  show ?case using turns_Nil by (simp add: add_rest_def)
next
  case (Cons w ws)
  have r: "add_rest (w # ws) (pointer_to_string ts) = [patch_add (pointer_to_string (ts @ [dash])) w] @ add_rest ws (pointer_to_string ts)"
    by (simp add: add_rest_def del: patch_texts)
  have "turns [patch_add (pointer_to_string (ts @ [dash])) w] ts (JArray xs) (JArray (xs @ [w]))"
    by (rule turns_add) (simp add: add_child_def)
  moreover have "turns (add_rest ws (pointer_to_string ts)) ts (JArray (xs @ [w])) (JArray ((xs @ [w]) @ ws))"
    by (rule Cons.IH) (use Cons.prems in auto)
  moreover have "json_wf (JArray (xs @ [w]))" using Cons.prems by auto
  ultimately show ?case unfolding r using turns_append by fastforce
qed

section \<open>Objects\<close>

lemma map_of_obj_erase [simp]: "map_of (obj_erase k es) = (map_of es)(k := None)"
  by (induction es) (auto simp: obj_erase_def)

lemma keys_ascend_obj_erase: "keys_ascend es \<Longrightarrow> keys_ascend (obj_erase k es)"
  by (simp add: keys_ascend_def obj_erase_def sorted_wrt_filter)

lemma wf_assign: "json_wf (JObject es) \<Longrightarrow> json_wf v \<Longrightarrow> json_wf (JObject (obj_assign k v es))"
  using set_obj_assign_subset [of k v es] keys_ascend_obj_assign [of es k v] by auto

lemma wf_erase: "json_wf (JObject es) \<Longrightarrow> json_wf (JObject (obj_erase k es))"
  using keys_ascend_obj_erase [of es k] by (auto simp: obj_erase_def)

lemma keys_distinct: "keys_ascend es \<Longrightarrow> distinct (map fst es)"
  by (induction es) (fastforce simp: keys_ascend_Cons)+

lemma turns_add_members:
  assumes "json_wf (JObject cur)" and "\<forall>(k, w) \<in> set fs. json_wf w" and "distinct (map fst fs)"
  shows "\<exists>cur'. turns (add_members es fs (pointer_to_string ts)) ts (JObject cur) (JObject cur') \<and> json_wf (JObject cur')
    \<and> map_of cur' = (\<lambda>k. if map_of es k = None \<and> map_of fs k \<noteq> None then map_of fs k else map_of cur k)"
  using assms
proof (induction fs arbitrary: cur)
  case Nil
  show ?case using Nil.prems(1) turns_Nil by (auto simp: add_members_def)
next
  case (Cons e fs)
  obtain k w where e: "e = (k, w)" by (cases e)
  have w: "json_wf w" "\<forall>(k, w) \<in> set fs. json_wf w" "distinct (map fst fs)" using Cons.prems by (auto simp: e)
  have k: "map_of fs k = None" using Cons.prems(3) by (auto simp: e map_of_eq_None_iff)
  show ?case
  proof (cases "map_of es k = None")
    case True
    let ?cur = "obj_assign k w cur"
    have wf: "json_wf (JObject ?cur)" using Cons.prems(1) w(1) by (rule wf_assign)
    from Cons.IH [OF wf w(2,3)] obtain cur' where cur': "turns (add_members es fs (pointer_to_string ts)) ts (JObject ?cur) (JObject cur')"
      "json_wf (JObject cur')" "map_of cur' = (\<lambda>k. if map_of es k = None \<and> map_of fs k \<noteq> None then map_of fs k else map_of ?cur k)" by blast
    have "turns [patch_add (pointer_to_string (ts @ [k])) w] ts (JObject cur) (JObject ?cur)"
      by (rule turns_add) (simp add: add_child_def)
    then have "turns ([patch_add (pointer_to_string (ts @ [k])) w] @ add_members es fs (pointer_to_string ts)) ts (JObject cur) (JObject cur')"
      using cur'(1) wf by (rule turns_append)
    moreover have "add_members es (e # fs) (pointer_to_string ts) = [patch_add (pointer_to_string (ts @ [k])) w] @ add_members es fs (pointer_to_string ts)"
      using True by (simp add: e add_members_def del: patch_texts)
    moreover have "map_of ?cur = (map_of cur)(k \<mapsto> w)" using Cons.prems(1) by (simp add: map_of_obj_assign)
    then have "map_of cur' = (\<lambda>l. if map_of es l = None \<and> map_of (e # fs) l \<noteq> None then map_of (e # fs) l else map_of cur l)"
      using cur'(3) True k by (auto simp: e)
    ultimately show ?thesis using cur'(2) by auto
  next
    case False
    have "add_members es (e # fs) (pointer_to_string ts) = add_members es fs (pointer_to_string ts)"
      using False by (simp add: e add_members_def)
    moreover have "(\<lambda>l. if map_of es l = None \<and> map_of (e # fs) l \<noteq> None then map_of (e # fs) l else map_of cur l)
      = (\<lambda>l. if map_of es l = None \<and> map_of fs l \<noteq> None then map_of fs l else map_of cur l)"
      by (rule ext) (use False in \<open>auto simp: e\<close>)
    ultimately show ?thesis using Cons.IH [OF Cons.prems(1) w(2,3)] by simp
  qed
qed

section \<open>Equality\<close>

text \<open>The values that equal themselves: those without a NaN and without a discarded value.\<close>

fun comparable :: "json \<Rightarrow> bool" where
  "comparable (JObject es) = (\<forall>(k, v) \<in> set es. comparable v)"
| "comparable (JArray vs) = (\<forall>v \<in> set vs. comparable v)"
| "comparable (JFloat d) = (\<not> f64_isnan d)"
| "comparable JDiscarded = False"
| "comparable j = True"

lemma array_eq_all: "array_eq vs ws \<longleftrightarrow> list_all2 json_eq vs ws"
proof (induction vs arbitrary: ws)
  case Nil
  show ?case by (cases ws) simp_all
next
  case (Cons v vs)
  then show ?case by (cases ws) simp_all
qed

lemma object_eq_all: "object_eq es fs \<longleftrightarrow> list_all2 (\<lambda>(k, v) (l, w). k = l \<and> json_eq v w) es fs"
proof (induction es arbitrary: fs)
  case Nil
  show ?case by (cases fs) simp_all
next
  case (Cons e es)
  obtain k v where "e = (k, v)" by (cases e)
  then show ?case using Cons by (cases fs) (auto split: prod.splits)
qed

lemma json_eq_refl: "comparable j \<Longrightarrow> json_eq j j"
proof (induction j)
  case (JObject es)
  then show ?case by (auto simp: object_eq_all list_all2_same)
next
  case (JArray vs)
  then show ?case by (auto simp: array_eq_all list_all2_same)
qed (simp_all add: scalar_eq_def f64_eq_def)

lemma keys_ascend_min: "keys_ascend ((k, v) # es) \<Longrightarrow> bytes_less l k \<or> l = k \<Longrightarrow> map_of es l = None"
  by (auto simp: keys_ascend_Cons map_of_eq_None_iff dest: bytes_less_trans)

lemma object_eq_maps:
  assumes "keys_ascend es" and "keys_ascend fs" and "\<forall>k. rel_option json_eq (map_of es k) (map_of fs k)"
  shows "object_eq es fs"
  using assms
proof (induction es arbitrary: fs)
  case Nil
  show ?case
  proof (cases fs)
    case (Cons f fs')
    then show ?thesis using Nil.prems(3)[rule_format, of "fst f"] by (cases f) simp
  qed simp
next
  case (Cons e es)
  obtain k v where e: "e = (k, v)" by (cases e)
  have "map_of fs k \<noteq> None" using Cons.prems(3) [rule_format, of k] by (auto simp: e option_rel_Some1)
  then obtain l w fs' where fs: "fs = (l, w) # fs'" by (cases fs) auto
  have kl: "k = l"
  proof (rule ccontr)
    assume n: "k \<noteq> l"
    then consider "bytes_less k l" | "bytes_less l k" using bytes_less_linear by blast
    then show False
    proof cases
      case 1
      then have "map_of fs k = None" using keys_ascend_min [of l w fs' k] Cons.prems(2) n by (simp add: fs)
      then show False using \<open>map_of fs k \<noteq> None\<close> by simp
    next
      case 2
      then have "map_of (e # es) l = None" using keys_ascend_min [of k v es l] Cons.prems(1) n by (simp add: e)
      then show False using Cons.prems(3) [rule_format, of l] by (simp add: fs)
    qed
  qed
  have "rel_option json_eq (map_of es m) (map_of fs' m)" for m
  proof (cases "m = k")
    case True
    then show ?thesis using keys_ascend_min [of k v es k] keys_ascend_min [of l w fs' l] Cons.prems(1,2) by (simp add: e fs kl)
  next
    case False
    then show ?thesis using Cons.prems(3) [rule_format, of m] by (simp add: e fs kl)
  qed
  then have "object_eq es fs'" using Cons.IH Cons.prems(1,2) by (simp add: e fs keys_ascend_Cons)
  moreover have "json_eq v w" using Cons.prems(3) [rule_format, of k] by (simp add: e fs kl)
  ultimately show ?case by (simp add: e fs kl)
qed

section \<open>A difference, applied\<close>

declare json_diff.simps [simp del]

lemma wf_array: "json_wf (JArray vs) \<longleftrightarrow> length vs \<le> json_max_size \<and> (\<forall>v \<in> set vs. json_wf v)"
  by simp

lemma diff_turns:
  "path = pointer_to_string ts \<Longrightarrow> json_wf source \<Longrightarrow> json_wf target \<Longrightarrow> comparable target \<Longrightarrow>
    \<exists>r. json_wf r \<and> json_eq r target \<and> turns (json_diff source target path) ts source r"
  "path = pointer_to_string ts \<Longrightarrow> length rs = i \<Longrightarrow> json_wf (JArray (rs @ vs)) \<Longrightarrow> \<forall>w \<in> set ws. json_wf w \<and> comparable w \<Longrightarrow>
    \<exists>rs'. length rs' = min (length vs) (length ws) \<and> array_eq rs' (take (length vs) ws) \<and> (\<forall>v \<in> set rs'. json_wf v)
      \<and> turns (diff_elements i vs ws path) ts (JArray (rs @ vs)) (JArray (rs @ rs' @ drop (length ws) vs))"
  "path = pointer_to_string ts \<Longrightarrow> json_wf (JObject cur) \<Longrightarrow> distinct (map fst es) \<Longrightarrow> \<forall>(k, v) \<in> set es. map_of cur k = Some v \<Longrightarrow>
    \<forall>(k, w) \<in> set fs. json_wf w \<and> comparable w \<Longrightarrow>
    \<exists>cur'. turns (diff_members es fs path) ts (JObject cur) (JObject cur') \<and> json_wf (JObject cur')
      \<and> (\<forall>k. map_of es k = None \<longrightarrow> map_of cur' k = map_of cur k)
      \<and> (\<forall>k. map_of es k \<noteq> None \<longrightarrow> rel_option json_eq (map_of cur' k) (map_of fs k))"
proof (induction source target path and i vs ws path and es fs path arbitrary: ts and ts rs and ts cur
    rule: json_diff_diff_elements_diff_members.induct)
  case (1 source target path)
  show ?case
  proof (cases "json_eq source target")
    case True
    then show ?thesis using "1.prems"(2) turns_Nil by (auto simp: json_diff.simps)
  next
    case neq: False
    have replace: "\<exists>r. json_wf r \<and> json_eq r target \<and> turns [patch_replace path target] ts source r"
      using "1.prems" json_eq_refl turns_replace by blast
    show ?thesis
    proof (cases "json_type source = json_type target")
      case False
      then show ?thesis using neq replace by (simp add: json_diff.simps)
    next
      case ty: True
      consider vs where "source = JArray vs" | es where "source = JObject es"
        | "json_diff source target path = [patch_replace path target]"
        using neq ty by (cases source) (auto simp: json_diff.simps)
      then show ?thesis
      proof cases
        case (1 vs)
        then obtain ws where ws: "target = JArray ws" using ty by (cases target) simp_all
        have d: "json_diff source target path =
            diff_elements 0 vs ws path @ remove_rest (length ws) (length vs) path @ add_rest (drop (length vs) ws) path"
          using neq by (simp add: json_diff.simps 1 ws elements_of_def)
        have vs: "length vs \<le> json_max_size" "\<forall>v \<in> set vs. json_wf v" using "1.prems"(2) by (simp_all add: 1)
        have w: "length ws \<le> json_max_size" "\<forall>w \<in> set ws. json_wf w \<and> comparable w" using "1.prems"(3,4) by (simp_all add: ws)
        obtain rs where rs: "length rs = min (length vs) (length ws)" "array_eq rs (take (length vs) ws)" "\<forall>v \<in> set rs. json_wf v"
          "turns (diff_elements 0 vs ws path) ts (JArray vs) (JArray (rs @ drop (length ws) vs))"
          using "1.IH"(2) [OF neq _ 1, of ts "[]"] ty "1.prems"(1,2) w(2) by (auto simp: 1 ws elements_of_def)
        have wf1: "json_wf (JArray (rs @ drop (length ws) vs))"
          using rs(1,3) vs by (auto dest: in_set_dropD)
        have "turns (remove_rest (length ws) (length vs) path) ts (JArray (rs @ drop (length ws) vs)) (JArray rs)"
        proof (cases "length ws \<le> length vs")
          case True
          then have "length rs = length ws" "length (rs @ drop (length ws) vs) = length vs" using rs(1) by simp_all
          then show ?thesis using turns_remove_rest [of rs "drop (length ws) vs" ts] wf1 "1.prems"(1) by simp
        next
          case False
          then show ?thesis using turns_Nil by (simp add: remove_rest_def)
        qed
        moreover have "turns (add_rest (drop (length vs) ws) path) ts (JArray rs) (JArray (rs @ drop (length vs) ws))"
          unfolding "1.prems"(1) by (rule turns_add_rest) (use rs(1,3) w in \<open>auto dest: in_set_dropD\<close>)
        moreover have "json_wf (JArray rs)" using rs(1,3) vs(1) by simp
        ultimately have "turns (json_diff source target path) ts source (JArray (rs @ drop (length vs) ws))"
          unfolding d unfolding 1 using rs(4) wf1 turns_append by meson
        moreover have "json_wf (JArray (rs @ drop (length vs) ws))"
          using rs(1,3) w by (auto dest: in_set_dropD)
        moreover have "list_all2 json_eq (drop (length vs) ws) (drop (length vs) ws)"
          using w(2) json_eq_refl by (auto simp: list_all2_same dest: in_set_dropD)
        then have "list_all2 json_eq (rs @ drop (length vs) ws) (take (length vs) ws @ drop (length vs) ws)"
          using rs(2) by (intro list_all2_appendI) (simp_all add: array_eq_all)
        then have "json_eq (JArray (rs @ drop (length vs) ws)) target" by (simp add: ws array_eq_all)
        ultimately show ?thesis by blast
      next
        case (2 es)
        then obtain fs where fs: "target = JObject fs" using ty by (cases target) simp_all
        have d: "json_diff source target path = diff_members es fs path @ add_members es fs path"
          using neq by (simp add: json_diff.simps 2 fs members_of_def)
        have es: "keys_ascend es" "json_wf (JObject es)" using "1.prems"(2) by (simp_all add: 2)
        have f: "keys_ascend fs" "\<forall>(k, w) \<in> set fs. json_wf w \<and> comparable w" using "1.prems"(3,4) by (auto simp: fs)
        have mo: "\<forall>(k, v) \<in> set es. map_of es k = Some v" using keys_distinct [OF es(1)] by auto
        obtain cur where cur: "turns (diff_members es fs path) ts (JObject es) (JObject cur)" "json_wf (JObject cur)"
          "\<forall>k. map_of es k = None \<longrightarrow> map_of cur k = map_of es k"
          "\<forall>k. map_of es k \<noteq> None \<longrightarrow> rel_option json_eq (map_of cur k) (map_of fs k)"
          using "1.IH"(1) [OF neq _ 2, of ts es] ty "1.prems"(1) es keys_distinct [OF es(1)] mo f(2) by (auto simp: 2 fs members_of_def)
        obtain cur' where cur': "turns (add_members es fs (pointer_to_string ts)) ts (JObject cur) (JObject cur')" "json_wf (JObject cur')"
          "map_of cur' = (\<lambda>k. if map_of es k = None \<and> map_of fs k \<noteq> None then map_of fs k else map_of cur k)"
          using turns_add_members [OF cur(2), of fs es ts] f keys_distinct [OF f(1)] by auto
        have "rel_option json_eq (map_of cur' k) (map_of fs k)" for k
        proof (cases "map_of es k")
          case None
          show ?thesis
          proof (cases "map_of fs k")
            case (Some w)
            then have "json_eq w w" using f(2) json_eq_refl map_of_SomeD by fastforce
            then show ?thesis using None Some cur'(3) by simp
          qed (use None cur(3) cur'(3) in simp)
        qed (use cur(4) cur'(3) in simp)
        then have "json_eq (JObject cur') target" unfolding fs using cur'(2) f(1) object_eq_maps by simp
        moreover have "turns (json_diff source target path) ts source (JObject cur')"
          unfolding d unfolding 2 using cur(1,2) cur'(1) turns_append "1.prems"(1) by meson
        ultimately show ?thesis using cur'(2) by blast
      next
        case 3
        then show ?thesis using replace by simp
      qed
    qed
  qed
next
  case (2 i v vs w ws path)
  have wf: "json_wf v" "json_wf w" "comparable w" "\<forall>w \<in> set ws. json_wf w \<and> comparable w" using "2.prems"(3,4) by auto
  obtain r where r: "json_wf r" "json_eq r w" "turns (json_diff v w (path @ 0x2F # dec i)) (ts @ [dec i]) v r"
    using "2.IH"(1) [of "ts @ [dec i]"] "2.prems"(1) wf by auto
  have len: "length (rs @ v # vs) \<le> json_max_size" using "2.prems"(3) by simp
  have t: "turns (json_diff v w (path @ 0x2F # dec i)) ts (JArray (rs @ v # vs)) (JArray ((rs @ [r]) @ vs))"
    using turns_element [of _ ts i "rs @ v # vs" r] r(3) "2.prems"(2) len by (simp add: nth_append list_update_append)
  have wf': "json_wf (JArray ((rs @ [r]) @ vs))" using "2.prems"(3) r(1) by auto
  obtain rs' where rs': "length rs' = min (length vs) (length ws)" "array_eq rs' (take (length vs) ws)" "\<forall>v \<in> set rs'. json_wf v"
    "turns (diff_elements (i + 1) vs ws path) ts (JArray ((rs @ [r]) @ vs)) (JArray ((rs @ [r]) @ rs' @ drop (length ws) vs))"
    using "2.IH"(2) [OF "2.prems"(1) _ wf' wf(4)] "2.prems"(2) by auto
  have "turns (diff_elements i (v # vs) (w # ws) path) ts (JArray (rs @ v # vs)) (JArray (rs @ (r # rs') @ drop (length (w # ws)) (v # vs)))"
    using turns_append [OF t rs'(4) wf'] by simp
  then show ?case using rs' r by (intro exI [of _ "r # rs'"]) auto
next
  case "3_1"
  then show ?case using turns_Nil by simp
next
  case "3_2"
  then show ?case using turns_Nil by simp
next
  case (4 fs path)
  then show ?case using turns_Nil by auto
next
  case (5 k v es fs path)
  have k: "map_of cur k = Some v" "map_of es k = None" "distinct (map fst es)" "\<forall>(k, v) \<in> set es. map_of cur k = Some v"
    using "5.prems"(3,4) by (auto simp: map_of_eq_None_iff)
  have step: "\<exists>cur1. turns (case map_of fs k of Some w \<Rightarrow> json_diff v w (path @ 0x2F # escape k) | None \<Rightarrow> [patch_remove (path @ 0x2F # escape k)])
      ts (JObject cur) (JObject cur1) \<and> json_wf (JObject cur1) \<and> (\<forall>l. l \<noteq> k \<longrightarrow> map_of cur1 l = map_of cur l)
      \<and> rel_option json_eq (map_of cur1 k) (map_of fs k)"
  proof (cases "map_of fs k")
    case None
    have "remove_child k (JObject cur) = Inr (JObject (obj_erase k cur))" using k(1) by (simp add: remove_child_def)
    then have "turns [patch_remove (path @ 0x2F # escape k)] ts (JObject cur) (JObject (obj_erase k cur))"
      using turns_remove [of k "JObject cur" "JObject (obj_erase k cur)" ts] "5.prems"(1) by (simp del: patch_texts)
    then show ?thesis using None wf_erase [OF "5.prems"(2)] by (intro exI [of _ "obj_erase k cur"]) (simp del: patch_texts)
  next
    case (Some w)
    then have w: "json_wf w" "comparable w" using "5.prems"(5) map_of_SomeD by fastforce+
    have "json_wf v" using "5.prems"(2) k(1) map_of_SomeD by fastforce
    then obtain r where r: "json_wf r" "json_eq r w" "turns (json_diff v w (path @ 0x2F # escape k)) (ts @ [k]) v r"
      using "5.IH"(1) [OF Some, of "ts @ [k]"] "5.prems"(1) w by auto
    have "turns (json_diff v w (path @ 0x2F # escape k)) ts (JObject cur) (JObject (obj_assign k r cur))"
      by (rule turns_member [OF r(3) k(1)])
    moreover have "map_of (obj_assign k r cur) = (map_of cur)(k \<mapsto> r)" using "5.prems"(2) by (simp add: map_of_obj_assign)
    ultimately show ?thesis using Some r(2) wf_assign [OF "5.prems"(2) r(1)] by (intro exI [of _ "obj_assign k r cur"]) simp
  qed
  then obtain cur1 where c1: "turns (case map_of fs k of Some w \<Rightarrow> json_diff v w (path @ 0x2F # escape k)
      | None \<Rightarrow> [patch_remove (path @ 0x2F # escape k)]) ts (JObject cur) (JObject cur1)"
    "json_wf (JObject cur1)" "\<forall>l. l \<noteq> k \<longrightarrow> map_of cur1 l = map_of cur l" "rel_option json_eq (map_of cur1 k) (map_of fs k)"
    by blast
  have "map_of cur1 l = Some v" if "(l, v) \<in> set es" for l v
  proof -
    have "l \<noteq> k" using that k(2) by (force simp: map_of_eq_None_iff)
    then show ?thesis using that k(4) c1(3) by auto
  qed
  then have there: "\<forall>(l, v) \<in> set es. map_of cur1 l = Some v" by blast
  from "5.IH"(2) [OF "5.prems"(1) c1(2) k(3) there "5.prems"(5)]
  obtain cur' where c2: "turns (diff_members es fs path) ts (JObject cur1) (JObject cur')" "json_wf (JObject cur')"
    "\<forall>k. map_of es k = None \<longrightarrow> map_of cur' k = map_of cur1 k"
    "\<forall>k. map_of es k \<noteq> None \<longrightarrow> rel_option json_eq (map_of cur' k) (map_of fs k)" by blast
  have "turns (diff_members ((k, v) # es) fs path) ts (JObject cur) (JObject cur')"
    using turns_append [OF c1(1) c2(1) c1(2)] by (simp del: patch_texts)
  moreover have "map_of cur' l = map_of cur l" if "map_of ((k, v) # es) l = None" for l
    using that c1(3) c2(3) by (simp split: if_splits)
  moreover have "rel_option json_eq (map_of cur' k) (map_of fs k)" using c1(4) c2(3) k(2) by simp
  then have "rel_option json_eq (map_of cur' l) (map_of fs l)" if "map_of ((k, v) # es) l \<noteq> None" for l
    using that c2(4) by (cases "l = k") simp_all
  ultimately show ?case using c2(2) by blast
qed

text \<open>
  C37: the patch that \<^verbatim>\<open>diff\<close> computes from one value to another, applied to the first, gives a value that equals the
  second, if that has neither a NaN nor a discarded value in it.
\<close>

theorem diff_patch:
  assumes "json_wf source" and "json_wf target" and "comparable target"
  shows "\<exists>j. json_patch source (diff source target) = Inr j \<and> json_eq j target"
proof -
  obtain r where r: "json_eq r target" "turns (json_diff source target []) [] source r"
    using diff_turns(1) [of "[]" "[]" source target] assms by (auto simp: pointer_to_string_def)
  then have "rfold apply_operation (json_diff source target []) source = Inr r" using assms(1) by (simp add: turns_def)
  then show ?thesis using r(1) by (simp add: json_patch_def diff_def)
qed

lemma diff_patch_witness:
  "\<exists>j. json_patch (JObject [([97], JArray [JUnsigned 1, JUnsigned 2]), ([98], JNull)])
        (diff (JObject [([97], JArray [JUnsigned 1, JUnsigned 2]), ([98], JNull)]) (JObject [([97], JArray [JInteger 3]), ([99], JString [])]))
      = Inr j \<and> json_eq j (JObject [([97], JArray [JInteger 3]), ([99], JString [])])"
  by (rule diff_patch) (simp_all add: json_max_size_def keys_ascend_Cons)

section \<open>Merge patches\<close>

lemma keys_ascend_eq:
  assumes "keys_ascend es" and "keys_ascend fs" and "map_of es = map_of fs"
  shows "es = fs"
  using assms
proof (induction es arbitrary: fs)
  case Nil
  then show ?case by (cases fs) (auto simp: fun_eq_iff split: if_splits)
next
  case (Cons e es)
  obtain k v where e: "e = (k, v)" by (cases e)
  have "map_of fs k \<noteq> None" using Cons.prems(3) by (simp add: e fun_eq_iff [symmetric] flip: Cons.prems(3))
  then obtain l w fs' where fs: "fs = (l, w) # fs'" by (cases fs) auto
  have kl: "k = l"
  proof (rule ccontr)
    assume n: "k \<noteq> l"
    then consider "bytes_less k l" | "bytes_less l k" using bytes_less_linear by blast
    then show False
    proof cases
      case 1
      then have "map_of fs k = None" using keys_ascend_min [of l w fs' k] Cons.prems(2) n by (simp add: fs)
      then show False using \<open>map_of fs k \<noteq> None\<close> by simp
    next
      case 2
      then have "map_of (e # es) l = None" using keys_ascend_min [of k v es l] Cons.prems(1) n by (simp add: e)
      then show False unfolding Cons.prems(3) by (simp add: fs)
    qed
  qed
  have "map_of es m = map_of fs' m" for m
  proof (cases "m = k")
    case True
    then show ?thesis using keys_ascend_min [of k v es k] keys_ascend_min [of l w fs' l] Cons.prems(1,2) by (simp add: e fs kl)
  next
    case False
    then show ?thesis using fun_cong [OF Cons.prems(3), of m] by (simp add: e fs kl)
  qed
  then have "es = fs'" using Cons.IH Cons.prems(1,2) by (auto simp: e fs keys_ascend_Cons)
  moreover have "v = w" using fun_cong [OF Cons.prems(3), of k] by (simp add: e fs kl)
  ultimately show ?case by (simp add: e fs kl)
qed

lemma merge_members_ascend: "keys_ascend es \<Longrightarrow> keys_ascend (merge_members ps es)"
proof (induction ps arbitrary: es)
  case (Cons e ps)
  obtain k p where "e = (k, p)" by (cases e)
  then show ?case using Cons keys_ascend_obj_erase keys_ascend_obj_assign by auto
qed simp

text \<open>What a member of a merge patch does to its name, and to no other.\<close>

lemma merge_members_lookup:
  assumes "keys_ascend es" and "distinct (map fst ps)"
  shows "map_of (merge_members ps es) k = (case map_of ps k of
      None \<Rightarrow> map_of es k
    | Some p \<Rightarrow> if p = JNull then None else Some (merge_patch p (obj_lookup k es)))"
  using assms
proof (induction ps arbitrary: es)
  case (Cons e ps)
  obtain l p where e: "e = (l, p)" by (cases e)
  let ?es = "if p = JNull then obj_erase l es else obj_assign l (merge_patch p (obj_lookup l es)) es"
  have asc: "keys_ascend ?es" using Cons.prems(1) keys_ascend_obj_erase keys_ascend_obj_assign by auto
  have d: "distinct (map fst ps)" "map_of ps l = None" using Cons.prems(2) by (auto simp: e map_of_eq_None_iff)
  have m: "map_of ?es m = (if m = l then if p = JNull then None else Some (merge_patch p (obj_lookup l es)) else map_of es m)" for m
    using Cons.prems(1) by (simp add: map_of_obj_assign)
  then have lu: "obj_lookup m ?es = obj_lookup m es" if "m \<noteq> l" for m using that unfolding obj_lookup_def by metis
  have step: "merge_members (e # ps) es = merge_members ps ?es" by (simp add: e)
  show ?case
  proof (cases "k = l")
    case True
    then show ?thesis unfolding step Cons.IH [OF asc d(1)] m using d(2) by (simp add: e)
  next
    case False
    then show ?thesis unfolding step Cons.IH [OF asc d(1)] m lu [OF False] by (simp add: e)
  qed
qed simp

text \<open>A merge patch applied a second time changes nothing.\<close>

lemma merge_patch_twice:
  "json_wf p \<Longrightarrow> json_wf target \<Longrightarrow> merge_patch p (merge_patch p target) = merge_patch p target"
proof (induction p arbitrary: target)
  case (JObject ps)
  let ?es = "case target of JObject es \<Rightarrow> es | _ \<Rightarrow> []"
  have ps: "distinct (map fst ps)" using JObject.prems(1) keys_distinct by simp
  have es: "keys_ascend ?es" "\<forall>(k, v) \<in> set ?es. json_wf v" using JObject.prems(2) by (auto split: json.splits)
  have asc: "keys_ascend (merge_members ps ?es)" using es(1) by (rule merge_members_ascend)
  have "map_of (merge_members ps (merge_members ps ?es)) k = map_of (merge_members ps ?es) k" for k
  proof (cases "map_of ps k")
    case (Some p)
    show ?thesis
    proof (cases "p = JNull")
      case False
      have p: "(k, p) \<in> set ps" using Some by (rule map_of_SomeD)
      then have "json_wf p" using JObject.prems(1) by auto
      moreover have "json_wf (obj_lookup k ?es)" using es(2) by (auto simp: obj_lookup_def split: option.splits dest: map_of_SomeD)
      ultimately have "merge_patch p (merge_patch p (obj_lookup k ?es)) = merge_patch p (obj_lookup k ?es)"
        using JObject.IH [of "(k, p)" p] p by simp
      moreover have "obj_lookup k (merge_members ps ?es) = merge_patch p (obj_lookup k ?es)"
        using merge_members_lookup [OF es(1) ps, of k] Some False by (simp add: obj_lookup_def)
      ultimately show ?thesis
        using merge_members_lookup [OF asc ps, of k] merge_members_lookup [OF es(1) ps, of k] Some False by simp
    qed (use merge_members_lookup [OF asc ps, of k] merge_members_lookup [OF es(1) ps, of k] Some in simp)
  qed (use merge_members_lookup [OF asc ps, of k] in simp)
  then show ?case using keys_ascend_eq [OF merge_members_ascend [OF asc] asc] by auto
qed simp_all

section \<open>Corners\<close>

text \<open>Two equal NaN differ, and no patch makes them equal; a signed and an unsigned number are compared by their bits.\<close>

lemma nan_never_equal: "json_patch (JFloat f64_nan) (diff (JFloat f64_nan) (JFloat f64_nan)) = Inr (JFloat f64_nan)"
  "\<not> json_eq (JFloat f64_nan) (JFloat f64_nan)"
  by (simp_all add: json_patch_def diff_def json_diff.simps scalar_eq_def f64_eq_def f64_isnan_def f64_nan_def apply_operation_def
      get_string_value_def get_value_def pointer_split_def get_op_def bytes_of_def)

lemma minus_one_is_the_largest: "json_eq (JInteger (- 1)) (JUnsigned 0xFFFFFFFFFFFFFFFF)"
  by (simp add: scalar_eq_def)

text \<open>Adding below a value without parts fails the assertion that there is no such parent.\<close>

lemma add_below_number: "operation_add [t, u] v (JObject [(t, JUnsigned n)]) = Inl AssertFail"
  by (simp add: operation_add_def pointer_top_def pointer_back_def pointer_pop_back_def null_container_def obj_lookup_def add_child_def)

text \<open>Removing below such a value does nothing.\<close>

lemma remove_below_number: "operation_remove [t, u] (JObject [(t, JUnsigned n)]) = Inr (JObject [(t, JUnsigned n)])"
  by (simp add: operation_remove_def pointer_back_def pointer_pop_back_def remove_child_def)

text \<open>An empty token, or one character that is no digit, throws what \<^verbatim>\<open>stoull\<close> throws, even from \<^verbatim>\<open>contains\<close>.\<close>

lemma empty_index: "get_checked [[]] (JArray vs) = Inl (Uncaught InvalidArgument)" "pointer_contains [[]] (JArray vs) = Inl (Uncaught InvalidArgument)"
  by (simp_all add: array_index_def stoull_def dash_def index_shape_def)

end
