(* ===== verification/Flatten.thy ===== *)
theory Flatten
  imports DiffPatch
begin

text \<open>
  Flat form: \<^verbatim>\<open>flatten\<close> maps the path of every leaf of a value to the leaf, \<^verbatim>\<open>unflatten\<close> builds the value from the paths.
\<close>

section \<open>The leaves of a value\<close>

text \<open>Where its parts without parts are, and what they are; an empty container counts as a null.\<close>

fun leaves :: "json \<Rightarrow> (bytes list \<times> json) list"
  and element_leaves :: "nat \<Rightarrow> json list \<Rightarrow> (bytes list \<times> json) list"
  and member_leaves :: "(bytes \<times> json) list \<Rightarrow> (bytes list \<times> json) list" where
  "leaves (JArray vs) = (if vs = [] then [([], JNull)] else element_leaves 0 vs)"
| "leaves (JObject es) = (if es = [] then [([], JNull)] else member_leaves es)"
| "leaves j = [([], j)]"
| "element_leaves i [] = []"
| "element_leaves i (v # vs) = map (\<lambda>(ts, w). (dec i # ts, w)) (leaves v) @ element_leaves (i + 1) vs"
| "member_leaves [] = []"
| "member_leaves ((k, v) # es) = map (\<lambda>(ts, w). (k # ts, w)) (leaves v) @ member_leaves es"

definition assign_leaves :: "bytes \<Rightarrow> (bytes list \<times> json) list \<Rightarrow> (bytes \<times> json) list \<Rightarrow> (bytes \<times> json) list" where
  "assign_leaves path ls result = fold (\<lambda>(ts, w) result. obj_assign (path @ pointer_to_string ts) w result) ls result"

lemma pointer_to_string_simps [simp]:
  "pointer_to_string [] = []" "pointer_to_string (t # ts) = 0x2F # escape t @ pointer_to_string ts"
  by (simp_all add: pointer_to_string_concat)

lemma assign_leaves_simps [simp]:
  "assign_leaves path [] result = result"
  "assign_leaves path [(ts, w)] result = obj_assign (path @ pointer_to_string ts) w result"
  "assign_leaves path (xs @ ys) result = assign_leaves path ys (assign_leaves path xs result)"
  "assign_leaves path (map (\<lambda>(ts, w). (t # ts, w)) ls) result = assign_leaves (path @ 0x2F # escape t) ls result"
proof -
  show "assign_leaves path (map (\<lambda>(ts, w). (t # ts, w)) ls) result = assign_leaves (path @ 0x2F # escape t) ls result"
    by (induction ls arbitrary: result) (auto simp: assign_leaves_def)
qed (simp_all add: assign_leaves_def)

lemma flatten_leaves:
  "json_flatten path j result = assign_leaves path (leaves j) result"
  "flatten_array path i vs result = assign_leaves path (element_leaves i vs) result"
  "flatten_object path es result = assign_leaves path (member_leaves es) result"
  by (induction path j result and path i vs result and path es result rule: json_flatten_flatten_array_flatten_object.induct)
    simp_all

lemma in_element_leaves:
  "x \<in> set (element_leaves i vs) \<longleftrightarrow> (\<exists>n ts w. n < length vs \<and> x = (dec (i + n) # ts, w) \<and> (ts, w) \<in> set (leaves (vs ! n)))"
proof (induction vs arbitrary: i)
  case (Cons v vs)
  show ?case
  proof
    assume "x \<in> set (element_leaves i (v # vs))"
    then consider ts w where "x = (dec i # ts, w)" "(ts, w) \<in> set (leaves v)" | "x \<in> set (element_leaves (i + 1) vs)" by auto
    then show "\<exists>n ts w. n < length (v # vs) \<and> x = (dec (i + n) # ts, w) \<and> (ts, w) \<in> set (leaves ((v # vs) ! n))"
    proof cases
      case 1
      then show ?thesis by (intro exI [of _ 0]) simp
    next
      case 2
      then obtain n ts w where "n < length vs" "x = (dec (i + 1 + n) # ts, w)" "(ts, w) \<in> set (leaves (vs ! n))"
        unfolding Cons.IH by blast
      then show ?thesis by (intro exI [of _ "Suc n"]) simp
    qed
  next
    assume "\<exists>n ts w. n < length (v # vs) \<and> x = (dec (i + n) # ts, w) \<and> (ts, w) \<in> set (leaves ((v # vs) ! n))"
    then obtain n ts w where n: "n < length (v # vs)" "x = (dec (i + n) # ts, w)" "(ts, w) \<in> set (leaves ((v # vs) ! n))" by blast
    show "x \<in> set (element_leaves i (v # vs))"
    proof (cases n)
      case 0
      then show ?thesis using n by force
    next
      case (Suc m)
      then have "x \<in> set (element_leaves (i + 1) vs)" unfolding Cons.IH using n by auto
      then show ?thesis by simp
    qed
  qed
qed simp

lemma in_member_leaves: "x \<in> set (member_leaves es) \<longleftrightarrow> (\<exists>k v ts w. (k, v) \<in> set es \<and> x = (k # ts, w) \<and> (ts, w) \<in> set (leaves v))"
proof (induction es)
  case (Cons e es)
  obtain k v where "e = (k, v)" by (cases e)
  then show ?case using Cons.IH by (auto 0 3)
qed simp

text \<open>The values that come back: nothing empty, nothing discarded, and no name that reads as the first index.\<close>

fun flat_ok :: "json \<Rightarrow> bool" where
  "flat_ok (JObject es) = (es \<noteq> [] \<and> keys_ascend es \<and> (\<forall>(k, v) \<in> set es. k \<noteq> [0x30] \<and> flat_ok v))"
| "flat_ok (JArray vs) = (vs \<noteq> [] \<and> length vs \<le> json_max_size \<and> (\<forall>v \<in> set vs. flat_ok v))"
| "flat_ok JDiscarded = False"
| "flat_ok j = True"

lemma leaves_not_empty: "flat_ok j \<Longrightarrow> leaves j \<noteq> []"
proof (induction j)
  case (JObject es)
  then obtain k v fs where es: "es = (k, v) # fs" by (cases es) auto
  then have "leaves v \<noteq> []" using JObject.IH [of "(k, v)" v] JObject.prems by simp
  then show ?case by (simp add: es)
next
  case (JArray vs)
  then show ?case by (cases vs) auto
qed simp_all

lemma leaf_primitive: "flat_ok j \<Longrightarrow> (ts, w) \<in> set (leaves j) \<Longrightarrow> is_primitive w"
proof (induction j arbitrary: ts)
  case (JObject es)
  then obtain k v us where v: "(k, v) \<in> set es" "(us, w) \<in> set (leaves v)" by (auto simp: in_member_leaves)
  then show ?case using JObject.IH [of "(k, v)" v us] JObject.prems(1) by auto
next
  case (JArray vs)
  then obtain n us where n: "n < length vs" "(us, w) \<in> set (leaves (vs ! n))" by (auto simp: in_element_leaves)
  then show ?case using JArray.IH [of "vs ! n" us] JArray.prems(1) by simp
qed auto

section \<open>What a set of leaves has built\<close>

definition below :: "bytes list set \<Rightarrow> bytes \<Rightarrow> bytes list set" where
  "below S t = {ts. t # ts \<in> S}"

lemma below_simps [simp]:
  "below {} t = {}" "below (insert (t # ts) S) t = insert ts (below S t)" "u \<noteq> t \<Longrightarrow> below (insert (u # ts) S) t = below S t"
  "below (insert [] S) t = below S t"
  by (auto simp: below_def)

fun part :: "json \<Rightarrow> bytes list set \<Rightarrow> json"
  and part_elements :: "nat \<Rightarrow> json list \<Rightarrow> bytes list set \<Rightarrow> json list"
  and part_members :: "(bytes \<times> json) list \<Rightarrow> bytes list set \<Rightarrow> (bytes \<times> json) list" where
  "part (JArray vs) S = (if S = {} then JNull else JArray (part_elements 0 vs S))"
| "part (JObject es) S = (if S = {} then JNull else JObject (part_members es S))"
| "part j S = (if S = {} then JNull else j)"
| "part_elements i [] S = []"
| "part_elements i (v # vs) S =
     (if \<forall>n < length (v # vs). below S (dec (i + n)) = {} then []
      else part v (below S (dec i)) # part_elements (i + 1) vs S)"
| "part_members [] S = []"
| "part_members ((k, v) # es) S = (if below S k = {} then [] else [(k, part v (below S k))]) @ part_members es S"

lemma part_empty [simp]: "part j {} = JNull"
  by (cases j) simp_all

lemma part_members_keys: "set (map fst (part_members es S)) \<subseteq> set (map fst es)"
proof (induction es)
  case (Cons e es)
  obtain k v where "e = (k, v)" by (cases e)
  then show ?case using Cons.IH by (cases "below S k = {}") auto
qed simp

lemma part_members_ascend: "keys_ascend es \<Longrightarrow> keys_ascend (part_members es S)"
proof (induction es)
  case (Cons e es)
  obtain k v where e: "e = (k, v)" by (cases e)
  have "\<forall>e' \<in> set (part_members es S). bytes_less k (fst e')"
    using Cons.prems part_members_keys [of es S] by (fastforce simp: e keys_ascend_Cons)
  then show ?case using Cons by (auto simp: e keys_ascend_Cons)
qed simp

lemma part_members_lookup:
  "distinct (map fst es) \<Longrightarrow> map_of (part_members es S) k =
    (case map_of es k of None \<Rightarrow> None | Some v \<Rightarrow> if below S k = {} then None else Some (part v (below S k)))"
proof (induction es)
  case (Cons e es)
  obtain l v where e: "e = (l, v)" by (cases e)
  have "map_of (part_members es S) l = None"
    using Cons.prems part_members_keys [of es S] by (auto simp: e map_of_eq_None_iff)
  then show ?case using Cons by (auto simp: e)
qed simp

text \<open>The elements up to the last one that has been reached.\<close>

lemma part_elements_spec:
  "length (part_elements i vs S) \<le> length vs
   \<and> (\<forall>n < length (part_elements i vs S). part_elements i vs S ! n = part (vs ! n) (below S (dec (i + n))))
   \<and> (\<forall>n. length (part_elements i vs S) \<le> n \<longrightarrow> n < length vs \<longrightarrow> below S (dec (i + n)) = {})
   \<and> (part_elements i vs S \<noteq> [] \<longrightarrow> below S (dec (i + (length (part_elements i vs S) - 1))) \<noteq> {})"
proof (induction vs arbitrary: i)
  case (Cons v vs)
  show ?case
  proof (cases "\<forall>n < length (v # vs). below S (dec (i + n)) = {}")
    case False
    let ?xs = "part_elements (i + 1) vs S"
    have p: "part_elements i (v # vs) S = part v (below S (dec i)) # ?xs" using False by simp
    note IH = Cons.IH [of "i + 1"]
    have "below S (dec (i + (length (part v (below S (dec i)) # ?xs) - 1))) \<noteq> {}"
    proof (cases ?xs)
      case Nil
      then have "below S (dec (i + n)) = {}" if "0 < n" "n < length (v # vs)" for n
        using IH that by (cases n) auto
      then have "below S (dec (i + 0)) \<noteq> {}" using False by (metis neq0_conv)
      then show ?thesis using Nil by simp
    next
      case (Cons y ys)
      then show ?thesis using IH by simp
    qed
    moreover have "(part v (below S (dec i)) # ?xs) ! n = part ((v # vs) ! n) (below S (dec (i + n)))" if "n < Suc (length ?xs)" for n
      using IH that by (cases n) auto
    moreover have "below S (dec (i + n)) = {}" if "Suc (length ?xs) \<le> n" "n < length (v # vs)" for n
      using IH that by (cases n) auto
    ultimately show ?thesis unfolding p using IH by auto
  qed simp
qed simp

lemma part_elements_eqI:
  assumes "length xs \<le> length vs" and "\<And>n. n < length xs \<Longrightarrow> xs ! n = part (vs ! n) (below S (dec n))"
    and "\<And>n. length xs \<le> n \<Longrightarrow> n < length vs \<Longrightarrow> below S (dec n) = {}"
    and "xs \<noteq> [] \<Longrightarrow> below S (dec (length xs - 1)) \<noteq> {}"
  shows "part_elements 0 vs S = xs"
proof -
  let ?ys = "part_elements 0 vs S"
  note spec = part_elements_spec [of 0 vs S]
  have "length ?ys = length xs"
  proof (rule ccontr)
    assume "length ?ys \<noteq> length xs"
    then consider "length ?ys < length xs" | "length xs < length ?ys" by linarith
    then show False
    proof cases
      case 1
      then have "xs \<noteq> []" "length ?ys \<le> length xs - 1" "length xs - 1 < length vs" using assms(1) by auto
      then show False using spec assms(4) by auto
    next
      case 2
      then have "?ys \<noteq> []" "length xs \<le> length ?ys - 1" "length ?ys - 1 < length vs" using spec by auto
      then show False using spec assms(3) by auto
    qed
  qed
  then show ?thesis using spec assms(2) by (intro nth_equalityI) auto
qed

section \<open>One leaf more\<close>

lemma dec_inj [simp]: "dec m = dec n \<longleftrightarrow> m = n"
  using digits_val_dec by metis

text \<open>Before an element other than the first, something of the first has been built.\<close>

definition zero_first :: "json \<Rightarrow> bytes list set \<Rightarrow> bytes list \<Rightarrow> bool" where
  "zero_first j S ts \<longleftrightarrow> (\<forall>us i rest vs. ts = us @ dec i # rest \<longrightarrow> get_checked us j = Inr (JArray vs) \<longrightarrow> i \<noteq> 0 \<longrightarrow>
     (\<exists>rest'. us @ dec 0 # rest' \<in> S))"

lemma zero_first_below:
  assumes "zero_first j S (t # ts)" and "get_checked [t] j = Inr v"
  shows "zero_first v (below S t) ts"
  unfolding zero_first_def
proof (intro allI impI)
  fix us i rest vs assume u: "ts = us @ dec i # rest" "get_checked us v = Inr (JArray vs)" "i \<noteq> 0"
  have "get_checked (t # us) j = Inr (JArray vs)" using get_checked_append [of "[t]" us j] assms(2) u(2) by simp
  moreover have "t # ts = (t # us) @ dec i # rest" using u(1) by simp
  ultimately obtain rest' where "(t # us) @ dec 0 # rest' \<in> S" using assms(1) u(3) unfolding zero_first_def by blast
  then show "\<exists>rest'. us @ dec 0 # rest' \<in> below S t" by (auto simp: below_def)
qed

lemma object_step:
  assumes "keys_ascend es" and "map_of es t = Some v"
  shows "part_members es (insert (t # ts) S) = obj_assign t (part v (insert ts (below S t))) (part_members es S)"
proof (rule keys_ascend_eq)
  have asc: "keys_ascend (part_members es S)" using assms(1) by (rule part_members_ascend)
  show "keys_ascend (part_members es (insert (t # ts) S))" using assms(1) by (rule part_members_ascend)
  show "keys_ascend (obj_assign t (part v (insert ts (below S t))) (part_members es S))" using asc by (rule keys_ascend_obj_assign)
  note lu = part_members_lookup [OF keys_distinct [OF assms(1)]]
  show "map_of (part_members es (insert (t # ts) S)) = map_of (obj_assign t (part v (insert ts (below S t))) (part_members es S))"
  proof
    fix k
    show "map_of (part_members es (insert (t # ts) S)) k = map_of (obj_assign t (part v (insert ts (below S t))) (part_members es S)) k"
      unfolding map_of_obj_assign [OF asc] using assms(2) by (cases "k = t"; cases "map_of es k") (simp_all add: lu)
  qed
qed

lemma array_step:
  assumes "i < length vs" and "length vs \<le> json_max_size"
  shows "\<exists>ws. array_fill i (part_elements 0 vs S) = Inr ws \<and> ws ! i = part (vs ! i) (below S (dec i))
    \<and> part_elements 0 vs (insert (dec i # ts) S) = ws[i := part (vs ! i) (insert ts (below S (dec i)))]"
proof -
  let ?xs = "part_elements 0 vs S"
  note spec = part_elements_spec [of 0 vs S]
  define ws where "ws = ?xs @ replicate (Suc i - length ?xs) JNull"
  have fill: "array_fill i ?xs = Inr ws" using assms by (auto simp: array_fill_def ws_def)
  have len: "length ws = max (length ?xs) (Suc i)" by (simp add: ws_def)
  have nth: "ws ! n = part (vs ! n) (below S (dec n))" if "n < length ws" for n
  proof (cases "n < length ?xs")
    case True
    then show ?thesis using spec by (simp add: ws_def nth_append)
  next
    case False
    then have "n < length vs" using that len assms(1) by simp
    then have "below S (dec n) = {}" using spec False by simp
    then show ?thesis using False that len by (simp add: ws_def nth_append)
  qed
  have ne: "below (insert (dec i # ts) S) (dec i) \<noteq> {}" by simp
  have "part_elements 0 vs (insert (dec i # ts) S) = ws[i := part (vs ! i) (insert ts (below S (dec i)))]"
  proof (rule part_elements_eqI)
    show "length (ws[i := part (vs ! i) (insert ts (below S (dec i)))]) \<le> length vs" using spec len assms(1) by simp
  next
    fix n assume "n < length (ws[i := part (vs ! i) (insert ts (below S (dec i)))])"
    then show "ws[i := part (vs ! i) (insert ts (below S (dec i)))] ! n = part (vs ! n) (below (insert (dec i # ts) S) (dec n))"
      using nth [of n] by (cases "n = i") simp_all
  next
    fix n assume "length (ws[i := part (vs ! i) (insert ts (below S (dec i)))]) \<le> n" "n < length vs"
    then show "below (insert (dec i # ts) S) (dec n) = {}" using spec len by simp
  next
    let ?l = "length (ws[i := part (vs ! i) (insert ts (below S (dec i)))]) - 1"
    show "below (insert (dec i # ts) S) (dec ?l) \<noteq> {}"
    proof (cases "length ?xs \<le> Suc i")
      case True
      then show ?thesis using len ne by (simp add: max_def)
    next
      case False
      then have "?xs \<noteq> []" "?l = length ?xs - 1" using len by auto
      then have "below S (dec ?l) \<noteq> {}" using spec by simp
      then show ?thesis by (auto simp: below_def)
    qed
  qed
  then show ?thesis using fill nth [of i] len by auto
qed

lemma part_step:
  assumes "flat_ok j" and "(ts, w) \<in> set (leaves j)" and "zero_first j S ts"
  shows "at_created ts (\<lambda>_. Inr w) (part j S) = Inr (part j (insert ts S))"
  using assms
proof (induction ts arbitrary: j S)
  case Nil
  then have "w = j \<and> part j (insert [] S) = j"
    by (cases j) (auto simp: in_element_leaves in_member_leaves split: if_splits)
  then show ?case by simp
next
  case (Cons t ts)
  show ?case
  proof (cases j)
    case (JObject es)
    then obtain v where v: "(t, v) \<in> set es" "(ts, w) \<in> set (leaves v)"
      using Cons.prems(1,2) by (auto simp: in_member_leaves)
    have es: "keys_ascend es" "t \<noteq> [0x30]" "flat_ok v" using Cons.prems(1) v(1) by (auto simp: JObject)
    have m: "map_of es t = Some v" using v(1) keys_distinct [OF es(1)] by simp
    have "zero_first v (below S t) ts" using zero_first_below [OF Cons.prems(3), of v] m by (simp add: JObject)
    then have IH: "at_created ts (\<lambda>_. Inr w) (part v (below S t)) = Inr (part v (insert ts (below S t)))"
      using Cons.IH es(3) v(2) by blast
    show ?thesis
    proof (cases "S = {}")
      case True
      have "part_members es {} = []" by (induction es) auto
      then show ?thesis using True IH es(2) object_step [OF es(1) m, of ts "{}"] by (simp add: JObject)
    next
      case False
      have "obj_lookup t (part_members es S) = part v (below S t)"
        using part_members_lookup [OF keys_distinct [OF es(1)], of S t] m by (auto simp: obj_lookup_def)
      then show ?thesis using False IH object_step [OF es(1) m, of ts S] by (simp add: JObject)
    qed
  next
    case (JArray vs)
    then obtain i where i: "t = dec i" "i < length vs" "(ts, w) \<in> set (leaves (vs ! i))"
      using Cons.prems(1,2) by (auto simp: in_element_leaves)
    have vs: "length vs \<le> json_max_size" "flat_ok (vs ! i)" using Cons.prems(1) i(2) by (auto simp: JArray)
    have ix: "array_index t = Inr i" using i vs(1) index_ok by simp
    have "get_checked [t] j = Inr (vs ! i)" using ix i(2) dec_not_dash by (simp add: JArray i(1))
    then have "zero_first (vs ! i) (below S t) ts" using zero_first_below [OF Cons.prems(3)] by simp
    then have IH: "at_created ts (\<lambda>_. Inr w) (part (vs ! i) (below S t)) = Inr (part (vs ! i) (insert ts (below S t)))"
      using Cons.IH vs(2) i(3) by blast
    obtain ws where ws: "array_fill i (part_elements 0 vs S) = Inr ws" "ws ! i = part (vs ! i) (below S (dec i))"
      "part_elements 0 vs (insert (dec i # ts) S) = ws[i := part (vs ! i) (insert ts (below S (dec i)))]"
      using array_step [OF i(2) vs(1)] by blast
    show ?thesis
    proof (cases "S = {}")
      case True
      have "i = 0"
      proof (rule ccontr)
        assume "i \<noteq> 0"
        moreover have "t # ts = [] @ dec i # ts" "get_checked [] j = Inr (JArray vs)" by (simp_all add: i(1) JArray)
        ultimately show False using Cons.prems(3) True unfolding zero_first_def by blast
      qed
      have "part_elements 0 vs {} = []" by (cases vs) simp_all
      then have "ws = [JNull]" using ws(1) True \<open>i = 0\<close> by (auto simp: array_fill_def json_max_size_def)
      then show ?thesis using True IH ws(3) \<open>i = 0\<close> by (simp add: JArray i(1) dec_small)
    next
      case False
      then show ?thesis using IH ws ix by (simp add: JArray i(1))
    qed
  qed (use Cons.prems in auto)
qed

section \<open>All leaves\<close>

lemma in_paths: "ts \<in> fst ` A \<longleftrightarrow> (\<exists>w. (ts, w) \<in> A)"
  by force

lemma in_below_paths: "ts \<in> below (fst ` A) t \<longleftrightarrow> (\<exists>w. (t # ts, w) \<in> A)"
  by (simp only: below_def mem_Collect_eq in_paths)

lemma paths_ne: "A \<noteq> [] \<Longrightarrow> fst ` set A \<noteq> {}"
  by simp

lemma part_all: "flat_ok j \<Longrightarrow> part j (fst ` set (leaves j)) = j"
proof (induction j)
  case (JObject es)
  let ?S = "fst ` set (leaves (JObject es))"
  have es: "es \<noteq> []" "keys_ascend es" "\<forall>(k, v) \<in> set es. flat_ok v" using JObject.prems by auto
  have S: "below ?S k = fst ` set (leaves v)" if "(k, v) \<in> set es" for k v
  proof -
    have "(k, v') \<in> set es \<Longrightarrow> v' = v" for v' using that keys_distinct [OF es(2)] by (metis map_of_eq_Some_iff option.inject)
    then have "(\<exists>w. (k # ts, w) \<in> set (member_leaves es)) \<longleftrightarrow> (\<exists>w. (ts, w) \<in> set (leaves v))" for ts
      using that unfolding in_member_leaves by blast
    then show ?thesis using es(1) by (simp only: set_eq_iff in_below_paths in_paths leaves.simps if_False simp_thms)
  qed
  have "part_members fs ?S = fs" if "set fs \<subseteq> set es" for fs
    using that
  proof (induction fs)
    case (Cons f fs)
    obtain k v where f: "f = (k, v)" by (cases f)
    then have v: "(k, v) \<in> set es" "flat_ok v" using Cons.prems es(3) by auto
    have "below ?S k \<noteq> {}" using S [OF v(1)] leaves_not_empty [OF v(2)] by simp
    moreover have "part v (below ?S k) = v" using S [OF v(1)] JObject.IH [OF v(1)] v(2) by simp
    ultimately show ?case using Cons by (simp add: f)
  qed simp
  moreover have "?S \<noteq> {}" using leaves_not_empty [OF JObject.prems] by simp
  ultimately show ?case by simp
next
  case (JArray vs)
  let ?S = "fst ` set (leaves (JArray vs))"
  have vs: "vs \<noteq> []" "\<forall>v \<in> set vs. flat_ok v" using JArray.prems by auto
  have S: "below ?S (dec n) = fst ` set (leaves (vs ! n))" if "n < length vs" for n
  proof -
    have "(\<exists>w. (dec n # ts, w) \<in> set (element_leaves 0 vs)) \<longleftrightarrow> (\<exists>w. (ts, w) \<in> set (leaves (vs ! n)))" for ts
      using that unfolding in_element_leaves list.inject prod.inject dec_inj add_0 by blast
    then show ?thesis using vs(1) by (simp only: set_eq_iff in_below_paths in_paths leaves.simps if_False simp_thms)
  qed
  have ne: "below ?S (dec n) \<noteq> {}" if "n < length vs" for n
    using S [OF that] leaves_not_empty [of "vs ! n"] vs(2) that by simp
  have "part_elements 0 vs ?S = vs"
  proof (rule part_elements_eqI)
    fix n assume n: "n < length vs"
    then show "vs ! n = part (vs ! n) (below ?S (dec n))" using S [OF n] JArray.IH [of "vs ! n"] vs(2) by simp
  qed (use vs(1) ne in auto)
  moreover have "?S \<noteq> {}" using leaves_not_empty [OF JArray.prems] by simp
  ultimately show ?case by simp
qed auto

section \<open>The order of the leaves\<close>

lemma pointer_to_string_inj: "pointer_to_string ts = pointer_to_string us \<Longrightarrow> ts = us"
  by (drule arg_cong [of _ _ pointer_split]) (simp only: pointer_roundtrip sum.inject)

lemma leaf_there: "flat_ok j \<Longrightarrow> (ts, w) \<in> set (leaves j) \<Longrightarrow> get_checked ts j = Inr w"
proof (induction j arbitrary: ts)
  case (JObject es)
  then obtain k v us where v: "(k, v) \<in> set es" "(us, w) \<in> set (leaves v)" "ts = k # us" by (auto simp: in_member_leaves)
  moreover have "map_of es k = Some v" using v(1) JObject.prems(1) keys_distinct by simp
  ultimately show ?case using JObject.IH [of "(k, v)" v us] JObject.prems(1) by auto
next
  case (JArray vs)
  then obtain n us where n: "n < length vs" "(us, w) \<in> set (leaves (vs ! n))" "ts = dec n # us" by (auto simp: in_element_leaves)
  then show ?case using JArray.IH [of "vs ! n" us] JArray.prems(1) dec_not_dash index_ok [of n] by simp
qed auto

lemma flat_there: "get_checked ts j = Inr v \<Longrightarrow> flat_ok j \<Longrightarrow> flat_ok v"
proof (induction ts j rule: get_checked.induct)
  case (2 t ts es)
  then show ?case by (auto split: option.splits dest: map_of_SomeD)
next
  case (3 t ts vs)
  then show ?case by (auto simp: rbind_Inr_iff split: if_splits)
qed simp_all

text \<open>Next to one leaf below a place are all leaves of the value there.\<close>

lemma leaf_sibling:
  assumes "flat_ok j" and "(us @ r, w) \<in> set (leaves j)" and "r \<noteq> []" and "get_checked us j = Inr v" and "(r', w') \<in> set (leaves v)"
  shows "(us @ r', w') \<in> set (leaves j)"
  using assms
proof (induction us arbitrary: j)
  case (Cons u us)
  show ?case
  proof (cases j)
    case (JObject es)
    then obtain x where x: "(u, x) \<in> set es" "(us @ r, w) \<in> set (leaves x)" using Cons.prems(1,2) by (auto simp: in_member_leaves)
    have "map_of es u = Some x" using x(1) Cons.prems(1) keys_distinct by (simp add: JObject)
    then have "(us @ r', w') \<in> set (leaves x)" using Cons.IH [of x] Cons.prems x by (auto simp: JObject)
    then show ?thesis using x(1) by (auto simp: JObject in_member_leaves)
  next
    case (JArray vs)
    then obtain n where n: "n < length vs" "u = dec n" "(us @ r, w) \<in> set (leaves (vs ! n))" using Cons.prems(1,2) by (auto simp: in_element_leaves)
    have "get_checked us (vs ! n) = Inr v" using Cons.prems(1,4) n(1,2) dec_not_dash index_ok [of n] by (simp add: JArray)
    then have "(us @ r', w') \<in> set (leaves (vs ! n))" using Cons.IH [of "vs ! n"] Cons.prems n by (simp add: JArray)
    then show ?thesis using n(1,2) by (auto simp: JArray in_element_leaves)
  qed (use Cons.prems in auto)
qed simp

lemma bytes_less_append [simp]: "bytes_less (xs @ ys) (xs @ zs) \<longleftrightarrow> bytes_less ys zs"
  by (induction xs) auto

lemma first_index_least: "i \<noteq> 0 \<Longrightarrow> bytes_less (pointer_to_string (us @ dec 0 # r)) (pointer_to_string (us @ dec i # r'))"
proof -
  assume "i \<noteq> 0"
  then have "hd (dec i) \<noteq> 0x30" using hd_dec by simp
  moreover obtain c s where c: "dec i = c # s" by (cases "dec i") simp_all
  ultimately have "0x30 < c" using dec_parts(1) [of i] by (auto simp: is_digit_def)
  then have "bytes_less (0x2F # dec 0 @ pointer_to_string r) (0x2F # dec i @ pointer_to_string r')" by (simp add: c dec_small)
  moreover have "pointer_to_string (us @ dec n # r) = pointer_to_string us @ 0x2F # dec n @ pointer_to_string r" for n r
    by (simp add: pointer_to_string_concat)
  ultimately show ?thesis by simp
qed

lemma assign_leaves_ascend: "keys_ascend result \<Longrightarrow> keys_ascend (assign_leaves path ls result)"
  by (induction ls arbitrary: result) (auto simp: assign_leaves_def keys_ascend_obj_assign)

lemma assign_leaves_from:
  "keys_ascend result \<Longrightarrow> map_of (assign_leaves [] ls result) p = Some w \<Longrightarrow>
    (\<exists>ts. p = pointer_to_string ts \<and> (ts, w) \<in> set ls) \<or> map_of result p = Some w"
proof (induction ls arbitrary: result)
  case (Cons l ls)
  obtain us x where l: "l = (us, x)" by (cases l)
  let ?r = "obj_assign (pointer_to_string us) x result"
  have "map_of (assign_leaves [] ls ?r) p = Some w" using Cons.prems(2) by (simp add: l assign_leaves_def)
  from Cons.IH [OF keys_ascend_obj_assign [OF Cons.prems(1)] this] show ?case
    using map_of_obj_assign [OF Cons.prems(1)] by (auto simp: l split: if_splits)
qed (simp add: assign_leaves_def)

lemma assign_leaves_to:
  "keys_ascend result \<Longrightarrow> (ts, w) \<in> set ls \<Longrightarrow> \<forall>v. (ts, v) \<in> set ls \<longrightarrow> v = w \<Longrightarrow>
    map_of (assign_leaves [] ls result) (pointer_to_string ts) = Some w"
proof (induction ls rule: rev_induct)
  case (snoc l ls)
  obtain us x where l: "l = (us, x)" by (cases l)
  have asc: "keys_ascend (assign_leaves [] ls result)" using snoc.prems(1) by (rule assign_leaves_ascend)
  show ?case
  proof (cases "us = ts")
    case True
    then show ?thesis using snoc.prems(3) by (simp add: l)
  next
    case False
    then have "pointer_to_string ts \<noteq> pointer_to_string us" using pointer_to_string_inj by blast
    moreover have "map_of (assign_leaves [] ls result) (pointer_to_string ts) = Some w"
    proof (rule snoc.IH [OF snoc.prems(1)])
      show "(ts, w) \<in> set ls" using snoc.prems(2) False by (simp add: l)
      show "\<forall>v. (ts, v) \<in> set ls \<longrightarrow> v = w" using snoc.prems(3) by simp
    qed
    ultimately show ?thesis by (simp only: l assign_leaves_simps append_Nil map_of_obj_assign [OF asc] fun_upd_apply if_False)
  qed
qed simp

lemma no_keys_ascend: "keys_ascend []"
  by simp

lemma in_texts: "(p, w) \<in> (\<lambda>(ts, w). (pointer_to_string ts, w)) ` A \<longleftrightarrow> (\<exists>ts. p = pointer_to_string ts \<and> (ts, w) \<in> A)"
  by (simp only: image_iff Bex_def split_paired_Ex prod.case prod.inject) blast

lemma flatten_entries:
  assumes "flat_ok j"
  shows "keys_ascend (json_flatten [] j [])"
    and "set (json_flatten [] j []) = (\<lambda>(ts, w). (pointer_to_string ts, w)) ` set (leaves j)"
proof -
  let ?es = "assign_leaves [] (leaves j) []"
  have asc: "keys_ascend ?es" by (rule assign_leaves_ascend) simp
  then show "keys_ascend (json_flatten [] j [])" by (simp add: flatten_leaves)
  have *: "(p, w) \<in> set ?es \<longleftrightarrow> (\<exists>ts. p = pointer_to_string ts \<and> (ts, w) \<in> set (leaves j))" for p w
  proof (rule iffI)
    assume "(p, w) \<in> set ?es"
    then have "map_of ?es p = Some w" using keys_distinct [OF asc] by (simp only: map_of_eq_Some_iff)
    then have "(\<exists>ts. p = pointer_to_string ts \<and> (ts, w) \<in> set (leaves j)) \<or> map_of [] p = Some w"
      by (rule assign_leaves_from [rotated]) simp
    then show "\<exists>ts. p = pointer_to_string ts \<and> (ts, w) \<in> set (leaves j)"
      by (simp only: map_of.simps option.simps simp_thms)
  next
    assume "\<exists>ts. p = pointer_to_string ts \<and> (ts, w) \<in> set (leaves j)"
    then obtain ts where ts: "p = pointer_to_string ts" "(ts, w) \<in> set (leaves j)" by blast
    then have "\<forall>v. (ts, v) \<in> set (leaves j) \<longrightarrow> v = w" using leaf_there [OF assms ts(2)] leaf_there [OF assms, of ts] by (metis sum.inject(2))
    with no_keys_ascend ts(2) have "map_of ?es p = Some w" unfolding ts(1) by (rule assign_leaves_to)
    then show "(p, w) \<in> set ?es" by (rule map_of_SomeD)
  qed
  then show "set (json_flatten [] j []) = (\<lambda>(ts, w). (pointer_to_string ts, w)) ` set (leaves j)"
    unfolding flatten_leaves by (simp only: set_eq_iff split_paired_All * in_texts simp_thms)
qed

text \<open>
  C38: a value without empty containers and without members named \<open>0\<close> comes back from its flat form. The flat form lists the
  leaves in the order of their paths as texts, in which the tenth element of an array comes before the second.
\<close>

theorem flatten_roundtrip:
  assumes "flat_ok j"
  shows "unflatten (flatten j) = Inr j"
proof -
  let ?es = "json_flatten [] j []"
  let ?f = "\<lambda>(path, v) result. if \<not> is_primitive v then Inl (Uncaught (TypeError 315))
    else rbind (pointer_split path) (\<lambda>ptr. at_created ptr (\<lambda>_. Inr v) result)"
  note E = flatten_entries [OF assms]
  have "rfold ?f xs JNull = Inr (part j {ts. \<exists>w. (pointer_to_string ts, w) \<in> set xs})" if "?es = xs @ ys" for xs ys
    using that
  proof (induction xs arbitrary: ys rule: rev_induct)
    case (snoc e xs)
    let ?S = "{ts. \<exists>w. (pointer_to_string ts, w) \<in> set xs}"
    have "(fst e, snd e) \<in> set ?es" using snoc.prems by simp
    then obtain ts where "fst e = pointer_to_string ts" and ts: "(ts, snd e) \<in> set (leaves j)" unfolding E(2) in_texts by blast
    then obtain w where e: "e = (pointer_to_string ts, w)" "(ts, w) \<in> set (leaves j)" by (cases e) simp
    have zf: "zero_first j ?S ts"
      unfolding zero_first_def
    proof (intro allI impI)
      fix us i rest vs assume u: "ts = us @ dec i # rest" "get_checked us j = Inr (JArray vs)" "i \<noteq> 0"
      have fl: "flat_ok (JArray vs)" using flat_there [OF u(2) assms] .
      then have "leaves (vs ! 0) \<noteq> []" by (intro leaves_not_empty) (cases vs; simp)
      then obtain r x where r: "(r, x) \<in> set (leaves (vs ! 0))" by (metis list.set_sel(1) surj_pair)
      have "(dec 0 # r, x) \<in> set (leaves (JArray vs))" using r fl by (auto simp: in_element_leaves)
      then have "(us @ dec 0 # r, x) \<in> set (leaves j)"
        using leaf_sibling [OF assms, of us "dec i # rest" w "JArray vs"] e(2) u(1,2) by simp
      then have "(pointer_to_string (us @ dec 0 # r), x) \<in> set ?es" unfolding E(2) in_texts by blast
      moreover have "bytes_less (pointer_to_string (us @ dec 0 # r)) (pointer_to_string ts)" unfolding u(1) using u(3) by (rule first_index_least)
      moreover have "\<forall>y \<in> set ys. bytes_less (pointer_to_string ts) (fst y)"
        using E(1) snoc.prems by (auto simp: keys_ascend_def sorted_wrt_append e(1))
      ultimately have "(pointer_to_string (us @ dec 0 # r), x) \<in> set xs"
        using snoc.prems bytes_less_trans [of "pointer_to_string (us @ dec 0 # r)" "pointer_to_string ts" "pointer_to_string (us @ dec 0 # r)"]
        by (auto simp: e(1))
      then show "\<exists>rest'. us @ dec 0 # rest' \<in> ?S" by blast
    qed
    have "{ts. \<exists>w. (pointer_to_string ts, w) \<in> set (xs @ [e])} = insert ts ?S"
      using pointer_to_string_inj by (auto simp: e(1))
    moreover have "rfold ?f xs JNull = Inr (part j ?S)" using snoc.IH snoc.prems by simp
    moreover have "?f e (part j ?S) = Inr (part j (insert ts ?S))"
      using part_step [OF assms e(2) zf] leaf_primitive [OF assms e(2)] by (simp add: e(1) pointer_roundtrip)
    ultimately show ?case by (simp add: rfold_append)
  qed simp
  from this [of ?es "[]"] have "rfold ?f ?es JNull = Inr (part j {ts. \<exists>w. (pointer_to_string ts, w) \<in> set ?es})" by simp
  moreover have "(\<exists>w. (pointer_to_string ts, w) \<in> set ?es) \<longleftrightarrow> ts \<in> fst ` set (leaves j)" for ts
    unfolding E(2) in_texts in_paths using pointer_to_string_inj by blast
  then have "{ts. \<exists>w. (pointer_to_string ts, w) \<in> set ?es} = fst ` set (leaves j)" by blast
  ultimately have "rfold ?f ?es JNull = Inr j" using part_all [OF assms] by simp
  then show ?thesis by (simp add: unflatten_def flatten_def)
qed

lemma flatten_roundtrip_witness:
  "unflatten (flatten (JObject [([97], JArray [JUnsigned 1, JNull]), ([98], JObject [([47], JBoolean True)])]))
    = Inr (JObject [([97], JArray [JUnsigned 1, JNull]), ([98], JObject [([47], JBoolean True)])])"
  by (rule flatten_roundtrip) (simp add: json_max_size_def keys_ascend_Cons)

text \<open>A member named \<open>0\<close> that comes first makes its object an array.\<close>

lemma zero_key_unflattens_to_array: "unflatten (flatten (JObject [([0x30], JUnsigned n)])) = Inr (JArray [JUnsigned n])"
  by (simp add: flatten_def unflatten_def pointer_split_def split_tokens.simps split_token_def unescape_def esc_char_def)

end
