(* ===== verification/TextRead.thy ===== *)
theory TextRead
  imports NumRead
begin

text \<open>
  A grammar of JSON texts, independent of the scanner and the parser: every text of it, with any whitespace between
  its tokens, is parsed to the value it stands for.
\<close>

section \<open>The grammar\<close>

abbreviation spaces :: "bytes \<Rightarrow> bool" where
  "spaces ws \<equiv> list_all space ws"

text \<open>
  A text and the value it stands for. The parts of an array or an object come with the bracket that closes it. A key
  that comes twice counts with its last value.
\<close>

inductive json_text :: "bytes \<Rightarrow> json \<Rightarrow> bool"
  and elements_text :: "bytes \<Rightarrow> json list \<Rightarrow> bool"
  and members_text :: "bytes \<Rightarrow> (bytes \<times> json) list \<Rightarrow> bool" where
  text_null: "json_text (bytes_of ''null'') JNull"
| text_true: "json_text (bytes_of ''true'') (JBoolean True)"
| text_false: "json_text (bytes_of ''false'') (JBoolean False)"
| text_string: "list_all scalar cps \<Longrightarrow> json_text (0x22 # esc_texts ascii cps @ [0x22]) (JString (utf8_text cps))"
| text_unsigned: "json_text (dec (unat x)) (JUnsigned x)"
| text_negative: "sint x < 0 \<Longrightarrow> json_text (0x2D # dec (nat (- sint x))) (JInteger x)"
| text_no_elements: "spaces ws \<Longrightarrow> json_text (0x5B # ws @ [0x5D]) (JArray [])"
| text_array: "elements_text t vs \<Longrightarrow> json_text (0x5B # t) (JArray vs)"
| text_no_members: "spaces ws \<Longrightarrow> json_text (0x7B # ws @ [0x7D]) (JObject [])"
| text_object: "members_text t es \<Longrightarrow> json_text (0x7B # t) (JObject (fold (\<lambda>(k, v). obj_assign k v) es []))"
| text_element: "spaces ws \<Longrightarrow> json_text t v \<Longrightarrow> spaces ws' \<Longrightarrow> elements_text (ws @ t @ ws' @ [0x5D]) [v]"
| text_elements: "spaces ws \<Longrightarrow> json_text t v \<Longrightarrow> spaces ws' \<Longrightarrow> elements_text ts vs \<Longrightarrow>
    elements_text (ws @ t @ ws' @ 0x2C # ts) (v # vs)"
| text_member: "spaces ws \<Longrightarrow> list_all scalar cps \<Longrightarrow> spaces ws1 \<Longrightarrow> spaces ws2 \<Longrightarrow> json_text t v \<Longrightarrow> spaces ws' \<Longrightarrow>
    members_text (ws @ 0x22 # esc_texts ascii cps @ 0x22 # ws1 @ 0x3A # ws2 @ t @ ws' @ [0x7D]) [(utf8_text cps, v)]"
| text_members: "spaces ws \<Longrightarrow> list_all scalar cps \<Longrightarrow> spaces ws1 \<Longrightarrow> spaces ws2 \<Longrightarrow> json_text t v \<Longrightarrow> spaces ws' \<Longrightarrow>
    members_text ts es \<Longrightarrow>
    members_text (ws @ 0x22 # esc_texts ascii cps @ 0x22 # ws1 @ 0x3A # ws2 @ t @ ws' @ 0x2C # ts) ((utf8_text cps, v) # es)"

section \<open>Reading it\<close>

text \<open>The parser has just read a token, of which \<open>s\<close> was the text and what followed.\<close>

definition token_at :: "parser \<Rightarrow> bytes \<Rightarrow> bool" where
  "token_at p s \<longleftrightarrow> (\<exists>lx. starts lx s \<and> scan lx = Inr (pr_last p, pr_lexer p))"

text \<open>The texts before \<open>s\<close> begin with a token that does not close anything.\<close>

definition opens :: "bytes \<Rightarrow> bytes \<Rightarrow> bool" where
  "opens t s \<longleftrightarrow> (\<forall>lx ws. spaces ws \<longrightarrow> starts lx (ws @ t @ s) \<longrightarrow>
     (\<exists>lx' ty. scan lx = Inr (ty, lx') \<and> ty \<noteq> end_array \<and> ty \<noteq> end_object))"

definition reads_value :: "bool \<Rightarrow> bytes \<Rightarrow> json \<Rightarrow> bool" where
  "reads_value allow t v \<longleftrightarrow> (\<forall>s. stopper s \<longrightarrow> opens t s) \<and> (\<forall>ws s p states d q f. spaces ws \<longrightarrow> stopper s \<longrightarrow> token_at p (ws @ t @ s) \<longrightarrow> slot d q f \<longrightarrow>
     (\<exists>p' d'. parse_loop allow False (states, p, d) = parse_loop allow True (states, p', d') \<and> starts (pr_lexer p') s
       \<and> dm_root d' = f v \<and> dm_stack d' = dm_stack d))"

definition reads_elements :: "bool \<Rightarrow> bytes \<Rightarrow> json list \<Rightarrow> bool" where
  "reads_elements allow t vs \<longleftrightarrow> (\<forall>s. opens t s) \<and> (\<forall>s p states d q ps us. token_at p (t @ s) \<longrightarrow> dm_stack d = q # ps \<longrightarrow>
     json_get q (dm_root d) = Some (JArray us) \<longrightarrow>
     (\<exists>p' d'. parse_loop allow False (True # states, p, d) = parse_loop allow True (states, p', d') \<and> starts (pr_lexer p') s
       \<and> dm_root d' = json_set q (JArray (us @ vs)) (dm_root d) \<and> dm_stack d' = ps))"

definition reads_members :: "bool \<Rightarrow> bytes \<Rightarrow> (bytes \<times> json) list \<Rightarrow> bool" where
  "reads_members allow t es \<longleftrightarrow> (\<forall>s. opens t s) \<and> (\<forall>s p states states0 d q ps us. token_at p (t @ s) \<longrightarrow> dm_stack d = q # ps \<longrightarrow>
     json_get q (dm_root d) = Some (JObject us) \<longrightarrow>
     (\<exists>p1 d1 p' d'. parse_member allow states0 p d (False # states) = Inr (to_value, False # states, p1, d1)
       \<and> parse_loop allow False (False # states, p1, d1) = parse_loop allow True (states, p', d') \<and> starts (pr_lexer p') s
       \<and> dm_root d' = json_set q (JObject (fold (\<lambda>(k, v). obj_assign k v) es us)) (dm_root d) \<and> dm_stack d' = ps))"

lemma get_token_scan: "scan (pr_lexer p) = Inr (t, lx) \<Longrightarrow> get_token p = Inr \<lparr>pr_lexer = lx, pr_last = t\<rparr>"
  by (simp add: get_token_def)

lemma token_at_next:
  assumes "starts (pr_lexer p) s" and "get_token p = Inr p'"
  shows "token_at p' s"
  using assms by (auto simp: token_at_def get_token_def rbind_Inr_iff)

lemma get_structural:
  assumes "starts (pr_lexer p) (ws @ b # s)" and "spaces ws"
    and "(b, t) \<in> {(0x5B, begin_array), (0x5D, end_array), (0x7B, begin_object), (0x7D, end_object), (0x3A, name_separator), (0x2C, value_separator)}"
  shows "\<exists>p'. get_token p = Inr p' \<and> pr_last p' = t \<and> starts (pr_lexer p') s"
  using scan_structural [OF assms] get_token_scan by fastforce

lemma loop_evaluates:
  assumes "parse_first allow False st = Inr (to_evaluation, st')"
  shows "parse_loop allow False st = parse_loop allow True st'"
proof -
  have "parse_first allow True st' = Inr (to_evaluation, st')" by (simp add: parse_first_def split: prod.split)
  then show ?thesis by (subst (1 2) parse_loop.simps) (simp add: assms)
qed

lemma loop_continues:
  assumes "parse_first allow skip st = Inr (to_value, st')"
  shows "parse_loop allow skip st = parse_loop allow False st'"
  by (subst parse_loop.simps) (simp add: assms)

lemma loop_second:
  "parse_second allow st = Inr (to_value, st') \<Longrightarrow> parse_loop allow True st = parse_loop allow False st'"
  "parse_second allow st = Inr (to_evaluation, st') \<Longrightarrow> parse_loop allow True st = parse_loop allow True st'"
proof -
  have f: "parse_first allow True st = Inr (to_evaluation, st)" by (simp add: parse_first_def split: prod.split)
  show "parse_second allow st = Inr (to_value, st') \<Longrightarrow> parse_loop allow True st = parse_loop allow False st'"
    by (subst parse_loop.simps) (simp add: f)
  show "parse_second allow st = Inr (to_evaluation, st') \<Longrightarrow> parse_loop allow True st = parse_loop allow True st'"
    by (subst parse_loop.simps) (simp add: f)
qed

text \<open>A value of one token.\<close>

lemma reads_leaf:
  assumes "\<And>lx ws s. starts lx (ws @ t @ s) \<Longrightarrow> spaces ws \<Longrightarrow> stopper s \<Longrightarrow>
      \<exists>lx'. scan lx = Inr (ty, lx') \<and> starts lx' s
        \<and> (\<forall>p states d. pr_lexer p = lx' \<longrightarrow> pr_last p = ty \<longrightarrow>
             parse_value allow states p d = rbind (dom_value v d) (\<lambda>d. Inr (to_evaluation, states, p, d)))"
    and "ty \<noteq> end_array" "ty \<noteq> end_object"
  shows "reads_value allow t v"
  unfolding reads_value_def
proof (intro allI impI conjI)
  fix s assume "stopper s"
  then show "opens t s" using assms unfolding opens_def by blast
next
  fix ws s p states d q f
  assume a: "spaces ws" "stopper s" "token_at p (ws @ t @ s)" "slot d q f"
  from a(3) obtain lx where lx: "starts lx (ws @ t @ s)" "scan lx = Inr (pr_last p, pr_lexer p)" by (auto simp: token_at_def)
  from assms(1) [OF lx(1) a(1,2)] lx(2) have p: "starts (pr_lexer p) s"
    "parse_value allow states p d = rbind (dom_value v d) (\<lambda>d. Inr (to_evaluation, states, p, d))" by auto
  have "parse_first allow False (states, p, d) = Inr (to_evaluation, states, p, d\<lparr>dm_root := f v\<rparr>)"
    using a(4) p(2) by (simp add: parse_first_def dom_value_def slot_def)
  from loop_evaluates [OF this] show "\<exists>p' d'. parse_loop allow False (states, p, d) = parse_loop allow True (states, p', d')
      \<and> starts (pr_lexer p') s \<and> dm_root d' = f v \<and> dm_stack d' = dm_stack d"
    using p(1) by (intro exI [of _ p] exI [of _ "d\<lparr>dm_root := f v\<rparr>"]) simp
qed

lemma reads_word:
  assumes "(t, ty, v) \<in> {(bytes_of ''true'', literal_true, JBoolean True), (bytes_of ''false'', literal_false, JBoolean False),
    (bytes_of ''null'', literal_null, JNull)}"
  shows "reads_value allow t v"
proof (rule reads_leaf [where ty = ty])
  show "ty \<noteq> end_array" "ty \<noteq> end_object" using assms by auto
next
  fix lx ws s
  assume a: "starts lx (ws @ t @ s)" "spaces ws"
  obtain b cs where t: "t = b # cs" using assms by (auto simp: bytes_of_def)
  have "\<exists>lx'. scan lx = Inr (ty, lx') \<and> starts lx' s"
    using scan_word [of lx ws b cs s ty] a assms unfolding t by auto
  then show "\<exists>lx'. scan lx = Inr (ty, lx') \<and> starts lx' s
        \<and> (\<forall>p states d. pr_lexer p = lx' \<longrightarrow> pr_last p = ty \<longrightarrow>
             parse_value allow states p d = rbind (dom_value v d) (\<lambda>d. Inr (to_evaluation, states, p, d)))"
    using assms by (auto simp: parse_value_def)
qed

lemma token_string:
  assumes "list_all scalar cps"
  shows "reads_value allow (0x22 # esc_texts a cps @ [0x22]) (JString (utf8_text cps))"
proof (rule reads_leaf [where ty = value_string])
  fix lx ws s
  assume "starts lx (ws @ (0x22 # esc_texts a cps @ [0x22]) @ s)" "spaces ws"
  then show "\<exists>lx'. scan lx = Inr (value_string, lx') \<and> starts lx' s
        \<and> (\<forall>p states d. pr_lexer p = lx' \<longrightarrow> pr_last p = value_string \<longrightarrow>
             parse_value allow states p d = rbind (dom_value (JString (utf8_text cps)) d) (\<lambda>d. Inr (to_evaluation, states, p, d)))"
    using scan_string_reads [of lx ws a cps s] assms by (auto simp: parse_value_def)
qed simp_all

lemma token_unsigned: "reads_value allow (dec (unat x)) (JUnsigned x)"
proof (rule reads_leaf [where ty = value_unsigned])
  fix lx ws s
  assume "starts lx (ws @ dec (unat x) @ s)" "spaces ws" "stopper s"
  then show "\<exists>lx'. scan lx = Inr (value_unsigned, lx') \<and> starts lx' s
        \<and> (\<forall>p states d. pr_lexer p = lx' \<longrightarrow> pr_last p = value_unsigned \<longrightarrow>
             parse_value allow states p d = rbind (dom_value (JUnsigned x) d) (\<lambda>d. Inr (to_evaluation, states, p, d)))"
    using scan_unsigned_reads [of lx ws x s] by (auto simp: parse_value_def)
qed simp_all

lemma token_negative:
  assumes "sint x < 0"
  shows "reads_value allow (0x2D # dec (nat (- sint x))) (JInteger x)"
proof (rule reads_leaf [where ty = value_integer])
  fix lx ws s
  assume "starts lx (ws @ (0x2D # dec (nat (- sint x))) @ s)" "spaces ws" "stopper s"
  then show "\<exists>lx'. scan lx = Inr (value_integer, lx') \<and> starts lx' s
        \<and> (\<forall>p states d. pr_lexer p = lx' \<longrightarrow> pr_last p = value_integer \<longrightarrow>
             parse_value allow states p d = rbind (dom_value (JInteger x) d) (\<lambda>d. Inr (to_evaluation, states, p, d)))"
    using scan_integer_reads [of lx ws x s] assms by (auto simp: parse_value_def)
qed simp_all


lemma reads_value_opens: "reads_value allow t v \<Longrightarrow> stopper s \<Longrightarrow> opens t s"
  and reads_elements_opens: "reads_elements allow t' vs \<Longrightarrow> opens t' s'"
  and reads_members_opens: "reads_members allow t'' es \<Longrightarrow> opens t'' s''"
  by (simp_all only: reads_value_def reads_elements_def reads_members_def)

lemma opens_spaces:
  assumes "opens t (r @ s)" and "spaces ws"
  shows "opens (ws @ t @ r) s"
  unfolding opens_def
proof (intro allI impI)
  fix lx ws1 assume "spaces ws1" "starts lx (ws1 @ (ws @ t @ r) @ s)"
  then have "spaces (ws1 @ ws)" "starts lx ((ws1 @ ws) @ t @ r @ s)" using assms(2) by simp_all
  then show "\<exists>lx' ty. scan lx = Inr (ty, lx') \<and> ty \<noteq> end_array \<and> ty \<noteq> end_object"
    using assms(1) unfolding opens_def by blast
qed

lemma opens_next:
  assumes "opens t s" and "starts (pr_lexer p) (t @ s)"
  shows "\<exists>p'. get_token p = Inr p' \<and> token_at p' (t @ s) \<and> pr_last p' \<notin> {end_array, end_object}"
proof -
  obtain lx' ty where "scan (pr_lexer p) = Inr (ty, lx')" "ty \<noteq> end_array" "ty \<noteq> end_object"
    using assms(1) [unfolded opens_def, rule_format, of "[]" "pr_lexer p"] assms(2) by auto
  then have "get_token p = Inr \<lparr>pr_lexer = lx', pr_last = ty\<rparr>" by (simp add: get_token_scan)
  then show ?thesis using token_at_next [OF assms(2)] \<open>ty \<noteq> end_array\<close> \<open>ty \<noteq> end_object\<close> by auto
qed

lemma reads_valueD:
  assumes "reads_value allow t v" and "spaces ws" and "stopper s" and "token_at p (ws @ t @ s)" and "slot d q f"
  obtains p' d' where "parse_loop allow False (states, p, d) = parse_loop allow True (states, p', d')" "starts (pr_lexer p') s"
    "dm_root d' = f v" "dm_stack d' = dm_stack d"
  using assms unfolding reads_value_def by blast

lemma stopper_space: "spaces ws \<Longrightarrow> stopper s \<Longrightarrow> stopper (ws @ s)"
  by (cases ws) (auto simp: stopper_def is_space_def is_digit_def)

lemma stopper_structural [simp]: "b \<in> {0x5D, 0x7D, 0x2C} \<Longrightarrow> stopper (b # s)"
  by (auto simp: stopper_def is_digit_def)

lemma reads_last_element:
  assumes "reads_value allow t v" and "spaces ws" "spaces ws'"
  shows "reads_elements allow (ws @ t @ ws' @ [0x5D]) [v]"
  unfolding reads_elements_def
proof (intro conjI allI impI)
  fix s
  have st: "stopper (ws' @ 0x5D # s)" by (intro stopper_space assms) simp
  then show "opens (ws @ t @ ws' @ [0x5D]) s"
    using reads_value_opens [OF assms(1) st] assms(2) by (intro opens_spaces) simp_all
  fix p states q ps us and d :: dom
  assume a: "token_at p ((ws @ t @ ws' @ [0x5D]) @ s)" "dm_stack d = q # ps" "json_get q (dm_root d) = Some (JArray us)"
  obtain p1 d1 where 1: "parse_loop allow False (True # states, p, d) = parse_loop allow True (True # states, p1, d1)"
    "starts (pr_lexer p1) (ws' @ 0x5D # s)" "dm_root d1 = json_set q (JArray (us @ [v])) (dm_root d)" "dm_stack d1 = dm_stack d"
    by (rule reads_valueD [OF assms(1,2) st _ slot_array [OF a(2,3)]]) (use a(1) in auto)
  obtain p2 where 2: "get_token p1 = Inr p2" "pr_last p2 = end_array" "starts (pr_lexer p2) s"
    using get_structural [OF 1(2) assms(3), of end_array] by auto
  have "parse_second allow (True # states, p1, d1) = Inr (to_evaluation, states, p2, d1\<lparr>dm_stack := ps\<rparr>)"
    using 1(4) 2 a(2) by (simp add: parse_second_def parse_evaluation_def dom_end_def)
  from loop_second(2) [OF this] show "\<exists>p' d'. parse_loop allow False (True # states, p, d) = parse_loop allow True (states, p', d')
      \<and> starts (pr_lexer p') s \<and> dm_root d' = json_set q (JArray (us @ [v])) (dm_root d) \<and> dm_stack d' = ps"
    using 1(1,3) 2(3) by (intro exI [of _ p2] exI [of _ "d1\<lparr>dm_stack := ps\<rparr>"]) simp
qed

lemma reads_more_elements:
  assumes "reads_value allow t v" and "spaces ws" "spaces ws'" and "reads_elements allow ts vs"
  shows "reads_elements allow (ws @ t @ ws' @ 0x2C # ts) (v # vs)"
  unfolding reads_elements_def
proof (intro conjI allI impI)
  fix s
  have st: "stopper (ws' @ 0x2C # ts @ s)" by (intro stopper_space assms) simp
  then show "opens (ws @ t @ ws' @ 0x2C # ts) s"
    using reads_value_opens [OF assms(1) st] assms(2) by (intro opens_spaces) simp_all
  fix p states q ps us and d :: dom
  assume a: "token_at p ((ws @ t @ ws' @ 0x2C # ts) @ s)" "dm_stack d = q # ps" "json_get q (dm_root d) = Some (JArray us)"
  obtain p1 d1 where 1: "parse_loop allow False (True # states, p, d) = parse_loop allow True (True # states, p1, d1)"
    "starts (pr_lexer p1) (ws' @ 0x2C # ts @ s)" "dm_root d1 = json_set q (JArray (us @ [v])) (dm_root d)" "dm_stack d1 = dm_stack d"
    by (rule reads_valueD [OF assms(1,2) st _ slot_array [OF a(2,3)]]) (use a(1) in auto)
  obtain p2 where 2: "get_token p1 = Inr p2" "pr_last p2 = value_separator" "starts (pr_lexer p2) (ts @ s)"
    using get_structural [OF 1(2) assms(3), of value_separator] by auto
  obtain p3 where 3: "get_token p2 = Inr p3" "token_at p3 (ts @ s)"
    using opens_next [OF reads_elements_opens [OF assms(4)] 2(3)] by auto
  have "parse_second allow (True # states, p1, d1) = Inr (to_value, True # states, p3, d1)"
    using 2 3 by (simp add: parse_second_def parse_evaluation_def)
  note l = loop_second(1) [OF this]
  have g: "dm_stack d1 = q # ps" "json_get q (dm_root d1) = Some (JArray (us @ [v]))"
    using 1(3,4) a(2,3) by (simp_all add: json_get_set)
  obtain p' d' where "parse_loop allow False (True # states, p3, d1) = parse_loop allow True (states, p', d')" "starts (pr_lexer p') s"
    "dm_root d' = json_set q (JArray ((us @ [v]) @ vs)) (dm_root d1)" "dm_stack d' = ps"
    using assms(4) 3(2) g unfolding reads_elements_def by blast
  then show "\<exists>p' d'. parse_loop allow False (True # states, p, d) = parse_loop allow True (states, p', d')
      \<and> starts (pr_lexer p') s \<and> dm_root d' = json_set q (JArray (us @ v # vs)) (dm_root d) \<and> dm_stack d' = ps"
    using 1(1,3) l by (intro exI [of _ p'] exI [of _ d']) (simp add: json_set_set)
qed

text \<open>An array or an object is opened where the value goes.\<close>

lemma opened:
  assumes "slot d q f"
  shows "dom_push c m npos d = Inr (d\<lparr>dm_root := f c, dm_stack := q # dm_stack d\<rparr>)"
    "json_get q (f c) = Some c" "json_set q w (f c) = f w"
  using assms by (simp_all add: slot_def dom_push_def)

lemma opens_structural:
  assumes "(b, ty) \<in> {(0x5B, begin_array), (0x7B, begin_object)}"
  shows "opens (b # t) s"
  unfolding opens_def using scan_structural [of _ _ b "t @ s" ty] assms by fastforce

text \<open>The proof for a bracket: \<open>p\<close> has read it, and \<open>parse\<close> is what the parser does with it.\<close>

lemma token_structural:
  assumes "token_at p (ws @ b # s)" and "spaces ws" and "(b, ty) \<in> {(0x5B, begin_array), (0x7B, begin_object)}"
  shows "pr_last p = ty" "starts (pr_lexer p) s"
proof -
  obtain lx where "starts lx (ws @ b # s)" and r: "scan lx = Inr (pr_last p, pr_lexer p)" using assms(1) by (auto simp: token_at_def)
  from scan_structural [OF this(1) assms(2), of ty] obtain lx' where "scan lx = Inr (ty, lx')" "starts lx' s" using assms(3) by auto
  then show "pr_last p = ty" "starts (pr_lexer p) s" using r by simp_all
qed

lemma reads_no_elements:
  assumes "spaces ws0"
  shows "reads_value allow (0x5B # ws0 @ [0x5D]) (JArray [])"
  unfolding reads_value_def
proof (intro conjI allI impI)
  show "opens (0x5B # ws0 @ [0x5D]) s" for s by (rule opens_structural [of _ begin_array]) simp
  fix ws s p states q f and d :: dom
  assume a: "spaces ws" "stopper s" "token_at p (ws @ (0x5B # ws0 @ [0x5D]) @ s)" "slot d q f"
  have p: "pr_last p = begin_array" "starts (pr_lexer p) (ws0 @ 0x5D # s)"
    using token_structural [where p = p and ws = ws and b = "0x5B" and s = "ws0 @ 0x5D # s" and ty = begin_array] a by simp_all
  obtain p1 where 1: "get_token p = Inr p1" "pr_last p1 = end_array" "starts (pr_lexer p1) s"
    using get_structural [OF p(2) assms, of end_array] by auto
  have "parse_first allow False (states, p, d) = Inr (to_evaluation, states, p1, d\<lparr>dm_root := f (JArray [])\<rparr>)"
    using p(1) 1 opened(1) [OF a(4)] by (simp add: parse_first_def parse_value_def start_array_def dom_end_def)
  from loop_evaluates [OF this] show "\<exists>p' d'. parse_loop allow False (states, p, d) = parse_loop allow True (states, p', d')
      \<and> starts (pr_lexer p') s \<and> dm_root d' = f (JArray []) \<and> dm_stack d' = dm_stack d"
    using 1(3) by (intro exI [of _ p1] exI [of _ "d\<lparr>dm_root := f (JArray [])\<rparr>"]) simp
qed

lemma reads_no_members:
  assumes "spaces ws0"
  shows "reads_value allow (0x7B # ws0 @ [0x7D]) (JObject [])"
  unfolding reads_value_def
proof (intro conjI allI impI)
  show "opens (0x7B # ws0 @ [0x7D]) s" for s by (rule opens_structural [of _ begin_object]) simp
  fix ws s p states q f and d :: dom
  assume a: "spaces ws" "stopper s" "token_at p (ws @ (0x7B # ws0 @ [0x7D]) @ s)" "slot d q f"
  have p: "pr_last p = begin_object" "starts (pr_lexer p) (ws0 @ 0x7D # s)"
    using token_structural [where p = p and ws = ws and b = "0x7B" and s = "ws0 @ 0x7D # s" and ty = begin_object] a by simp_all
  obtain p1 where 1: "get_token p = Inr p1" "pr_last p1 = end_object" "starts (pr_lexer p1) s"
    using get_structural [OF p(2) assms, of end_object] by auto
  have "parse_first allow False (states, p, d) = Inr (to_evaluation, states, p1, d\<lparr>dm_root := f (JObject [])\<rparr>)"
    using p(1) 1 opened(1) [OF a(4)] by (simp add: parse_first_def parse_value_def start_object_def dom_end_def)
  from loop_evaluates [OF this] show "\<exists>p' d'. parse_loop allow False (states, p, d) = parse_loop allow True (states, p', d')
      \<and> starts (pr_lexer p') s \<and> dm_root d' = f (JObject []) \<and> dm_stack d' = dm_stack d"
    using 1(3) by (intro exI [of _ p1] exI [of _ "d\<lparr>dm_root := f (JObject [])\<rparr>"]) simp
qed

lemma reads_array:
  assumes "reads_elements allow t vs"
  shows "reads_value allow (0x5B # t) (JArray vs)"
  unfolding reads_value_def
proof (intro conjI allI impI)
  show "opens (0x5B # t) s" for s by (rule opens_structural [of _ begin_array]) simp
  fix ws s p states q f and d :: dom
  assume a: "spaces ws" "stopper s" "token_at p (ws @ (0x5B # t) @ s)" "slot d q f"
  have p: "pr_last p = begin_array" "starts (pr_lexer p) (t @ s)"
    using token_structural [where p = p and ws = ws and b = "0x5B" and s = "t @ s" and ty = begin_array] a by simp_all
  obtain p1 where 1: "get_token p = Inr p1" "token_at p1 (t @ s)" "pr_last p1 \<noteq> end_array"
    using opens_next [OF reads_elements_opens [OF assms] p(2)] by auto
  let ?d = "d\<lparr>dm_root := f (JArray []), dm_stack := q # dm_stack d\<rparr>"
  have "parse_first allow False (states, p, d) = Inr (to_value, True # states, p1, ?d)"
    using p(1) 1 opened(1) [OF a(4)] by (simp add: parse_first_def parse_value_def start_array_def)
  note l = loop_continues [OF this]
  have "dm_stack ?d = q # dm_stack d" "json_get q (dm_root ?d) = Some (JArray [])" using opened(2) [OF a(4)] by simp_all
  then obtain p' d' where "parse_loop allow False (True # states, p1, ?d) = parse_loop allow True (states, p', d')"
    "starts (pr_lexer p') s" "dm_root d' = json_set q (JArray ([] @ vs)) (dm_root ?d)" "dm_stack d' = dm_stack d"
    using assms 1(2) unfolding reads_elements_def by blast
  then show "\<exists>p' d'. parse_loop allow False (states, p, d) = parse_loop allow True (states, p', d')
      \<and> starts (pr_lexer p') s \<and> dm_root d' = f (JArray vs) \<and> dm_stack d' = dm_stack d"
    using l opened(3) [OF a(4)] by (intro exI [of _ p'] exI [of _ d']) simp
qed

lemma reads_object:
  assumes "reads_members allow t es"
  shows "reads_value allow (0x7B # t) (JObject (fold (\<lambda>(k, v). obj_assign k v) es []))"
  unfolding reads_value_def
proof (intro conjI allI impI)
  show "opens (0x7B # t) s" for s by (rule opens_structural [of _ begin_object]) simp
  fix ws s p states q f and d :: dom
  assume a: "spaces ws" "stopper s" "token_at p (ws @ (0x7B # t) @ s)" "slot d q f"
  have p: "pr_last p = begin_object" "starts (pr_lexer p) (t @ s)"
    using token_structural [where p = p and ws = ws and b = "0x7B" and s = "t @ s" and ty = begin_object] a by simp_all
  obtain p0 where 0: "get_token p = Inr p0" "token_at p0 (t @ s)" "pr_last p0 \<noteq> end_object"
    using opens_next [OF reads_members_opens [OF assms] p(2)] by auto
  let ?d = "d\<lparr>dm_root := f (JObject []), dm_stack := q # dm_stack d\<rparr>" and ?fold = "\<lambda>us. fold (\<lambda>(k, v). obj_assign k v) es us"
  have "dm_stack ?d = q # dm_stack d" "json_get q (dm_root ?d) = Some (JObject [])" using opened(2) [OF a(4)] by simp_all
  then obtain p1 d1 p' d' where 1: "parse_member allow states p0 ?d (False # states) = Inr (to_value, False # states, p1, d1)"
    "parse_loop allow False (False # states, p1, d1) = parse_loop allow True (states, p', d')"
    "starts (pr_lexer p') s" "dm_root d' = json_set q (JObject (?fold [])) (dm_root ?d)" "dm_stack d' = dm_stack d"
    using assms 0(2) unfolding reads_members_def by blast
  have "parse_first allow False (states, p, d) = Inr (to_value, False # states, p1, d1)"
    using p(1) 0 1(1) opened(1) [OF a(4)] by (simp add: parse_first_def parse_value_def start_object_def)
  from loop_continues [OF this] show "\<exists>p' d'. parse_loop allow False (states, p, d) = parse_loop allow True (states, p', d')
      \<and> starts (pr_lexer p') s \<and> dm_root d' = f (JObject (?fold [])) \<and> dm_stack d' = dm_stack d"
    using 1(2-5) opened(3) [OF a(4)] by (intro exI [of _ p'] exI [of _ d']) simp
qed

text \<open>A key, the colon and the first token of the value.\<close>

lemma member_begins:
  assumes "spaces ws" "list_all scalar cps" "spaces ws1" "spaces ws2" and v: "reads_value allow t v" "stopper s"
    and "token_at p (ws @ 0x22 # esc_texts ascii cps @ 0x22 # ws1 @ 0x3A # ws2 @ t @ s)"
    and d: "dm_stack d = q # ps" "json_get q (dm_root d) = Some (JObject us)"
  obtains p1 d1 p' d' where "parse_member allow states0 p d states = Inr (to_value, states, p1, d1)"
    "parse_loop allow False (states, p1, d1) = parse_loop allow True (states, p', d')" "starts (pr_lexer p') s"
    "dm_root d' = json_set q (JObject (obj_assign (utf8_text cps) v us)) (dm_root d)" "dm_stack d' = q # ps"
proof -
  obtain lx where lx: "starts lx (ws @ 0x22 # esc_texts ascii cps @ 0x22 # ws1 @ 0x3A # ws2 @ t @ s)"
    "scan lx = Inr (pr_last p, pr_lexer p)" using assms(7) by (auto simp: token_at_def)
  have p: "pr_last p = value_string" "lx_buffer (pr_lexer p) = utf8_text cps" "starts (pr_lexer p) (ws1 @ 0x3A # ws2 @ t @ s)"
    using scan_string_reads [OF lx(1) assms(1,2)] lx(2) by auto
  obtain d1 where d1: "dom_key (utf8_text cps) d = Inr d1" "dm_stack d1 = q # ps"
    "slot d1 (q @ [Key (utf8_text cps)]) (\<lambda>v. json_set q (JObject (obj_assign (utf8_text cps) v us)) (dm_root d))"
    using slot_object [OF d] by blast
  obtain p2 where 2: "get_token p = Inr p2" "pr_last p2 = name_separator" "starts (pr_lexer p2) (ws2 @ t @ s)"
    using get_structural [OF p(3) assms(3), of name_separator] by auto
  have "opens (ws2 @ t @ []) s" using reads_value_opens [OF v] assms(4) by (intro opens_spaces) simp_all
  then obtain p3 where 3: "get_token p2 = Inr p3" "token_at p3 (ws2 @ t @ s)"
    using opens_next [of "ws2 @ t @ []" s p2] 2(3) by auto
  have m: "parse_member allow states0 p d states = Inr (to_value, states, p3, d1)"
    using p(1,2) d1(1) 2 3 by (simp add: parse_member_def)
  obtain p' d' where "parse_loop allow False (states, p3, d1) = parse_loop allow True (states, p', d')" "starts (pr_lexer p') s"
    "dm_root d' = json_set q (JObject (obj_assign (utf8_text cps) v us)) (dm_root d)" "dm_stack d' = dm_stack d1"
    by (rule reads_valueD [OF v(1) assms(4) v(2) 3(2) d1(3)])
  then show thesis using that m d1(2) by simp
qed

lemma opens_string:
  assumes "spaces ws" "list_all scalar cps"
  shows "opens (ws @ 0x22 # esc_texts ascii cps @ 0x22 # t) s"
  unfolding opens_def
proof (intro allI impI)
  fix lx ws1 assume "spaces ws1" "starts lx (ws1 @ (ws @ 0x22 # esc_texts ascii cps @ 0x22 # t) @ s)"
  then have "spaces (ws1 @ ws)" "starts lx ((ws1 @ ws) @ 0x22 # esc_texts ascii cps @ 0x22 # t @ s)" using assms(1) by simp_all
  from scan_string_reads [OF this(2,1) assms(2)]
  show "\<exists>lx' ty. scan lx = Inr (ty, lx') \<and> ty \<noteq> end_array \<and> ty \<noteq> end_object" by auto
qed

lemma reads_last_member:
  assumes "spaces ws" "list_all scalar cps" "spaces ws1" "spaces ws2" "reads_value allow t v" "spaces ws'"
  shows "reads_members allow (ws @ 0x22 # esc_texts ascii cps @ 0x22 # ws1 @ 0x3A # ws2 @ t @ ws' @ [0x7D]) [(utf8_text cps, v)]"
  unfolding reads_members_def
proof (intro conjI allI impI)
  show "opens (ws @ 0x22 # esc_texts ascii cps @ 0x22 # ws1 @ 0x3A # ws2 @ t @ ws' @ [0x7D]) s" for s
    by (rule opens_string [OF assms(1,2)])
  fix s p states states0 q ps us and d :: dom
  assume a: "token_at p ((ws @ 0x22 # esc_texts ascii cps @ 0x22 # ws1 @ 0x3A # ws2 @ t @ ws' @ [0x7D]) @ s)"
    "dm_stack d = q # ps" "json_get q (dm_root d) = Some (JObject us)"
  have st: "stopper (ws' @ 0x7D # s)" by (intro stopper_space assms) simp
  have tk: "token_at p (ws @ 0x22 # esc_texts ascii cps @ 0x22 # ws1 @ 0x3A # ws2 @ t @ ws' @ 0x7D # s)" using a(1) by simp
  obtain p1 d1 p2 d2 where 1: "parse_member allow states0 p d (False # states) = Inr (to_value, False # states, p1, d1)"
    "parse_loop allow False (False # states, p1, d1) = parse_loop allow True (False # states, p2, d2)"
    "starts (pr_lexer p2) (ws' @ 0x7D # s)" "dm_root d2 = json_set q (JObject (obj_assign (utf8_text cps) v us)) (dm_root d)"
    "dm_stack d2 = q # ps"
    by (rule member_begins [OF assms(1-5) st tk a(2,3)])
  obtain p3 where 3: "get_token p2 = Inr p3" "pr_last p3 = end_object" "starts (pr_lexer p3) s"
    using get_structural [OF 1(3) assms(6), of end_object] by auto
  have "parse_second allow (False # states, p2, d2) = Inr (to_evaluation, states, p3, d2\<lparr>dm_stack := ps\<rparr>)"
    using 1(5) 3 by (simp add: parse_second_def parse_evaluation_def dom_end_def)
  note l = loop_second(2) [OF this]
  show "\<exists>p1 d1 p' d'. parse_member allow states0 p d (False # states) = Inr (to_value, False # states, p1, d1)
       \<and> parse_loop allow False (False # states, p1, d1) = parse_loop allow True (states, p', d') \<and> starts (pr_lexer p') s
       \<and> dm_root d' = json_set q (JObject (fold (\<lambda>(k, v). obj_assign k v) [(utf8_text cps, v)] us)) (dm_root d) \<and> dm_stack d' = ps"
    using 1(1,2,4) l 3(3) by (intro exI [of _ p1] exI [of _ d1] exI [of _ p3] exI [of _ "d2\<lparr>dm_stack := ps\<rparr>"]) simp
qed

lemma reads_more_members:
  assumes "spaces ws" "list_all scalar cps" "spaces ws1" "spaces ws2" "reads_value allow t v" "spaces ws'" "reads_members allow ts es"
  shows "reads_members allow (ws @ 0x22 # esc_texts ascii cps @ 0x22 # ws1 @ 0x3A # ws2 @ t @ ws' @ 0x2C # ts) ((utf8_text cps, v) # es)"
  unfolding reads_members_def
proof (intro conjI allI impI)
  show "opens (ws @ 0x22 # esc_texts ascii cps @ 0x22 # ws1 @ 0x3A # ws2 @ t @ ws' @ 0x2C # ts) s" for s
    by (rule opens_string [OF assms(1,2)])
  fix s p states states0 q ps us and d :: dom
  assume a: "token_at p ((ws @ 0x22 # esc_texts ascii cps @ 0x22 # ws1 @ 0x3A # ws2 @ t @ ws' @ 0x2C # ts) @ s)"
    "dm_stack d = q # ps" "json_get q (dm_root d) = Some (JObject us)"
  have st: "stopper (ws' @ 0x2C # ts @ s)" by (intro stopper_space assms) simp
  have tk: "token_at p (ws @ 0x22 # esc_texts ascii cps @ 0x22 # ws1 @ 0x3A # ws2 @ t @ ws' @ 0x2C # ts @ s)" using a(1) by simp
  let ?us = "obj_assign (utf8_text cps) v us"
  obtain p1 d1 p2 d2 where 1: "parse_member allow states0 p d (False # states) = Inr (to_value, False # states, p1, d1)"
    "parse_loop allow False (False # states, p1, d1) = parse_loop allow True (False # states, p2, d2)"
    "starts (pr_lexer p2) (ws' @ 0x2C # ts @ s)" "dm_root d2 = json_set q (JObject ?us) (dm_root d)" "dm_stack d2 = q # ps"
    by (rule member_begins [OF assms(1-5) st tk a(2,3)])
  obtain p3 where 3: "get_token p2 = Inr p3" "pr_last p3 = value_separator" "starts (pr_lexer p3) (ts @ s)"
    using get_structural [OF 1(3) assms(6), of value_separator] by auto
  obtain p4 where 4: "get_token p3 = Inr p4" "token_at p4 (ts @ s)"
    using opens_next [OF reads_members_opens [OF assms(7)] 3(3)] by auto
  have "json_get q (dm_root d2) = Some (JObject ?us)" using 1(4) a(3) by (simp add: json_get_set)
  then obtain p5 d5 p' d' where 5: "parse_member allow (False # states) p4 d2 (False # states) = Inr (to_value, False # states, p5, d5)"
    "parse_loop allow False (False # states, p5, d5) = parse_loop allow True (states, p', d')" "starts (pr_lexer p') s"
    "dm_root d' = json_set q (JObject (fold (\<lambda>(k, v). obj_assign k v) es ?us)) (dm_root d2)" "dm_stack d' = ps"
    using assms(7) 4(2) 1(5) unfolding reads_members_def by blast
  have "parse_second allow (False # states, p2, d2) = Inr (to_value, False # states, p5, d5)"
    using 3 4(1) 5(1) by (simp add: parse_second_def parse_evaluation_def)
  note l = loop_second(1) [OF this]
  show "\<exists>p1 d1 p' d'. parse_member allow states0 p d (False # states) = Inr (to_value, False # states, p1, d1)
       \<and> parse_loop allow False (False # states, p1, d1) = parse_loop allow True (states, p', d') \<and> starts (pr_lexer p') s
       \<and> dm_root d' = json_set q (JObject (fold (\<lambda>(k, v). obj_assign k v) ((utf8_text cps, v) # es) us)) (dm_root d) \<and> dm_stack d' = ps"
    using 1(1,2,4) l 5(2-5) by (intro exI [of _ p1] exI [of _ d1] exI [of _ p'] exI [of _ d']) (simp add: json_set_set)
qed

lemma text_reads:
  "json_text t v \<Longrightarrow> reads_value allow t v"
  "elements_text t' vs \<Longrightarrow> reads_elements allow t' vs"
  "members_text t'' es \<Longrightarrow> reads_members allow t'' es"
  by (induction rule: json_text_elements_text_members_text.inducts)
    (simp_all add: token_string token_unsigned token_negative reads_no_elements reads_no_members reads_array reads_object
      reads_last_element reads_more_elements reads_last_member reads_more_members,
      (rule reads_word, simp)+)

text \<open>The whole document.\<close>

lemma first_byte: "json_text t v \<Longrightarrow> t \<noteq> [] \<and> hd t \<noteq> 0xEF"
proof (cases rule: json_text.cases, assumption)
  fix x assume "t = dec (unat x)"
  then show "t \<noteq> [] \<and> hd t \<noteq> 0xEF" using dec_parts(1) [of "unat x"] by (auto simp: is_digit_def)
qed (auto simp: bytes_of_def)

lemma spaces_no_bom:
  assumes "spaces ws" and "t \<noteq> []" and "hd t \<noteq> 0xEF"
  shows "take 1 (ws @ t @ s) \<noteq> [0xEF]"
  using assms by (cases ws; cases t) (auto simp: is_space_def)

lemma lexer_starts: "take 1 i \<noteq> [0xEF] \<Longrightarrow> starts (lexer_ctor ignore_comments point i) i"
  by (simp add: starts_def stands_def lex_rest_def lexer_ctor_def)

lemma json_parse_text:
  assumes "json_text t v" and "spaces ws" "spaces ws'"
  shows "json_parse allow ignore_comments point (ws @ t @ ws') = Inr v"
proof -
  note r = text_reads(1) [OF assms(1), of allow]
  have st: "stopper ws'" using stopper_space [OF assms(3), of "[]"] by (simp add: stopper_def)
  define p0 where "p0 = \<lparr>pr_lexer = lexer_ctor ignore_comments point (ws @ t @ ws'), pr_last = uninitialized\<rparr>"
  have "starts (pr_lexer p0) (ws @ t @ ws')"
    unfolding p0_def parser.select_convs using first_byte [OF assms(1)] assms(2) by (intro lexer_starts spaces_no_bom) simp_all
  then obtain p where p: "get_token p0 = Inr p" "token_at p (ws @ t @ ws')"
    using opens_next [of "ws @ t @ []" ws' p0] opens_spaces [of t "[]" ws' ws] reads_value_opens [OF r st] assms(2) by auto
  have "slot dom_init [] (\<lambda>v. v)" by (rule slot_root) (simp add: dom_init_def)
  then obtain p' d' where 1: "parse_loop allow False ([], p, dom_init) = parse_loop allow True ([], p', d')"
    "starts (pr_lexer p') ws'" "dm_root d' = v"
    using reads_valueD [OF r assms(2) st p(2)] by blast
  have "parse_loop allow True ([], p', d') = Inr (True, [], p', d')"
    by (subst parse_loop.simps) (simp add: parse_first_def parse_second_def parse_evaluation_def)
  moreover obtain lx where "scan (pr_lexer p') = Inr (end_of_input, lx)" using scan_end [OF 1(2) assms(3)] by blast
  ultimately show ?thesis using p(1) 1 get_token_scan [of p'] by (simp add: json_parse_def parser_parse_def p0_def)
qed

end
