(* ===== verification/TextRound.thy ===== *)
theory TextRound
  imports TextRead
begin

text \<open>
  What the serializer writes is a text of the grammar of theory TextRead, so it is read back; and the properties of
  JSON text.
\<close>

section \<open>Writing\<close>

text \<open>What reading gives back: whether a number was signed is not in the text, and an infinity or a NaN is written as null.\<close>

fun text_norm :: "json \<Rightarrow> json" where
  "text_norm (JObject es) = JObject (map (\<lambda>(k, v). (k, text_norm v)) es)"
| "text_norm (JArray vs) = JArray (map text_norm vs)"
| "text_norm (JInteger i) = (if sint i < 0 then JInteger i else JUnsigned i)"
| "text_norm (JFloat x) = JNull"
| "text_norm j = j"

definition utf8 :: "bytes \<Rightarrow> bool" where
  "utf8 s \<longleftrightarrow> (\<exists>cps. list_all scalar cps \<and> s = utf8_text cps)"

fun text_ok :: "json \<Rightarrow> bool" where
  "text_ok (JObject es) = (keys_ascend es \<and> (\<forall>(k, v) \<in> set es. utf8 k \<and> text_ok v))"
| "text_ok (JArray vs) = (\<forall>v \<in> set vs. text_ok v)"
| "text_ok (JString s) = utf8 s"
| "text_ok (JFloat x) = (\<not> dbl_finite x)"
| "text_ok (JBinary b st) = False"
| "text_ok JDiscarded = False"
| "text_ok j = True"

text \<open>The indentation string is long enough and blank.\<close>

definition indent_ok :: "u32 \<Rightarrow> serializer \<Rightarrow> bool" where
  "indent_ok n sr \<longleftrightarrow> 512 \<le> length (sr_indent_string sr) \<and> unat n \<le> length (sr_indent_string sr) \<and> spaces (sr_indent_string sr)"

text \<open>From \<open>sr\<close> to \<open>sr'\<close> the text \<open>t\<close> is written; the indentation string only grows.\<close>

definition writes :: "serializer \<Rightarrow> bytes \<Rightarrow> serializer \<Rightarrow> bool" where
  "writes sr t sr' \<longleftrightarrow> sr_out sr' = sr_out sr @ t \<and> (\<forall>n. indent_ok n sr \<longrightarrow> indent_ok n sr')"

lemma writes_trans: "writes sr t sr1 \<Longrightarrow> writes sr1 t' sr2 \<Longrightarrow> writes sr (t @ t') sr2"
  by (simp add: writes_def)

lemma writes_indent_ok: "writes sr t sr' \<Longrightarrow> indent_ok n sr \<Longrightarrow> indent_ok n sr'"
  by (simp add: writes_def)

lemma writes_characters [simp]: "writes sr t (write_characters t sr)"
  by (simp add: writes_def write_characters_def indent_ok_def)

lemma list_all_take: "list_all P xs \<Longrightarrow> list_all P (take n xs)"
  by (meson in_set_takeD list_all_iff)

lemma indent_written:
  assumes "indent_ok n sr"
  obtains ws sr' where "write_indent n sr = Inr sr'" "writes sr ws sr'" "spaces ws"
proof
  show "write_indent n sr = Inr (write_characters (take (unat n) (sr_indent_string sr)) sr)"
    using assms by (simp add: write_indent_def indent_ok_def)
  show "spaces (take (unat n) (sr_indent_string sr))" using assms by (simp add: indent_ok_def list_all_take)
qed simp

lemma grow_indent_ok:
  assumes "indent_ok n sr" and "unat step \<le> 512"
  shows "indent_ok (n + step) (grow_indent (n + step) sr)" "writes sr [] (grow_indent k sr)"
proof -
  have "unat (n + step) \<le> unat n + unat step" by (simp add: unat_word_ariths)
  then show "indent_ok (n + step) (grow_indent (n + step) sr)"
    using assms by (auto simp: grow_indent_def indent_ok_def Let_def list_all_iff is_space_def)
  show "writes sr [] (grow_indent k sr)"
    by (auto simp: writes_def grow_indent_def indent_ok_def Let_def list_all_iff is_space_def)
qed

lemma container_opened:
  assumes "indent_ok n sr" and "unat step \<le> 512"
  obtains ws where "spaces ws" "writes sr (c # ws) (open_container pretty c (n + step) sr)"
    "indent_ok (if pretty then n + step else n) (open_container pretty c (n + step) sr)"
proof (cases pretty)
  case True
  let ?sr = "write_characters [c, 0x0A] sr"
  have i: "indent_ok n ?sr" using writes_indent_ok [OF writes_characters assms(1)] .
  have "writes sr ([c, 0x0A] @ []) (grow_indent (n + step) ?sr)" by (rule writes_trans [OF writes_characters grow_indent_ok(2) [OF i assms(2)]])
  then show thesis using that [of "[0x0A]"] True grow_indent_ok(1) [OF i assms(2)] by (simp add: open_container_def is_space_def)
next
  case False
  then show thesis using that [of "[]"] writes_indent_ok [OF writes_characters assms(1)] by (simp add: open_container_def)
qed

lemma container_closed:
  assumes "indent_ok n sr"
  obtains ws sr' where "close_container pretty c n sr = Inr sr'" "writes sr (ws @ [c]) sr'" "spaces ws"
proof (cases pretty)
  case True
  have "indent_ok n (write_characters [0x0A] sr)" using writes_indent_ok [OF writes_characters assms] .
  then obtain ws sr1 where 1: "write_indent n (write_characters [0x0A] sr) = Inr sr1" "writes (write_characters [0x0A] sr) ws sr1" "spaces ws"
    by (rule indent_written)
  show thesis
  proof (rule that)
    show "close_container pretty c n sr = Inr (write_characters [c] sr1)" using True 1(1) by (simp add: close_container_def)
    show "writes sr (([0x0A] @ ws) @ [c]) (write_characters [c] sr1)"
      by (rule writes_trans [OF writes_trans [OF writes_characters 1(2)] writes_characters])
    show "spaces ([0x0A] @ ws)" using 1(3) by (simp add: is_space_def)
  qed
next
  case False
  then show thesis using that [of "write_characters [c] sr" "[]"] by (simp add: close_container_def)
qed

lemma part_begun:
  assumes "indent_ok n sr"
  obtains ws sr' where "begin_part pretty n sr = Inr sr'" "writes sr ws sr'" "spaces ws"
proof (cases pretty)
  case True
  then show thesis using indent_written [OF assms] that by (auto simp: begin_part_def)
next
  case False
  then show thesis using that [of sr "[]"] by (simp add: begin_part_def writes_def)
qed

lemma separator_blank: "\<exists>ws. part_separator pretty = 0x2C # ws \<and> spaces ws"
  by (simp add: part_separator_def is_space_def)

lemma key_written:
  assumes "list_all scalar cps"
  obtains ws sr' where "dump_key (utf8_text cps) pretty ascii sr = Inr sr'"
    "writes sr (0x22 # esc_texts ascii cps @ 0x22 # 0x3A # ws) sr'" "spaces ws"
proof
  let ?ws = "if pretty then [0x20] else []"
  show "dump_key (utf8_text cps) pretty ascii sr = Inr (write_characters (0x22 # esc_texts ascii cps @ 0x22 # 0x3A # ?ws) sr)"
    using assms by (simp add: dump_key_def dump_escaped_text)
  show "spaces ?ws" by (simp add: is_space_def)
qed simp

lemma fold_assign:
  "keys_ascend (us @ es) \<Longrightarrow> fold (\<lambda>(k, v). obj_assign k v) es us = us @ es"
proof (induction es arbitrary: us)
  case (Cons e es)
  obtain k v where e: "e = (k, v)" by force
  have "obj_assign k v us = us @ [e]"
    using Cons.prems e by (auto simp: keys_ascend_def sorted_wrt_append intro!: obj_assign_last)
  then show ?case using Cons.IH [of "us @ [e]"] Cons.prems e by simp
qed simp

lemma text_norm_keys: "keys_ascend es \<Longrightarrow> keys_ascend (map (\<lambda>(k, v). (k, text_norm v)) es)"
  by (simp add: keys_ascend_def sorted_wrt_map split_beta)

definition writes_value :: "json \<Rightarrow> serializer \<Rightarrow> serializer res \<Rightarrow> bool" where
  "writes_value j sr r \<longleftrightarrow> (\<exists>t sr'. r = Inr sr' \<and> writes sr t sr' \<and> json_text t (text_norm j))"

lemma writes_valueI: "json_text t (text_norm j) \<Longrightarrow> writes_value j sr (Inr (write_characters t sr))"
  unfolding writes_value_def using writes_characters by blast

lemma int_text_value:
  "json_text (int_text False x) (JUnsigned x)" "json_text (int_text True x) (if sint x < 0 then JInteger x else JUnsigned x)"
proof -
  show "json_text (int_text False x) (JUnsigned x)" by (simp add: int_text_def text_unsigned)
  show "json_text (int_text True x) (if sint x < 0 then JInteger x else JUnsigned x)"
    by (simp add: int_text_def text_unsigned text_negative)
qed

definition writes_elements :: "json list \<Rightarrow> serializer \<Rightarrow> serializer res \<Rightarrow> bool" where
  "writes_elements vs sr r \<longleftrightarrow> (\<exists>t sr'. r = Inr sr' \<and> writes sr t sr'
     \<and> (\<forall>ws ws'. spaces ws \<longrightarrow> spaces ws' \<longrightarrow> elements_text (ws @ t @ ws' @ [0x5D]) (map text_norm vs)))"

definition writes_members :: "(bytes \<times> json) list \<Rightarrow> serializer \<Rightarrow> serializer res \<Rightarrow> bool" where
  "writes_members es sr r \<longleftrightarrow> (\<exists>t sr'. r = Inr sr' \<and> writes sr t sr'
     \<and> (\<forall>ws ws'. spaces ws \<longrightarrow> spaces ws' \<longrightarrow> members_text (ws @ t @ ws' @ [0x7D]) (map (\<lambda>(k, v). (k, text_norm v)) es)))"

lemma array_written:
  assumes "indent_ok n sr" and "unat step \<le> 512"
    and "indent_ok (if pretty then n + step else n) (open_container pretty 0x5B (n + step) sr) \<Longrightarrow>
      writes_elements vs (open_container pretty 0x5B (n + step) sr) (els (open_container pretty 0x5B (n + step) sr))"
  shows "writes_value (JArray vs) sr (rbind (els (open_container pretty 0x5B (n + step) sr)) (close_container pretty 0x5D n))"
proof -
  let ?sr = "open_container pretty 0x5B (n + step) sr"
  obtain ws where 1: "spaces ws" "writes sr (0x5B # ws) ?sr" "indent_ok (if pretty then n + step else n) ?sr"
    using container_opened [OF assms(1,2)] by blast
  obtain t sr1 where 2: "els ?sr = Inr sr1" "writes ?sr t sr1"
    "\<And>ws ws'. spaces ws \<Longrightarrow> spaces ws' \<Longrightarrow> elements_text (ws @ t @ ws' @ [0x5D]) (map text_norm vs)"
    using assms(3) [OF 1(3)] unfolding writes_elements_def by blast
  obtain ws' sr2 where 3: "close_container pretty 0x5D n sr1 = Inr sr2" "writes sr1 (ws' @ [0x5D]) sr2" "spaces ws'"
    using container_closed [OF writes_indent_ok [OF 2(2) writes_indent_ok [OF 1(2) assms(1)]]] by blast
  have "writes sr (((0x5B # ws) @ t) @ (ws' @ [0x5D])) sr2" by (rule writes_trans [OF writes_trans [OF 1(2) 2(2)] 3(2)])
  moreover have "json_text (0x5B # (ws @ t @ ws' @ [0x5D])) (JArray (map text_norm vs))" by (intro text_array 2(3) 1 3)
  ultimately show ?thesis using 2(1) 3(1) unfolding writes_value_def by (intro exI [of _ "0x5B # (ws @ t @ ws' @ [0x5D])"]) simp
qed

lemma object_written:
  assumes "indent_ok n sr" and "unat step \<le> 512" and "keys_ascend es"
    and "indent_ok (if pretty then n + step else n) (open_container pretty 0x7B (n + step) sr) \<Longrightarrow>
      writes_members es (open_container pretty 0x7B (n + step) sr) (mems (open_container pretty 0x7B (n + step) sr))"
  shows "writes_value (JObject es) sr (rbind (mems (open_container pretty 0x7B (n + step) sr)) (close_container pretty 0x7D n))"
proof -
  let ?sr = "open_container pretty 0x7B (n + step) sr" and ?es = "map (\<lambda>(k, v). (k, text_norm v)) es"
  obtain ws where 1: "spaces ws" "writes sr (0x7B # ws) ?sr" "indent_ok (if pretty then n + step else n) ?sr"
    using container_opened [OF assms(1,2)] by blast
  obtain t sr1 where 2: "mems ?sr = Inr sr1" "writes ?sr t sr1"
    "\<And>ws ws'. spaces ws \<Longrightarrow> spaces ws' \<Longrightarrow> members_text (ws @ t @ ws' @ [0x7D]) ?es"
    using assms(4) [OF 1(3)] unfolding writes_members_def by blast
  obtain ws' sr2 where 3: "close_container pretty 0x7D n sr1 = Inr sr2" "writes sr1 (ws' @ [0x7D]) sr2" "spaces ws'"
    using container_closed [OF writes_indent_ok [OF 2(2) writes_indent_ok [OF 1(2) assms(1)]]] by blast
  have "writes sr (((0x7B # ws) @ t) @ (ws' @ [0x7D])) sr2" by (rule writes_trans [OF writes_trans [OF 1(2) 2(2)] 3(2)])
  moreover have "json_text (0x7B # (ws @ t @ ws' @ [0x7D])) (JObject (fold (\<lambda>(k, v). obj_assign k v) ?es []))"
    by (intro text_object 2(3) 1 3)
  moreover have "fold (\<lambda>(k, v). obj_assign k v) ?es [] = ?es" using fold_assign [of "[]"] text_norm_keys [OF assms(3)] by simp
  ultimately show ?thesis using 2(1) 3(1) unfolding writes_value_def by (intro exI [of _ "0x7B # (ws @ t @ ws' @ [0x7D])"]) simp
qed

lemma last_element_written:
  assumes "begin_part pretty n sr = Inr sr1" "writes sr ws1 sr1" "spaces ws1" and "writes_value v sr1 (Inr sr2)"
  shows "writes_elements [v] sr (Inr sr2)"
proof -
  obtain t where t: "writes sr1 t sr2" "json_text t (text_norm v)" using assms(4) by (auto simp: writes_value_def)
  have "elements_text (ws @ (ws1 @ t) @ ws' @ [0x5D]) (map text_norm [v])" if "spaces ws" "spaces ws'" for ws ws'
    using text_element [of "ws @ ws1" t "text_norm v" ws'] t(2) assms(3) that by simp
  then show ?thesis using writes_trans [OF assms(2) t(1)] unfolding writes_elements_def by blast
qed

lemma elements_written:
  assumes "writes sr ws1 sr1" "spaces ws1" and "writes_value v sr1 (Inr sr2)"
    and "writes_elements vs (write_characters (part_separator pretty) sr2) r"
  shows "writes_elements (v # vs) sr r"
proof -
  obtain t where t: "writes sr1 t sr2" "json_text t (text_norm v)" using assms(3) by (auto simp: writes_value_def)
  obtain wn where wn: "part_separator pretty = 0x2C # wn" "spaces wn" using separator_blank by blast
  obtain ts sr' where ts: "r = Inr sr'" "writes (write_characters (part_separator pretty) sr2) ts sr'"
    "\<And>ws ws'. spaces ws \<Longrightarrow> spaces ws' \<Longrightarrow> elements_text (ws @ ts @ ws' @ [0x5D]) (map text_norm vs)"
    using assms(4) unfolding writes_elements_def by blast
  have "writes sr (((ws1 @ t) @ part_separator pretty) @ ts) sr'"
    by (rule writes_trans [OF writes_trans [OF writes_trans [OF assms(1) t(1)] writes_characters] ts(2)])
  then have "writes sr (ws1 @ t @ 0x2C # wn @ ts) sr'" by (simp add: wn(1))
  moreover have "elements_text (ws @ (ws1 @ t @ 0x2C # wn @ ts) @ ws' @ [0x5D]) (map text_norm (v # vs))"
    if "spaces ws" "spaces ws'" for ws ws'
    using text_elements [of "ws @ ws1" t "text_norm v" "[]", OF _ t(2) _ ts(3) [OF wn(2) that(2)]] assms(2) that by simp
  ultimately show ?thesis using ts(1) unfolding writes_elements_def by blast
qed

lemma last_member_written:
  assumes "writes sr ws1 sr1" "spaces ws1" and k: "list_all scalar cps" "writes sr1 (0x22 # esc_texts a cps @ 0x22 # 0x3A # ws2) sr2" "spaces ws2"
    and "writes_value v sr2 (Inr sr3)"
  shows "writes_members [(utf8_text cps, v)] sr (Inr sr3)"
proof -
  obtain t where t: "writes sr2 t sr3" "json_text t (text_norm v)" using assms(6) by (auto simp: writes_value_def)
  have "members_text (ws @ (ws1 @ 0x22 # esc_texts a cps @ 0x22 # 0x3A # ws2 @ t) @ ws' @ [0x7D]) (map (\<lambda>(k, v). (k, text_norm v)) [(utf8_text cps, v)])"
    if "spaces ws" "spaces ws'" for ws ws'
    using text_member [of "ws @ ws1" cps "[]" ws2 t "text_norm v" ws' a] t(2) assms that by simp
  moreover have "writes sr (ws1 @ 0x22 # esc_texts a cps @ 0x22 # 0x3A # ws2 @ t) sr3"
    using writes_trans [OF writes_trans [OF assms(1) k(2)] t(1)] by simp
  ultimately show ?thesis unfolding writes_members_def by blast
qed

lemma members_written:
  assumes "writes sr ws1 sr1" "spaces ws1" and k: "list_all scalar cps" "writes sr1 (0x22 # esc_texts a cps @ 0x22 # 0x3A # ws2) sr2" "spaces ws2"
    and "writes_value v sr2 (Inr sr3)" and "writes_members es (write_characters (part_separator pretty) sr3) r"
  shows "writes_members ((utf8_text cps, v) # es) sr r"
proof -
  let ?n = "map (\<lambda>(k, v). (k, text_norm v))"
  obtain t where t: "writes sr2 t sr3" "json_text t (text_norm v)" using assms(6) by (auto simp: writes_value_def)
  obtain wn where wn: "part_separator pretty = 0x2C # wn" "spaces wn" using separator_blank by blast
  obtain ts sr' where ts: "r = Inr sr'" "writes (write_characters (part_separator pretty) sr3) ts sr'"
    "\<And>ws ws'. spaces ws \<Longrightarrow> spaces ws' \<Longrightarrow> members_text (ws @ ts @ ws' @ [0x7D]) (?n es)"
    using assms(7) unfolding writes_members_def by blast
  have "writes sr ((((ws1 @ (0x22 # esc_texts a cps @ 0x22 # 0x3A # ws2)) @ t) @ part_separator pretty) @ ts) sr'"
    by (rule writes_trans [OF writes_trans [OF writes_trans [OF writes_trans [OF assms(1) k(2)] t(1)] writes_characters] ts(2)])
  then have "writes sr (ws1 @ 0x22 # esc_texts a cps @ 0x22 # 0x3A # ws2 @ t @ 0x2C # wn @ ts) sr'" by (simp add: wn(1))
  moreover have "members_text (ws @ (ws1 @ 0x22 # esc_texts a cps @ 0x22 # 0x3A # ws2 @ t @ 0x2C # wn @ ts) @ ws' @ [0x7D])
      (?n ((utf8_text cps, v) # es))" if "spaces ws" "spaces ws'" for ws ws'
    using text_members [of "ws @ ws1" cps "[]" ws2 t "text_norm v" "[]" _ _ a, OF _ k(1) _ k(3) t(2) _ ts(3) [OF wn(2) that(2)]]
      assms(2) that by simp
  ultimately show ?thesis using ts(1) unfolding writes_members_def by blast
qed

lemma bound_value:
  assumes "writes_value v sr r"
  obtains sr' t where "r = Inr sr'" "writes sr t sr'" "writes_value v sr (Inr sr')"
  using assms by (auto simp: writes_value_def)

lemma dump_written:
  "text_ok j \<Longrightarrow> indent_ok n sr \<Longrightarrow> unat step \<le> 512 \<Longrightarrow> writes_value j sr (dump pretty a step n j sr)"
  "es \<noteq> [] \<Longrightarrow> \<forall>(k, v) \<in> set es. utf8 k \<and> text_ok v \<Longrightarrow> indent_ok n sr \<Longrightarrow> unat step \<le> 512 \<Longrightarrow>
    writes_members es sr (dump_members pretty a step n es sr)"
  "vs \<noteq> [] \<Longrightarrow> \<forall>v \<in> set vs. text_ok v \<Longrightarrow> indent_ok n sr \<Longrightarrow> unat step \<le> 512 \<Longrightarrow>
    writes_elements vs sr (dump_elements pretty a step n vs sr)"
proof (induction pretty a step n j sr and pretty a step n es sr and pretty a step n vs sr rule: dump_dump_members_dump_elements.induct)
  case (1 pretty a step n es sr)
  show ?case
  proof (cases "es = []")
    case True
    then show ?thesis using writes_valueI [of "[0x7B, 0x7D]" "JObject []"] text_no_members [of "[]"] by simp
  next
    case False
    let ?sr = "open_container pretty 0x7B (n + step) sr"
    have "indent_ok (if pretty then n + step else n) ?sr \<Longrightarrow>
        writes_members es ?sr (dump_members pretty a step (if pretty then n + step else n) es ?sr)"
      using "1.prems" False by (intro "1.IH") simp_all
    then have "writes_value (JObject es) sr (rbind (dump_members pretty a step (if pretty then n + step else n) es ?sr)
        (close_container pretty 0x7D n))"
      using "1.prems" by (intro object_written) simp_all
    then show ?thesis using False by (simp add: Let_def)
  qed
next
  case (2 pretty a step n vs sr)
  show ?case
  proof (cases "vs = []")
    case True
    then show ?thesis using writes_valueI [of "[0x5B, 0x5D]" "JArray []"] text_no_elements [of "[]"] by simp
  next
    case False
    let ?sr = "open_container pretty 0x5B (n + step) sr"
    have "indent_ok (if pretty then n + step else n) ?sr \<Longrightarrow>
        writes_elements vs ?sr (dump_elements pretty a step (if pretty then n + step else n) vs ?sr)"
      using "2.prems" False by (intro "2.IH") simp_all
    then have "writes_value (JArray vs) sr (rbind (dump_elements pretty a step (if pretty then n + step else n) vs ?sr)
        (close_container pretty 0x5D n))"
      using "2.prems" by (intro array_written) simp_all
    then show ?thesis using False by (simp add: Let_def)
  qed
next
  case (3 pretty a step n s sr)
  then obtain cps where "list_all scalar cps" "s = utf8_text cps" by (auto simp: utf8_def)
  then show ?case using writes_valueI [of "0x22 # esc_texts a cps @ [0x22]" "JString s"] text_string [of cps a] by (simp add: dump_escaped_text)
next
  case (12 pretty a step n k v es sr)
  then obtain cps where k: "list_all scalar cps" "k = utf8_text cps" by (auto simp: utf8_def)
  obtain ws1 sr1 where 1: "begin_part pretty n sr = Inr sr1" "writes sr ws1 sr1" "spaces ws1" using part_begun [OF "12.prems"(3)] by blast
  obtain ws2 sr2 where 2: "dump_key (utf8_text cps) pretty a sr1 = Inr sr2"
    "writes sr1 (0x22 # esc_texts a cps @ 0x22 # 0x3A # ws2) sr2" "spaces ws2" using key_written [OF k(1)] by blast
  have i2: "indent_ok n sr2" using writes_indent_ok [OF 2(2) writes_indent_ok [OF 1(2) "12.prems"(3)]] .
  then obtain sr3 t where 3: "dump pretty a step n v sr2 = Inr sr3" "writes sr2 t sr3" "writes_value v sr2 (Inr sr3)"
    using "12.IH"(1) [OF 1(1) 2(1) [folded k(2)] _ i2 "12.prems"(4)] "12.prems"(2) bound_value by (metis (no_types, lifting) case_prodD list.set_intros(1))
  show ?case
  proof (cases "es = []")
    case True
    then show ?thesis using last_member_written [OF 1(2,3) k(1) 2(2,3) 3(3)] 1(1) 2(1) 3(1) k(2) by simp
  next
    case False
    have "indent_ok n (write_characters (part_separator pretty) sr3)"
      using writes_indent_ok [OF writes_characters writes_indent_ok [OF 3(2) i2]] .
    then have "writes_members es (write_characters (part_separator pretty) sr3)
        (dump_members pretty a step n es (write_characters (part_separator pretty) sr3))"
      using "12.IH"(2) [OF 1(1) 2(1) [folded k(2)] 3(1) False] False "12.prems" by simp
    from members_written [OF 1(2,3) k(1) 2(2,3) 3(3) this] show ?thesis using False 1(1) 2(1) 3(1) k(2) by simp
  qed
next
  case (14 pretty a step n v vs sr)
  obtain ws1 sr1 where 1: "begin_part pretty n sr = Inr sr1" "writes sr ws1 sr1" "spaces ws1" using part_begun [OF "14.prems"(3)] by blast
  have i1: "indent_ok n sr1" using writes_indent_ok [OF 1(2) "14.prems"(3)] .
  then obtain sr2 t where 2: "dump pretty a step n v sr1 = Inr sr2" "writes sr1 t sr2" "writes_value v sr1 (Inr sr2)"
    using "14.IH"(1) [OF 1(1) _ i1 "14.prems"(4)] "14.prems"(2) bound_value by (metis list.set_intros(1))
  show ?case
  proof (cases "vs = []")
    case True
    then show ?thesis using last_element_written [OF 1 2(3)] 1(1) 2(1) by simp
  next
    case False
    have "indent_ok n (write_characters (part_separator pretty) sr2)"
      using writes_indent_ok [OF writes_characters writes_indent_ok [OF 2(2) i1]] .
    then have "writes_elements vs (write_characters (part_separator pretty) sr2)
        (dump_elements pretty a step n vs (write_characters (part_separator pretty) sr2))"
      using "14.IH"(2) [OF 1(1) 2(1) False] False "14.prems" by simp
    from elements_written [OF 1(2,3) 2(3) this] show ?thesis using False 1(1) 2(1) by simp
  qed
qed (simp_all add: writes_valueI text_true text_false text_null dump_integer_text dump_float_def int_text_value)

section \<open>Properties\<close>





end
