(* ===== verification/LexSafe.thy ===== *)
theory LexSafe
  imports JsonParser
begin

text \<open>
  The scanner on any bytes: every call ends with a token and fails none of the assertions of its code.
\<close>

section \<open>The scanner does not fail\<close>

text \<open>A step of the scanner that fails no assertion and leaves the decimal point alone.\<close>

definition goes :: "lexer \<Rightarrow> ('a \<times> lexer) res \<Rightarrow> bool" where
  "goes lx r \<longleftrightarrow> (\<exists>x lx'. r = Inr (x, lx') \<and> lx_decimal_point lx' = lx_decimal_point lx)"

lemma goes_Inr [simp]: "goes lx (Inr (x, lx')) = (lx_decimal_point lx' = lx_decimal_point lx)"
  by (simp add: goes_def)

lemma goes_bind:
  assumes "goes lx r" and "\<And>x lx'. r = Inr (x, lx') \<Longrightarrow> lx_decimal_point lx' = lx_decimal_point lx \<Longrightarrow> goes lx' (g x lx')"
  shows "goes lx (rbind r (\<lambda>(x, lx). g x lx))"
  using assms by (fastforce simp: goes_def)

lemma goes_move: "goes lx' r \<Longrightarrow> lx_decimal_point lx' = lx_decimal_point lx \<Longrightarrow> goes lx r"
  by (simp add: goes_def)

lemma point_ops [simp]:
  "lx_decimal_point (lex_add c lx) = lx_decimal_point lx" "lx_decimal_point (lex_reset lx) = lx_decimal_point lx"
  "lx_decimal_point (fold lex_add bs lx) = lx_decimal_point lx"
proof -
  show a: "lx_decimal_point (lex_add c lx) = lx_decimal_point lx" for c lx by (simp add: lex_add_def)
  show "lx_decimal_point (lex_reset lx) = lx_decimal_point lx" by (simp add: lex_reset_def)
  show "lx_decimal_point (fold lex_add bs lx) = lx_decimal_point lx" by (induction bs arbitrary: lx) (simp_all add: a)
qed

text \<open>What was just read can be put back.\<close>

lemma put_back_goes: "\<exists>lx'. lex_unget (lex_get lx) = Inr lx' \<and> lx_decimal_point lx' = lx_decimal_point lx \<and> lx_buffer lx' = lx_buffer lx"
  using lex_get_token [of lx] by (cases "lx_current (lex_get lx)") (auto simp: lex_unget_def Let_def)

lemma codepoint_loop_point: "codepoint_loop fs cp lx = (r, lx') \<Longrightarrow> lx_decimal_point lx' = lx_decimal_point lx"
proof (induction fs cp lx rule: codepoint_loop.induct)
  case (2 f fs cp lx)
  show ?case
  proof (cases "lx_current (lex_get lx)")
    case None
    then show ?thesis using "2.prems" by auto
  next
    case (Some c)
    then show ?thesis using "2.IH" [OF refl Some] "2.prems" by (auto simp: Let_def split: if_splits)
  qed
qed simp

lemma digit_value:
  fixes c :: u8
  shows "0x30 \<le> c \<Longrightarrow> c \<le> 0x39 \<Longrightarrow> unat c - 0x30 < 16" "0x41 \<le> c \<Longrightarrow> c \<le> 0x46 \<Longrightarrow> unat c - 0x37 < 16"
    "0x61 \<le> c \<Longrightarrow> c \<le> 0x66 \<Longrightarrow> unat c - 0x57 < 16"
  by (simp_all add: word_le_nat_alt)

text \<open>The bound on what \<^verbatim>\<open>get_codepoint\<close> can give.\<close>

lemma codepoint_loop_bound:
  "codepoint_loop fs cp lx = (Some r, lx') \<Longrightarrow> r \<le> cp + 15 * sum_list (map (\<lambda>f. 2 ^ f) fs)"
proof (induction fs cp lx arbitrary: r rule: codepoint_loop.induct)
  case (2 f fs cp lx)
  obtain c where c: "lx_current (lex_get lx) = Some c" using "2.prems" by (auto simp: Let_def split: option.splits)
  have step: ?case if "codepoint_loop fs (cp + push_bit f d) (lex_get lx) = (Some r, lx')" "d < 16"
    "r \<le> cp + push_bit f d + 15 * sum_list (map (\<lambda>f. 2 ^ f) fs)" for d
  proof -
    have "push_bit f d \<le> 15 * 2 ^ f" using that(2) by (simp add: push_bit_eq_mult)
    then show ?thesis using that(3) by simp
  qed
  consider "0x30 \<le> c \<and> c \<le> 0x39" | "\<not> (0x30 \<le> c \<and> c \<le> 0x39)" "0x41 \<le> c \<and> c \<le> 0x46"
    | "\<not> (0x30 \<le> c \<and> c \<le> 0x39)" "\<not> (0x41 \<le> c \<and> c \<le> 0x46)" "0x61 \<le> c \<and> c \<le> 0x66"
    using "2.prems" c by (auto simp: Let_def split: if_splits)
  then show ?case
  proof cases
    case 1
    then show ?thesis using "2.prems" c "2.IH"(1) [OF refl c 1] digit_value(1) by (intro step [of "unat c - 0x30"]) auto
  next
    case 2
    then show ?thesis using "2.prems" c "2.IH"(2) [OF refl c 2] digit_value(2) by (intro step [of "unat c - 0x37"]) auto
  next
    case 3
    then show ?thesis using "2.prems" c "2.IH"(3) [OF refl c 3] digit_value(3) by (intro step [of "unat c - 0x57"]) auto
  qed
qed simp

lemma get_codepoint_goes:
  assumes "lx_current lx = Some 0x75"
  shows "goes lx (get_codepoint lx)" "get_codepoint lx = Inr (Some cp, lx') \<Longrightarrow> cp \<le> 0xFFFF"
proof -
  obtain r lx1 where l: "codepoint_loop [12, 8, 4, 0] 0 lx = (r, lx1)" by force
  then have "r = Some k \<Longrightarrow> k \<le> 0xFFFF" for k using codepoint_loop_bound [of "[12, 8, 4, 0]" 0 lx k lx1] by simp
  then show "goes lx (get_codepoint lx)"
    using assms codepoint_loop_point [OF l] by (cases r) (auto simp: get_codepoint_def l simp del: codepoint_loop.simps)
  show "get_codepoint lx = Inr (Some cp, lx') \<Longrightarrow> cp \<le> 0xFFFF"
    by (auto simp: get_codepoint_def simp del: codepoint_loop.simps split: if_splits prod.splits option.splits)
qed

lemma add_codepoint_goes: "cp \<le> 0x10FFFF \<Longrightarrow> goes lx (add_codepoint cp lx)"
  by (simp add: add_codepoint_def)

lemma surrogate_pair_bound:
  assumes "0xD800 \<le> hi" "hi \<le> 0xDBFF" "0xDC00 \<le> lo" "lo \<le> 0xDFFF"
  shows "unat (push_bit 10 (of_nat hi) + of_nat lo - 0x35FDC00 :: u32) \<le> 0x10FFFF"
proof -
  have le: "0x35FDC00 \<le> hi * 1024 + lo" using assms by linarith
  have "push_bit 10 (of_nat hi) + of_nat lo - 0x35FDC00 = (of_nat (hi * 1024 + lo - 0x35FDC00) :: u32)"
    using le by (simp add: push_bit_eq_mult of_nat_diff)
  moreover have "hi * 1024 + lo - 0x35FDC00 \<le> 0x10FFFF" using assms by linarith
  ultimately show ?thesis by (simp add: unat_of_nat)
qed

lemma low_surrogate_goes:
  assumes "lx_current lx = Some 0x75" and "0xD800 \<le> cp1" "cp1 \<le> 0xDBFF"
  shows "goes lx (rbind (get_codepoint lx) (\<lambda>(codepoint2, lx). case codepoint2 of
           None \<Rightarrow> Inr (False, lx)
         | Some cp2 \<Rightarrow>
             if 0xDC00 \<le> cp2 \<and> cp2 \<le> 0xDFFF
             then add_codepoint (unat (push_bit 10 (of_nat cp1) + of_nat cp2 - 0x35FDC00 :: u32)) lx
             else Inr (False, lx)))"
  by (rule goes_bind [OF get_codepoint_goes(1) [OF assms(1)]])
    (use assms surrogate_pair_bound in \<open>auto intro!: add_codepoint_goes split: option.split\<close>)

lemma scan_unicode_goes:
  assumes "lx_current lx = Some 0x75"
  shows "goes lx (scan_unicode lx)"
proof -
  obtain c1 lx1 where c1: "get_codepoint lx = Inr (c1, lx1)" "lx_decimal_point lx1 = lx_decimal_point lx"
    using get_codepoint_goes(1) [OF assms] by (auto simp: goes_def)
  note low = goes_move [OF low_surrogate_goes [of "lex_get (lex_get lx1)"], of _ lx1, simplified]
  show ?thesis
  proof (cases c1)
    case (Some cp1)
    have "cp1 \<le> 0x10FFFF" using get_codepoint_goes(2) [OF assms, of cp1 lx1] c1 Some by simp
    then have "goes lx1 (add_codepoint cp1 lx1)" by (rule add_codepoint_goes)
    then have "goes lx1 (scan_unicode lx)" using low Some unfolding scan_unicode_def c1(1) rbind_simps by (auto simp: Let_def)
    then show ?thesis using goes_move c1(2) by blast
  qed (simp add: scan_unicode_def c1)
qed

lemma scan_escape_goes: "goes lx (scan_escape lx)"
proof -
  have "lx_current (lex_get lx) = Some 0x75 \<Longrightarrow> goes lx (scan_unicode (lex_get lx))"
    by (rule goes_move [OF scan_unicode_goes]) simp_all
  then show ?thesis by (auto simp: scan_escape_def Let_def split: option.split)
qed

lemma next_bytes_point: "next_bytes_in rs lx = (r, lx') \<Longrightarrow> lx_decimal_point lx' = lx_decimal_point lx"
proof (induction rs lx rule: next_bytes_in.induct)
  case (2 lo hi rs lx)
  show ?case
  proof (cases "lx_current (lex_get lx)")
    case None
    then show ?thesis using "2.prems" by auto
  next
    case (Some c)
    then show ?thesis using "2.IH" [OF refl Some] "2.prems" by (auto simp: Let_def split: if_splits)
  qed
qed simp

lemma string_multibyte_point: "string_multibyte c lx = (r, lx') \<Longrightarrow> lx_decimal_point lx' = lx_decimal_point lx"
  by (auto simp: string_multibyte_def next_byte_in_range_def simp del: next_bytes_in.simps dest: next_bytes_point split: if_splits)

lemma string_step_goes: "goes lx (string_step lx)"
proof (cases "lx_current (lex_get lx)")
  case (Some c)
  obtain r lx1 where e: "scan_escape (lex_get lx) = Inr (r, lx1)" "lx_decimal_point lx1 = lx_decimal_point lx"
    using scan_escape_goes [of "lex_get lx"] by (auto simp: goes_def)
  obtain r2 lx2 where m: "string_multibyte c (lex_get lx) = (r2, lx2)" by force
  show ?thesis using Some e m string_multibyte_point [OF m] by (simp add: string_step_def go_on_def Let_def)
qed (simp add: string_step_def)

lemma string_loop_goes: "goes lx (string_loop lx)"
proof (induction lx rule: string_loop.induct)
  case (1 lx)
  obtain t1 lx1 where s: "string_step lx = Inr (t1, lx1)" "lx_decimal_point lx1 = lx_decimal_point lx"
    using string_step_goes [of lx] by (auto simp: goes_def)
  show ?case
  proof (cases t1)
    case None
    then have "string_loop lx = string_loop lx1" using s(1) by (subst string_loop.simps) simp
    then show ?thesis using goes_move [OF "1.IH" [OF s(1) refl None] s(2)] by simp
  next
    case (Some t)
    then have "string_loop lx = Inr (t, lx1)" using s(1) by (subst string_loop.simps) simp
    then show ?thesis using s(2) by simp
  qed
qed

lemma literal_loop_point: "literal_loop cs t lx = (r, lx') \<Longrightarrow> lx_decimal_point lx' = lx_decimal_point lx"
  by (induction cs t lx rule: literal_loop.induct) (auto simp: Let_def split: if_splits)

lemma skip_whitespace_point [simp]: "lx_decimal_point (skip_whitespace lx) = lx_decimal_point lx"
proof (induction lx rule: skip_whitespace.induct)
  case (1 lx)
  then show ?case by (subst skip_whitespace.simps) (auto simp: Let_def)
qed

lemma line_comment_point [simp]: "lx_decimal_point (line_comment lx) = lx_decimal_point lx"
proof (induction lx rule: line_comment.induct)
  case (1 lx)
  then show ?case by (subst line_comment.simps) (auto simp: Let_def)
qed

lemma after_star_goes: "goes lx (after_star lx)"
  using put_back_goes [of lx] by (auto simp: after_star_def Let_def)

lemma block_comment_goes: "goes lx (block_comment lx)"
proof (induction lx rule: block_comment.induct)
  case (1 lx)
  let ?lx = "lex_get lx"
  consider "lx_current ?lx = None \<or> lx_current ?lx = Some 0" | "lx_current ?lx = Some 0x2A"
    | "\<not> (lx_current ?lx = None \<or> lx_current ?lx = Some 0)" "lx_current ?lx \<noteq> Some 0x2A" by blast
  then show ?case
  proof cases
    case 1
    then show ?thesis by (subst block_comment.simps) (simp add: Let_def)
  next
    case 2
    obtain closed l2 where a: "after_star ?lx = Inr (closed, l2)" "lx_decimal_point l2 = lx_decimal_point lx"
      using after_star_goes [of ?lx] by (auto simp: goes_def)
    have "block_comment lx = (if closed then Inr (True, l2) else block_comment l2)"
      using 2 a(1) by (subst block_comment.simps) (simp add: Let_def)
    moreover have "\<not> closed \<Longrightarrow> goes lx (block_comment l2)"
      using goes_move [OF "1.IH"(1) [OF refl _ 2 a(1) refl] a(2)] 2 by simp
    ultimately show ?thesis using a(2) by simp
  next
    case 3
    then have "block_comment lx = block_comment ?lx" by (subst block_comment.simps) (simp only: Let_def if_False)
    then show ?thesis using goes_move [OF "1.IH"(2) [OF refl 3]] by simp
  qed
qed

lemma scan_comment_goes: "goes lx (scan_comment lx)"
  using goes_move [OF block_comment_goes [of "lex_get lx"], of lx] by (auto simp: scan_comment_def Let_def)

lemma skip_comments_goes: "goes lx (skip_comments lx)"
proof (induction lx rule: skip_comments.induct)
  case (1 lx)
  show ?case
  proof (cases "lx_ignore_comments lx \<and> lx_current lx = Some 0x2F")
    case True
    obtain ok lx1 where c: "scan_comment lx = Inr (ok, lx1)" "lx_decimal_point lx1 = lx_decimal_point lx"
      using scan_comment_goes [of lx] by (auto simp: goes_def)
    then have "skip_comments lx = (if \<not> ok then Inr (False, lx1) else skip_comments (skip_whitespace lx1))"
      using True by (subst skip_comments.simps) simp
    moreover have "ok \<Longrightarrow> goes lx (skip_comments (skip_whitespace lx1))"
      by (rule goes_move [OF "1.IH" [OF True c(1) refl]]) (use c(2) in simp_all)
    ultimately show ?thesis using c(2) by simp
  next
    case False
    then have "skip_comments lx = Inr (True, lx)" by (subst skip_comments.simps) (simp only: if_False)
    then show ?thesis by simp
  qed
qed

lemma skip_bom_goes: "goes lx (skip_bom lx)"
  using put_back_goes [of lx] by (auto simp: skip_bom_def Let_def)

section \<open>Numbers\<close>

text \<open>The shapes of a number's text, with the byte that stands for the decimal point.\<close>

definition digits :: "bytes \<Rightarrow> bool" where
  "digits ds \<longleftrightarrow> ds \<noteq> [] \<and> list_all is_digit ds"

definition int_part :: "token_type \<Rightarrow> bytes \<Rightarrow> bool" where
  "int_part ty b \<longleftrightarrow> ty = value_unsigned \<and> digits b \<or> ty = value_integer \<and> (\<exists>ds. b = 0x2D # ds \<and> digits ds)"

definition mantissa :: "u8 \<Rightarrow> bytes \<Rightarrow> bool" where
  "mantissa point b \<longleftrightarrow> (\<exists>ty m fr. int_part ty m \<and> b = m @ fr \<and> (fr = [] \<or> (\<exists>fs. fr = point # fs \<and> digits fs)))"

definition exponent_mark :: "u8 \<Rightarrow> bytes \<Rightarrow> bool" where
  "exponent_mark point b \<longleftrightarrow> (\<exists>m c. mantissa point m \<and> (c = 0x65 \<or> c = 0x45) \<and> b = m @ [c])"

definition exponent_text :: "u8 \<Rightarrow> bytes \<Rightarrow> bool" where
  "exponent_text point b \<longleftrightarrow> (\<exists>m sg es. exponent_mark point m \<and> (sg = [] \<or> sg = [0x2B] \<or> sg = [0x2D]) \<and> digits es \<and> b = m @ sg @ es)"

fun num_shape :: "u8 \<Rightarrow> num_state \<Rightarrow> token_type \<Rightarrow> bytes \<Rightarrow> bool" where
  "num_shape point num_minus ty b = (b = [0x2D])"
| "num_shape point num_zero ty b = int_part ty b"
| "num_shape point num_any1 ty b = int_part ty b"
| "num_shape point num_decimal1 ty b = (\<exists>ty m. int_part ty m \<and> b = m @ [point])"
| "num_shape point num_decimal2 ty b = (ty = value_float \<and> mantissa point b)"
| "num_shape point num_exponent ty b = exponent_mark point b"
| "num_shape point num_sign ty b = (ty = value_float \<and> (\<exists>m c. exponent_mark point m \<and> (c = 0x2B \<or> c = 0x2D) \<and> b = m @ [c]))"
| "num_shape point num_any2 ty b = (ty = value_float \<and> exponent_text point b)"
| "num_shape point num_done ty b = False"

lemma digits_snoc: "digits (ds @ [c]) \<longleftrightarrow> (ds = [] \<or> digits ds) \<and> is_digit c"
  by (auto simp: digits_def)

lemma int_part_snoc: "int_part ty b \<Longrightarrow> is_digit c \<Longrightarrow> int_part ty (b @ [c])"
  by (auto simp: int_part_def digits_snoc)

lemma mantissa_int: "int_part ty b \<Longrightarrow> mantissa point b"
  unfolding mantissa_def by blast

lemma mantissa_point: "int_part ty m \<Longrightarrow> is_digit c \<Longrightarrow> mantissa point (m @ [point, c])"
  unfolding mantissa_def by (intro exI [of _ ty] exI [of _ m] exI [of _ "[point, c]"]) (simp add: digits_def)

lemma mantissa_snoc:
  assumes "mantissa point b" and "is_digit c"
  shows "mantissa point (b @ [c])"
proof -
  obtain ty m fr where m: "int_part ty m" "b = m @ fr" "fr = [] \<or> (\<exists>fs. fr = point # fs \<and> digits fs)" using assms(1) by (auto simp: mantissa_def)
  show ?thesis
  proof (cases "fr = []")
    case True
    then show ?thesis using m assms(2) int_part_snoc mantissa_int by fastforce
  next
    case False
    then obtain fs where "fr = point # fs" "digits fs" using m(3) by blast
    then show ?thesis using m(1,2) assms(2) unfolding mantissa_def
      by (intro exI [of _ ty] exI [of _ m] exI [of _ "fr @ [c]"]) (simp add: digits_snoc)
  qed
qed

lemma exponent_text_snoc:
  assumes "exponent_text point b" and "is_digit c"
  shows "exponent_text point (b @ [c])"
proof -
  obtain m sg es where "exponent_mark point m" "sg = [] \<or> sg = [0x2B] \<or> sg = [0x2D]" "digits es" "b = m @ sg @ es"
    using assms(1) by (auto simp: exponent_text_def)
  then show ?thesis using assms(2) unfolding exponent_text_def
    by (intro exI [of _ m] exI [of _ sg] exI [of _ "es @ [c]"]) (simp add: digits_snoc)
qed

lemma exponent_text_first:
  "exponent_mark point m \<Longrightarrow> is_digit c \<Longrightarrow> sg = [] \<or> sg = [0x2B] \<or> sg = [0x2D] \<Longrightarrow> exponent_text point (m @ sg @ [c])"
  unfolding exponent_text_def by (intro exI [of _ m] exI [of _ sg] exI [of _ "[c]"]) (simp add: digits_def)

lemma num_shape_mantissa:
  assumes "num_shape point st ty b" and "num_goto_mantissa st (Some c) = Some st'" and "st' \<noteq> num_done"
  shows "num_shape point st' (num_type st ty) (b @ [if c = 0x2E then point else c])"
proof -
  have c: "\<not> is_digit 0x2E" "\<not> is_digit 0x65" "\<not> is_digit 0x45" by (simp_all add: is_digit_def)
  show ?thesis
  proof (cases st)
    case num_minus
    then show ?thesis using assms
      by (auto simp: num_goto_mantissa_def digit_at_def num_type_def int_part_def digits_def is_digit_def Let_def split: if_splits)
  next
    case num_zero
    then show ?thesis using assms mantissa_int unfolding exponent_mark_def
      by (auto simp: num_goto_mantissa_def num_type_def exponent_mark_def split: if_splits)
  next
    case num_any1
    then show ?thesis using assms c mantissa_int
      by (auto simp: num_goto_mantissa_def num_type_def exponent_mark_def digit_at_def int_part_snoc Let_def split: if_splits)
  next
    case num_decimal1
    then show ?thesis using assms c mantissa_point
      by (auto simp: num_goto_mantissa_def num_type_def digit_at_def Let_def split: if_splits)
  next
    case num_decimal2
    then show ?thesis using assms c
      by (auto simp: num_goto_mantissa_def num_type_def exponent_mark_def digit_at_def mantissa_snoc Let_def split: if_splits)
  qed (use assms in \<open>simp_all add: num_goto_mantissa_def Let_def\<close>)
qed

lemma num_shape_exponent:
  assumes "num_shape point st ty b" and "num_goto_exponent st (Some c) = Some st'" and "st' \<noteq> num_done"
  shows "num_shape point st' (num_type st ty) (b @ [if c = 0x2E then point else c])"
proof -
  have c: "\<not> is_digit 0x2E" by (simp add: is_digit_def)
  show ?thesis
  proof (cases st)
    case num_exponent
    then show ?thesis using assms c exponent_text_first [of point b c "[]"]
      by (auto simp: num_goto_exponent_def num_type_def digit_at_def split: if_splits)
  next
    case num_sign
    then show ?thesis using assms c exponent_text_first [of point _ c "[_]"]
      by (fastforce simp: num_goto_exponent_def num_type_def digit_at_def split: if_splits)
  next
    case num_any2
    then show ?thesis using assms c exponent_text_snoc
      by (auto simp: num_goto_exponent_def num_type_def digit_at_def split: if_splits)
  qed (use assms in \<open>simp_all add: num_goto_exponent_def\<close>)
qed

lemma num_shape_step:
  "num_shape point st ty b \<Longrightarrow> num_goto st (Some c) = Some st' \<Longrightarrow> st' \<noteq> num_done \<Longrightarrow>
    num_shape point st' (num_type st ty) (b @ [if c = 0x2E then point else c])"
  using num_shape_mantissa num_shape_exponent unfolding num_goto_def by (metis (no_types, lifting))

text \<open>A decimal point that cannot be taken for another part of a number.\<close>

definition point_ok :: "u8 \<Rightarrow> bool" where
  "point_ok point \<longleftrightarrow> \<not> is_digit point \<and> point \<notin> {0x65, 0x45}"

lemma digits_run: "digits ds \<Longrightarrow> (t = [] \<or> \<not> is_digit (hd t)) \<Longrightarrow> takeWhile is_digit (ds @ t) = ds"
  by (cases t) (simp_all add: digits_def list_all_iff takeWhile_append)

lemma digits_whole: "digits ds \<Longrightarrow> takeWhile is_digit ds = ds"
  using digits_run [of ds "[]"] by simp

lemma digits_sign: "digits ds \<Longrightarrow> take 1 (ds @ t) \<noteq> [0x2D]" "digits ds \<Longrightarrow> take 1 (ds @ t) \<noteq> [0x2B]"
  by (cases ds; auto simp: digits_def is_digit_def)+

definition exponent_all :: "bytes \<Rightarrow> bool" where
  "exponent_all x \<longleftrightarrow> x = [] \<or> (\<exists>c sg es. (c = 0x65 \<or> c = 0x45) \<and> (sg = [] \<or> sg = [0x2B] \<or> sg = [0x2D]) \<and> digits es \<and> x = c # sg @ es)"

lemma strtod_exponent_all: "exponent_all x \<Longrightarrow> snd (strtod_exponent x) = length x"
proof (cases "x = []")
  case False
  assume "exponent_all x"
  then obtain c sg es where x: "c = 0x65 \<or> c = 0x45" "sg = [] \<or> sg = [0x2B] \<or> sg = [0x2D]" "digits es" "x = c # sg @ es"
    using False by (auto simp: exponent_all_def)
  have es: "es \<noteq> []" using x(3) by (simp add: digits_def)
  show ?thesis using x(1,2) es digits_whole [OF x(3)] digits_sign [OF x(3), of "[]"]
    by (auto simp: strtod_exponent_def x(4) Let_def simp del: takeWhile_eq_all_conv)
qed (simp add: strtod_exponent_def)

lemma int_part_split:
  assumes "int_part ty m"
  obtains sg ds where "m = sg @ ds" "sg = [] \<or> sg = [0x2D]" "digits ds"
proof (cases "ty = value_integer")
  case True
  then obtain ds where "m = [0x2D] @ ds" "digits ds" using assms by (auto simp: int_part_def)
  then show thesis using that by blast
next
  case False
  then show thesis using assms that [of "[]" m] by (simp add: int_part_def)
qed

lemma strtod_all:
  assumes "point_ok point" and "int_part ty m" and "fr = [] \<or> (\<exists>fs. fr = point # fs \<and> digits fs)" and "exponent_all x"
  shows "snd (strtod point (m @ fr @ x)) = length (m @ fr @ x)"
proof -
  obtain sg ds where m: "m = sg @ ds" "sg = [] \<or> sg = [0x2D]" "digits ds" using int_part_split [OF assms(2)] .
  have x: "x = [] \<or> \<not> is_digit (hd x) \<and> hd x \<noteq> point" using assms(1,4) by (auto simp: exponent_all_def point_ok_def is_digit_def)
  have fx: "fr @ x = [] \<or> \<not> is_digit (hd (fr @ x))" using assms(1,3) x by (auto simp: point_ok_def)
  have s1: "(if take 1 (m @ fr @ x) = [0x2D] then drop 1 (m @ fr @ x) else m @ fr @ x) = ds @ fr @ x"
    "of_bool (take 1 (m @ fr @ x) = [0x2D]) = length sg" using m digits_sign(1) [OF m(3), of "fr @ x"] by auto
  have dot: "(take 1 (fr @ x) = [point]) = (fr \<noteq> [])" using assms(3) x by (cases x) auto
  have fs: "takeWhile is_digit (drop 1 (fr @ x)) = drop 1 fr" if ne: "fr \<noteq> []"
  proof -
    obtain fs where f: "fr = point # fs" "digits fs" using assms(3) ne by blast
    have "takeWhile is_digit (fs @ x) = fs" by (rule digits_run [OF f(2)]) (use x in blast)
    then show ?thesis using f(1) by simp
  qed
  obtain e n where e: "strtod_exponent x = (e, n)" by force
  have n: "n = length x" using strtod_exponent_all [OF assms(4)] e by simp
  have ds: "ds \<noteq> []" using m(3) by (simp add: digits_def)
  show ?thesis
    unfolding strtod_def s1 Let_def digits_run [OF m(3) fx]
    using dot fs e n ds m(1) s1(2) by (cases "fr = []") (auto simp: drop_Cons' length_tl)
qed

lemma mantissa_split:
  assumes "mantissa point b"
  obtains ty m fr where "int_part ty m" "b = m @ fr" "fr = [] \<or> (\<exists>fs. fr = point # fs \<and> digits fs)"
  using assms unfolding mantissa_def by blast

lemma strtod_mantissa:
  assumes "point_ok point" and "mantissa point b" and "exponent_all x"
  shows "snd (strtod point (b @ x)) = length (b @ x)"
  by (rule mantissa_split [OF assms(2)]) (use strtod_all [OF assms(1) _ _ assms(3)] in simp)

lemma strtod_exponent_text:
  assumes "point_ok point" and "exponent_text point b"
  shows "snd (strtod point b) = length b"
proof -
  obtain x sg es where x: "exponent_mark point x" "sg = [] \<or> sg = [0x2B] \<or> sg = [0x2D]" "digits es" "b = x @ sg @ es"
    using assms(2) unfolding exponent_text_def by blast
  obtain m c where m: "mantissa point m" "c = 0x65 \<or> c = 0x45" "x = m @ [c]" using x(1) unfolding exponent_mark_def by blast
  have "exponent_all (c # sg @ es)" using m(2) x(2,3) unfolding exponent_all_def by blast
  then show ?thesis using strtod_mantissa [OF assms(1) m(1)] m(3) x(4) by simp
qed

lemma float_text:
  assumes "point_ok point" and "num_shape point st ty b" and "st \<in> {num_zero, num_any1, num_decimal2, num_any2}"
  shows "snd (strtod point b) = length b"
proof -
  have "mantissa point b \<Longrightarrow> snd (strtod point b) = length b"
    using strtod_mantissa [OF assms(1), of b "[]"] by (simp add: exponent_all_def)
  then show ?thesis using assms(2,3) mantissa_int strtod_exponent_text [OF assms(1)] by auto
qed

lemma scan_float_goes:
  assumes "snd (strtod (lx_decimal_point lx) (lx_buffer lx)) = length (lx_buffer lx)"
  shows "goes lx (scan_float lx)"
  using assms by (auto simp: scan_float_def split: prod.split)

lemma strtoull_length: "digits b \<Longrightarrow> fst (snd (strtoull b)) = length b"
  by (simp add: strtoull_def digits_whole Let_def)

lemma strtoll_length: "digits ds \<Longrightarrow> fst (snd (strtoll (0x2D # ds))) = Suc (length ds)"
  by (simp add: strtoll_def digits_whole Let_def)

lemma scan_number_done_goes:
  assumes "point_ok (lx_decimal_point lx)" and "num_shape (lx_decimal_point lx) st ty (lx_buffer lx)"
    and "st \<in> {num_zero, num_any1, num_decimal2, num_any2}"
  shows "goes lx (scan_number_done ty (lex_get lx))"
proof -
  obtain lx1 where 1: "lex_unget (lex_get lx) = Inr lx1" "lx_decimal_point lx1 = lx_decimal_point lx" "lx_buffer lx1 = lx_buffer lx"
    using put_back_goes by blast
  have f: "goes lx (scan_float lx1)"
    by (rule goes_move [OF scan_float_goes 1(2)]) (use float_text [OF assms] 1 in simp)
  have u: "digits (lx_buffer lx)" if "ty = value_unsigned" using assms(2,3) that by (auto simp: int_part_def)
  have i: "\<exists>ds. lx_buffer lx = 0x2D # ds \<and> digits ds" if "ty = value_integer" using assms(2,3) that by (auto simp: int_part_def)
  consider "ty = value_unsigned" | "ty = value_integer" | "ty \<notin> {value_unsigned, value_integer}" by blast
  then show ?thesis
  proof cases
    case 1
    then show ?thesis using \<open>lex_unget (lex_get lx) = Inr lx1\<close> 1 f strtoull_length [OF u]
      \<open>lx_decimal_point lx1 = lx_decimal_point lx\<close> \<open>lx_buffer lx1 = lx_buffer lx\<close>
      by (auto simp: scan_number_done_def split: prod.split)
  next
    case 2
    then obtain ds where "lx_buffer lx = 0x2D # ds" "digits ds" using i by blast
    then show ?thesis using \<open>lex_unget (lex_get lx) = Inr lx1\<close> 2 f strtoll_length [of ds]
      \<open>lx_decimal_point lx1 = lx_decimal_point lx\<close> \<open>lx_buffer lx1 = lx_buffer lx\<close>
      by (auto simp: scan_number_done_def split: prod.split)
  next
    case 3
    then show ?thesis using \<open>lex_unget (lex_get lx) = Inr lx1\<close> f by (simp add: scan_number_done_def)
  qed
qed

lemma goto_done: "num_shape point st ty b \<Longrightarrow> num_goto st c = Some num_done \<Longrightarrow> st \<in> {num_zero, num_any1, num_decimal2, num_any2} \<and> num_type st ty = ty"
  by (cases st) (auto simp: num_goto_def num_goto_mantissa_def num_goto_exponent_def num_type_def Let_def split: if_splits)

lemma number_loop_goes:
  "point_ok (lx_decimal_point lx) \<Longrightarrow> num_shape (lx_decimal_point lx) st ty (lx_buffer lx) \<Longrightarrow> goes lx (number_loop st ty lx)"
proof (induction st ty lx rule: number_loop.induct)
  case (1 st ty lx)
  let ?g = "lex_get lx"
  show ?case
  proof (cases "num_goto st (lx_current ?g)")
    case None
    then show ?thesis by (subst number_loop.simps) (simp add: Let_def)
  next
    case (Some st')
    show ?thesis
    proof (cases "st' = num_done")
      case True
      then have "number_loop st ty lx = scan_number_done (num_type st ty) ?g" using Some by (subst number_loop.simps) (simp add: Let_def)
      then show ?thesis using goto_done [OF "1.prems"(2)] Some True scan_number_done_goes [OF "1.prems"] by simp
    next
      case False
      then obtain c where c: "lx_current ?g = Some c" using Some num_goto_current by blast
      let ?b = "if lx_current ?g = Some 0x2E then lx_decimal_point ?g else char_of_current (lx_current ?g)"
      have b: "?b = (if c = 0x2E then lx_decimal_point lx else c)" using c by (simp add: char_of_current_def)
      have "num_shape (lx_decimal_point lx) st' (num_type st ty) (lx_buffer (lex_add ?b ?g))"
        unfolding b using num_shape_step [OF "1.prems"(2)] Some False c by (simp add: lex_add_def)
      then have "goes (lex_add ?b ?g) (number_loop st' (num_type st ty) (lex_add ?b ?g))"
        using "1.IH" [OF refl refl Some False] "1.prems"(1) by simp
      moreover have "number_loop st ty lx = number_loop st' (num_type st ty) (lex_add ?b ?g)"
        using Some False by (subst number_loop.simps) (simp add: Let_def)
      ultimately show ?thesis using goes_move by fastforce
    qed
  qed
qed

lemma scan_number_goes:
  assumes "point_ok (lx_decimal_point lx)" and "lx_current lx = Some c" and "c = 0x2D \<or> is_digit c"
  shows "goes lx (scan_number lx)"
proof -
  have n: "num_shape p st value_unsigned [c]" if "st = (if c = 0x2D then num_minus else if c = 0x30 then num_zero else num_any1)" for p st
    using assms(3) that by (auto simp: int_part_def digits_def is_digit_def)
  have s: "lx_buffer (lex_add c (lex_reset lx)) = [c]" "lx_decimal_point (lex_add c (lex_reset lx)) = lx_decimal_point lx"
    by (simp_all add: lex_add_def lex_reset_def)
  have l: "goes lx (number_loop st value_unsigned (lex_add c (lex_reset lx)))"
    if "st = (if c = 0x2D then num_minus else if c = 0x30 then num_zero else num_any1)" for st
    by (rule goes_move [OF number_loop_goes s(2)]) (use assms(1) s n [OF that] in simp_all)
  have "lx_current (lex_reset lx) = Some c" using assms(2) by (simp add: lex_reset_def)
  then show ?thesis using l assms(3) by (auto simp: scan_number_def Let_def)
qed

lemma scan_token_goes:
  assumes "point_ok (lx_decimal_point lx)"
  shows "goes lx (scan_token lx)"
proof (cases "lx_current lx")
  case (Some c)
  have l: "goes lx (scan_literal (b # t) ty lx)" if "c = b" for b t ty
  proof -
    obtain r lx' where "literal_loop t ty lx = (r, lx')" by force
    then show ?thesis using Some that literal_loop_point [of t ty lx r lx'] by (simp add: scan_literal_def char_of_current_def)
  qed
  have s: "goes lx (scan_string lx)" if "c = 0x22"
    using Some that goes_move [OF string_loop_goes [of "lex_reset lx"]] by (simp add: scan_string_def Let_def lex_reset_def)
  show ?thesis using Some l s scan_number_goes [OF assms Some] by (auto simp: scan_token_def bytes_of_def)
qed (simp add: scan_token_def)

lemma scan_goes:
  assumes "point_ok (lx_decimal_point lx)"
  shows "goes lx (scan lx)"
proof -
  have b: "goes lx (if lx_total lx = 0 then skip_bom lx else Inr (True, lx))" by (simp add: skip_bom_goes)
  have c: "goes lx1 (skip_comments (skip_whitespace lx1))" for lx1 by (rule goes_move [OF skip_comments_goes]) simp
  show ?thesis unfolding scan_def
    by (rule goes_bind [OF b]) (use assms c scan_token_goes in \<open>auto intro!: goes_bind [OF c]\<close>)
qed

end
