(* ===== verification/TextSafe.thy ===== *)
theory TextSafe
  imports LexSafe
begin

text \<open>
  The parser on any bytes: it ends, with a value or one of two errors, and the stack of pointers it keeps through the
  builder of theory Sax stays valid.
\<close>

section \<open>The pointers of the builder\<close>

text \<open>
  Each open array or object, innermost first, is where its pointer says, and each lies inside the next.
\<close>

fun chain :: "bool list \<Rightarrow> jref list \<Rightarrow> json \<Rightarrow> bool" where
  "chain [] [] j = True"
| "chain (a # as) (r # rs) j = ((\<exists>c. json_get r j = Some c \<and> container_of a c)
     \<and> (rs \<noteq> [] \<longrightarrow> (\<exists>h. h \<noteq> [] \<and> r = hd rs @ h)) \<and> chain as rs j)"
| "chain _ _ _ = False"

lemma container_of_inside: "container_of a c \<Longrightarrow> h \<noteq> [] \<Longrightarrow> container_of a (json_set h w c)"
proof -
  assume c: "container_of a c" and "h \<noteq> []"
  then obtain x t where h: "h = x # t" by (cases h) auto
  show ?thesis
    using c unfolding h by (cases x; cases c) (simp_all add: container_of_def split: option.split)
qed

lemma chain_set:
  assumes "chain as rs j" and "rs \<noteq> [] \<Longrightarrow> \<exists>h. h \<noteq> [] \<and> q = hd rs @ h"
  shows "chain as rs (json_set q w j)"
  using assms
proof (induction as rs j rule: chain.induct)
  case (2 a as r rs j)
  obtain h where h: "h \<noteq> []" "q = r @ h" using "2.prems"(2) by auto
  obtain c where c: "json_get r j = Some c" "container_of a c" using "2.prems"(1) by auto
  have "json_get r (json_set q w j) = Some (json_set h w c)"
    using c(1) h(2) by (simp add: json_set_append json_get_set)
  moreover have "container_of a (json_set h w c)" by (rule container_of_inside [OF c(2) h(1)])
  moreover have "chain as rs (json_set q w j)"
  proof (rule "2.IH")
    assume "rs \<noteq> []"
    then obtain h' where "r = hd rs @ h'" using "2.prems"(1) by auto
    then show "\<exists>h. h \<noteq> [] \<and> q = hd rs @ h" using h by (intro exI [of _ "h' @ h"]) simp
  qed (use "2.prems"(1) in simp)
  ultimately show ?case using "2.prems"(1) by auto
qed auto

text \<open>Where a value may come, and where the member of an object has been named.\<close>

definition ready :: "bool list \<Rightarrow> dom \<Rightarrow> bool" where
  "ready states d \<longleftrightarrow> chain states (dm_stack d) (dm_root d) \<and> (case states of False # _ \<Rightarrow>
     (\<exists>k. dm_elem d = Some (hd (dm_stack d) @ [Key k]) \<and> json_get (hd (dm_stack d) @ [Key k]) (dm_root d) \<noteq> None) | _ \<Rightarrow> True)"

definition settled :: "bool list \<Rightarrow> dom \<Rightarrow> bool" where
  "settled states d \<longleftrightarrow> chain states (dm_stack d) (dm_root d)"

lemma chain_Cons:
  assumes "chain (a # as) rs j"
  obtains r rs' where "rs = r # rs'" "chain (a # as) (r # rs') j"
  using assms by (cases rs) auto

lemma ready_array: "ready (True # states) d = settled (True # states) d"
  by (simp add: ready_def settled_def)

lemma value_placed:
  assumes "ready states d"
  shows "\<exists>q d'. handle_value v d = Inr (q, d') \<and> settled states d' \<and> dm_stack d' = dm_stack d
    \<and> json_get q (dm_root d') = Some v \<and> (dm_stack d \<noteq> [] \<longrightarrow> (\<exists>h. h \<noteq> [] \<and> q = hd (dm_stack d) @ h))"
proof (cases states)
  case Nil
  then have "dm_stack d = []" using assms by (cases "dm_stack d") (auto simp: ready_def)
  then show ?thesis using Nil by (simp add: handle_value_def settled_def)
next
  case (Cons a as)
  then obtain r rs where st: "dm_stack d = r # rs" "chain (a # as) (r # rs) (dm_root d)"
    using assms chain_Cons unfolding ready_def by blast
  then obtain c where c: "json_get r (dm_root d) = Some c" "container_of a c" by auto
  show ?thesis
  proof (cases a)
    case True
    then obtain vs where vs: "c = JArray vs" using c(2) by (cases c) (auto simp: container_of_def)
    let ?root = "json_set r (JArray (vs @ [v])) (dm_root d)"
    have "chain as rs ?root" using st(2) by (intro chain_set) auto
    moreover have "json_get r ?root = Some (JArray (vs @ [v]))" using c(1) by (simp add: json_get_set)
    ultimately show ?thesis using st c(1) True Cons
      by (auto simp: handle_value_def vs settled_def container_of_def json_get_append)
  next
    case False
    then obtain es where es: "c = JObject es" using c(2) by (cases c) (auto simp: container_of_def)
    obtain k where k: "dm_elem d = Some (r @ [Key k])" "json_get (r @ [Key k]) (dm_root d) \<noteq> None"
      using assms Cons False st(1) by (auto simp: ready_def)
    have "chain (a # as) (r # rs) (json_set (r @ [Key k]) v (dm_root d))" by (rule chain_set [OF st(2)]) simp
    then show ?thesis using st(1) c(1) es k Cons by (auto simp: handle_value_def settled_def json_get_set)
  qed
qed

lemma dom_value_placed: "ready states d \<Longrightarrow> \<exists>d'. dom_value v d = Inr d' \<and> settled states d'"
  using value_placed [of states d v] by (auto simp: dom_value_def)

lemma container_pushed:
  assumes "ready states d" and "container_of a c"
  shows "\<exists>d'. dom_push c m npos d = Inr d' \<and> settled (a # states) d'"
  using value_placed [OF assms(1), of c] assms(2) by (auto simp: dom_push_def settled_def)

lemma key_placed:
  assumes "settled (False # states) d"
  shows "\<exists>d'. dom_key k d = Inr d' \<and> ready (False # states) d'"
proof -
  obtain r rs where st: "dm_stack d = r # rs" "chain (False # states) (r # rs) (dm_root d)"
    using assms chain_Cons unfolding settled_def by blast
  then obtain c where c: "json_get r (dm_root d) = Some c" "container_of False c" by auto
  then obtain es where es: "json_get r (dm_root d) = Some (JObject es)" by (cases c) (auto simp: container_of_def)
  let ?es = "obj_emplace k JNull es"
  let ?root = "json_set r (JObject ?es) (dm_root d)"
  have "chain states rs ?root" using st(2) by (intro chain_set) auto
  moreover have "json_get r ?root = Some (JObject ?es)" using es by (simp add: json_get_set)
  moreover obtain x where "map_of ?es k = Some x" using obj_emplace_there by fast
  ultimately show ?thesis using st es by (auto simp: dom_key_def ready_def container_of_def json_get_append)
qed

lemma container_ended: "settled (a # states) d \<Longrightarrow> \<exists>d'. dom_end d = Inr d' \<and> settled states d'"
  by (cases "dm_stack d") (auto simp: settled_def dom_end_def)

section \<open>The parser\<close>

text \<open>The two errors it can end with, where exceptions are not switched off.\<close>

definition text_error :: "bool \<Rightarrow> fault \<Rightarrow> bool" where
  "text_error allow e \<longleftrightarrow> allow \<and> (e = Uncaught (ParseError 101) \<or> e = Uncaught (OutOfRange 406))"

definition parser_ok :: "parser \<Rightarrow> bool" where
  "parser_ok p \<longleftrightarrow> point_ok (lx_decimal_point (pr_lexer p))"

lemma get_token_ok:
  assumes "parser_ok p"
  shows "\<exists>p'. get_token p = Inr p' \<and> parser_ok p'"
  using scan_goes [of "pr_lexer p"] assms by (auto simp: parser_ok_def goes_def get_token_def)

text \<open>What a part of the loop leaves for the next one.\<close>

fun move_ok :: "bool \<Rightarrow> (parse_move \<times> parse_state) res \<Rightarrow> bool" where
  "move_ok allow (Inl e) = text_error allow e"
| "move_ok allow (Inr (to_value, states, p, d)) = (parser_ok p \<and> ready states d)"
| "move_ok allow (Inr (to_evaluation, states, p, d)) = (parser_ok p \<and> settled states d)"
| "move_ok allow (Inr (stop_parse b, states, p, d)) = parser_ok p"

lemma parse_error_ok:
  "ex = ParseError 101 \<or> ex = OutOfRange 406 \<Longrightarrow> parser_ok p \<Longrightarrow> move_ok allow (dom_parse_error allow ex (states, p, d))"
  by (auto simp: dom_parse_error_def text_error_def)

lemma parse_member_ok:
  assumes "parser_ok p" and "settled (False # outer) d"
  shows "move_ok allow (parse_member allow states p d (False # outer))"
proof -
  obtain d1 where d1: "dom_key (lx_buffer (pr_lexer p)) d = Inr d1" "ready (False # outer) d1" using key_placed [OF assms(2)] by blast
  obtain p1 where p1: "get_token p = Inr p1" "parser_ok p1" using get_token_ok [OF assms(1)] by blast
  obtain p2 where p2: "get_token p1 = Inr p2" "parser_ok p2" using get_token_ok [OF p1(2)] by blast
  show ?thesis using assms(1) d1 p1 p2 by (simp add: parse_member_def parse_error_ok)
qed

lemma leaf_ok:
  assumes "parser_ok p" and "ready states d"
  shows "move_ok allow (rbind (dom_value v d) (\<lambda>d. Inr (to_evaluation, states, p, d)))"
  using dom_value_placed [OF assms(2), of v] assms(1) by auto

lemma parse_value_ok:
  assumes "parser_ok p" and "ready states d"
  shows "move_ok allow (parse_value allow states p d)"
proof -
  obtain p1 where p1: "get_token p = Inr p1" "parser_ok p1" using get_token_ok [OF assms(1)] by blast
  obtain d1 where d1: "start_object npos d = Inr d1" "settled (False # states) d1"
    using container_pushed [OF assms(2), of False "JObject []"] by (auto simp: start_object_def)
  obtain d2 where d2: "start_array npos d = Inr d2" "settled (True # states) d2"
    using container_pushed [OF assms(2), of True "JArray []"] by (auto simp: start_array_def)
  obtain d3 where d3: "dom_end d1 = Inr d3" "settled states d3" using container_ended [OF d1(2)] by blast
  obtain d4 where d4: "dom_end d2 = Inr d4" "settled states d4" using container_ended [OF d2(2)] by blast
  note leaf = leaf_ok [OF assms] and err = parse_error_ok [OF _ assms(1)]
  show ?thesis
  proof (cases "pr_last p")
    case begin_object
    then show ?thesis using p1 d1 d3 parse_member_ok [OF p1(2) d1(2)] by (simp add: parse_value_def)
  next
    case begin_array
    then show ?thesis using p1 d2 d4 by (simp add: parse_value_def ready_array)
  next
    case value_float
    then show ?thesis using leaf err by (simp add: parse_value_def Let_def)
  qed (use leaf err in \<open>simp_all add: parse_value_def\<close>)
qed

lemma parse_evaluation_ok:
  assumes "parser_ok p" and "settled states d"
  shows "move_ok allow (parse_evaluation allow states p d)"
proof (cases states)
  case Nil
  then show ?thesis using assms by (simp add: parse_evaluation_def)
next
  case (Cons a outer)
  obtain p1 where p1: "get_token p = Inr p1" "parser_ok p1" using get_token_ok [OF assms(1)] by blast
  obtain p2 where p2: "get_token p1 = Inr p2" "parser_ok p2" using get_token_ok [OF p1(2)] by blast
  obtain d1 where d1: "dom_end d = Inr d1" "settled outer d1" using container_ended assms(2) Cons by blast
  note err = parse_error_ok [OF disjI1 [OF refl] p1(2)]
  show ?thesis
  proof (cases a)
    case True
    then show ?thesis using Cons assms(2) p1 p2 d1 err by (simp add: parse_evaluation_def ready_array)
  next
    case False
    then show ?thesis using Cons assms(2) p1 p2 d1 err parse_member_ok [OF p2(2)] by (simp add: parse_evaluation_def)
  qed
qed

lemma parse_loop_ok:
  "parser_ok p \<Longrightarrow> if skip then settled states d else ready states d \<Longrightarrow>
    (case parse_loop allow skip (states, p, d) of Inl e \<Rightarrow> text_error allow e | Inr (b, states, p, d) \<Rightarrow> parser_ok p)"
proof (induction allow skip "(states, p, d)" arbitrary: states p d rule: parse_loop.induct)
  case (1 allow skip states p d)
  have f: "move_ok allow (parse_first allow skip (states, p, d))"
    using "1.prems" parse_value_ok by (simp add: parse_first_def)
  show ?case
  proof (cases "parse_first allow skip (states, p, d)")
    case (Inl e)
    then show ?thesis using f by (subst parse_loop.simps) simp
  next
    case (Inr r)
    then obtain m states1 p1 d1 where r: "parse_first allow skip (states, p, d) = Inr (m, states1, p1, d1)" by (cases r) auto
    show ?thesis
    proof (cases m)
      case to_value
      then have "parse_loop allow skip (states, p, d) = parse_loop allow False (states1, p1, d1)" using r by (subst parse_loop.simps) simp
      moreover have "parser_ok p1" "ready states1 d1" using f r to_value by simp_all
      ultimately show ?thesis using "1.hyps"(1) [OF r refl to_value] by simp
    next
      case (stop_parse b)
      then show ?thesis using r f by (subst parse_loop.simps) simp
    next
      case to_evaluation
      then have ok: "parser_ok p1" "settled states1 d1" using f r by simp_all
      have g: "move_ok allow (parse_second allow (states1, p1, d1))" using parse_evaluation_ok [OF ok] by (simp add: parse_second_def)
      have eq: "parse_loop allow skip (states, p, d) = rbind (parse_second allow (states1, p1, d1)) (\<lambda>(m, st). case m of
           to_value \<Rightarrow> parse_loop allow False st
         | stop_parse b \<Rightarrow> Inr (b, st)
         | to_evaluation \<Rightarrow> parse_loop allow True st)" using r to_evaluation by (subst parse_loop.simps) simp
      show ?thesis
      proof (cases "parse_second allow (states1, p1, d1)")
        case (Inl e)
        then show ?thesis using eq g by simp
      next
        case (Inr r2)
        then obtain m2 states2 p2 d2 where r2: "parse_second allow (states1, p1, d1) = Inr (m2, states2, p2, d2)" by (cases r2) auto
        then show ?thesis
          using eq g "1.hyps"(2) [OF r refl to_evaluation r2 refl] "1.hyps"(3) [OF r refl to_evaluation r2 refl] by (cases m2) auto
      qed
    qed
  qed
qed

section \<open>Property\<close>



end
