(* ===== verification/Msgpack.thy ===== *)
theory Msgpack
  imports Cbor
begin

unbundle bit_operations_syntax

text \<open>
  The MessagePack writer and reader of \<^verbatim>\<open>include/json/json.hpp\<close>. Every length is definite and has at most four
  bytes; a longer text, array or object is written without a head.
\<close>

section \<open>The writer\<close>

text \<open>A number that is not negative: in one byte, or behind a byte that tells its width.\<close>

definition write_msgpack_unsigned :: "u64 \<Rightarrow> bytes" where
  "write_msgpack_unsigned u =
     (if u < 128 then write_number_be (ucast u :: u8)
      else if u \<le> 0xFF then 0xCC # write_number_be (ucast u :: u8)
      else if u \<le> 0xFFFF then 0xCD # write_number_be (ucast u :: u16)
      else if u \<le> 0xFFFFFFFF then 0xCE # write_number_be (ucast u :: u32)
      else 0xCF # write_number_be u)"

definition write_msgpack_integer :: "u64 \<Rightarrow> bytes" where
  "write_msgpack_integer i =
     (if 0 \<le> sint i then write_msgpack_unsigned i
      else if - 32 \<le> sint i then write_number_be (ucast i :: u8)
      else if - (2 ^ 7) \<le> sint i then 0xD0 # write_number_be (ucast i :: u8)
      else if - (2 ^ 15) \<le> sint i then 0xD1 # write_number_be (ucast i :: u16)
      else if - (2 ^ 31) \<le> sint i then 0xD2 # write_number_be (ucast i :: u32)
      else 0xD3 # write_number_be i)"

definition write_msgpack_string :: "bytes \<Rightarrow> bytes" where
  "write_msgpack_string s =
     (let N = length s
      in (if N \<le> 31 then write_number_be (0xA0 OR of_nat N :: u8)
          else if N \<le> 0xFF then 0xD9 # write_number_be (of_nat N :: u8)
          else if N \<le> 0xFFFF then 0xDA # write_number_be (of_nat N :: u16)
          else if N \<le> 0xFFFFFFFF then 0xDB # write_number_be (of_nat N :: u32)
          else []) @ s)"

definition msgpack_array_head :: "nat \<Rightarrow> bytes" where
  "msgpack_array_head N =
     (if N \<le> 15 then write_number_be (0x90 OR of_nat N :: u8)
      else if N \<le> 0xFFFF then 0xDC # write_number_be (of_nat N :: u16)
      else if N \<le> 0xFFFFFFFF then 0xDD # write_number_be (of_nat N :: u32)
      else [])"

definition msgpack_object_head :: "nat \<Rightarrow> bytes" where
  "msgpack_object_head N =
     (if N \<le> 15 then write_number_be (0x80 OR (of_nat N AND 0xF) :: u8)
      else if N \<le> 0xFFFF then 0xDE # write_number_be (of_nat N :: u16)
      else if N \<le> 0xFFFFFFFF then 0xDF # write_number_be (of_nat N :: u32)
      else [])"

text \<open>The types with a subtype have their own control bytes, five of them for fixed lengths.\<close>

definition fixext_type :: "nat \<Rightarrow> u8 option" where
  "fixext_type N = (if N = 1 then Some 0xD4 else if N = 2 then Some 0xD5 else if N = 4 then Some 0xD6
     else if N = 8 then Some 0xD7 else if N = 16 then Some 0xD8 else None)"

definition write_msgpack_binary :: "bytes \<Rightarrow> u8 option \<Rightarrow> bytes" where
  "write_msgpack_binary b subtype =
     (let N = length b; use_ext = (subtype \<noteq> None)
      in (if N \<le> 0xFF then
            (case if use_ext then fixext_type N else None of
               Some output_type \<Rightarrow> [output_type]
             | None \<Rightarrow> (if use_ext then 0xC7 else 0xC4) # write_number_be (of_nat N :: u8))
          else if N \<le> 0xFFFF then (if use_ext then 0xC8 else 0xC5) # write_number_be (of_nat N :: u16)
          else if N \<le> 0xFFFFFFFF then (if use_ext then 0xC9 else 0xC6) # write_number_be (of_nat N :: u32)
          else [])
         @ (case subtype of None \<Rightarrow> [] | Some t \<Rightarrow> write_number_be t) @ b)"

fun write_msgpack :: "json \<Rightarrow> bytes"
  and write_msgpack_array :: "json list \<Rightarrow> bytes"
  and write_msgpack_object :: "(bytes \<times> json) list \<Rightarrow> bytes" where
  "write_msgpack JNull = [0xC0]"
| "write_msgpack (JBoolean b) = [if b then 0xC3 else 0xC2]"
| "write_msgpack (JInteger i) = write_msgpack_integer i"
| "write_msgpack (JUnsigned u) = write_msgpack_unsigned u"
| "write_msgpack (JFloat d) = write_compact_float d Fmt_msgpack"
| "write_msgpack (JString s) = write_msgpack_string s"
| "write_msgpack (JArray vs) = msgpack_array_head (length vs) @ write_msgpack_array vs"
| "write_msgpack (JBinary b subtype) = write_msgpack_binary b subtype"
| "write_msgpack (JObject es) = msgpack_object_head (length es) @ write_msgpack_object es"
| "write_msgpack JDiscarded = []"
| "write_msgpack_array [] = []"
| "write_msgpack_array (v # vs) = write_msgpack v @ write_msgpack_array vs"
| "write_msgpack_object [] = []"
| "write_msgpack_object ((k, v) # es) = write_msgpack_string k @ write_msgpack v @ write_msgpack_object es"

definition to_msgpack :: "json \<Rightarrow> bytes" where
  "to_msgpack j = write_msgpack j"

section \<open>The reader\<close>

definition get_msgpack_string :: "u8 \<Rightarrow> bytes \<Rightarrow> bytes rd" where
  "get_msgpack_string b i =
     (if 0xA0 \<le> b \<and> b \<le> 0xBF then get_string (unat (b AND 0x1F)) i
      else if b = 0xD9 then pbind (get_number_be i) (\<lambda>(len :: u8) i. get_string (unat len) i)
      else if b = 0xDA then pbind (get_number_be i) (\<lambda>(len :: u16) i. get_string (unat len) i)
      else if b = 0xDB then pbind (get_number_be i) (\<lambda>(len :: u32) i. get_string (unat len) i)
      else Inl (Uncaught (ParseError 113)))"

text \<open>A subtype and that many bytes.\<close>

definition get_msgpack_ext :: "nat \<Rightarrow> bytes \<Rightarrow> (bytes \<times> u8 option) rd" where
  "get_msgpack_ext len i =
     pbind (get_number_be i) (\<lambda>(subtype :: u8) i. pbind (get_string len i) (\<lambda>result i. Inr (Some ((result, Some subtype), i))))"

definition get_msgpack_bin :: "nat \<Rightarrow> bytes \<Rightarrow> (bytes \<times> u8 option) rd" where
  "get_msgpack_bin len i = pbind (get_string len i) (\<lambda>result i. Inr (Some ((result, None), i)))"

definition get_msgpack_binary :: "u8 \<Rightarrow> bytes \<Rightarrow> (bytes \<times> u8 option) rd" where
  "get_msgpack_binary b i =
     (if b = 0xC4 then pbind (get_number_be i) (\<lambda>(len :: u8) i. get_msgpack_bin (unat len) i)
      else if b = 0xC5 then pbind (get_number_be i) (\<lambda>(len :: u16) i. get_msgpack_bin (unat len) i)
      else if b = 0xC6 then pbind (get_number_be i) (\<lambda>(len :: u32) i. get_msgpack_bin (unat len) i)
      else if b = 0xC7 then pbind (get_number_be i) (\<lambda>(len :: u8) i. get_msgpack_ext (unat len) i)
      else if b = 0xC8 then pbind (get_number_be i) (\<lambda>(len :: u16) i. get_msgpack_ext (unat len) i)
      else if b = 0xC9 then pbind (get_number_be i) (\<lambda>(len :: u32) i. get_msgpack_ext (unat len) i)
      else if b = 0xD4 then get_msgpack_ext 1 i
      else if b = 0xD5 then get_msgpack_ext 2 i
      else if b = 0xD6 then get_msgpack_ext 4 i
      else if b = 0xD7 then get_msgpack_ext 8 i
      else if b = 0xD8 then get_msgpack_ext 16 i
      else Inr None)"

text \<open>Numbers of all widths, and the values without parts.\<close>

definition msgpack_number :: "u8 \<Rightarrow> bytes \<Rightarrow> json rd" where
  "msgpack_number b i =
     (if b = 0xCA then pbind (get_number_be i) (\<lambda>f i. Inr (Some (JFloat (f32_to_f64 f), i)))
      else if b = 0xCB then pbind (get_number_be i) (\<lambda>d i. Inr (Some (JFloat d, i)))
      else if b = 0xCC then pbind (get_number_be i) (\<lambda>(n :: u8) i. Inr (Some (JUnsigned (ucast n), i)))
      else if b = 0xCD then pbind (get_number_be i) (\<lambda>(n :: u16) i. Inr (Some (JUnsigned (ucast n), i)))
      else if b = 0xCE then pbind (get_number_be i) (\<lambda>(n :: u32) i. Inr (Some (JUnsigned (ucast n), i)))
      else if b = 0xCF then pbind (get_number_be i) (\<lambda>n i. Inr (Some (JUnsigned n, i)))
      else if b = 0xD0 then pbind (get_number_be i) (\<lambda>(n :: u8) i. Inr (Some (JInteger (scast n), i)))
      else if b = 0xD1 then pbind (get_number_be i) (\<lambda>(n :: u16) i. Inr (Some (JInteger (scast n), i)))
      else if b = 0xD2 then pbind (get_number_be i) (\<lambda>(n :: u32) i. Inr (Some (JInteger (scast n), i)))
      else pbind (get_number_be i) (\<lambda>n i. Inr (Some (JInteger n, i))))"

definition msgpack_scalar :: "u8 \<Rightarrow> bytes \<Rightarrow> json rd" where
  "msgpack_scalar b i =
     (if b \<le> 0x7F then Inr (Some (JUnsigned (ucast b), i))
      else if 0xA0 \<le> b \<and> b \<le> 0xBF \<or> 0xD9 \<le> b \<and> b \<le> 0xDB then
        pbind (get_msgpack_string b i) (\<lambda>s i. Inr (Some (JString s, i)))
      else if b = 0xC0 then Inr (Some (JNull, i))
      else if b = 0xC2 then Inr (Some (JBoolean False, i))
      else if b = 0xC3 then Inr (Some (JBoolean True, i))
      else if 0xC4 \<le> b \<and> b \<le> 0xC9 \<or> 0xD4 \<le> b \<and> b \<le> 0xD8 then
        pbind (get_msgpack_binary b i) (\<lambda>(r, st) i. Inr (Some (JBinary r st, i)))
      else if 0xCA \<le> b \<and> b \<le> 0xD3 then msgpack_number b i
      else if 0xE0 \<le> b then Inr (Some (JInteger (scast b), i))
      else Inl (Uncaught (ParseError 112)))"

text \<open>
  The reader proper, on the control byte already read; the number bounds the control bytes still to be read.
  The lengths have at most 32 bits, so \<^verbatim>\<open>start_array\<close> and \<^verbatim>\<open>start_object\<close> never refuse one.
\<close>

function (sequential) parse_msgpack_internal :: "nat \<Rightarrow> u8 \<Rightarrow> bytes \<Rightarrow> json rd"
  and get_msgpack_array :: "nat \<Rightarrow> nat \<Rightarrow> json list \<Rightarrow> bytes \<Rightarrow> json rd"
  and get_msgpack_object :: "nat \<Rightarrow> nat \<Rightarrow> json \<Rightarrow> bytes \<Rightarrow> json rd" where
  "parse_msgpack_internal n b i =
     (if 0x80 \<le> b \<and> b \<le> 0x8F then get_msgpack_object n (unat (b AND 0x0F)) (JObject []) i
      else if 0x90 \<le> b \<and> b \<le> 0x9F then get_msgpack_array n (unat (b AND 0x0F)) [] i
      else if b = 0xDC then pbind (get_number_be i) (\<lambda>(len :: u16) i. get_msgpack_array n (unat len) [] i)
      else if b = 0xDD then pbind (get_number_be i) (\<lambda>(len :: u32) i. get_msgpack_array n (unat len) [] i)
      else if b = 0xDE then pbind (get_number_be i) (\<lambda>(len :: u16) i. get_msgpack_object n (unat len) (JObject []) i)
      else if b = 0xDF then pbind (get_number_be i) (\<lambda>(len :: u32) i. get_msgpack_object n (unat len) (JObject []) i)
      else msgpack_scalar b i)"
| "get_msgpack_array 0 len vs i = (if len = 0 then Inr (Some (JArray vs, i)) else Inl (UB StackOverflow))"
| "get_msgpack_array (Suc n) len vs i =
     (if len = 0 then Inr (Some (JArray vs, i))
      else pbind (get_byte i) (\<lambda>b i. pbind (parse_msgpack_internal n b i) (\<lambda>v i.
           get_msgpack_array n (len - 1) (vs @ [v]) i)))"
| "get_msgpack_object 0 len obj i = (if len = 0 then Inr (Some (obj, i)) else Inl (UB StackOverflow))"
| "get_msgpack_object (Suc n) len obj i =
     (if len = 0 then Inr (Some (obj, i))
      else pbind (get_byte i) (\<lambda>b i. pbind (get_msgpack_string b i) (\<lambda>key i.
           pbind (get_byte i) (\<lambda>b i. pbind (parse_msgpack_internal n b i) (\<lambda>v i.
           get_msgpack_object n (len - 1) (dom_put obj key v) i)))))"
  by pat_completeness auto

termination
  by (relation "measures [\<lambda>x. case x of Inl (n, b, i) \<Rightarrow> n | Inr (Inl (n, len, vs, i)) \<Rightarrow> n
        | Inr (Inr (n, len, obj, i)) \<Rightarrow> n, \<lambda>x. case x of Inl _ \<Rightarrow> 1 | _ \<Rightarrow> 0]") simp_all

definition msgpack_sax_parse :: "bytes \<Rightarrow> json option res" where
  "msgpack_sax_parse i =
     rbind (pbind (get_byte i) (\<lambda>b i'. parse_msgpack_internal (length i) b i')) (\<lambda>r. case r of
         None \<Rightarrow> Inr None
       | Some (j, []) \<Rightarrow> Inr (Some j)
       | Some (j, _ # _) \<Rightarrow> Inl (Uncaught (ParseError 110)))"

definition from_msgpack :: "bytes \<Rightarrow> json res" where
  "from_msgpack i = rbind (msgpack_sax_parse i) (\<lambda>res. Inr (case res of None \<Rightarrow> JDiscarded | Some j \<Rightarrow> j))"

section \<open>Numbers\<close>

text \<open>Cutting a number off at a width it fits, and reading it back.\<close>

lemma ucast_narrow:
  fixes u :: u64
  assumes "unat u < 2 ^ LENGTH('w)"
  shows "ucast (ucast u :: 'w :: len word) = u"
proof (rule word_unat_eq_iff [THEN iffD2])
  have "unat u < 2 ^ 64" using unsigned_less [of u] by simp
  then show "unat (ucast (ucast u :: 'w word) :: u64) = unat u"
    using assms by (simp add: unsigned_ucast_eq unsigned_take_bit_eq take_bit_nat_eq_self)
qed

lemma scast_narrow:
  fixes i :: u64
  assumes "- (2 ^ (LENGTH('w) - 1)) \<le> sint i" and "sint i < 2 ^ (LENGTH('w) - 1)" and "LENGTH('w) \<le> 64"
  shows "scast (ucast i :: 'w :: len word) = i"
proof (rule signed_word_eqI)
  have w: "LENGTH('w) - Suc 0 \<le> 63" using assms(3) by simp
  have "sint (ucast i :: 'w word) = signed_take_bit (LENGTH('w) - 1) (sint i)"
    by (simp add: sint_uint unsigned_ucast_eq signed_take_bit_take_bit signed_take_bit_signed_take_bit min_absorb1 [OF w])
  also have "\<dots> = sint i" using assms(1,2) by (simp add: signed_take_bit_int_eq_self)
  finally have u: "sint (ucast i :: 'w word) = sint i" .
  have "sint i < 2 ^ 63" "- (2 ^ 63) \<le> sint i" using sint_lt [of i] sint_ge [of i] by simp_all
  then show "sint (scast (ucast i :: 'w word) :: u64) = sint i"
    unfolding signed_scast_eq u by (simp add: signed_take_bit_int_eq_self)
qed

section \<open>The round trip\<close>

text \<open>MessagePack only loses the difference between a signed number that is not negative and an unsigned one.\<close>

fun msgpack_norm :: "json \<Rightarrow> json" where
  "msgpack_norm (JObject es) = JObject (map (\<lambda>(k, v). (k, msgpack_norm v)) es)"
| "msgpack_norm (JArray vs) = JArray (map msgpack_norm vs)"
| "msgpack_norm (JInteger i) = (if 0 \<le> sint i then JUnsigned i else JInteger i)"
| "msgpack_norm j = j"

fun msgpack_ok :: "json \<Rightarrow> bool" where
  "msgpack_ok (JObject es) = (keys_ascend es \<and> length es < 2 ^ 32 \<and> (\<forall>(k, v) \<in> set es. length k < 2 ^ 32 \<and> msgpack_ok v))"
| "msgpack_ok (JArray vs) = (length vs < 2 ^ 32 \<and> (\<forall>v \<in> set vs. msgpack_ok v))"
| "msgpack_ok (JString s) = (length s < 2 ^ 32)"
| "msgpack_ok (JBinary b st) = (length b < 2 ^ 32)"
| "msgpack_ok JDiscarded = False"
| "msgpack_ok j = True"

definition msgpack_reads :: "json \<Rightarrow> bytes \<Rightarrow> bool" where
  "msgpack_reads j bs \<longleftrightarrow> (\<exists>b t. bs = b # t \<and>
     (\<forall>n i. length t \<le> n \<longrightarrow> parse_msgpack_internal n b (t @ i) = Inr (Some (msgpack_norm j, i))))"

declare parse_msgpack_internal.simps [simp del]

lemma msgpack_scalarI:
  assumes "\<not> (0x80 \<le> b \<and> b \<le> 0x9F)" and "\<not> (0xDC \<le> b \<and> b \<le> 0xDF)"
    and "\<And>i. msgpack_scalar b (t @ i) = Inr (Some (msgpack_norm j, i))"
  shows "msgpack_reads j (b # t)"
proof -
  have "\<not> (0x80 \<le> b \<and> b \<le> 0x8F)" "\<not> (0x90 \<le> b \<and> b \<le> 0x9F)"
    "b \<noteq> 0xDC" "b \<noteq> 0xDD" "b \<noteq> 0xDE" "b \<noteq> 0xDF"
    using assms(1,2) order_trans [of b "0x8F" "0x9F"] order_trans [of "0x80" "0x90" b] by auto
  then show ?thesis unfolding msgpack_reads_def parse_msgpack_internal.simps using assms(3) by auto
qed

text \<open>One lemma per kind of value.\<close>

lemma fixnum_low:
  assumes "b \<le> (0x7F :: u8)"
  shows "\<not> (0x80 \<le> b \<and> b \<le> 0x9F)" "\<not> (0xDC \<le> b \<and> b \<le> 0xDF)" "msgpack_scalar b i = Inr (Some (JUnsigned (ucast b), i))"
  using assms by (simp_all add: word_le_nat_alt msgpack_scalar_def)

lemma fixnum_high:
  assumes "0xE0 \<le> (b :: u8)"
  shows "\<not> (0x80 \<le> b \<and> b \<le> 0x9F)" "\<not> (0xDC \<le> b \<and> b \<le> 0xDF)" "msgpack_scalar b i = Inr (Some (JInteger (scast b), i))"
proof -
  have u: "0xE0 \<le> unat b" using assms by (simp add: word_le_nat_alt)
  then have n: "\<not> b \<le> k" if "unat k < 0xE0" for k using that by (simp add: word_le_nat_alt)
  then have ne: "b \<noteq> k" if "unat k < 0xE0" for k using that by blast
  show "\<not> (0x80 \<le> b \<and> b \<le> 0x9F)" "\<not> (0xDC \<le> b \<and> b \<le> 0xDF)" using n [of "0x9F"] n [of "0xDF"] by simp_all
  show "msgpack_scalar b i = Inr (Some (JInteger (scast b), i))"
    unfolding msgpack_scalar_def using assms n [of "0x7F"] n [of "0xBF"] n [of "0xDB"] ne [of "0xC0"] ne [of "0xC2"] ne [of "0xC3"]
      n [of "0xC9"] n [of "0xD8"] n [of "0xD3"] by simp
qed

lemma msgpack_numberI:
  assumes "b \<in> {0xCA, 0xCB, 0xCC, 0xCD, 0xCE, 0xCF, 0xD0, 0xD1, 0xD2, 0xD3}"
    and "\<And>i. msgpack_number b (t @ i) = Inr (Some (msgpack_norm j, i))"
  shows "msgpack_reads j (b # t)"
proof (rule msgpack_scalarI)
  have "msgpack_scalar b i = msgpack_number b i" for i
    using assms(1) by (elim insertE emptyE; simp add: msgpack_scalar_def)
  then show "msgpack_scalar b (t @ i) = Inr (Some (msgpack_norm j, i))" for i using assms(2) by simp
  show "\<not> (0x80 \<le> b \<and> b \<le> 0x9F)" "\<not> (0xDC \<le> b \<and> b \<le> 0xDF)"
    using assms(1) by (elim insertE emptyE; simp)+
qed

lemma msgpack_reads_unsigned:
  assumes "msgpack_norm j = JUnsigned u"
  shows "msgpack_reads j (write_msgpack_unsigned u)"
proof -
  have r: "msgpack_reads j (b # t)" if "b \<in> {0xCA, 0xCB, 0xCC, 0xCD, 0xCE, 0xCF, 0xD0, 0xD1, 0xD2, 0xD3}"
    "\<And>i. msgpack_number b (t @ i) = Inr (Some (JUnsigned u, i))" for b t
    by (rule msgpack_numberI [OF that(1)]) (simp add: that(2) assms)
  consider "unat u < 128" | "128 \<le> unat u" "unat u \<le> 0xFF" | "0xFF < unat u" "unat u \<le> 0xFFFF"
    | "0xFFFF < unat u" "unat u \<le> 0xFFFFFFFF" | "0xFFFFFFFF < unat u" by linarith
  then show ?thesis
  proof cases
    case 1
    have c: "ucast (ucast u :: u8) = u" by (rule ucast_narrow) (use 1 in simp)
    have "unat (ucast u :: u8) = unat u"
      using 1 by (simp add: unsigned_ucast_eq unsigned_take_bit_eq take_bit_nat_eq_self)
    then have "(ucast u :: u8) \<le> 0x7F" using 1 by (simp add: word_le_nat_alt)
    then have "msgpack_reads j [ucast u]"
      using assms c fixnum_low by (intro msgpack_scalarI) simp_all
    then show ?thesis using 1 by (simp add: write_msgpack_unsigned_def write_number_be_8 word_less_nat_alt)
  next
    case 2
    have "ucast (ucast u :: u8) = u" by (rule ucast_narrow) (use 2 in simp)
    then show ?thesis using 2 r [of "0xCC"]
      by (simp add: write_msgpack_unsigned_def word_less_nat_alt word_le_nat_alt msgpack_number_def)
  next
    case 3
    have "ucast (ucast u :: u16) = u" by (rule ucast_narrow) (use 3 in simp)
    then show ?thesis using 3 r [of "0xCD"]
      by (simp add: write_msgpack_unsigned_def word_less_nat_alt word_le_nat_alt msgpack_number_def)
  next
    case 4
    have "ucast (ucast u :: u32) = u" by (rule ucast_narrow) (use 4 in simp)
    then show ?thesis using 4 r [of "0xCE"]
      by (simp add: write_msgpack_unsigned_def word_less_nat_alt word_le_nat_alt msgpack_number_def)
  next
    case 5
    then show ?thesis using r [of "0xCF"]
      by (simp add: write_msgpack_unsigned_def word_less_nat_alt word_le_nat_alt msgpack_number_def)
  qed
qed

lemma negative_fixnum: "- 32 \<le> sint (b :: u8) \<Longrightarrow> sint b < 0 \<Longrightarrow> 0xE0 \<le> b"
proof -
  assume b: "- 32 \<le> sint b" "sint b < 0"
  have "uint b = sint b mod 256" using uint_sint [of b] by (simp add: take_bit_eq_mod)
  also have "\<dots> = sint b + 256" using b by presburger
  finally show ?thesis using b by (simp add: word_le_def)
qed

lemma msgpack_reads_integer: "msgpack_reads (JInteger i) (write_msgpack_integer i)"
proof -
  have r: "msgpack_reads (JInteger i) (b # t)" if "sint i < 0" "b \<in> {0xCA, 0xCB, 0xCC, 0xCD, 0xCE, 0xCF, 0xD0, 0xD1, 0xD2, 0xD3}"
    "\<And>r. msgpack_number b (t @ r) = Inr (Some (JInteger i, r))" for b t
    by (rule msgpack_numberI) (use that in simp_all)
  consider "0 \<le> sint i" | "- 32 \<le> sint i" "sint i < 0" | "- (2 ^ 7) \<le> sint i" "sint i < - 32"
    | "- (2 ^ 15) \<le> sint i" "sint i < - (2 ^ 7)" | "- (2 ^ 31) \<le> sint i" "sint i < - (2 ^ 15)" | "sint i < - (2 ^ 31)"
    by linarith
  then show ?thesis
  proof cases
    case 1
    then show ?thesis using msgpack_reads_unsigned [of "JInteger i" i] by (simp add: write_msgpack_integer_def)
  next
    case 2
    have c: "scast (ucast i :: u8) = i" by (rule scast_narrow) (use 2 in simp_all)
    have "sint (scast (ucast i :: u8) :: u64) = sint (ucast i :: u8)"
      using sint_lt [of "ucast i :: u8"] sint_ge [of "ucast i :: u8"] unfolding signed_scast_eq
      by (intro signed_take_bit_int_eq_self) simp_all
    then have e: "0xE0 \<le> (ucast i :: u8)" using 2 by (intro negative_fixnum) (simp_all add: c)
    have "msgpack_reads (JInteger i) [ucast i]"
      using 2 c fixnum_high [OF e] by (intro msgpack_scalarI) simp_all
    then show ?thesis using 2 by (simp add: write_msgpack_integer_def write_number_be_8)
  next
    case 3
    have "scast (ucast i :: u8) = i" by (rule scast_narrow) (use 3 in simp_all)
    then show ?thesis using 3 r [of "0xD0"] by (simp add: write_msgpack_integer_def msgpack_number_def)
  next
    case 4
    have "scast (ucast i :: u16) = i" by (rule scast_narrow) (use 4 in simp_all)
    then show ?thesis using 4 r [of "0xD1"] by (simp add: write_msgpack_integer_def msgpack_number_def)
  next
    case 5
    have "scast (ucast i :: u32) = i" by (rule scast_narrow) (use 5 in simp_all)
    then show ?thesis using 5 r [of "0xD2"] by (simp add: write_msgpack_integer_def msgpack_number_def)
  next
    case 6
    then show ?thesis using r [of "0xD3"] by (simp add: write_msgpack_integer_def msgpack_number_def)
  qed
qed

lemma msgpack_reads_float: "msgpack_reads (JFloat d) (write_compact_float d Fmt_msgpack)"
proof -
  have "msgpack_reads (JFloat d) (b # t)" if "b \<in> {0xCA, 0xCB, 0xCC, 0xCD, 0xCE, 0xCF, 0xD0, 0xD1, 0xD2, 0xD3}"
    "\<And>i. msgpack_number b (t @ i) = Inr (Some (JFloat d, i))" for b t
    by (rule msgpack_numberI [OF that(1)]) (simp add: that(2))
  then show ?thesis by (auto simp: write_compact_float_def float_prefix_def Let_def msgpack_number_def)
qed

text \<open>The heads with the length in the control byte itself.\<close>

lemma small_heads:
  "N \<le> 31 \<Longrightarrow> 0xA0 \<le> (0xA0 OR of_nat N :: u8) \<and> (0xA0 OR of_nat N :: u8) \<le> 0xBF \<and> unat ((0xA0 OR of_nat N :: u8) AND 0x1F) = N"
  "N \<le> 15 \<Longrightarrow> 0x90 \<le> (0x90 OR of_nat N :: u8) \<and> (0x90 OR of_nat N :: u8) \<le> 0x9F \<and> unat ((0x90 OR of_nat N :: u8) AND 0x0F) = N"
  "N \<le> 15 \<Longrightarrow> 0x80 \<le> (0x80 OR (of_nat N AND 0xF) :: u8) \<and> (0x80 OR (of_nat N AND 0xF) :: u8) \<le> 0x8F
     \<and> unat ((0x80 OR (of_nat N AND 0xF) :: u8) AND 0x0F) = N"
proof -
  have "\<forall>N \<in> set [0..<32]. 0xA0 \<le> (0xA0 OR of_nat N :: u8) \<and> (0xA0 OR of_nat N :: u8) \<le> 0xBF
      \<and> unat ((0xA0 OR of_nat N :: u8) AND 0x1F) = N" by code_simp
  moreover assume "N \<le> 31"
  ultimately show "0xA0 \<le> (0xA0 OR of_nat N :: u8) \<and> (0xA0 OR of_nat N :: u8) \<le> 0xBF \<and> unat ((0xA0 OR of_nat N :: u8) AND 0x1F) = N"
    by simp
next
  have "\<forall>N \<in> set [0..<16]. 0x90 \<le> (0x90 OR of_nat N :: u8) \<and> (0x90 OR of_nat N :: u8) \<le> 0x9F
      \<and> unat ((0x90 OR of_nat N :: u8) AND 0x0F) = N" by code_simp
  moreover assume "N \<le> 15"
  ultimately show "0x90 \<le> (0x90 OR of_nat N :: u8) \<and> (0x90 OR of_nat N :: u8) \<le> 0x9F \<and> unat ((0x90 OR of_nat N :: u8) AND 0x0F) = N"
    by simp
next
  have "\<forall>N \<in> set [0..<16]. 0x80 \<le> (0x80 OR (of_nat N AND 0xF) :: u8) \<and> (0x80 OR (of_nat N AND 0xF) :: u8) \<le> 0x8F
      \<and> unat ((0x80 OR (of_nat N AND 0xF) :: u8) AND 0x0F) = N" by code_simp
  moreover assume "N \<le> 15"
  ultimately show "0x80 \<le> (0x80 OR (of_nat N AND 0xF) :: u8) \<and> (0x80 OR (of_nat N AND 0xF) :: u8) \<le> 0x8F
     \<and> unat ((0x80 OR (of_nat N AND 0xF) :: u8) AND 0x0F) = N" by simp
qed

lemma unat_of_nat_widths:
  "N \<le> 0xFF \<Longrightarrow> unat (of_nat N :: u8) = N" "N \<le> 0xFFFF \<Longrightarrow> unat (of_nat N :: u16) = N"
  "N \<le> 0xFFFFFFFF \<Longrightarrow> unat (of_nat N :: u32) = N"
  by (simp_all add: unat_of_nat)

lemma msgpack_array_head_reads:
  assumes "N < 2 ^ 32"
  shows "\<exists>b t. msgpack_array_head N = b # t \<and> (\<forall>n r. parse_msgpack_internal n b (t @ r) = get_msgpack_array n N [] r)"
proof -
  consider "N \<le> 15" | "15 < N" "N \<le> 0xFFFF" | "0xFFFF < N" "N \<le> 0xFFFFFFFF" using assms by fastforce
  then show ?thesis
  proof cases
    case 1
    have "0x90 \<le> x \<Longrightarrow> \<not> x \<le> 0x8F" for x :: u8 by (simp add: word_le_nat_alt)
    then have "\<not> (0x90 OR of_nat N :: u8) \<le> 0x8F" using small_heads(2) [OF 1] by blast
    then show ?thesis using 1 small_heads(2) [OF 1]
      by (simp add: msgpack_array_head_def write_number_be_8 parse_msgpack_internal.simps)
  next
    case 2
    then show ?thesis by (simp add: msgpack_array_head_def parse_msgpack_internal.simps unat_of_nat_widths)
  next
    case 3
    then show ?thesis by (simp add: msgpack_array_head_def parse_msgpack_internal.simps unat_of_nat_widths)
  qed
qed

lemma msgpack_object_head_reads:
  assumes "N < 2 ^ 32"
  shows "\<exists>b t. msgpack_object_head N = b # t
    \<and> (\<forall>n r. parse_msgpack_internal n b (t @ r) = get_msgpack_object n N (JObject []) r)"
proof -
  consider "N \<le> 15" | "15 < N" "N \<le> 0xFFFF" | "0xFFFF < N" "N \<le> 0xFFFFFFFF" using assms by fastforce
  then show ?thesis
  proof cases
    case 1
    then show ?thesis using small_heads(3) [OF 1]
      by (simp add: msgpack_object_head_def write_number_be_8 parse_msgpack_internal.simps)
  next
    case 2
    then show ?thesis by (simp add: msgpack_object_head_def parse_msgpack_internal.simps unat_of_nat_widths)
  next
    case 3
    then show ?thesis by (simp add: msgpack_object_head_def parse_msgpack_internal.simps unat_of_nat_widths)
  qed
qed

lemma msgpack_string_reads:
  assumes "length s < 2 ^ 32"
  shows "\<exists>b t. write_msgpack_string s = b # t \<and> (0xA0 \<le> b \<and> b \<le> 0xBF \<or> b \<in> {0xD9, 0xDA, 0xDB})
    \<and> (\<forall>i. get_msgpack_string b (t @ i) = Inr (Some (s, i)))"
proof -
  consider "length s \<le> 31" | "31 < length s" "length s \<le> 0xFF" | "0xFF < length s" "length s \<le> 0xFFFF"
    | "0xFFFF < length s" "length s \<le> 0xFFFFFFFF" using assms by fastforce
  then show ?thesis
  proof cases
    case 1
    then show ?thesis using small_heads(1) [OF 1]
      by (simp add: write_msgpack_string_def write_number_be_8 get_msgpack_string_def get_string_append Let_def)
  next
    case 2
    then show ?thesis
      by (simp add: write_msgpack_string_def get_msgpack_string_def get_string_append Let_def unat_of_nat_widths)
  next
    case 3
    then show ?thesis
      by (simp add: write_msgpack_string_def get_msgpack_string_def get_string_append Let_def unat_of_nat_widths)
  next
    case 4
    then show ?thesis
      by (simp add: write_msgpack_string_def get_msgpack_string_def get_string_append Let_def unat_of_nat_widths)
  qed
qed

lemma msgpack_reads_string:
  assumes "length s < 2 ^ 32"
  shows "msgpack_reads (JString s) (write_msgpack_string s)"
proof -
  obtain b t where b: "write_msgpack_string s = b # t" "0xA0 \<le> b \<and> b \<le> 0xBF \<or> b \<in> {0xD9, 0xDA, 0xDB}"
    "\<And>i. get_msgpack_string b (t @ i) = Inr (Some (s, i))" using msgpack_string_reads [OF assms] by blast
  have u: "0xA0 \<le> unat b \<and> unat b \<le> 0xBF \<or> 0xD9 \<le> unat b \<and> unat b \<le> 0xDB"
    using b(2) by (auto simp: word_le_nat_alt)
  have "msgpack_reads (JString s) (b # t)"
  proof (rule msgpack_scalarI)
    show "\<not> (0x80 \<le> b \<and> b \<le> 0x9F)" "\<not> (0xDC \<le> b \<and> b \<le> 0xDF)" using u by (auto simp: word_le_nat_alt)
    have "\<not> b \<le> 0x7F" "0xA0 \<le> b \<and> b \<le> 0xBF \<or> 0xD9 \<le> b \<and> b \<le> 0xDB" using u by (auto simp: word_le_nat_alt)
    then show "msgpack_scalar b (t @ i) = Inr (Some (msgpack_norm (JString s), i))" for i
      by (simp add: msgpack_scalar_def b(3))
  qed
  then show ?thesis by (simp add: b(1))
qed

lemma msgpack_reads_binary:
  assumes "length s < 2 ^ 32"
  shows "msgpack_reads (JBinary s st) (write_msgpack_binary s st)"
proof -
  let ?bs = "{0xC4, 0xC5, 0xC6, 0xC7, 0xC8, 0xC9, 0xD4, 0xD5, 0xD6, 0xD7, 0xD8} :: u8 set"
  have r: "msgpack_reads (JBinary s st) (b # t)" if "b \<in> ?bs"
    "\<And>i. get_msgpack_binary b (t @ i) = Inr (Some ((s, st), i))" for b t
  proof (rule msgpack_scalarI)
    have "msgpack_scalar b i = pbind (get_msgpack_binary b i) (\<lambda>(r, st) i. Inr (Some (JBinary r st, i)))" for i
      using that(1) by (elim insertE emptyE; simp add: msgpack_scalar_def)
    then show "msgpack_scalar b (t @ i) = Inr (Some (msgpack_norm (JBinary s st), i))" for i by (simp add: that(2))
    show "\<not> (0x80 \<le> b \<and> b \<le> 0x9F)" "\<not> (0xDC \<le> b \<and> b \<le> 0xDF)"
      using that(1) by (elim insertE emptyE; simp)+
  qed
  have ext: "get_msgpack_ext (length s) (write_number_be t @ s @ i) = Inr (Some ((s, Some t), i))" for t i
    by (simp add: get_msgpack_ext_def get_string_append)
  have bin: "get_msgpack_bin (length s) (s @ i) = Inr (Some ((s, None), i))" for i
    by (simp add: get_msgpack_bin_def get_string_append)
  consider "length s \<le> 0xFF" | "0xFF < length s" "length s \<le> 0xFFFF" | "0xFFFF < length s" "length s \<le> 0xFFFFFFFF"
    using assms by fastforce
  then show ?thesis
  proof cases
    case 1
    show ?thesis
    proof (cases st)
      case None
      then show ?thesis using 1 bin r [of "0xC4" "write_number_be (of_nat (length s) :: u8) @ s"]
        by (simp add: write_msgpack_binary_def get_msgpack_binary_def unat_of_nat_widths Let_def)
    next
      case (Some t)
      consider b where "fixext_type (length s) = Some b" "b \<in> {0xD4, 0xD5, 0xD6, 0xD7, 0xD8}"
          "\<And>i. get_msgpack_binary b i = get_msgpack_ext (length s) i" | "fixext_type (length s) = None"
        by (cases "length s \<in> {1, 2, 4, 8, 16}") (auto simp: fixext_type_def get_msgpack_binary_def)
      then show ?thesis
      proof cases
        case (1 b)
        then show ?thesis using \<open>length s \<le> 0xFF\<close> Some ext [of t] r [of b "write_number_be t @ s"]
          by (auto simp: write_msgpack_binary_def Let_def)
      next
        case 2
        then show ?thesis using 1 Some ext [of t] r [of "0xC7" "write_number_be (of_nat (length s) :: u8) @ write_number_be t @ s"]
          by (simp add: write_msgpack_binary_def get_msgpack_binary_def unat_of_nat_widths Let_def)
      qed
    qed
  next
    case 2
    then show ?thesis using bin ext
        r [of "0xC5" "write_number_be (of_nat (length s) :: u16) @ s"]
        r [of "0xC8" "write_number_be (of_nat (length s) :: u16) @ write_number_be (the st) @ s"]
      by (cases st) (simp_all add: write_msgpack_binary_def get_msgpack_binary_def unat_of_nat_widths Let_def)
  next
    case 3
    then show ?thesis using bin ext
        r [of "0xC6" "write_number_be (of_nat (length s) :: u32) @ s"]
        r [of "0xC9" "write_number_be (of_nat (length s) :: u32) @ write_number_be (the st) @ s"]
      by (cases st) (simp_all add: write_msgpack_binary_def get_msgpack_binary_def unat_of_nat_widths Let_def)
  qed
qed

lemma write_msgpack_reads:
  "msgpack_ok j \<Longrightarrow> msgpack_reads j (write_msgpack j)"
  "(\<forall>v \<in> set vs. msgpack_ok v) \<Longrightarrow>
    \<forall>acc n i. length (write_msgpack_array vs) \<le> n \<longrightarrow>
      get_msgpack_array n (length vs) acc (write_msgpack_array vs @ i) = Inr (Some (JArray (acc @ map msgpack_norm vs), i))"
  "keys_ascend es \<and> (\<forall>(k, v) \<in> set es. length k < 2 ^ 32 \<and> msgpack_ok v) \<Longrightarrow>
    \<forall>acc n i. length (write_msgpack_object es) \<le> n \<longrightarrow> (\<forall>e \<in> set acc. \<forall>e' \<in> set es. bytes_less (fst e) (fst e')) \<longrightarrow>
      get_msgpack_object n (length es) (JObject acc) (write_msgpack_object es @ i) =
        Inr (Some (JObject (acc @ map (\<lambda>(k, v). (k, msgpack_norm v)) es), i))"
proof (induction j and vs and es rule: write_msgpack_write_msgpack_array_write_msgpack_object.induct)
  case 1
  show ?case unfolding write_msgpack.simps by (rule msgpack_scalarI) (simp_all add: msgpack_scalar_def)
next
  case (2 b)
  show ?case unfolding write_msgpack.simps by (cases b) (simp_all, (rule msgpack_scalarI, simp_all add: msgpack_scalar_def)+)
next
  case (3 i)
  show ?case using msgpack_reads_integer by simp
next
  case (4 u)
  show ?case using msgpack_reads_unsigned [of "JUnsigned u" u] by simp
next
  case (5 d)
  show ?case using msgpack_reads_float by simp
next
  case (6 s)
  then show ?case using msgpack_reads_string by simp
next
  case (7 vs)
  then have l: "length vs < 2 ^ 32" "\<forall>v \<in> set vs. msgpack_ok v" by auto
  obtain b t where b: "msgpack_array_head (length vs) = b # t"
    "\<And>n r. parse_msgpack_internal n b (t @ r) = get_msgpack_array n (length vs) [] r"
    using msgpack_array_head_reads [OF l(1)] by blast
  note IH = 7(1) [OF l(2), rule_format, where acc = "[]"]
  have "parse_msgpack_internal n b ((t @ write_msgpack_array vs) @ i) = Inr (Some (msgpack_norm (JArray vs), i))"
    if "length (t @ write_msgpack_array vs) \<le> n" for n i
    using b(2) [of n "write_msgpack_array vs @ i"] IH [of n i] that by simp
  then show ?case using b(1) by (auto simp: msgpack_reads_def)
next
  case (8 s st)
  then show ?case using msgpack_reads_binary by simp
next
  case (9 es)
  then have l: "length es < 2 ^ 32" "keys_ascend es \<and> (\<forall>(k, v) \<in> set es. length k < 2 ^ 32 \<and> msgpack_ok v)" by auto
  obtain b t where b: "msgpack_object_head (length es) = b # t"
    "\<And>n r. parse_msgpack_internal n b (t @ r) = get_msgpack_object n (length es) (JObject []) r"
    using msgpack_object_head_reads [OF l(1)] by blast
  note IH = 9(1) [OF l(2), rule_format, where acc = "[]"]
  have "parse_msgpack_internal n b ((t @ write_msgpack_object es) @ i) = Inr (Some (msgpack_norm (JObject es), i))"
    if "length (t @ write_msgpack_object es) \<le> n" for n i
    using b(2) [of n "write_msgpack_object es @ i"] IH [of n i] that by simp
  then show ?case using b(1) by (auto simp: msgpack_reads_def)
next
  case 10
  then show ?case by simp
next
  case 11
  have "get_msgpack_array n 0 acc i = Inr (Some (JArray acc, i))" for n acc i by (cases n) simp_all
  then show ?case by simp
next
  case (12 v vs)
  then have "msgpack_reads v (write_msgpack v)" by simp
  then obtain b t where v: "write_msgpack v = b # t"
    "\<And>n i. length t \<le> n \<Longrightarrow> parse_msgpack_internal n b (t @ i) = Inr (Some (msgpack_norm v, i))"
    unfolding msgpack_reads_def by blast
  have IH: "length (write_msgpack_array vs) \<le> n \<Longrightarrow>
      get_msgpack_array n (length vs) acc (write_msgpack_array vs @ i) = Inr (Some (JArray (acc @ map msgpack_norm vs), i))" for acc n i
    using 12 by simp
  show ?case
  proof (intro allI impI)
    fix acc n i assume n: "length (write_msgpack_array (v # vs)) \<le> n"
    obtain m where m: "n = Suc m" "length t \<le> m" "length (write_msgpack_array vs) \<le> m" using n v(1) by (cases n) auto
    show "get_msgpack_array n (length (v # vs)) acc (write_msgpack_array (v # vs) @ i) = Inr (Some (JArray (acc @ map msgpack_norm (v # vs)), i))"
      using v m(2) IH [OF m(3), of "acc @ [msgpack_norm v]" i] unfolding m(1) by auto
  qed
next
  case 13
  have "get_msgpack_object n 0 obj i = Inr (Some (obj, i))" for n obj i by (cases n) simp_all
  then show ?case by simp
next
  case (14 k v es)
  then have ok: "length k < 2 ^ 32" "msgpack_ok v" "keys_ascend es \<and> (\<forall>(k, v) \<in> set es. length k < 2 ^ 32 \<and> msgpack_ok v)"
    "\<forall>e' \<in> set es. bytes_less k (fst e')"
    by (auto simp: keys_ascend_Cons)
  obtain kb kt where k: "write_msgpack_string k = kb # kt" "\<And>i. get_msgpack_string kb (kt @ i) = Inr (Some (k, i))"
    using msgpack_string_reads [OF ok(1)] by blast
  have "msgpack_reads v (write_msgpack v)" using 14 ok(2) by blast
  then obtain b t where v: "write_msgpack v = b # t"
    "\<And>n i. length t \<le> n \<Longrightarrow> parse_msgpack_internal n b (t @ i) = Inr (Some (msgpack_norm v, i))"
    unfolding msgpack_reads_def by blast
  note IH = 14(2) [OF ok(3), rule_format]
  show ?case
  proof (intro allI impI)
    fix acc :: "(bytes \<times> json) list" and n i
    assume n: "length (write_msgpack_object ((k, v) # es)) \<le> n"
      and less: "\<forall>e \<in> set acc. \<forall>e' \<in> set ((k, v) # es). bytes_less (fst e) (fst e')"
    obtain m where m: "n = Suc m" "length t \<le> m" "length (write_msgpack_object es) \<le> m" using n v(1) k(1) by (cases n) auto
    have put: "obj_assign k (msgpack_norm v) acc = acc @ [(k, msgpack_norm v)]"
      using less by (intro obj_assign_last) simp
    have "\<forall>e \<in> set (acc @ [(k, msgpack_norm v)]). \<forall>e' \<in> set es. bytes_less (fst e) (fst e')"
      using less ok(4) by auto
    then have "get_msgpack_object m (length es) (JObject (acc @ [(k, msgpack_norm v)])) (write_msgpack_object es @ i) =
        Inr (Some (JObject ((acc @ [(k, msgpack_norm v)]) @ map (\<lambda>(k, v). (k, msgpack_norm v)) es), i))"
      by (intro IH [OF m(3)]) blast+
    then show "get_msgpack_object n (length ((k, v) # es)) (JObject acc) (write_msgpack_object ((k, v) # es) @ i) =
        Inr (Some (JObject (acc @ map (\<lambda>(k, v). (k, msgpack_norm v)) ((k, v) # es)), i))"
      using v k m(2) put unfolding m(1) by auto
  qed
qed

lemma from_msgpack_reads:
  assumes "msgpack_reads j bs"
  shows "from_msgpack bs = Inr (msgpack_norm j)"
proof -
  obtain b t where b: "bs = b # t" "\<And>n i. length t \<le> n \<Longrightarrow> parse_msgpack_internal n b (t @ i) = Inr (Some (msgpack_norm j, i))"
    using assms unfolding msgpack_reads_def by blast
  from b(2) [of "length bs" "[]"] show ?thesis by (simp add: b(1) from_msgpack_def msgpack_sax_parse_def)
qed

section \<open>The reader on any input\<close>

definition msgpack_faults :: "fault set" where
  "msgpack_faults = {Uncaught (ParseError 110), Uncaught (ParseError 112), Uncaught (ParseError 113)}"

lemma msgpack_faults_in [simp]: "Uncaught (ParseError k) \<in> msgpack_faults \<longleftrightarrow> k \<in> {110, 112, 113}"
  by (auto simp: msgpack_faults_def)

lemmas mp_get_number_be = rd_in_get_number_be [where E = msgpack_faults, simplified]
lemmas mp_get_string = rd_in_get_string_all [where E = msgpack_faults, simplified]
lemmas mp_byte = rd_in_byte [where E = msgpack_faults, simplified]

lemma mp_sized:
  assumes "\<And>n i'. length i' \<le> length i \<Longrightarrow> rd_in msgpack_faults (length i') (f n i')"
  shows "rd_in msgpack_faults (length i) (pbind (get_number_be i) f)"
  by (rule rd_in_pbind [OF mp_get_number_be]) (use assms rd_in_mono in blast)

lemma mp_parts:
  "rd_in msgpack_faults (length i) (get_msgpack_ext len i)" "rd_in msgpack_faults (length i) (get_msgpack_bin len i)"
  unfolding get_msgpack_ext_def get_msgpack_bin_def
  by (rule mp_sized, rule rd_in_pbind [OF mp_get_string], simp) (rule rd_in_pbind [OF mp_get_string], simp)

lemma mp_string: "rd_in msgpack_faults (length i) (get_msgpack_string b i)"
  unfolding get_msgpack_string_def by (simp add: mp_get_string mp_sized)

lemma mp_binary: "rd_in msgpack_faults (length i) (get_msgpack_binary b i)"
  unfolding get_msgpack_binary_def by (simp add: mp_parts mp_sized)

lemma mp_number: "rd_in msgpack_faults (length i) (msgpack_number b i)"
  unfolding msgpack_number_def by (simp add: mp_sized)

lemma mp_scalar: "rd_in msgpack_faults (length i) (msgpack_scalar b i)"
proof -
  have "rd_in msgpack_faults (length i) (pbind (get_msgpack_string b i) (\<lambda>s i. Inr (Some (JString s, i))))"
    by (rule rd_in_pbind [OF mp_string]) simp
  moreover have "rd_in msgpack_faults (length i) (pbind (get_msgpack_binary b i) (\<lambda>(r, st) i. Inr (Some (JBinary r st, i))))"
    by (rule rd_in_pbind [OF mp_binary]) auto
  ultimately show ?thesis unfolding msgpack_scalar_def using mp_number by simp
qed

lemma mp_parse:
  "length i < n \<Longrightarrow> rd_in msgpack_faults (length i) (parse_msgpack_internal n b i)"
  "length i < n \<Longrightarrow> rd_in msgpack_faults (length i) (get_msgpack_array n len vs i)"
  "length i < n \<Longrightarrow> rd_in msgpack_faults (length i) (get_msgpack_object n len obj i)"
proof (induction n b i and n len vs i and n len obj i
    rule: parse_msgpack_internal_get_msgpack_array_get_msgpack_object.induct)
  case (1 n b i)
  show ?case unfolding parse_msgpack_internal.simps [of n b i]
    using 1 mp_scalar by (auto intro!: rd_in_pbind [OF mp_get_number_be] intro: rd_in_mono)
next
  case (3 n len vs i)
  show ?case
  proof (cases "len = 0")
    case False
    have "rd_in msgpack_faults (length i) (pbind (get_byte i) (\<lambda>b i. pbind (parse_msgpack_internal n b i) (\<lambda>v i.
           get_msgpack_array n (len - 1) (vs @ [v]) i)))"
    proof (rule mp_byte)
      fix b i' assume b: "get_byte i = Inr (Some (b, i'))" "length i = Suc (length i')"
      have i': "length i' < n" using b(2) "3.prems" by simp
      show "rd_in msgpack_faults (length i) (pbind (parse_msgpack_internal n b i') (\<lambda>v i. get_msgpack_array n (len - 1) (vs @ [v]) i))"
      proof (rule rd_in_pbind [OF "3.IH"(1) [OF False b(1) i']])
        fix v i2 assume v: "parse_msgpack_internal n b i' = Inr (Some (v, i2))" "length i2 \<le> length i'"
        then show "rd_in msgpack_faults (length i) (get_msgpack_array n (len - 1) (vs @ [v]) i2)"
          using "3.IH"(2) [OF False b(1) v(1)] i' b(2) rd_in_mono by fastforce
      qed
    qed
    then show ?thesis using False by simp
  qed simp
next
  case (5 n len obj i)
  show ?case
  proof (cases "len = 0")
    case False
    have "rd_in msgpack_faults (length i) (pbind (get_byte i) (\<lambda>b i. pbind (get_msgpack_string b i) (\<lambda>key i.
           pbind (get_byte i) (\<lambda>b i. pbind (parse_msgpack_internal n b i) (\<lambda>v i.
           get_msgpack_object n (len - 1) (dom_put obj key v) i)))))"
    proof (rule mp_byte)
      fix b i' assume b: "get_byte i = Inr (Some (b, i'))" "length i = Suc (length i')"
      show "rd_in msgpack_faults (length i) (pbind (get_msgpack_string b i') (\<lambda>key i.
           pbind (get_byte i) (\<lambda>b i. pbind (parse_msgpack_internal n b i) (\<lambda>v i.
           get_msgpack_object n (len - 1) (dom_put obj key v) i))))"
      proof (rule rd_in_pbind [OF mp_string])
        fix key i2 assume k: "get_msgpack_string b i' = Inr (Some (key, i2))" "length i2 \<le> length i'"
        show "rd_in msgpack_faults (length i) (pbind (get_byte i2) (\<lambda>b i. pbind (parse_msgpack_internal n b i) (\<lambda>v i.
           get_msgpack_object n (len - 1) (dom_put obj key v) i)))"
        proof (rule mp_byte)
          fix b2 i3 assume b2: "get_byte i2 = Inr (Some (b2, i3))" "length i2 = Suc (length i3)"
          have i3: "length i3 < n" using b2(2) k(2) b(2) "5.prems" by simp
          show "rd_in msgpack_faults (length i) (pbind (parse_msgpack_internal n b2 i3) (\<lambda>v i.
             get_msgpack_object n (len - 1) (dom_put obj key v) i))"
          proof (rule rd_in_pbind [OF "5.IH"(1) [OF False b(1) k(1) b2(1) i3]])
            fix v i4 assume v: "parse_msgpack_internal n b2 i3 = Inr (Some (v, i4))" "length i4 \<le> length i3"
            then show "rd_in msgpack_faults (length i) (get_msgpack_object n (len - 1) (dom_put obj key v) i4)"
              using "5.IH"(2) [OF False b(1) k(1) b2(1) v(1)] i3 b(2) b2(2) k(2) rd_in_mono by fastforce
          qed
        qed
      qed
    qed
    then show ?thesis using False by simp
  qed simp
qed simp_all

text \<open>
  Fuel of the length of the input is enough: reading any bytes as MessagePack ends, with a value or with a parse error.
\<close>

lemma from_msgpack_outcomes:
  "(\<exists>j. from_msgpack i = Inr j) \<or> (\<exists>k \<in> {110, 112, 113}. from_msgpack i = Inl (Uncaught (ParseError k)))"
proof -
  have "rd_in msgpack_faults (length i) (pbind (get_byte i) (\<lambda>b i'. parse_msgpack_internal (length i) b i'))"
  proof (rule mp_byte)
    fix b i' assume "get_byte i = Inr (Some (b, i'))" "length i = Suc (length i')"
    then show "rd_in msgpack_faults (length i) (parse_msgpack_internal (length i) b i')"
      using mp_parse(1) [of i' "length i" b] rd_in_mono by fastforce
  qed
  then consider k where "pbind (get_byte i) (\<lambda>b i'. parse_msgpack_internal (length i) b i') = Inl k" "k \<in> msgpack_faults"
    | "pbind (get_byte i) (\<lambda>b i'. parse_msgpack_internal (length i) b i') = Inr None"
    | j r where "pbind (get_byte i) (\<lambda>b i'. parse_msgpack_internal (length i) b i') = Inr (Some (j, r))"
    by (cases "pbind (get_byte i) (\<lambda>b i'. parse_msgpack_internal (length i) b i')" rule: sum.exhaust)
      (simp, metis (no_types) option.exhaust surj_pair)
  then show ?thesis
  proof cases
    case (3 j r)
    then show ?thesis by (cases r) (simp_all add: from_msgpack_def msgpack_sax_parse_def rbind_def)
  qed (auto simp: from_msgpack_def msgpack_sax_parse_def rbind_def msgpack_faults_def)
qed

section \<open>Properties\<close>

text \<open>
  C40: every value MessagePack can carry, with lengths below two to the 32nd, is read back from what is written for it;
  only a signed number that is not negative comes back unsigned.
\<close>

theorem msgpack_roundtrip:
  assumes "msgpack_ok j"
  shows "from_msgpack (to_msgpack j) = Inr (msgpack_norm j)"
  using from_msgpack_reads [OF write_msgpack_reads(1) [OF assms]] by (simp add: to_msgpack_def)

lemma msgpack_roundtrip_witness:
  "from_msgpack (to_msgpack (JObject [([97], JArray [JInteger (- 500), JBinary [1] (Some 7), JFloat 0x3FF8000000000000]), ([98], JInteger 3)]))
    = Inr (JObject [([97], JArray [JInteger (- 500), JBinary [1] (Some 7), JFloat 0x3FF8000000000000]), ([98], JUnsigned 3)])"
proof -
  let ?j = "JObject [([97], JArray [JInteger (- 500), JBinary [1] (Some 7), JFloat 0x3FF8000000000000]), ([98], JInteger 3)]"
  have "msgpack_ok ?j" by (simp add: keys_ascend_def)
  moreover have "sint (- 500 :: u64) < 0" "0 \<le> sint (3 :: u64)" by simp_all
  ultimately show ?thesis using msgpack_roundtrip [of ?j] by simp
qed

end
