(* ===== verification/Ubjson.thy ===== *)
theory Ubjson
  imports Msgpack TextRead
begin

unbundle bit_operations_syntax

text \<open>
  The UBJSON writer and reader of \<^verbatim>\<open>include/json/json.hpp\<close>: every value behind a marker, lengths as signed
  numbers behind a marker of their own, containers with or without their count and, when all parts have
  the same marker, with that marker once. A number past 63 bits goes as text, through the scanner.
\<close>

section \<open>The writer\<close>

text \<open>The marker before a value that needs one.\<close>

definition prefixed :: "bool \<Rightarrow> u8 \<Rightarrow> bytes" where
  "prefixed add_prefix c = (if add_prefix then [c] else [])"

lemma prefixed_simps [simp]: "prefixed True c = [c]" "prefixed False c = []"
  by (simp_all add: prefixed_def)

text \<open>The text of a number of more than 63 bits is shorter than the number, so its length is written at once.\<close>

lemma json_dump_unsigned: "json_dump (- 1) 0x20 False eh_strict (JUnsigned n) = Inr (dec (unat n))"
  by (simp add: json_dump_def dump_integer_text int_text_def write_characters_def)

lemma dec_u64_short: "\<not> n \<le> (0x7FFFFFFFFFFFFFFF :: u64) \<Longrightarrow> unat (of_nat (length (dec (unat n))) :: u64) < unat n"
proof -
  assume "\<not> n \<le> (0x7FFFFFFFFFFFFFFF :: u64)"
  then have "0x7FFFFFFFFFFFFFFF < unat n" by (simp add: word_le_nat_alt unat_u64_numeral)
  moreover have "length (dec (unat n)) \<le> 20" by (rule length_dec_u64 [OF unat_u64])
  ultimately show ?thesis by (simp add: unat_of_nat take_bit_nat_eq_self)
qed

function write_ubjson_unsigned :: "u64 \<Rightarrow> bool \<Rightarrow> bytes res" where
  "write_ubjson_unsigned n add_prefix =
     (if n \<le> 0x7F then Inr (prefixed add_prefix 0x69 @ write_number_be (ucast n :: u8))
      else if n \<le> 0xFF then Inr (prefixed add_prefix 0x55 @ write_number_be (ucast n :: u8))
      else if n \<le> 0x7FFF then Inr (prefixed add_prefix 0x49 @ write_number_be (ucast n :: u16))
      else if n \<le> 0x7FFFFFFF then Inr (prefixed add_prefix 0x6C @ write_number_be (ucast n :: u32))
      else if n \<le> 0x7FFFFFFFFFFFFFFF then Inr (prefixed add_prefix 0x4C @ write_number_be n)
      else rbind (json_dump (- 1) 0x20 False eh_strict (JUnsigned n)) (\<lambda>number.
           rbind (write_ubjson_unsigned (of_nat (length number)) True) (\<lambda>size.
           Inr (prefixed add_prefix 0x48 @ size @ number))))"
  by pat_completeness auto

termination
  by (relation "measure (\<lambda>(n, add_prefix). unat n)") (simp, use dec_u64_short in \<open>auto simp: json_dump_unsigned\<close>)

declare write_ubjson_unsigned.simps [simp del]

definition write_ubjson_integer :: "u64 \<Rightarrow> bool \<Rightarrow> bytes res" where
  "write_ubjson_integer n add_prefix =
     (if - 128 \<le> sint n \<and> sint n \<le> 127 then Inr (prefixed add_prefix 0x69 @ write_number_be (ucast n :: u8))
      else if 0 \<le> sint n \<and> sint n \<le> 255 then Inr (prefixed add_prefix 0x55 @ write_number_be (ucast n :: u8))
      else if - (2 ^ 15) \<le> sint n \<and> sint n < 2 ^ 15 then Inr (prefixed add_prefix 0x49 @ write_number_be (ucast n :: u16))
      else if - (2 ^ 31) \<le> sint n \<and> sint n < 2 ^ 31 then Inr (prefixed add_prefix 0x6C @ write_number_be (ucast n :: u32))
      else if - (2 ^ 63) \<le> sint n \<and> sint n < 2 ^ 63 then Inr (prefixed add_prefix 0x4C @ write_number_be n)
      else rbind (json_dump (- 1) 0x20 False eh_strict (JInteger n)) (\<lambda>number.
           rbind (write_ubjson_unsigned (of_nat (length number)) True) (\<lambda>size.
           Inr (prefixed add_prefix 0x48 @ size @ number))))"

definition write_ubjson_float :: "u64 \<Rightarrow> bool \<Rightarrow> bytes" where
  "write_ubjson_float d add_prefix = prefixed add_prefix 0x44 @ write_number_be d"

text \<open>The marker of a value, chosen by the same bounds.\<close>

definition integer_prefix :: "u64 \<Rightarrow> u8" where
  "integer_prefix n =
     (if - 128 \<le> sint n \<and> sint n \<le> 127 then 0x69
      else if 0 \<le> sint n \<and> sint n \<le> 255 then 0x55
      else if - (2 ^ 15) \<le> sint n \<and> sint n < 2 ^ 15 then 0x49
      else if - (2 ^ 31) \<le> sint n \<and> sint n < 2 ^ 31 then 0x6C
      else if - (2 ^ 63) \<le> sint n \<and> sint n < 2 ^ 63 then 0x4C
      else 0x48)"

definition unsigned_prefix :: "u64 \<Rightarrow> u8" where
  "unsigned_prefix n =
     (if n \<le> 0x7F then 0x69
      else if n \<le> 0xFF then 0x55
      else if n \<le> 0x7FFF then 0x49
      else if n \<le> 0x7FFFFFFF then 0x6C
      else if n \<le> 0x7FFFFFFFFFFFFFFF then 0x4C
      else 0x48)"

fun ubjson_prefix :: "json \<Rightarrow> u8" where
  "ubjson_prefix JNull = 0x5A"
| "ubjson_prefix (JBoolean b) = (if b then 0x54 else 0x46)"
| "ubjson_prefix (JInteger n) = integer_prefix n"
| "ubjson_prefix (JUnsigned n) = unsigned_prefix n"
| "ubjson_prefix (JFloat d) = 0x44"
| "ubjson_prefix (JString s) = 0x53"
| "ubjson_prefix (JArray vs) = 0x5B"
| "ubjson_prefix (JBinary b st) = 0x5B"
| "ubjson_prefix (JObject es) = 0x7B"
| "ubjson_prefix JDiscarded = 0x4E"

text \<open>What comes before the parts of a container: the marker all of them share, then their count.\<close>

definition container_type :: "bool \<Rightarrow> bool \<Rightarrow> u8 list \<Rightarrow> (bool \<times> bytes) res" where
  "container_type use_count use_type prefixes =
     (if use_type \<and> prefixes \<noteq> [] then
        if \<not> use_count then Inl AssertFail
        else if list_all (\<lambda>p. p = hd prefixes) (tl prefixes) then Inr (False, [0x24, hd prefixes])
        else Inr (True, [])
      else Inr (True, []))"

definition container_count :: "bool \<Rightarrow> nat \<Rightarrow> bytes res" where
  "container_count use_count N =
     (if use_count then rbind (write_ubjson_unsigned (of_nat N) True) (\<lambda>size. Inr (0x23 # size)) else Inr [])"

definition write_ubjson_string :: "bytes \<Rightarrow> bytes res" where
  "write_ubjson_string s = rbind (write_ubjson_unsigned (of_nat (length s)) True) (\<lambda>size. Inr (size @ s))"

definition write_ubjson_binary :: "bool \<Rightarrow> bool \<Rightarrow> bytes \<Rightarrow> bytes res" where
  "write_ubjson_binary use_count use_type b =
     (if use_type \<and> b \<noteq> [] \<and> \<not> use_count then Inl AssertFail
      else rbind (container_count use_count (length b)) (\<lambda>count.
           Inr ((if use_type \<and> b \<noteq> [] then [0x24, 0x55] else []) @ count
             @ (if use_type then b else concat (map (\<lambda>c. [0x55, c]) b)) @ (if use_count then [] else [0x5D]))))"

fun write_ubjson :: "bool \<Rightarrow> bool \<Rightarrow> json \<Rightarrow> bool \<Rightarrow> bytes res"
  and write_ubjson_array :: "bool \<Rightarrow> bool \<Rightarrow> json list \<Rightarrow> bool \<Rightarrow> bytes res"
  and write_ubjson_object :: "bool \<Rightarrow> bool \<Rightarrow> (bytes \<times> json) list \<Rightarrow> bool \<Rightarrow> bytes res" where
  "write_ubjson use_count use_type JNull add_prefix = Inr (prefixed add_prefix 0x5A)"
| "write_ubjson use_count use_type (JBoolean b) add_prefix = Inr (prefixed add_prefix (if b then 0x54 else 0x46))"
| "write_ubjson use_count use_type (JInteger n) add_prefix = write_ubjson_integer n add_prefix"
| "write_ubjson use_count use_type (JUnsigned n) add_prefix = write_ubjson_unsigned n add_prefix"
| "write_ubjson use_count use_type (JFloat d) add_prefix = Inr (write_ubjson_float d add_prefix)"
| "write_ubjson use_count use_type (JString s) add_prefix =
     rbind (write_ubjson_string s) (\<lambda>t. Inr (prefixed add_prefix 0x53 @ t))"
| "write_ubjson use_count use_type (JArray vs) add_prefix =
     rbind (container_type use_count use_type (map ubjson_prefix vs)) (\<lambda>(prefix_required, head).
     rbind (container_count use_count (length vs)) (\<lambda>count.
     rbind (write_ubjson_array use_count use_type vs prefix_required) (\<lambda>elements.
     Inr (prefixed add_prefix 0x5B @ head @ count @ elements @ (if use_count then [] else [0x5D])))))"
| "write_ubjson use_count use_type (JBinary b subtype) add_prefix =
     rbind (write_ubjson_binary use_count use_type b) (\<lambda>t. Inr (prefixed add_prefix 0x5B @ t))"
| "write_ubjson use_count use_type (JObject es) add_prefix =
     rbind (container_type use_count use_type (map (\<lambda>(k, v). ubjson_prefix v) es)) (\<lambda>(prefix_required, head).
     rbind (container_count use_count (length es)) (\<lambda>count.
     rbind (write_ubjson_object use_count use_type es prefix_required) (\<lambda>members.
     Inr (prefixed add_prefix 0x7B @ head @ count @ members @ (if use_count then [] else [0x7D])))))"
| "write_ubjson use_count use_type JDiscarded add_prefix = Inr []"
| "write_ubjson_array use_count use_type [] prefix_required = Inr []"
| "write_ubjson_array use_count use_type (v # vs) prefix_required =
     rbind (write_ubjson use_count use_type v prefix_required) (\<lambda>t.
     rbind (write_ubjson_array use_count use_type vs prefix_required) (\<lambda>ts. Inr (t @ ts)))"
| "write_ubjson_object use_count use_type [] prefix_required = Inr []"
| "write_ubjson_object use_count use_type ((k, v) # es) prefix_required =
     rbind (write_ubjson_string k) (\<lambda>key.
     rbind (write_ubjson use_count use_type v prefix_required) (\<lambda>t.
     rbind (write_ubjson_object use_count use_type es prefix_required) (\<lambda>ts. Inr (key @ t @ ts))))"

definition to_ubjson :: "json \<Rightarrow> bool \<Rightarrow> bool \<Rightarrow> bytes res" where
  "to_ubjson j use_size use_type = write_ubjson use_size use_type j True"

section \<open>The reader\<close>

text \<open>The next byte that is not \<open>N\<close>, none at the end of the input.\<close>

fun get_ignore_noop :: "bytes \<Rightarrow> u8 option \<times> bytes" where
  "get_ignore_noop [] = (None, [])"
| "get_ignore_noop (b # i) = (if b = 0x4E then get_ignore_noop i else (Some b, i))"

text \<open>A number of the width its marker tells, widened to 64 bits.\<close>

definition integer_marker :: "u8 \<Rightarrow> bool" where
  "integer_marker c \<longleftrightarrow> c \<in> {0x55, 0x69, 0x49, 0x6C, 0x4C}"

definition ubjson_integer :: "u8 \<Rightarrow> bytes \<Rightarrow> u64 rd" where
  "ubjson_integer c i =
     (if c = 0x55 then pbind (get_number_be i) (\<lambda>(n :: u8) i. Inr (Some (ucast n, i)))
      else if c = 0x69 then pbind (get_number_be i) (\<lambda>(n :: u8) i. Inr (Some (scast n, i)))
      else if c = 0x49 then pbind (get_number_be i) (\<lambda>(n :: u16) i. Inr (Some (scast n, i)))
      else if c = 0x6C then pbind (get_number_be i) (\<lambda>(n :: u32) i. Inr (Some (scast n, i)))
      else get_number_be i)"

text \<open>A text of negative length is empty.\<close>

definition get_ubjson_string :: "u8 \<Rightarrow> bytes \<Rightarrow> bytes rd" where
  "get_ubjson_string c i =
     (if integer_marker c then pbind (ubjson_integer c i) (\<lambda>len i. get_string (nat (sint len)) i)
      else Inl (Uncaught (ParseError 113)))"

text \<open>A count, converted to \<^verbatim>\<open>size_t\<close>, with the last byte read.\<close>

definition get_ubjson_size_value :: "bytes \<Rightarrow> (nat \<times> u8) rd" where
  "get_ubjson_size_value i = (case get_ignore_noop i of
      (Some c, i) \<Rightarrow>
        if integer_marker c then pbind (ubjson_integer c i) (\<lambda>number i. Inr (Some ((unat number, ucast number), i)))
        else Inl (Uncaught (ParseError 113))
    | (None, i) \<Rightarrow> Inl (Uncaught (ParseError 113)))"

text \<open>The count (\<open>npos\<close> for none), the marker of the parts (0 for none), and the current character.\<close>

definition get_ubjson_size_type :: "bytes \<Rightarrow> (nat \<times> u8 \<times> u8 option) rd" where
  "get_ubjson_size_type i = (case get_ignore_noop i of (current, i) \<Rightarrow>
     if current = Some 0x24 then
       pbind (get_byte i) (\<lambda>ty i. case get_ignore_noop i of (current, i) \<Rightarrow>
         if current \<noteq> Some 0x23 then Inl (Uncaught (ParseError (if current = None then 110 else 112)))
         else pbind (get_ubjson_size_value i) (\<lambda>(size, last) i. Inr (Some ((size, ty, Some last), i))))
     else if current = Some 0x23 then
       pbind (get_ubjson_size_value i) (\<lambda>(size, last) i. Inr (Some ((size, 0, Some last), i)))
     else Inr (Some ((npos, 0, current), i)))"

text \<open>The text of a number is scanned with a scanner of its own, which must find nothing behind it.\<close>

definition high_precision_value :: "u8 \<Rightarrow> bytes \<Rightarrow> json res" where
  "high_precision_value point number_vector =
     rbind (scan (lexer_ctor False point number_vector)) (\<lambda>(result_number, number_lexer).
     rbind (scan number_lexer) (\<lambda>(result_remainder, number_lexer).
       if result_remainder \<noteq> end_of_input then Inl (Uncaught (ParseError 115))
       else case result_number of
           value_integer \<Rightarrow> Inr (JInteger (lx_integer number_lexer))
         | value_unsigned \<Rightarrow> Inr (JUnsigned (lx_unsigned number_lexer))
         | value_float \<Rightarrow> Inr (JFloat (lx_float number_lexer))
         | _ \<Rightarrow> Inl (Uncaught (ParseError 115))))"

definition get_ubjson_high_precision_number :: "u8 \<Rightarrow> bytes \<Rightarrow> json rd" where
  "get_ubjson_high_precision_number point i =
     pbind (get_ubjson_size_value i) (\<lambda>(size, last) i.
     pbind (get_string size i) (\<lambda>number_vector i.
     rbind (high_precision_value point number_vector) (\<lambda>j. Inr (Some (j, i)))))"

definition ubjson_scalar :: "u8 \<Rightarrow> u8 option \<Rightarrow> bytes \<Rightarrow> json rd" where
  "ubjson_scalar point p i = (case p of
      None \<Rightarrow> Inl (Uncaught (ParseError 110))
    | Some c \<Rightarrow>
        if c = 0x54 then Inr (Some (JBoolean True, i))
        else if c = 0x46 then Inr (Some (JBoolean False, i))
        else if c = 0x5A then Inr (Some (JNull, i))
        else if c = 0x55 then pbind (ubjson_integer c i) (\<lambda>number i. Inr (Some (JUnsigned number, i)))
        else if integer_marker c then pbind (ubjson_integer c i) (\<lambda>number i. Inr (Some (JInteger number, i)))
        else if c = 0x64 then pbind (get_number_be i) (\<lambda>f i. Inr (Some (JFloat (f32_to_f64 f), i)))
        else if c = 0x44 then pbind (get_number_be i) (\<lambda>d i. Inr (Some (JFloat d, i)))
        else if c = 0x48 then get_ubjson_high_precision_number point i
        else if c = 0x43 then
          pbind (get_byte i) (\<lambda>b i. if 127 < b then Inl (Uncaught (ParseError 113)) else Inr (Some (JString [b], i)))
        else if c = 0x53 then pbind (get_byte i) (\<lambda>b i. pbind (get_ubjson_string b i) (\<lambda>s i. Inr (Some (JString s, i))))
        else Inl (Uncaught (ParseError 112)))"

definition ubjson_start :: "nat \<Rightarrow> bytes \<Rightarrow> (nat \<times> u8 \<times> u8 option) rd" where
  "ubjson_start max_size i = pbind (get_ubjson_size_type i) (\<lambda>(size, ty, current) i.
     if size \<noteq> npos \<and> max_size < size then Inl (Uncaught (OutOfRange 408)) else Inr (Some ((size, ty, current), i)))"

text \<open>
  The reader proper, on the marker already read; the number bounds the containers around a value and the parts
  of those without a count. Parts with a count are counted down, each with its own marker or the shared
  one; the parts of the others go on until the closing character is the current one.
\<close>

function (sequential) get_ubjson_value :: "u8 \<Rightarrow> nat \<Rightarrow> u8 option \<Rightarrow> bytes \<Rightarrow> json rd"
  and ubjson_elements :: "u8 \<Rightarrow> nat \<Rightarrow> u8 \<Rightarrow> nat \<Rightarrow> json list \<Rightarrow> bytes \<Rightarrow> json rd"
  and ubjson_elements_end :: "u8 \<Rightarrow> nat \<Rightarrow> u8 option \<Rightarrow> json list \<Rightarrow> bytes \<Rightarrow> json rd"
  and ubjson_members :: "u8 \<Rightarrow> nat \<Rightarrow> u8 \<Rightarrow> nat \<Rightarrow> json \<Rightarrow> bytes \<Rightarrow> json rd"
  and ubjson_members_end :: "u8 \<Rightarrow> nat \<Rightarrow> u8 option \<Rightarrow> json \<Rightarrow> bytes \<Rightarrow> json rd" where
  "get_ubjson_value pt 0 p i =
     (if p = Some 0x5B \<or> p = Some 0x7B then Inl (UB StackOverflow) else ubjson_scalar pt p i)"
| "get_ubjson_value pt (Suc n) p i =
     (if p = Some 0x5B then
        pbind (ubjson_start array_max_size i) (\<lambda>(len, ty, current) i.
          if len = npos then ubjson_elements_end pt n current [] i
          else if ty = 0x4E then Inr (Some (JArray [], i))
          else ubjson_elements pt n ty len [] i)
      else if p = Some 0x7B then
        pbind (ubjson_start object_max_size i) (\<lambda>(len, ty, current) i.
          if len = npos then ubjson_members_end pt n current (JObject []) i
          else ubjson_members pt n ty len (JObject []) i)
      else ubjson_scalar pt p i)"
| "ubjson_elements pt n ty len vs i =
     (if len = 0 then Inr (Some (JArray vs, i))
      else case (if ty = 0 then get_ignore_noop i else (Some ty, i)) of (p, i) \<Rightarrow>
           pbind (get_ubjson_value pt n p i) (\<lambda>v i. ubjson_elements pt n ty (len - 1) (vs @ [v]) i))"
| "ubjson_elements_end pt 0 current vs i =
     (if current = Some 0x5D then Inr (Some (JArray vs, i)) else Inl (UB StackOverflow))"
| "ubjson_elements_end pt (Suc n) current vs i =
     (if current = Some 0x5D then Inr (Some (JArray vs, i))
      else pbind (get_ubjson_value pt n current i) (\<lambda>v i. case get_ignore_noop i of (current, i) \<Rightarrow>
           ubjson_elements_end pt n current (vs @ [v]) i))"
| "ubjson_members pt n ty len obj i =
     (if len = 0 then Inr (Some (obj, i))
      else pbind (get_byte i) (\<lambda>b i. pbind (get_ubjson_string b i) (\<lambda>key i.
           case (if ty = 0 then get_ignore_noop i else (Some ty, i)) of (p, i) \<Rightarrow>
           pbind (get_ubjson_value pt n p i) (\<lambda>v i. ubjson_members pt n ty (len - 1) (dom_put obj key v) i))))"
| "ubjson_members_end pt 0 current obj i =
     (if current = Some 0x7D then Inr (Some (obj, i)) else Inl (UB StackOverflow))"
| "ubjson_members_end pt (Suc n) current obj i =
     (if current = Some 0x7D then Inr (Some (obj, i))
      else case current of None \<Rightarrow> Inl (Uncaught (ParseError 110)) | Some c \<Rightarrow>
           pbind (get_ubjson_string c i) (\<lambda>key i. case get_ignore_noop i of (p, i) \<Rightarrow>
           pbind (get_ubjson_value pt n p i) (\<lambda>v i. case get_ignore_noop i of (current, i) \<Rightarrow>
           ubjson_members_end pt n current (dom_put obj key v) i)))"
  by pat_completeness auto

termination
  by (relation "measures [\<lambda>x. case x of Inl (Inl (pt, n, p, i)) \<Rightarrow> n
        | Inl (Inr (pt, n, ty, len, vs, i)) \<Rightarrow> n
        | Inr (Inl (pt, n, current, vs, i)) \<Rightarrow> n
        | Inr (Inr (Inl (pt, n, ty, len, obj, i))) \<Rightarrow> n
        | Inr (Inr (Inr (pt, n, current, obj, i))) \<Rightarrow> n,
      \<lambda>x. case x of Inl (Inr (pt, n, ty, len, vs, i)) \<Rightarrow> Suc len
        | Inr (Inr (Inl (pt, n, ty, len, obj, i))) \<Rightarrow> Suc len | _ \<Rightarrow> 0]") simp_all

definition ubjson_sax_parse :: "u8 \<Rightarrow> bytes \<Rightarrow> json option res" where
  "ubjson_sax_parse pt i = (case get_ignore_noop i of (p, i') \<Rightarrow>
     rbind (get_ubjson_value pt (2 * length i) p i') (\<lambda>r. case r of
         None \<Rightarrow> Inr None
       | Some (j, i) \<Rightarrow> (case get_ignore_noop i of
             (None, _) \<Rightarrow> Inr (Some j)
           | (Some _, _) \<Rightarrow> Inl (Uncaught (ParseError 110)))))"

definition from_ubjson :: "u8 \<Rightarrow> bytes \<Rightarrow> json res" where
  "from_ubjson pt i = rbind (ubjson_sax_parse pt i) (\<lambda>res. Inr (case res of None \<Rightarrow> JDiscarded | Some j \<Rightarrow> j))"

section \<open>Numbers\<close>

lemma u64_upto:
  assumes "(numeral m :: nat) < 2 ^ 64"
  shows "(n :: u64) \<le> numeral m \<longleftrightarrow> unat n \<le> numeral m"
  unfolding word_le_nat_alt unat_u64_numeral [OF assms] ..


lemma sint_small:
  fixes n :: u64
  assumes "unat n < 2 ^ 63"
  shows "sint n = int (unat n)"
proof -
  have "int (unat n) < int (2 ^ 63)" using assms by (simp only: of_nat_less_iff)
  then have "uint n < 2 ^ 63" by simp
  moreover have "- (2 ^ 63) \<le> uint n" by (rule order_trans [OF _ uint_ge_0]) simp
  ultimately have "signed_take_bit 63 (uint n) = uint n" by (intro signed_take_bit_int_eq_self)
  then show ?thesis by (simp only: sint_uint) simp
qed

lemma scast_narrow_unsigned:
  fixes n :: u64
  assumes "unat n < 2 ^ (LENGTH('w) - 1)" and "LENGTH('w) \<le> 64"
  shows "scast (ucast n :: 'w :: len word) = n"
proof (rule scast_narrow [OF _ _ assms(2)])
  have "(2 :: nat) ^ (LENGTH('w) - 1) \<le> 2 ^ 63" using assms(2) by (intro power_increasing) auto
  then have s: "sint n = int (unat n)" using assms(1) by (intro sint_small) linarith
  have "int (unat n) < 2 ^ (LENGTH('w) - 1)" using assms(1) by (metis of_nat_less_iff of_nat_numeral of_nat_power)
  then show "sint n < 2 ^ (LENGTH('w) - 1)" unfolding s .
  show "- (2 ^ (LENGTH('w) - 1)) \<le> sint n" unfolding s by (rule order_trans [of _ 0]) simp_all
qed

text \<open>A number behind its marker, as every reader of lengths and of numbers finds it.\<close>

definition number_text :: "u8 \<Rightarrow> u64 \<Rightarrow> bytes \<Rightarrow> bool" where
  "number_text c n t \<longleftrightarrow> integer_marker c \<and> (\<forall>i. ubjson_integer c (t @ i) = Inr (Some (n, i)))"

lemma number_texts:
  "ucast (b :: u8) = n \<Longrightarrow> number_text 0x55 n (write_number_be b)"
  "scast (b :: u8) = n \<Longrightarrow> number_text 0x69 n (write_number_be b)"
  "scast (w :: u16) = n \<Longrightarrow> number_text 0x49 n (write_number_be w)"
  "scast (l :: u32) = n \<Longrightarrow> number_text 0x6C n (write_number_be l)"
  "number_text 0x4C n (write_number_be n)"
  by (auto simp: number_text_def integer_marker_def ubjson_integer_def)

lemma write_unsigned_number:
  assumes "n \<le> 0x7FFFFFFFFFFFFFFF"
  shows "\<exists>t. (\<forall>add. write_ubjson_unsigned n add = Inr (prefixed add (unsigned_prefix n) @ t)) \<and> number_text (unsigned_prefix n) n t"
proof -
  have b: "n \<le> 0x7F \<longleftrightarrow> unat n < 2 ^ 7" "n \<le> 0xFF \<longleftrightarrow> unat n < 2 ^ 8"
    "n \<le> 0x7FFF \<longleftrightarrow> unat n < 2 ^ 15" "n \<le> 0x7FFFFFFF \<longleftrightarrow> unat n < 2 ^ 31"
    by (subst u64_upto, simp, force)+
  note w = write_ubjson_unsigned.simps [of n] unsigned_prefix_def [of n]
  consider "n \<le> 0x7F" | "\<not> n \<le> 0x7F" "n \<le> 0xFF" | "\<not> n \<le> 0x7F" "\<not> n \<le> 0xFF" "n \<le> 0x7FFF"
    | "\<not> n \<le> 0x7F" "\<not> n \<le> 0xFF" "\<not> n \<le> 0x7FFF" "n \<le> 0x7FFFFFFF"
    | "\<not> n \<le> 0x7F" "\<not> n \<le> 0xFF" "\<not> n \<le> 0x7FFF" "\<not> n \<le> 0x7FFFFFFF"
    by blast
  then show ?thesis
  proof cases
    case 1
    then have "number_text 0x69 n (write_number_be (ucast n :: u8))"
      using b by (intro number_texts scast_narrow_unsigned) simp_all
    then show ?thesis using 1 by (intro exI [of _ "write_number_be (ucast n :: u8)"]) (simp add: w)
  next
    case 2
    then have "number_text 0x55 n (write_number_be (ucast n :: u8))"
      using b by (intro number_texts ucast_narrow) simp_all
    then show ?thesis using 2 by (intro exI [of _ "write_number_be (ucast n :: u8)"]) (simp add: w)
  next
    case 3
    then have "number_text 0x49 n (write_number_be (ucast n :: u16))"
      using b by (intro number_texts scast_narrow_unsigned) simp_all
    then show ?thesis using 3 by (intro exI [of _ "write_number_be (ucast n :: u16)"]) (auto simp: w)
  next
    case 4
    then have "number_text 0x6C n (write_number_be (ucast n :: u32))"
      using b by (intro number_texts scast_narrow_unsigned) simp_all
    then show ?thesis using 4 by (intro exI [of _ "write_number_be (ucast n :: u32)"]) (auto simp: w)
  next
    case 5
    have "number_text 0x4C n (write_number_be n)" by (rule number_texts)
    then show ?thesis using 5 assms by (intro exI [of _ "write_number_be n"]) (simp add: w)
  qed
qed

lemma write_integer_number:
  "\<exists>t. (\<forall>add. write_ubjson_integer n add = Inr (prefixed add (integer_prefix n) @ t)) \<and> number_text (integer_prefix n) n t"
proof -
  note w = write_ubjson_integer_def [of n] integer_prefix_def [of n]
  have r: "- (2 ^ 63) \<le> sint n \<and> sint n < 2 ^ 63" using sint_u64 [of n] by blast
  consider "- 128 \<le> sint n \<and> sint n \<le> 127" | "\<not> (- 128 \<le> sint n \<and> sint n \<le> 127)" "0 \<le> sint n \<and> sint n \<le> 255"
    | "\<not> (- 128 \<le> sint n \<and> sint n \<le> 127)" "\<not> (0 \<le> sint n \<and> sint n \<le> 255)" "- (2 ^ 15) \<le> sint n \<and> sint n < 2 ^ 15"
    | "\<not> (- 128 \<le> sint n \<and> sint n \<le> 127)" "\<not> (0 \<le> sint n \<and> sint n \<le> 255)" "\<not> (- (2 ^ 15) \<le> sint n \<and> sint n < 2 ^ 15)"
      "- (2 ^ 31) \<le> sint n \<and> sint n < 2 ^ 31"
    | "\<not> (- 128 \<le> sint n \<and> sint n \<le> 127)" "\<not> (0 \<le> sint n \<and> sint n \<le> 255)" "\<not> (- (2 ^ 15) \<le> sint n \<and> sint n < 2 ^ 15)"
      "\<not> (- (2 ^ 31) \<le> sint n \<and> sint n < 2 ^ 31)"
    by blast
  then show ?thesis
  proof cases
    case 1
    then have "number_text 0x69 n (write_number_be (ucast n :: u8))"
      by (intro number_texts scast_narrow) simp_all
    then show ?thesis using 1 by (intro exI [of _ "write_number_be (ucast n :: u8)"]) (simp add: w)
  next
    case 2
    then have "uint n = sint n" by (simp add: uint_sint take_bit_int_eq_self)
    then have "unat n < 2 ^ LENGTH(8)" using 2 by (simp add: unat_eq_nat_uint)
    then have "number_text 0x55 n (write_number_be (ucast n :: u8))"
      by (intro number_texts ucast_narrow)
    then show ?thesis using 2 by (intro exI [of _ "write_number_be (ucast n :: u8)"]) (simp add: w)
  next
    case 3
    then have "number_text 0x49 n (write_number_be (ucast n :: u16))"
      by (intro number_texts scast_narrow) simp_all
    then show ?thesis using 3 by (intro exI [of _ "write_number_be (ucast n :: u16)"]) (auto simp: w)
  next
    case 4
    then have "number_text 0x6C n (write_number_be (ucast n :: u32))"
      by (intro number_texts scast_narrow) simp_all
    then show ?thesis using 4 by (intro exI [of _ "write_number_be (ucast n :: u32)"]) (auto simp: w)
  next
    case 5
    have "number_text 0x4C n (write_number_be n)" by (rule number_texts)
    then show ?thesis using 5 r by (intro exI [of _ "write_number_be n"]) (auto simp: w)
  qed
qed

lemma lex_unsigned [simp]:
  "lx_unsigned (lex_get lx) = lx_unsigned lx" "lex_unget lx = Inr lx' \<Longrightarrow> lx_unsigned lx' = lx_unsigned lx"
  by (auto simp: lex_get_def lex_read_def lex_unget_def Let_def split: option.splits list.splits if_splits)

lemma skip_whitespace_unsigned [simp]: "lx_unsigned (skip_whitespace lx) = lx_unsigned lx"
proof (induction lx rule: skip_whitespace.induct)
  case (1 lx)
  then show ?case by (subst skip_whitespace.simps) (auto simp: Let_def)
qed

lemma scan_end_unsigned:
  assumes "starts lx []"
  shows "\<exists>lx'. scan lx = Inr (end_of_input, lx') \<and> lx_unsigned lx' = lx_unsigned lx"
proof -
  obtain lx1 where lx1: "(if lx_total lx = 0 then skip_bom lx else Inr (True, lx)) = Inr (True, lx1)" "stands lx1 []"
    using bom_skipped [OF assms] by blast
  have u: "lx_unsigned lx1 = lx_unsigned lx"
    using lx1(1) by (auto simp: skip_bom_def Let_def rbind_Inr_iff split: if_splits)
  have r: "has_read (skip_whitespace lx1) None [] (lx_buffer lx1)" by (rule skip_spaces_end [OF _ lx1(2)]) simp
  then have "skip_comments (skip_whitespace lx1) = Inr (True, skip_whitespace lx1)"
    by (subst skip_comments.simps) (simp add: has_read_def)
  then have "scan lx = scan_token (skip_whitespace lx1)" using lx1(1) by (simp add: scan_def)
  then show ?thesis using r u by (simp add: scan_token_def has_read_def)
qed

lemma marker_noop [simp]: "number_text c n t \<Longrightarrow> c \<noteq> 0x4E"
  by (auto simp: number_text_def integer_marker_def)

lemma unat_count: "N < 2 ^ 63 \<Longrightarrow> unat (of_nat N :: u64) = N"
  by (simp add: unat_of_nat take_bit_nat_eq_self)

lemma write_count:
  assumes "N < 2 ^ 63"
  shows "\<exists>c t. write_ubjson_unsigned (of_nat N) True = Inr (c # t) \<and> number_text c (of_nat N) t"
proof -
  have "of_nat N \<le> (0x7FFFFFFFFFFFFFFF :: u64)" using assms by (subst u64_upto) (simp_all add: unat_count)
  from write_unsigned_number [OF this] show ?thesis by fastforce
qed

lemma read_size:
  assumes "number_text c (of_nat N) t" and "N < 2 ^ 63"
  shows "get_ubjson_size_value (c # t @ i) = Inr (Some ((N, ucast (of_nat N :: u64)), i))"
  using assms by (simp add: get_ubjson_size_value_def number_text_def unat_count marker_noop [OF assms(1)])

lemma read_string:
  assumes "number_text c (of_nat (length s)) t" and "length s < 2 ^ 63"
  shows "get_ubjson_string c (t @ s @ i) = Inr (Some (s, i))"
proof -
  have "nat (sint (of_nat (length s) :: u64)) = length s"
    using assms(2) by (subst sint_small) (simp_all add: unat_count)
  then show ?thesis using assms(1) by (simp add: get_ubjson_string_def number_text_def get_string_append)
qed

lemma write_string_reads:
  assumes "length s < 2 ^ 63"
  shows "\<exists>c t. write_ubjson_string s = Inr (c # t) \<and> c \<noteq> 0x4E \<and> integer_marker c \<and> (\<forall>i. get_ubjson_string c (t @ i) = Inr (Some (s, i)))"
proof -
  obtain c t where c: "write_ubjson_unsigned (of_nat (length s)) True = Inr (c # t)" "number_text c (of_nat (length s)) t"
    using write_count [OF assms] by blast
  then have "integer_marker c" by (simp add: number_text_def)
  moreover have "get_ubjson_string c ((t @ s) @ i) = Inr (Some (s, i))" for i using read_string [OF c(2) assms] by simp
  moreover have "write_ubjson_string s = Inr (c # t @ s)" using c(1) by (simp add: write_ubjson_string_def)
  ultimately show ?thesis using marker_noop [OF c(2)] by blast
qed

lemma write_high_reads:
  assumes "\<not> n \<le> 0x7FFFFFFFFFFFFFFF"
  shows "\<exists>t. (\<forall>add. write_ubjson_unsigned n add = Inr (prefixed add 0x48 @ t)) \<and> unsigned_prefix n = 0x48
    \<and> (\<forall>pt i. get_ubjson_high_precision_number pt (t @ i) = Inr (Some (JUnsigned n, i)))"
proof -
  let ?d = "dec (unat n)"
  have "length ?d \<le> 20" by (rule length_dec_u64 [OF unat_u64])
  then have l: "length ?d < 2 ^ 63" by simp
  obtain c t where c: "write_ubjson_unsigned (of_nat (length ?d)) True = Inr (c # t)" "number_text c (of_nat (length ?d)) t"
    using write_count [OF l] by blast
  have n: "\<not> n \<le> 0x7F" "\<not> n \<le> 0xFF" "\<not> n \<le> 0x7FFF" "\<not> n \<le> 0x7FFFFFFF"
    using assms by (simp_all add: u64_upto)
  have w: "write_ubjson_unsigned n add = Inr (prefixed add 0x48 @ c # t @ ?d)" for add
    using n assms c(1) by (simp add: write_ubjson_unsigned.simps [of n] json_dump_unsigned)
  have "get_ubjson_high_precision_number pt ((c # t @ ?d) @ i) = Inr (Some (JUnsigned n, i))" for pt i
  proof -
    have "take 1 ?d \<noteq> [0xEF]" using dec_parts(1) [of "unat n"] by (cases ?d) (auto simp: is_digit_def)
    then have s: "starts (lexer_ctor False pt ?d) ([] @ ?d @ [])" using lexer_starts by simp
    obtain lx where lx: "scan (lexer_ctor False pt ?d) = Inr (value_unsigned, lx)" "lx_unsigned lx = n" "starts lx []"
      using scan_unsigned_reads [OF s] by (auto simp: stopper_def)
    obtain lx' where "scan lx = Inr (end_of_input, lx')" "lx_unsigned lx' = n" using scan_end_unsigned [OF lx(3)] lx(2) by auto
    then show ?thesis using lx(1) read_size [OF c(2) l, of "?d @ i"]
      by (simp add: get_ubjson_high_precision_number_def high_precision_value_def get_string_append)
  qed
  moreover have "unsigned_prefix n = 0x48" using n assms by (simp add: unsigned_prefix_def)
  ultimately show ?thesis using w by blast
qed

section \<open>The round trip\<close>

text \<open>
  What a value is after a round trip: a number from 128 to 255 comes back unsigned, one of more than 63 bits too, the
  others signed; there are no binary values, their bytes come back as numbers.
\<close>

fun ubjson_norm :: "json \<Rightarrow> json" where
  "ubjson_norm (JObject es) = JObject (map (\<lambda>(k, v). (k, ubjson_norm v)) es)"
| "ubjson_norm (JArray vs) = JArray (map ubjson_norm vs)"
| "ubjson_norm (JInteger n) = (if 128 \<le> sint n \<and> sint n \<le> 255 then JUnsigned n else JInteger n)"
| "ubjson_norm (JUnsigned n) =
     (if 128 \<le> n \<and> n \<le> 255 \<or> 0x8000000000000000 \<le> n then JUnsigned n else JInteger n)"
| "ubjson_norm (JBinary b st) = JArray (map (\<lambda>c. JUnsigned (ucast c)) b)"
| "ubjson_norm j = j"

fun ubjson_ok :: "json \<Rightarrow> bool" where
  "ubjson_ok (JObject es) = (keys_ascend es \<and> length es \<le> object_max_size \<and> (\<forall>(k, v) \<in> set es. length k < 2 ^ 63 \<and> ubjson_ok v))"
| "ubjson_ok (JArray vs) = (length vs \<le> array_max_size \<and> (\<forall>v \<in> set vs. ubjson_ok v))"
| "ubjson_ok (JString s) = (length s < 2 ^ 63)"
| "ubjson_ok (JBinary b st) = (length b \<le> array_max_size)"
| "ubjson_ok JDiscarded = False"
| "ubjson_ok j = True"

text \<open>
  \<open>value_text p t v\<close>: behind the marker \<open>p\<close>, the bytes \<open>t\<close> are read as the value \<open>v\<close>. The marker starts no
  head, ends no container and is not skipped.
\<close>

definition value_text :: "u8 \<Rightarrow> bytes \<Rightarrow> json \<Rightarrow> bool" where
  "value_text p t v \<longleftrightarrow> p \<notin> {0, 0x23, 0x24, 0x4E, 0x5D, 0x7D} \<and>
     (\<forall>pt n i. 2 * length t + 2 \<le> n \<longrightarrow> get_ubjson_value pt n (Some p) (t @ i) = Inr (Some (v, i)))"

declare ubjson_elements.simps [simp del] ubjson_members.simps [simp del]

lemma value_textD:
  assumes "value_text p t v"
  shows "2 * length t + 2 \<le> n \<Longrightarrow> get_ubjson_value pt n (Some p) (t @ i) = Inr (Some (v, i))"
    and "p \<noteq> 0" "p \<noteq> 0x23" "p \<noteq> 0x24" "p \<noteq> 0x4E" "p \<noteq> 0x5D" "p \<noteq> 0x7D"
  using assms by (auto simp: value_text_def)

lemma scalar_text:
  assumes "p \<notin> {0, 0x23, 0x24, 0x4E, 0x5D, 0x7D, 0x5B, 0x7B}" and "\<And>pt i. ubjson_scalar pt (Some p) (t @ i) = Inr (Some (v, i))"
  shows "value_text p t v"
proof -
  have "get_ubjson_value pt n (Some p) i = ubjson_scalar pt (Some p) i" for pt n i
    using assms(1) by (cases n) simp_all
  then show ?thesis using assms by (simp add: value_text_def)
qed

lemma number_value_text:
  assumes "number_text c n t"
  shows "value_text c t (if c = 0x55 then JUnsigned n else JInteger n)"
  using assms by (intro scalar_text) (auto simp: number_text_def integer_marker_def ubjson_scalar_def)

text \<open>Parts of an array, with or without their markers: \<open>ps\<close> holds marker, bytes and value of each.\<close>

definition parts_text :: "bool \<Rightarrow> (u8 \<times> bytes \<times> json) list \<Rightarrow> bytes" where
  "parts_text required ps = concat (map (\<lambda>(p, t, v). prefixed required p @ t) ps)"

definition parts_ok :: "bool \<Rightarrow> u8 \<Rightarrow> (u8 \<times> bytes \<times> json) list \<Rightarrow> bool" where
  "parts_ok required ty ps \<longleftrightarrow> (\<forall>(p, t, v) \<in> set ps. value_text p t v \<and> (\<not> required \<longrightarrow> p = ty)) \<and> (required \<longrightarrow> ty = 0)"

lemma parts_simps [simp]:
  "parts_text required [] = []"
  "parts_text required ((p, t, v) # ps) = prefixed required p @ t @ parts_text required ps"
  "parts_ok required ty ((p, t, v) # ps) \<longleftrightarrow> value_text p t v \<and> (\<not> required \<longrightarrow> p = ty) \<and> parts_ok required ty ps"
  by (simp_all add: parts_text_def parts_ok_def)

lemma next_marker:
  assumes "value_text p t v" and "\<not> required \<longrightarrow> p = ty" and "required \<longrightarrow> ty = 0"
  shows "(if ty = 0 then get_ignore_noop (prefixed required p @ i) else (Some ty, prefixed required p @ i)) = (Some p, i)"
  using assms(2,3) value_textD(2,5) [OF assms(1)] by (cases required) auto

lemma elements_read:
  assumes "parts_ok required ty ps" and "2 * length (parts_text required ps) + 2 \<le> n"
  shows "ubjson_elements pt n ty (length ps) acc (parts_text required ps @ i)
    = Inr (Some (JArray (acc @ map (\<lambda>(p, t, v). v) ps), i))"
  using assms
proof (induction ps arbitrary: acc)
  case (Cons e ps)
  obtain p t v where e: "e = (p, t, v)" by (cases e)
  have v: "value_text p t v" "\<not> required \<longrightarrow> p = ty" "required \<longrightarrow> ty = 0"
    using Cons.prems(1) by (auto simp: e parts_ok_def)
  have n: "2 * length t + 2 \<le> n" "2 * length (parts_text required ps) + 2 \<le> n" using Cons.prems(2) by (simp_all add: e)
  have ps: "parts_ok required ty ps" using Cons.prems(1) by (simp add: e)
  show ?case
    using Cons.IH [OF ps n(2), of "acc @ [v]"] value_textD(1) [OF v(1) n(1)]
    unfolding ubjson_elements.simps [of pt n ty "length ((p, t, v) # ps)"] e parts_simps append_assoc next_marker [OF v] by simp
qed (simp add: ubjson_elements.simps)

lemma elements_end_read:
  assumes "parts_ok True 0 ps" and "2 * length (parts_text True ps) + 1 \<le> n"
  shows "(case get_ignore_noop (parts_text True ps @ 0x5D # i) of (c, i) \<Rightarrow> ubjson_elements_end pt n c acc i)
    = Inr (Some (JArray (acc @ map (\<lambda>(p, t, v). v) ps), i))"
  using assms
proof (induction ps arbitrary: acc n)
  case Nil
  then show ?case by (cases n) simp_all
next
  case (Cons e ps)
  obtain p t v where e: "e = (p, t, v)" by (cases e)
  have v: "value_text p t v" and ps: "parts_ok True 0 ps" using Cons.prems(1) by (simp_all add: e)
  obtain m where n: "n = Suc m" using Cons.prems(2) by (cases n) simp_all
  have m: "2 * length t + 2 \<le> m" "2 * length (parts_text True ps) + 1 \<le> m" using Cons.prems(2) by (simp_all add: e n)
  show ?case
    using Cons.IH [OF ps m(2), of "acc @ [v]"] value_textD(1) [OF v m(1)] value_textD(5,6) [OF v] by (simp add: e n)
qed

section \<open>Heads of containers\<close>

lemma max_sizes_63: "array_max_size < 2 ^ 63" "object_max_size < 2 ^ 63"
  by (simp_all add: array_max_size_def object_max_size_def)

lemma count_head:
  assumes "N < 2 ^ 63"
  shows "\<exists>count l. container_count True N = Inr (0x23 # count) \<and> (\<forall>i. get_ubjson_size_value (count @ i) = Inr (Some ((N, l), i)))"
proof -
  obtain c t where c: "write_ubjson_unsigned (of_nat N) True = Inr (c # t)" "number_text c (of_nat N) t"
    using write_count [OF assms] by blast
  have "get_ubjson_size_value ((c # t) @ i) = Inr (Some ((N, ucast (of_nat N :: u64)), i))" for i
    using read_size [OF c(2) assms] by simp
  then show ?thesis using c(1) by (auto simp: container_count_def)
qed

text \<open>The three heads: shared marker and count, count alone, or nothing.\<close>

lemma start_counted:
  assumes "\<And>i. get_ubjson_size_value (count @ i) = Inr (Some ((N, l), i))" and "N \<le> max_size"
  shows "ubjson_start max_size (0x24 # p # 0x23 # count @ i) = Inr (Some ((N, p, Some l), i))"
    and "ubjson_start max_size (0x23 # count @ i) = Inr (Some ((N, 0, Some l), i))"
  using assms by (simp_all add: ubjson_start_def get_ubjson_size_type_def)

lemma start_open:
  assumes "get_ignore_noop i = (current, i')" and "current \<noteq> Some 0x24" and "current \<noteq> Some 0x23"
  shows "ubjson_start max_size i = Inr (Some ((npos, 0, current), i'))"
  using assms by (simp add: ubjson_start_def get_ubjson_size_type_def)

text \<open>What stands before the parts of a container, and an array behind its opening bracket.\<close>

definition container_head :: "bool \<Rightarrow> bool \<Rightarrow> u8 \<Rightarrow> nat \<Rightarrow> bytes \<Rightarrow> bool" where
  "container_head use_count required ty N head \<longleftrightarrow>
     (if use_count then \<exists>count l. head = (if required then [] else [0x24, ty]) @ 0x23 # count
          \<and> (\<forall>i. get_ubjson_size_value (count @ i) = Inr (Some ((N, l), i)))
      else required \<and> head = [])"

lemma array_text:
  assumes "container_head use_count required ty (length ps) head" and "parts_ok required ty ps"
    and "length ps \<le> array_max_size" and "ty \<noteq> 0x4E"
  shows "value_text 0x5B (head @ parts_text required ps @ (if use_count then [] else [0x5D])) (JArray (map (\<lambda>(p, t, v). v) ps))"
    (is "value_text _ ?t ?v")
proof -
  have "get_ubjson_value pt n (Some 0x5B) (?t @ i) = Inr (Some (?v, i))" if n: "2 * length ?t + 2 \<le> n" for pt n i
  proof -
    obtain m where m: "n = Suc m" using n by (cases n) simp_all
    show ?thesis
    proof (cases use_count)
      case True
      then obtain count l where h: "head = (if required then [] else [0x24, ty]) @ 0x23 # count"
        "\<And>i. get_ubjson_size_value (count @ i) = Inr (Some ((length ps, l), i))"
        using assms(1) by (auto simp: container_head_def)
      have ty: "required \<Longrightarrow> ty = 0" using assms(2) by (simp add: parts_ok_def)
      have "ubjson_start array_max_size (head @ r) = Inr (Some ((length ps, ty, Some l), r))" for r
        using start_counted [OF h(2) assms(3)] ty by (simp add: h(1))
      moreover have "length ps \<noteq> npos" using assms(3) max_sizes(1) by simp
      moreover have "2 * length (parts_text required ps) + 2 \<le> m" using n True h(1) by (simp add: m)
      ultimately show ?thesis using True assms(4) elements_read [OF assms(2), of m pt "[]" i] by (simp add: m)
    next
      case False
      then have h: "required" "head = []" "ty = 0" using assms(1,2) by (auto simp: container_head_def parts_ok_def)
      let ?i = "parts_text True ps @ 0x5D # i"
      obtain c r where c: "get_ignore_noop ?i = (c, r)" by force
      have "c \<noteq> Some 0x24 \<and> c \<noteq> Some 0x23"
      proof (cases ps)
        case (Cons e ps)
        obtain p t v where e: "e = (p, t, v)" by (cases e)
        then show ?thesis using c assms(2) h Cons value_textD(3-5) [of p t v] by auto
      qed (use c in auto)
      then have "ubjson_start array_max_size ?i = Inr (Some ((npos, 0, c), r))" using start_open [OF c] by simp
      moreover have "2 * length (parts_text True ps) + 1 \<le> m" using n False h by (simp add: m)
      ultimately show ?thesis using False h assms(2) elements_end_read [where ps = ps and n = m and pt = pt and i = i and acc = "[]"] c by (simp add: m)
    qed
  qed
  then show ?thesis by (simp add: value_text_def)
qed

text \<open>The same for objects: \<open>ms\<close> holds of each member the key, the bytes it is written as, and the three of its value.\<close>

definition key_text :: "bytes \<Rightarrow> bytes \<Rightarrow> bool" where
  "key_text k x \<longleftrightarrow> (\<exists>c t. x = c # t \<and> c \<noteq> 0x4E \<and> integer_marker c \<and> (\<forall>i. get_ubjson_string c (t @ i) = Inr (Some (k, i))))"

type_synonym member = "bytes \<times> bytes \<times> u8 \<times> bytes \<times> json"

definition pairs_text :: "bool \<Rightarrow> member list \<Rightarrow> bytes" where
  "pairs_text required ms = concat (map (\<lambda>(k, x, p, t, v). x @ prefixed required p @ t) ms)"

definition pairs_ok :: "bool \<Rightarrow> u8 \<Rightarrow> member list \<Rightarrow> bool" where
  "pairs_ok required ty ms \<longleftrightarrow>
     (\<forall>(k, x, p, t, v) \<in> set ms. key_text k x \<and> value_text p t v \<and> (\<not> required \<longrightarrow> p = ty)) \<and> (required \<longrightarrow> ty = 0)"

definition pairs_put :: "member list \<Rightarrow> json \<Rightarrow> json" where
  "pairs_put ms obj = fold (\<lambda>(k, x, p, t, v) obj. dom_put obj k v) ms obj"

lemma pairs_simps [simp]:
  "pairs_text required [] = []"
  "pairs_text required ((k, x, p, t, v) # ms) = x @ prefixed required p @ t @ pairs_text required ms"
  "pairs_ok required ty ((k, x, p, t, v) # ms) \<longleftrightarrow>
     key_text k x \<and> value_text p t v \<and> (\<not> required \<longrightarrow> p = ty) \<and> pairs_ok required ty ms"
  "pairs_put [] obj = obj" "pairs_put ((k, x, p, t, v) # ms) obj = pairs_put ms (dom_put obj k v)"
  by (auto simp: pairs_text_def pairs_ok_def pairs_put_def)

lemma pairs_read:
  assumes "pairs_ok required ty ms" and "2 * length (pairs_text required ms) + 2 \<le> n"
  shows "ubjson_members pt n ty (length ms) obj (pairs_text required ms @ i) = Inr (Some (pairs_put ms obj, i))"
  using assms
proof (induction ms arbitrary: obj)
  case (Cons e ms)
  obtain k x p t v where e: "e = (k, x, p, t, v)" by (cases e)
  have v: "value_text p t v" "\<not> required \<longrightarrow> p = ty" "required \<longrightarrow> ty = 0" and ms: "pairs_ok required ty ms"
    using Cons.prems(1) by (auto simp: e pairs_ok_def)
  obtain c kt where k: "x = c # kt" "\<And>i. get_ubjson_string c (kt @ i) = Inr (Some (k, i))"
    using Cons.prems(1) by (auto simp: e key_text_def)
  have n: "2 * length t + 2 \<le> n" "2 * length (pairs_text required ms) + 2 \<le> n" using Cons.prems(2) by (simp_all add: e)
  have "ubjson_members pt n ty (length ((k, x, p, t, v) # ms)) obj (pairs_text required ((k, x, p, t, v) # ms) @ i)
      = pbind (get_ubjson_value pt n (Some p) (t @ pairs_text required ms @ i)) (\<lambda>v i. ubjson_members pt n ty (length ms) (dom_put obj k v) i)"
    by (subst ubjson_members.simps) (simp add: k next_marker [OF v] cong del: if_weak_cong)
  then show ?case unfolding e using Cons.IH [OF ms n(2)] value_textD(1) [OF v(1) n(1)] by simp
qed (simp add: ubjson_members.simps)

lemma pairs_end_read:
  assumes "pairs_ok True 0 ms" and "2 * length (pairs_text True ms) + 1 \<le> n"
  shows "(case get_ignore_noop (pairs_text True ms @ 0x7D # i) of (c, i) \<Rightarrow> ubjson_members_end pt n c obj i)
    = Inr (Some (pairs_put ms obj, i))"
  using assms
proof (induction ms arbitrary: obj n)
  case Nil
  then show ?case by (cases n) simp_all
next
  case (Cons e ms)
  obtain k x p t v where e: "e = (k, x, p, t, v)" by (cases e)
  have v: "value_text p t v" and ms: "pairs_ok True 0 ms" using Cons.prems(1) by (simp_all add: e)
  obtain c kt where k: "x = c # kt" "c \<noteq> 0x4E" "c \<noteq> 0x7D" "\<And>i. get_ubjson_string c (kt @ i) = Inr (Some (k, i))"
    using Cons.prems(1) by (auto simp: e key_text_def integer_marker_def)
  obtain m where n: "n = Suc m" using Cons.prems(2) by (cases n) simp_all
  have m: "2 * length t + 2 \<le> m" "2 * length (pairs_text True ms) + 1 \<le> m" using Cons.prems(2) by (simp_all add: e n)
  show ?case
    using Cons.IH [OF ms m(2), of "dom_put obj k v"] value_textD(1) [OF v m(1)] value_textD(5) [OF v] k by (simp add: e n)
qed

lemma object_text:
  assumes "container_head use_count required ty (length ms) head" and "pairs_ok required ty ms"
    and "length ms \<le> object_max_size"
  shows "value_text 0x7B (head @ pairs_text required ms @ (if use_count then [] else [0x7D])) (pairs_put ms (JObject []))"
    (is "value_text _ ?t ?v")
proof -
  have "get_ubjson_value pt n (Some 0x7B) (?t @ i) = Inr (Some (?v, i))" if n: "2 * length ?t + 2 \<le> n" for pt n i
  proof -
    obtain m where m: "n = Suc m" using n by (cases n) simp_all
    show ?thesis
    proof (cases use_count)
      case True
      then obtain count l where h: "head = (if required then [] else [0x24, ty]) @ 0x23 # count"
        "\<And>i. get_ubjson_size_value (count @ i) = Inr (Some ((length ms, l), i))"
        using assms(1) by (auto simp: container_head_def)
      have ty: "required \<Longrightarrow> ty = 0" using assms(2) by (simp add: pairs_ok_def)
      have "ubjson_start object_max_size (head @ r) = Inr (Some ((length ms, ty, Some l), r))" for r
        using start_counted [OF h(2) assms(3)] ty by (simp add: h(1))
      moreover have "length ms \<noteq> npos" using assms(3) max_sizes(2) by simp
      moreover have "2 * length (pairs_text required ms) + 2 \<le> m" using n True h(1) by (simp add: m)
      ultimately show ?thesis using True pairs_read [OF assms(2), of m pt "JObject []" i] by (simp add: m)
    next
      case False
      then have h: "required" "head = []" "ty = 0" using assms(1,2) by (auto simp: container_head_def pairs_ok_def)
      let ?i = "pairs_text True ms @ 0x7D # i"
      obtain c r where c: "get_ignore_noop ?i = (c, r)" by force
      have "c \<noteq> Some 0x24 \<and> c \<noteq> Some 0x23"
      proof (cases ms)
        case (Cons e ms)
        obtain k x p t v where e: "e = (k, x, p, t, v)" by (cases e)
        then show ?thesis using c assms(2) h Cons by (auto simp: key_text_def integer_marker_def)
      qed (use c in auto)
      then have "ubjson_start object_max_size ?i = Inr (Some ((npos, 0, c), r))" using start_open [OF c] by simp
      moreover have "2 * length (pairs_text True ms) + 1 \<le> m" using n False h by (simp add: m)
      ultimately show ?thesis using False h assms(2) pairs_end_read [where ms = ms and n = m and pt = pt and i = i and obj = "JObject []"] c by (simp add: m)
    qed
  qed
  then show ?thesis by (simp add: value_text_def)
qed

lemma pairs_put_ascend:
  assumes "keys_ascend (acc @ map (\<lambda>(k, x, p, t, v). (k, v)) ms)"
  shows "pairs_put ms (JObject acc) = JObject (acc @ map (\<lambda>(k, x, p, t, v). (k, v)) ms)"
  using assms
proof (induction ms arbitrary: acc)
  case (Cons e ms)
  obtain k x p t v where e: "e = (k, x, p, t, v)" by (cases e)
  have "\<forall>e \<in> set acc. bytes_less (fst e) k" using Cons.prems by (auto simp: e keys_ascend_def sorted_wrt_append)
  then have "obj_assign k v acc = acc @ [(k, v)]" by (rule obj_assign_last)
  then show ?case using Cons.IH [of "acc @ [(k, v)]"] Cons.prems by (simp add: e)
qed simp

section \<open>What is written\<close>

definition ubjson_writes :: "bool \<Rightarrow> bool \<Rightarrow> json \<Rightarrow> bool" where
  "ubjson_writes use_count use_type j \<longleftrightarrow>
     (\<exists>t. (\<forall>add. write_ubjson use_count use_type j add = Inr (prefixed add (ubjson_prefix j) @ t))
        \<and> value_text (ubjson_prefix j) t (ubjson_norm j))"

lemma head_written:
  assumes "use_type \<longrightarrow> use_count" and "N < 2 ^ 63"
  shows "\<exists>r h count. container_type use_count use_type prefixes = Inr (r, h) \<and> container_count use_count N = Inr count
    \<and> container_head use_count r (if r then 0 else hd prefixes) N (h @ count) \<and> (\<not> r \<longrightarrow> (\<forall>p \<in> set prefixes. p = hd prefixes) \<and> prefixes \<noteq> [])"
proof (cases use_count)
  case True
  obtain count l where c: "container_count True N = Inr (0x23 # count)" "\<forall>i. get_ubjson_size_value (count @ i) = Inr (Some ((N, l), i))"
    using count_head [OF assms(2)] by blast
  show ?thesis
  proof (cases "use_type \<and> prefixes \<noteq> [] \<and> list_all (\<lambda>p. p = hd prefixes) (tl prefixes)")
    case t: True
    then have "\<forall>p \<in> set prefixes. p = hd prefixes" by (cases prefixes) (auto simp: list_all_iff)
    then show ?thesis using True t c by (auto simp: container_type_def container_head_def)
  next
    case False
    then have "container_type use_count use_type prefixes = Inr (True, [])" using True by (auto simp: container_type_def)
    then show ?thesis using True c by (auto simp: container_head_def)
  qed
next
  case False
  then show ?thesis using assms(1) by (auto simp: container_type_def container_count_def container_head_def)
qed

lemma ub_array_written:
  assumes "\<forall>v \<in> set vs. ubjson_writes uc ut v"
  shows "\<exists>ps. (\<forall>r. write_ubjson_array uc ut vs r = Inr (parts_text r ps)) \<and> map (\<lambda>(p, t, v). v) ps = map ubjson_norm vs
    \<and> map fst ps = map ubjson_prefix vs \<and> (\<forall>(p, t, v) \<in> set ps. value_text p t v)"
  using assms
proof (induction vs)
  case Nil
  show ?case by (intro exI [of _ "[]"]) simp
next
  case (Cons v vs)
  then obtain ps where ps: "\<forall>r. write_ubjson_array uc ut vs r = Inr (parts_text r ps)" "map (\<lambda>(p, t, v). v) ps = map ubjson_norm vs"
    "map fst ps = map ubjson_prefix vs" "\<forall>(p, t, v) \<in> set ps. value_text p t v"
    by auto
  obtain t where t: "\<forall>add. write_ubjson uc ut v add = Inr (prefixed add (ubjson_prefix v) @ t)" "value_text (ubjson_prefix v) t (ubjson_norm v)"
    using Cons.prems by (auto simp: ubjson_writes_def)
  show ?case using ps t by (intro exI [of _ "(ubjson_prefix v, t, ubjson_norm v) # ps"]) simp
qed

lemma ub_object_written:
  assumes "\<forall>(k, v) \<in> set es. length k < 2 ^ 63 \<and> ubjson_writes uc ut v"
  shows "\<exists>ms. (\<forall>r. write_ubjson_object uc ut es r = Inr (pairs_text r ms))
    \<and> map (\<lambda>(k, x, p, t, v). (k, v)) ms = map (\<lambda>(k, v). (k, ubjson_norm v)) es
    \<and> map (\<lambda>m. fst (snd (snd m))) ms = map (\<lambda>(k, v). ubjson_prefix v) es \<and> (\<forall>(k, x, p, t, v) \<in> set ms. key_text k x \<and> value_text p t v)"
  using assms
proof (induction es)
  case Nil
  show ?case by (intro exI [of _ "[]"]) simp
next
  case (Cons e es)
  obtain k v where e: "e = (k, v)" by (cases e)
  have prems: "\<forall>(k, v) \<in> set es. length k < 2 ^ 63 \<and> ubjson_writes uc ut v" using Cons.prems by simp
  obtain ms where ms: "\<forall>r. write_ubjson_object uc ut es r = Inr (pairs_text r ms)"
    "map (\<lambda>(k, x, p, t, v). (k, v)) ms = map (\<lambda>(k, v). (k, ubjson_norm v)) es"
    "map (\<lambda>m. fst (snd (snd m))) ms = map (\<lambda>(k, v). ubjson_prefix v) es" "\<forall>(k, x, p, t, v) \<in> set ms. key_text k x \<and> value_text p t v"
    using Cons.IH [OF prems] by blast
  obtain t where t: "\<forall>add. write_ubjson uc ut v add = Inr (prefixed add (ubjson_prefix v) @ t)" "value_text (ubjson_prefix v) t (ubjson_norm v)"
    using Cons.prems by (auto simp: e ubjson_writes_def)
  have "length k < 2 ^ 63" using Cons.prems by (simp add: e)
  then obtain x where x: "write_ubjson_string k = Inr x" "key_text k x" using write_string_reads [of k] by (auto simp: key_text_def)
  show ?case using ms t x by (intro exI [of _ "(k, x, ubjson_prefix v, t, ubjson_norm v) # ms"]) (simp add: e)
qed

lemma writes_array:
  assumes "use_type \<longrightarrow> use_count" and "length vs \<le> array_max_size" and "\<forall>v \<in> set vs. ubjson_writes use_count use_type v"
  shows "ubjson_writes use_count use_type (JArray vs)"
proof -
  obtain ps where ps: "\<forall>r. write_ubjson_array use_count use_type vs r = Inr (parts_text r ps)"
    "map (\<lambda>(p, t, v). v) ps = map ubjson_norm vs" "map fst ps = map ubjson_prefix vs" "\<forall>(p, t, v) \<in> set ps. value_text p t v"
    using ub_array_written [of vs use_count use_type] assms(3) by blast
  have len: "length ps = length vs" using map_eq_imp_length_eq [OF ps(2)] .
  have "length vs < 2 ^ 63" using assms(2) max_sizes_63 by simp
  then obtain r h count where h: "container_type use_count use_type (map ubjson_prefix vs) = Inr (r, h)"
    "container_count use_count (length vs) = Inr count"
    "container_head use_count r (if r then 0 else hd (map ubjson_prefix vs)) (length ps) (h @ count)"
    "\<not> r \<longrightarrow> (\<forall>p \<in> set (map ubjson_prefix vs). p = hd (map ubjson_prefix vs)) \<and> map ubjson_prefix vs \<noteq> []"
    using head_written [OF assms(1), of "length vs" "map ubjson_prefix vs"] len by auto
  have fst: "p \<in> set (map ubjson_prefix vs)" if "(p, t, v) \<in> set ps" for p t v
    using that ps(3) by (metis fst_conv image_eqI list.set_map)
  have "parts_ok r (if r then 0 else hd (map ubjson_prefix vs)) ps"
    using ps(4) h(4) fst unfolding parts_ok_def by fastforce
  moreover have "(if r then 0 else hd (map ubjson_prefix vs)) \<noteq> 0x4E"
  proof (cases r)
    case False
    then have ne: "map fst ps \<noteq> []" using h(4) ps(3) by simp
    then obtain e where "e \<in> set ps" "hd (map fst ps) = fst e" by (cases ps) auto
    moreover obtain p t v where "e = (p, t, v)" by (cases e)
    ultimately have "value_text p t v" "hd (map fst ps) = p" using ps(4) by auto
    then have "hd (map fst ps) \<noteq> 0x4E" using value_textD(5) by simp
    then show ?thesis using False ps(3) by simp
  qed simp
  ultimately have "value_text 0x5B ((h @ count) @ parts_text r ps @ (if use_count then [] else [0x5D])) (JArray (map ubjson_norm vs))"
    using array_text [OF h(3)] len assms(2) ps(2) by simp
  then show ?thesis using h(1,2) ps(1) by (auto simp: ubjson_writes_def)
qed

lemma writes_object:
  assumes "use_type \<longrightarrow> use_count" and "length es \<le> object_max_size" and "keys_ascend es"
    and "\<forall>(k, v) \<in> set es. length k < 2 ^ 63 \<and> ubjson_writes use_count use_type v"
  shows "ubjson_writes use_count use_type (JObject es)"
proof -
  let ?p = "map (\<lambda>(k, v). ubjson_prefix v) es"
  obtain ms where ms: "\<forall>r. write_ubjson_object use_count use_type es r = Inr (pairs_text r ms)"
    "map (\<lambda>(k, x, p, t, v). (k, v)) ms = map (\<lambda>(k, v). (k, ubjson_norm v)) es"
    "map (\<lambda>m. fst (snd (snd m))) ms = ?p" "\<forall>(k, x, p, t, v) \<in> set ms. key_text k x \<and> value_text p t v"
    using ub_object_written [OF assms(4)] by blast
  have len: "length ms = length es" using map_eq_imp_length_eq [OF ms(2)] .
  have "length es < 2 ^ 63" using assms(2) max_sizes_63 by simp
  then obtain r h count where h: "container_type use_count use_type ?p = Inr (r, h)"
    "container_count use_count (length es) = Inr count"
    "container_head use_count r (if r then 0 else hd ?p) (length ms) (h @ count)"
    "\<not> r \<longrightarrow> (\<forall>p \<in> set ?p. p = hd ?p) \<and> ?p \<noteq> []"
    using head_written [OF assms(1), of "length es" ?p] len by auto
  have p: "p \<in> set ?p" if "(k, x, p, t, v) \<in> set ms" for k x p t v
    using that unfolding ms(3) [symmetric] by force
  have "pairs_ok r (if r then 0 else hd ?p) ms"
    using ms(4) h(4) p unfolding pairs_ok_def by fastforce
  then have "value_text 0x7B ((h @ count) @ pairs_text r ms @ (if use_count then [] else [0x7D])) (pairs_put ms (JObject []))"
    using object_text [OF h(3)] len assms(2) by simp
  moreover have "pairs_put ms (JObject []) = JObject (map (\<lambda>(k, v). (k, ubjson_norm v)) es)"
    using pairs_put_ascend [of "[]" ms] assms(3) unfolding ms(2) by (simp add: keys_ascend_def sorted_wrt_map case_prod_unfold)
  ultimately show ?thesis using h(1,2) ms(1) by (auto simp: ubjson_writes_def)
qed

lemma writes_integer: "ubjson_writes uc ut (JInteger n)"
proof -
  obtain t where t: "\<forall>add. write_ubjson_integer n add = Inr (prefixed add (integer_prefix n) @ t)" "number_text (integer_prefix n) n t"
    using write_integer_number by blast
  have "integer_prefix n = 0x55 \<longleftrightarrow> 128 \<le> sint n \<and> sint n \<le> 255" by (simp add: integer_prefix_def)
  then have "value_text (integer_prefix n) t (ubjson_norm (JInteger n))" using number_value_text [OF t(2)] by simp
  then show ?thesis using t(1) by (auto simp: ubjson_writes_def)
qed

lemma writes_unsigned: "ubjson_writes uc ut (JUnsigned n)"
proof (cases "n \<le> 0x7FFFFFFFFFFFFFFF")
  case True
  obtain t where t: "\<forall>add. write_ubjson_unsigned n add = Inr (prefixed add (unsigned_prefix n) @ t)" "number_text (unsigned_prefix n) n t"
    using write_unsigned_number [OF True] by blast
  have n: "n \<le> 0x7F \<longleftrightarrow> \<not> 128 \<le> n" "\<not> 0x8000000000000000 \<le> n" using True by (auto simp: u64_upto u64_le)
  then have "unsigned_prefix n = 0x55 \<longleftrightarrow> 128 \<le> n \<and> n \<le> 255" by (simp add: unsigned_prefix_def)
  then have "value_text (unsigned_prefix n) t (ubjson_norm (JUnsigned n))" using number_value_text [OF t(2)] n(2) by simp
  then show ?thesis using t(1) by (auto simp: ubjson_writes_def)
next
  case False
  obtain t where t: "\<forall>add. write_ubjson_unsigned n add = Inr (prefixed add 0x48 @ t)" "unsigned_prefix n = 0x48"
    "\<forall>pt i. get_ubjson_high_precision_number pt (t @ i) = Inr (Some (JUnsigned n, i))"
    using write_high_reads [OF False] by blast
  have "0x8000000000000000 \<le> n" using False by (simp add: u64_upto u64_le)
  then have "value_text 0x48 t (ubjson_norm (JUnsigned n))"
    using t(3) by (intro scalar_text) (simp_all add: ubjson_scalar_def integer_marker_def)
  then show ?thesis using t by (auto simp: ubjson_writes_def)
qed

lemma writes_float: "ubjson_writes uc ut (JFloat d)"
proof -
  have "value_text 0x44 (write_number_be d) (JFloat d)"
    by (intro scalar_text) (simp_all add: ubjson_scalar_def integer_marker_def)
  then show ?thesis by (auto simp: ubjson_writes_def write_ubjson_float_def)
qed

lemma writes_string:
  assumes "length s < 2 ^ 63"
  shows "ubjson_writes uc ut (JString s)"
proof -
  obtain c t where c: "write_ubjson_string s = Inr (c # t)" "\<forall>i. get_ubjson_string c (t @ i) = Inr (Some (s, i))"
    using write_string_reads [OF assms] by blast
  then have "value_text 0x53 (c # t) (JString s)"
    by (intro scalar_text) (simp_all add: ubjson_scalar_def integer_marker_def)
  then show ?thesis using c(1) by (auto simp: ubjson_writes_def)
qed

lemma writes_binary:
  assumes "use_type \<longrightarrow> use_count" and "length b \<le> array_max_size"
  shows "ubjson_writes use_count use_type (JBinary b st)"
proof -
  let ?ps = "map (\<lambda>c. (0x55 :: u8, [c], JUnsigned (ucast c :: u64))) b"
  let ?typed = "use_type \<and> b \<noteq> []"
  have c: "value_text 0x55 [c] (JUnsigned (ucast c))" for c
    by (intro scalar_text) (simp_all add: ubjson_scalar_def ubjson_integer_def get_number_be_def get_string_def bytes_word_def)
  have ok: "parts_ok (\<not> ?typed) (if ?typed then 0x55 else 0) ?ps" using c by (auto simp: parts_ok_def)
  have tx: "parts_text (\<not> ?typed) ?ps = (if use_type then b else concat (map (\<lambda>c. [0x55, c]) b))"
  proof -
    have "parts_text r ?ps = (if r then concat (map (\<lambda>c. [0x55, c]) b) else b)" for r
      by (induction b) (simp_all add: prefixed_def)
    then show ?thesis by auto
  qed
  have "length b < 2 ^ 63" using assms(2) max_sizes_63 by simp
  then obtain count where h: "container_count use_count (length b) = Inr count"
    "container_head use_count (\<not> ?typed) (if ?typed then 0x55 else 0) (length b) ((if ?typed then [0x24, 0x55] else []) @ count)"
    using count_head [of "length b"] assms(1) by (cases use_count) (auto simp: container_head_def container_count_def)
  then have v: "value_text 0x5B (((if ?typed then [0x24, 0x55] else []) @ count) @ parts_text (\<not> ?typed) ?ps @ (if use_count then [] else [0x5D]))
      (JArray (map (\<lambda>(p, t, v). v) ?ps))"
    by (intro array_text [OF _ ok]) (use h(2) assms(2) in simp_all)
  have ps: "map (\<lambda>(p, t, v). v) ?ps = map (\<lambda>c. JUnsigned (ucast c)) b" by simp
  have "write_ubjson_binary use_count use_type b =
      Inr ((if ?typed then [0x24, 0x55] else []) @ count @ parts_text (\<not> ?typed) ?ps @ (if use_count then [] else [0x5D]))"
    unfolding tx write_ubjson_binary_def using assms(1) h(1) by auto
  then show ?thesis using v unfolding ps by (auto simp: ubjson_writes_def)
qed

lemma ubjson_ok_writes:
  assumes "use_type \<longrightarrow> use_count"
  shows "ubjson_ok j \<Longrightarrow> ubjson_writes use_count use_type j"
proof (induction j)
  case (JObject es)
  then have "\<forall>(k, v) \<in> set es. length k < 2 ^ 63 \<and> ubjson_writes use_count use_type v" by fastforce
  then show ?case using writes_object [OF assms] JObject.prems by simp
next
  case (JArray vs)
  then have "\<forall>v \<in> set vs. ubjson_writes use_count use_type v" by simp
  then show ?case using writes_array [OF assms] JArray.prems by simp
next
  case JNull
  have "value_text 0x5A [] JNull" by (intro scalar_text) (simp_all add: ubjson_scalar_def integer_marker_def)
  then show ?case by (auto simp: ubjson_writes_def)
next
  case (JBoolean b)
  have "value_text (if b then 0x54 else 0x46) [] (JBoolean b)"
    by (intro scalar_text) (simp_all add: ubjson_scalar_def integer_marker_def)
  then show ?case by (auto simp: ubjson_writes_def)
qed (use assms in \<open>simp_all add: writes_integer writes_unsigned writes_float writes_string writes_binary\<close>)

section \<open>Properties\<close>

text \<open>
  C39: every value UBJSON can carry is written, with or without counts and shared markers, and read back; numbers change
  between signed and unsigned as their markers have it, and a binary value becomes the array of its bytes.
\<close>

theorem ubjson_roundtrip:
  assumes "ubjson_ok j" and "use_type \<longrightarrow> use_size"
  shows "rbind (to_ubjson j use_size use_type) (from_ubjson pt) = Inr (ubjson_norm j)"
proof -
  obtain t where t: "write_ubjson use_size use_type j True = Inr (ubjson_prefix j # t)" "value_text (ubjson_prefix j) t (ubjson_norm j)"
    using ubjson_ok_writes [OF assms(2,1)] by (auto simp: ubjson_writes_def)
  have "get_ubjson_value pt (2 * length (ubjson_prefix j # t)) (Some (ubjson_prefix j)) (t @ []) = Inr (Some (ubjson_norm j, []))"
    by (rule value_textD(1) [OF t(2)]) simp
  then show ?thesis using t(1) value_textD(5) [OF t(2)] by (simp add: to_ubjson_def from_ubjson_def ubjson_sax_parse_def)
qed

lemma ubjson_roundtrip_witness:
  "rbind (to_ubjson (JObject [([97], JArray [JInteger 3, JInteger 4]), ([98], JUnsigned 0xFFFFFFFFFFFFFFFF), ([99], JBinary [1] (Some 7))]) True True)
     (from_ubjson 0x2E)
    = Inr (JObject [([97], JArray [JInteger 3, JInteger 4]), ([98], JUnsigned 0xFFFFFFFFFFFFFFFF), ([99], JArray [JUnsigned 1])])"
proof -
  let ?j = "JObject [([97], JArray [JInteger 3, JInteger 4]), ([98], JUnsigned 0xFFFFFFFFFFFFFFFF), ([99], JBinary [1] (Some 7))]"
  have "ubjson_ok ?j" by (simp add: keys_ascend_def array_max_size_def object_max_size_def)
  moreover have "sint (3 :: u64) = 3" "sint (4 :: u64) = 4" by simp_all
  ultimately show ?thesis using ubjson_roundtrip [of ?j True True "0x2E"] by simp
qed

end
