(* ===== verification/UbjsonSafe.thy ===== *)
theory UbjsonSafe
  imports Ubjson LexSafe
begin

text \<open>
  The UBJSON reader on any bytes: how much of the input each part of it uses up, so that its fuel is enough, and the
  exceptions it can throw.
\<close>

definition ubjson_faults :: "fault set" where
  "ubjson_faults = {Uncaught (ParseError 110), Uncaught (ParseError 112), Uncaught (ParseError 113), Uncaught (ParseError 115),
     Uncaught (OutOfRange 408)}"

lemma ubjson_faults_in [simp]:
  "Uncaught (ParseError k) \<in> ubjson_faults \<longleftrightarrow> k \<in> {110, 112, 113, 115}" "Uncaught (OutOfRange k) \<in> ubjson_faults \<longleftrightarrow> k = 408"
  by (auto simp: ubjson_faults_def)

lemmas ub_get_number_be = rd_in_get_number_be [where E = ubjson_faults, simplified]
lemmas ub_get_string = rd_in_get_string_all [where E = ubjson_faults, simplified]
lemmas ub_byte = rd_in_byte [where E = ubjson_faults, simplified]

lemma ignore_noop_length:
  "get_ignore_noop i = (c, i') \<Longrightarrow> length i' \<le> length i \<and> (c \<noteq> None \<longrightarrow> length i' < length i)"
  by (induction i rule: get_ignore_noop.induct) (auto split: if_splits)

lemma ub_integer: "rd_in ubjson_faults (length i) (ubjson_integer c i)"
  unfolding ubjson_integer_def by (auto intro!: rd_in_pbind [OF ub_get_number_be] simp: ub_get_number_be)

lemma ub_string: "rd_in ubjson_faults (length i) (get_ubjson_string c i)"
  unfolding get_ubjson_string_def
  by (auto intro!: rd_in_pbind [OF ub_integer] intro: rd_in_mono [OF ub_get_string])

lemma ub_size_value: "rd_in ubjson_faults (length i) (get_ubjson_size_value i)"
proof -
  obtain c i' where c: "get_ignore_noop i = (c, i')" by force
  have "rd_in ubjson_faults (length i) (pbind (ubjson_integer b i') (\<lambda>number i. Inr (Some ((unat number, ucast number :: u8), i))))" for b
    by (rule rd_in_pbind [OF ub_integer]) (use ignore_noop_length [OF c] in simp)
  then show ?thesis by (cases c) (simp_all add: get_ubjson_size_value_def c)
qed

text \<open>A head leaves a character, and then less of the input, or the input is at its end.\<close>

definition head_left :: "nat \<Rightarrow> (nat \<times> u8 \<times> u8 option) rd \<Rightarrow> bool" where
  "head_left n r \<longleftrightarrow> (case r of Inl e \<Rightarrow> e \<in> ubjson_faults | Inr None \<Rightarrow> True
     | Inr (Some ((len, ty, c), i)) \<Rightarrow> (c \<noteq> None \<longrightarrow> length i < n) \<and> (c = None \<longrightarrow> len = npos \<and> length i \<le> n))"

lemma head_left_count:
  assumes "length i < n"
  shows "head_left n (pbind (get_ubjson_size_value i) (\<lambda>(len, l) i. Inr (Some ((len, ty, Some l), i))))"
  using ub_size_value [of i] assms
  by (cases "get_ubjson_size_value i") (auto simp: head_left_def rd_in_def pbind_def split: option.splits)

lemma head_left_size_type: "head_left (length i) (get_ubjson_size_type i)"
proof -
  obtain c i1 where c: "get_ignore_noop i = (c, i1)" by force
  note l = ignore_noop_length [OF c]
  show ?thesis
  proof (cases "c = Some 0x24")
    case True
    have "head_left (length i) (pbind (get_byte i1) (\<lambda>ty i. case get_ignore_noop i of (current, i) \<Rightarrow>
         if current \<noteq> Some 0x23 then Inl (Uncaught (ParseError (if current = None then 110 else 112)))
         else pbind (get_ubjson_size_value i) (\<lambda>(size, last) i. Inr (Some ((size, ty, Some last), i)))))"
    proof (cases i1)
      case Nil
      then show ?thesis by (simp add: head_left_def)
    next
      case (Cons ty i2)
      obtain d i3 where d: "get_ignore_noop i2 = (d, i3)" by force
      have "length i3 < length i" using ignore_noop_length [OF d] l Cons True by simp
      then show ?thesis using Cons d head_left_count [of i3 "length i" ty] by (simp add: head_left_def)
    qed
    then show ?thesis using c True by (simp add: get_ubjson_size_type_def)
  next
    case False
    then show ?thesis using c l head_left_count [of i1 "length i" 0]
      by (cases "c = Some 0x23") (auto simp: get_ubjson_size_type_def head_left_def)
  qed
qed

lemma ub_start:
  assumes "\<And>len ty c i'. ubjson_start max_size i = Inr (Some ((len, ty, c), i')) \<Longrightarrow> length i' \<le> length i \<Longrightarrow>
      (c \<noteq> None \<longrightarrow> length i' < length i) \<Longrightarrow> (c = None \<longrightarrow> len = npos) \<Longrightarrow> rd_in ubjson_faults n (f (len, ty, c) i')"
  shows "rd_in ubjson_faults n (pbind (ubjson_start max_size i) f)"
proof -
  have h: "head_left (length i) (get_ubjson_size_type i)" by (rule head_left_size_type)
  show ?thesis
  proof (cases "ubjson_start max_size i")
    case (Inl e)
    then have "e \<in> ubjson_faults" using h
      by (auto simp: ubjson_start_def head_left_def pbind_def rbind_Inl_iff split: option.splits if_splits)
    then show ?thesis using Inl by simp
  next
    case (Inr r)
    show ?thesis
    proof (cases r)
      case (Some x)
      obtain len ty c i' where x: "x = ((len, ty, c), i')" by (cases x) auto
      have "get_ubjson_size_type i = Inr (Some ((len, ty, c), i'))"
        using Inr Some x by (auto simp: ubjson_start_def pbind_def rbind_Inr_iff split: option.splits if_splits)
      then have "length i' \<le> length i" "c \<noteq> None \<longrightarrow> length i' < length i" "c = None \<longrightarrow> len = npos"
        using h by (auto simp: head_left_def)
      then show ?thesis using assms [of len ty c i'] Inr Some x by simp
    qed (use Inr in simp)
  qed
qed

lemma ub_number_text:
  assumes "point_ok pt"
  shows "high_precision_value pt number_vector = Inl e \<Longrightarrow> e = Uncaught (ParseError 115)"
proof -
  have "goes (lexer_ctor False pt number_vector) (scan (lexer_ctor False pt number_vector))"
    by (rule scan_goes) (simp add: lexer_ctor_def assms)
  then obtain t lx where 1: "scan (lexer_ctor False pt number_vector) = Inr (t, lx)" "lx_decimal_point lx = pt"
    by (auto simp: goes_def lexer_ctor_def)
  have "goes lx (scan lx)" by (rule scan_goes) (simp add: 1 assms)
  then obtain t' lx' where "scan lx = Inr (t', lx')" by (auto simp: goes_def)
  then show "high_precision_value pt number_vector = Inl e \<Longrightarrow> e = Uncaught (ParseError 115)"
    using 1 by (auto simp: high_precision_value_def split: token_type.splits if_splits)
qed

lemma ub_high:
  assumes "point_ok pt"
  shows "rd_in ubjson_faults (length i) (get_ubjson_high_precision_number pt i)"
proof -
  have v: "rd_in ubjson_faults n (rbind (high_precision_value pt nv) (\<lambda>j. Inr (Some (j, i))))" if "length i \<le> n" for nv i n
    using ub_number_text [OF assms, of nv] that by (cases "high_precision_value pt nv") auto
  have "rd_in ubjson_faults n (pbind (get_string len i) (\<lambda>nv i. rbind (high_precision_value pt nv) (\<lambda>j. Inr (Some (j, i)))))"
    if "length i \<le> n" for len i n
    by (rule rd_in_pbind [OF ub_get_string]) (use v that in simp)
  then show ?thesis unfolding get_ubjson_high_precision_number_def by (intro rd_in_pbind [OF ub_size_value]) auto
qed

lemma ub_scalar:
  assumes "point_ok pt"
  shows "rd_in ubjson_faults (length i) (ubjson_scalar pt p i)"
proof (cases p)
  case (Some c)
  have "rd_in ubjson_faults (length i) (pbind (ubjson_integer c i) (\<lambda>number i. Inr (Some (f number, i))))" for c and f :: "u64 \<Rightarrow> json"
    by (rule rd_in_pbind [OF ub_integer]) simp
  moreover have "rd_in ubjson_faults (length i) (pbind (get_number_be i) (\<lambda>d i. Inr (Some (g d, i))))" for g :: "u32 \<Rightarrow> json"
    by (rule rd_in_pbind [OF ub_get_number_be]) simp
  moreover have "rd_in ubjson_faults (length i) (pbind (get_number_be i) (\<lambda>d i. Inr (Some (g d, i))))" for g :: "u64 \<Rightarrow> json"
    by (rule rd_in_pbind [OF ub_get_number_be]) simp
  moreover have "rd_in ubjson_faults (length i)
      (pbind (get_byte i) (\<lambda>b i. if 127 < b then Inl (Uncaught (ParseError 113)) else Inr (Some (JString [b], i))))"
    by (rule ub_byte) simp
  moreover have "rd_in ubjson_faults (length i) (pbind (get_byte i) (\<lambda>b i. pbind (get_ubjson_string b i) (\<lambda>s i. Inr (Some (JString s, i)))))"
    by (rule ub_byte) (rule rd_in_pbind [OF ub_string], simp)
  ultimately show ?thesis using Some ub_high [OF assms] by (simp add: ubjson_scalar_def)
qed (simp add: ubjson_scalar_def)

text \<open>Fuel of twice the input is enough.\<close>

lemma ub_value:
  assumes pt: "point_ok pt"
  shows "2 * length i + 2 \<le> n \<or> p = None \<Longrightarrow> rd_in ubjson_faults (length i) (get_ubjson_value pt n p i)"
    and "2 * length i + 2 \<le> n \<Longrightarrow> rd_in ubjson_faults (length i) (ubjson_elements pt n ty len vs i)"
    and "(if c = None then 1 else 2 * length i + 3) \<le> n \<Longrightarrow> rd_in ubjson_faults (length i) (ubjson_elements_end pt n c vs i)"
    and "2 * length i + 2 \<le> n \<Longrightarrow> rd_in ubjson_faults (length i) (ubjson_members pt n ty len obj i)"
    and "(if c = None then 1 else 2 * length i + 3) \<le> n \<Longrightarrow> rd_in ubjson_faults (length i) (ubjson_members_end pt n c obj i)"
  using pt
proof (induction pt n p i and pt n ty len vs i and pt n c vs i and pt n ty len obj i and pt n c obj i
    rule: get_ubjson_value_ubjson_elements_ubjson_elements_end_ubjson_members_ubjson_members_end.induct)
  case (1 pt p i)
  then show ?case using ub_scalar by auto
next
  case (2 pt n p i)
  consider "p = Some 0x5B" | "p = Some 0x7B" | "p \<noteq> Some 0x5B" "p \<noteq> Some 0x7B" by blast
  then show ?case
  proof cases
    case p: 1
    have "rd_in ubjson_faults (length i) (pbind (ubjson_start array_max_size i) (\<lambda>(len, ty, current) i.
          if len = npos then ubjson_elements_end pt n current [] i
          else if ty = 0x4E then Inr (Some (JArray [], i))
          else ubjson_elements pt n ty len [] i))"
    proof (rule ub_start)
      fix len ty c i'
      assume st: "ubjson_start array_max_size i = Inr (Some ((len, ty, c), i'))"
        and l: "length i' \<le> length i" "c \<noteq> None \<longrightarrow> length i' < length i" "c = None \<longrightarrow> len = npos"
      have E: "rd_in ubjson_faults (length i') (ubjson_elements_end pt n c [] i')" if "len = npos"
        by (rule "2.IH"(1) [OF p st refl refl that]) (use "2.prems" l p in auto)
      have C: "rd_in ubjson_faults (length i') (ubjson_elements pt n ty len [] i')" if "len \<noteq> npos" "ty \<noteq> 0x4E"
        by (rule "2.IH"(2) [OF p st refl refl that]) (use "2.prems" l p that in auto)
      show "rd_in ubjson_faults (length i) ((\<lambda>(len, ty, current) i. if len = npos then ubjson_elements_end pt n current [] i
          else if ty = 0x4E then Inr (Some (JArray [], i)) else ubjson_elements pt n ty len [] i) (len, ty, c) i')"
        using E C l(1) by (auto intro: rd_in_mono)
    qed
    then show ?thesis using p by simp
  next
    case p: 2
    then have np: "p \<noteq> Some 0x5B" by simp
    have "rd_in ubjson_faults (length i) (pbind (ubjson_start object_max_size i) (\<lambda>(len, ty, current) i.
          if len = npos then ubjson_members_end pt n current (JObject []) i
          else ubjson_members pt n ty len (JObject []) i))"
    proof (rule ub_start)
      fix len ty c i'
      assume st: "ubjson_start object_max_size i = Inr (Some ((len, ty, c), i'))"
        and l: "length i' \<le> length i" "c \<noteq> None \<longrightarrow> length i' < length i" "c = None \<longrightarrow> len = npos"
      have E: "rd_in ubjson_faults (length i') (ubjson_members_end pt n c (JObject []) i')" if "len = npos"
        by (rule "2.IH"(3) [OF np p st refl refl that]) (use "2.prems" l p in auto)
      have C: "rd_in ubjson_faults (length i') (ubjson_members pt n ty len (JObject []) i')" if "len \<noteq> npos"
        by (rule "2.IH"(4) [OF np p st refl refl that]) (use "2.prems" l p that in auto)
      show "rd_in ubjson_faults (length i) ((\<lambda>(len, ty, current) i. if len = npos then ubjson_members_end pt n current (JObject []) i
          else ubjson_members pt n ty len (JObject []) i) (len, ty, c) i')"
        using E C l(1) by (auto intro: rd_in_mono)
    qed
    then show ?thesis using p by simp
  next
    case 3
    then show ?thesis using ub_scalar "2.prems" by simp
  qed
next
  case (3 pt n ty len vs i)
  show ?case
  proof (cases "len = 0")
    case False
    obtain p i1 where p: "(p, i1) = (if ty = 0 then get_ignore_noop i else (Some ty, i))" by (metis surj_pair)
    have i1: "length i1 \<le> length i" using p ignore_noop_length [of i p i1] by (auto split: if_splits)
    have "rd_in ubjson_faults (length i) (pbind (get_ubjson_value pt n p i1) (\<lambda>v i. ubjson_elements pt n ty (len - 1) (vs @ [v]) i))"
    proof (rule rd_in_pbind [OF "3.IH"(1) [OF False p]])
      fix v i2 assume v: "get_ubjson_value pt n p i1 = Inr (Some (v, i2))" "length i2 \<le> length i1"
      have "rd_in ubjson_faults (length i2) (ubjson_elements pt n ty (len - 1) (vs @ [v]) i2)"
        by (rule "3.IH"(2) [OF False p v(1)]) (use "3.prems" v(2) i1 in auto)
      then show "rd_in ubjson_faults (length i) (ubjson_elements pt n ty (len - 1) (vs @ [v]) i2)"
        using v(2) i1 by (auto intro: rd_in_mono)
    qed (use "3.prems" i1 in auto)
    then show ?thesis using False unfolding ubjson_elements.simps [of pt n ty len] p [symmetric] by simp
  qed (simp add: ubjson_elements.simps)
next
  case (4 pt c vs i)
  then show ?case by (auto split: if_splits)
next
  case (5 pt n c vs i)
  show ?case
  proof (cases "c = Some 0x5D")
    case False
    have "rd_in ubjson_faults (length i) (pbind (get_ubjson_value pt n c i) (\<lambda>v i. case get_ignore_noop i of (current, i) \<Rightarrow>
           ubjson_elements_end pt n current (vs @ [v]) i))"
    proof (rule rd_in_pbind [OF "5.IH"(1) [OF False]])
      fix v i2 assume v: "get_ubjson_value pt n c i = Inr (Some (v, i2))" "length i2 \<le> length i"
      obtain c' i3 where c': "(c', i3) = get_ignore_noop i2" by (metis surj_pair)
      have "c \<noteq> None" using v(1) by (cases c; cases n) (simp_all add: ubjson_scalar_def)
      then have "rd_in ubjson_faults (length i3) (ubjson_elements_end pt n c' (vs @ [v]) i3)"
        by (intro "5.IH"(2) [OF False v(1) c']) (use "5.prems" v(2) ignore_noop_length [OF c' [symmetric]] in auto)
      then show "rd_in ubjson_faults (length i) (case get_ignore_noop i2 of (current, i) \<Rightarrow> ubjson_elements_end pt n current (vs @ [v]) i)"
        using v(2) ignore_noop_length [OF c' [symmetric]] unfolding c' [symmetric] by (auto intro: rd_in_mono)
    qed (use "5.prems" in auto)
    then show ?thesis using False by simp
  qed simp
next
  case (6 pt n ty len obj i)
  show ?case
  proof (cases "len = 0")
    case False
    have "rd_in ubjson_faults (length i) (pbind (get_byte i) (\<lambda>b i. pbind (get_ubjson_string b i) (\<lambda>key i.
           case (if ty = 0 then get_ignore_noop i else (Some ty, i)) of (p, i) \<Rightarrow>
           pbind (get_ubjson_value pt n p i) (\<lambda>v i. ubjson_members pt n ty (len - 1) (dom_put obj key v) i))))"
    proof (rule ub_byte)
      fix b i1 assume b: "get_byte i = Inr (Some (b, i1))" "length i = Suc (length i1)"
      show "rd_in ubjson_faults (length i) (pbind (get_ubjson_string b i1) (\<lambda>key i.
           case (if ty = 0 then get_ignore_noop i else (Some ty, i)) of (p, i) \<Rightarrow>
           pbind (get_ubjson_value pt n p i) (\<lambda>v i. ubjson_members pt n ty (len - 1) (dom_put obj key v) i)))"
      proof (rule rd_in_pbind [OF ub_string])
        fix key i2 assume k: "get_ubjson_string b i1 = Inr (Some (key, i2))" "length i2 \<le> length i1"
        obtain p i3 where p: "(p, i3) = (if ty = 0 then get_ignore_noop i2 else (Some ty, i2))" by (metis surj_pair)
        have i3: "length i3 \<le> length i2" using p ignore_noop_length [of i2 p i3] by (auto split: if_splits)
        have "rd_in ubjson_faults (length i) (pbind (get_ubjson_value pt n p i3) (\<lambda>v i. ubjson_members pt n ty (len - 1) (dom_put obj key v) i))"
        proof (rule rd_in_pbind [OF "6.IH"(1) [OF False b(1) k(1) p]])
          fix v i4 assume v: "get_ubjson_value pt n p i3 = Inr (Some (v, i4))" "length i4 \<le> length i3"
          have "rd_in ubjson_faults (length i4) (ubjson_members pt n ty (len - 1) (dom_put obj key v) i4)"
            by (rule "6.IH"(2) [OF False b(1) k(1) p v(1)]) (use "6.prems" v(2) i3 k(2) b(2) in auto)
          then show "rd_in ubjson_faults (length i) (ubjson_members pt n ty (len - 1) (dom_put obj key v) i4)"
            using v(2) i3 k(2) b(2) by (auto intro: rd_in_mono)
        qed (use "6.prems" i3 k(2) b(2) in auto)
        then show "rd_in ubjson_faults (length i) (case (if ty = 0 then get_ignore_noop i2 else (Some ty, i2)) of (p, i) \<Rightarrow>
           pbind (get_ubjson_value pt n p i) (\<lambda>v i. ubjson_members pt n ty (len - 1) (dom_put obj key v) i))"
          unfolding p [symmetric] by simp
      qed
    qed
    then show ?thesis using False unfolding ubjson_members.simps [of pt n ty len] by simp
  qed (simp add: ubjson_members.simps)
next
  case (7 pt c obj i)
  then show ?case by (auto split: if_splits)
next
  case (8 pt n c obj i)
  show ?case
  proof (cases "c = Some 0x7D")
    case False
    show ?thesis
    proof (cases c)
      case c: (Some b)
      have "rd_in ubjson_faults (length i) (pbind (get_ubjson_string b i) (\<lambda>key i. case get_ignore_noop i of (p, i) \<Rightarrow>
           pbind (get_ubjson_value pt n p i) (\<lambda>v i. case get_ignore_noop i of (current, i) \<Rightarrow>
           ubjson_members_end pt n current (dom_put obj key v) i)))"
      proof (rule rd_in_pbind [OF ub_string])
        fix key i2 assume k: "get_ubjson_string b i = Inr (Some (key, i2))" "length i2 \<le> length i"
        obtain p i3 where p: "(p, i3) = get_ignore_noop i2" by (metis surj_pair)
        note l3 = ignore_noop_length [OF p [symmetric]]
        have "rd_in ubjson_faults (length i) (pbind (get_ubjson_value pt n p i3) (\<lambda>v i. case get_ignore_noop i of (current, i) \<Rightarrow>
           ubjson_members_end pt n current (dom_put obj key v) i))"
        proof (rule rd_in_pbind [OF "8.IH"(1) [OF False c k(1) p]])
          fix v i4 assume v: "get_ubjson_value pt n p i3 = Inr (Some (v, i4))" "length i4 \<le> length i3"
          obtain c' i5 where c': "(c', i5) = get_ignore_noop i4" by (metis surj_pair)
          note l5 = ignore_noop_length [OF c' [symmetric]]
          have "rd_in ubjson_faults (length i5) (ubjson_members_end pt n c' (dom_put obj key v) i5)"
            by (rule "8.IH"(2) [OF False c k(1) p v(1) c']) (use "8.prems" c v(2) k(2) l3 l5 in auto)
          then show "rd_in ubjson_faults (length i) (case get_ignore_noop i4 of (current, i) \<Rightarrow>
              ubjson_members_end pt n current (dom_put obj key v) i)"
            using v(2) k(2) l3 l5 unfolding c' [symmetric] by (auto intro: rd_in_mono)
        qed (use "8.prems" c k(2) l3 in auto)
        then show "rd_in ubjson_faults (length i) (case get_ignore_noop i2 of (p, i) \<Rightarrow>
           pbind (get_ubjson_value pt n p i) (\<lambda>v i. case get_ignore_noop i of (current, i) \<Rightarrow>
           ubjson_members_end pt n current (dom_put obj key v) i))"
          unfolding p [symmetric] by simp
      qed
      then show ?thesis using False c by simp
    qed simp
  qed simp
qed

text \<open>
  Reading any bytes as UBJSON ends, with a value or with one of four parse errors or the error for a count no
  container can have; no assertion of the scanner that reads long numbers fails.
\<close>

lemma from_ubjson_outcomes:
  assumes "point_ok pt"
  shows "(\<exists>j. from_ubjson pt i = Inr j) \<or> (\<exists>k \<in> {110, 112, 113, 115}. from_ubjson pt i = Inl (Uncaught (ParseError k)))
    \<or> from_ubjson pt i = Inl (Uncaught (OutOfRange 408))"
proof -
  obtain p i' where p: "get_ignore_noop i = (p, i')" by force
  have "rd_in ubjson_faults (length i') (get_ubjson_value pt (2 * length i) p i')"
    by (rule ub_value(1) [OF assms]) (use ignore_noop_length [OF p] in auto)
  then show ?thesis
    by (cases "get_ubjson_value pt (2 * length i) p i'" rule: sum.exhaust)
      (auto simp: from_ubjson_def ubjson_sax_parse_def p ubjson_faults_def split: option.splits prod.splits)
qed

end
