(* ===== verification/Spec2Isabelle.thy ===== *)
theory Spec2Isabelle
  imports Downloads Entrypoint Flatten TextRound TextSafe UbjsonSafe
begin

text \<open>
  A verification library for BTRx, a peer-to-peer file sharing program in C++: a set of peers named in
  \<^verbatim>\<open>PeerInfo.cfg\<close> connect to each other, exchange bit fields of the pieces they hold and ask each other for the
  pieces they lack. Paths below are relative to \<^verbatim>\<open>src/\<close>.

  The parts and how they work together. \<^verbatim>\<open>entrypoint.cpp\<close> reads the two configuration files and makes a
  \<^verbatim>\<open>Node\<close> (\<^verbatim>\<open>node/node.cpp\<close>), which owns an \<^verbatim>\<open>ObjStore\<close> (\<^verbatim>\<open>objstore/\<close>: the shared file as a bit field and a piece
  cache) and a \<^verbatim>\<open>NbrMap\<close> (\<^verbatim>\<open>nbrmap/\<close>: the registered neighbours, their choke state and the field of the pieces
  already asked for), connects to the peers named before it, accepts the ones named after it and starts a thread with
  \<^verbatim>\<open>cli_handler\<close> (\<^verbatim>\<open>handler/\<close>) for each connection. The handlers exchange packets (\<^verbatim>\<open>pkts/pkts.cpp\<close>), which travel as
  BSON documents written and read by the JSON library \<^verbatim>\<open>include/json/json.hpp\<close>. Two more threads of the
  neighbour map wake up from time to time to choose whom to unchoke. Everything writes to one \<^verbatim>\<open>Logger\<close>.

  Theories, from the bottom up, with what each models.
  \<^item> \<open>BTRx_Prelude\<close>: machine words, the result type \<open>'a res\<close> (a fault or a value) with \<open>rbind\<close> and the loop
    \<open>rfold\<close>, C division, single-bit masks and the set \<open>pieces\<close> of a byte vector, C strings. A fault is \<open>Exit\<close>
    (\<^verbatim>\<open>_exit\<close>), \<open>UB\<close> with its kind (undefined behaviour), \<open>Uncaught\<close> (an exception nobody catches),
    \<open>Blocked\<close> (a lock that is not free) or \<open>AssertFail\<close>.
  \<^item> \<open>Locks\<close>: read-write locks and mutexes as the wrappers in every class use them.
  \<^item> \<open>Contracts\<close>: the interfaces between the components, as locales: \<open>test_and_set\<close> (interpreted by the bit field,
    used by the neighbour map), \<open>write_once\<close> (by the cache and by the object store), \<open>framed_codec\<close> (by BSON and by
    the packets) and \<open>append_log\<close> (by the logger).
  \<^item> \<open>Bfield\<close>, \<open>Cache\<close>, \<open>ObjStore\<close>: \<^verbatim>\<open>objstore/bfield.cpp\<close>, \<^verbatim>\<open>cache.cpp\<close> and \<^verbatim>\<open>objstore.cpp\<close>. The cache keeps its
    \<^verbatim>\<open>Access\<close> records in an explicit heap, since the deque holds pointers; the file is its bytes and an offset.
  \<^item> \<open>NbrMap\<close>: \<^verbatim>\<open>nbrmap/nbrmap.cpp\<close>. Neighbours are records in a heap, pointers are optional addresses, the map
    from peer ids to pointers inserts null pointers where \<^verbatim>\<open>operator[]\<close> does.
  \<^item> \<open>Json\<close>, \<open>Bson\<close>, \<open>Cbor\<close>, \<open>Msgpack\<close>: parts of \<^verbatim>\<open>include/json/json.hpp\<close>: values, the initializer-list
    constructor, accessors and conversions; the BSON, CBOR and MessagePack writers and readers.
  \<^item> \<open>Ubjson\<close>, \<open>UbjsonSafe\<close>: the UBJSON writer and reader, and the outcomes of reading any bytes.
  \<^item> \<open>JsonPointer\<close>, \<open>JsonPatch\<close>, \<open>DiffPatch\<close>, \<open>Flatten\<close>: the class \<^verbatim>\<open>json_pointer\<close> with \<^verbatim>\<open>flatten\<close> and \<^verbatim>\<open>unflatten\<close>;
    comparison, \<^verbatim>\<open>patch\<close>, \<^verbatim>\<open>diff\<close> and \<^verbatim>\<open>merge_patch\<close>. A function that returns a reference into a value takes here what is
    done with the reference and returns the whole value. \<open>DiffPatch\<close> shows that patching with a difference gives the target,
    \<open>Flatten\<close> that unflattening undoes flattening; both show where the documents of the library promise more.
  \<^item> \<open>Sax\<close>: \<^verbatim>\<open>json_sax_dom_parser\<close>, which builds a value through a stack of pointers into it. The readers of Bson, Cbor
    and Msgpack return the value itself; for BSON it is shown that the builder gives the same.
  \<^item> \<open>Dtoa\<close>, \<open>JsonDump\<close>, \<open>JsonLexer\<close>, \<open>JsonParser\<close>: JSON text: the Grisu2 algorithm for floating-point numbers, the
    class \<^verbatim>\<open>serializer\<close>, the class \<^verbatim>\<open>lexer\<close> over an input of bytes, and the class \<^verbatim>\<open>parser\<close>, which drives the builder.
  \<^item> \<open>JsonText\<close>, \<open>EscText\<close>, \<open>StrRead\<close>, \<open>NumRead\<close>, \<open>TextRead\<close>, \<open>TextRound\<close>: what the serializer writes is read back: tokens,
    code points and their escapes, strings, integers, a grammar of texts (\<open>json_text\<close>), whole values. \<open>LexSafe\<close>,
    \<open>TextSafe\<close>: no input makes the scanner, the parser or the builder fail an assertion.
  \<^item> \<open>Pkts\<close>: \<^verbatim>\<open>pkts/pkts.cpp\<close>, all packet types with \<^verbatim>\<open>to_json\<close> and \<^verbatim>\<open>from_json\<close>.
  \<^item> \<open>Logger\<close>: \<^verbatim>\<open>logger/logger.cpp\<close> and \<^verbatim>\<open>logger/logchild.cpp\<close>: the overloads of \<^verbatim>\<open>write_msg\<close> and the log child.
  \<^item> \<open>Sockets\<close>, \<open>Handler\<close>, \<open>Session\<close>: a stream socket with the outcome of each \<^verbatim>\<open>recv\<close> and \<^verbatim>\<open>send\<close>; the functions of
    \<^verbatim>\<open>handler/outhelper.cpp\<close>, \<^verbatim>\<open>handler/inhelper.cpp\<close> and \<^verbatim>\<open>handler/handler.cpp\<close>; and what they do.
    \<open>cli_turn\<close> is one pass through the loop of \<^verbatim>\<open>cli_handler\<close>, \<open>dispatch\<close> its switch.
  \<^item> \<open>Node\<close>, \<open>NodeRuns\<close>: \<^verbatim>\<open>node/node.cpp\<close>, with the main thread as a state machine (\<open>main_pc\<close>), and the runs of a whole
    node: \<open>node_run\<close> performs a list of events, each a step of the main thread, of a connection's thread or of a
    handler of the map, in any order.
  \<^item> \<open>Downloads\<close>: why nothing is ever downloaded by nodes of the program alone: what can be in the streams between them.
  \<^item> \<open>Entrypoint\<close>: \<^verbatim>\<open>entrypoint.cpp\<close> with the \<^verbatim>\<open>getline\<close>, \<^verbatim>\<open>strtok\<close> and \<^verbatim>\<open>strtol\<close> it uses.

  What the lemmas show, by group. C1 to C4: the bit field is a set of pieces with an atomic claim, and a
  fresh one of a node with the file marks too few. C5 to C8: the cache finds what is put, cut to one byte less than a
  piece, reads the file on a miss, and returns another piece on a second hit. C9 to C11: the object store
  refines a map from pieces to texts. C12 to C15: the earmarking of pieces and the selection of whom to unchoke. C16 to
  C19: values and packets survive writing and reading, and reading any bytes ends. C20, C21: the log. C22 to C25: what a
  connection does with each packet and where it ends the process. C26 to C30: the invariant of a whole node, that no
  piece is asked for by two connections, the number of connections, why a node does not end and why it gets no piece.
  C31: the configuration file. C32 to C40: the rest of the JSON library: CBOR, the builder, JSON text, patches, flat
  values, UBJSON and MessagePack.

  Bounds and fuel. \<open>cli_loop\<close> takes a number of turns; the lemma
  \<open>loop_turns_bounded_by_recv_calls\<close> of theory Session shows that one more than there are
  \<^verbatim>\<open>recv\<close> calls changes nothing any more. The readers of BSON, CBOR and MessagePack take a
  number that bounds the bytes still to be read and are started with the length of the input: every call reads a
  byte first, and C17 and its counterpart in theory Cbor show that the bound is never met. The reader of UBJSON,
  where a typed container may have parts without any byte of their own, is started with twice that length;
  \<open>from_ubjson_outcomes\<close> shows that this is enough. The memory that huge typed containers of such parts
  would take is not limited. The loops of the scanner and the parser of JSON text need no bound: they are shown to
  end because each turn reads on. \<open>opt_unchoke_loop\<close> is a partial function, and C14 shows that it has
  no result. C27 asks that the field of the node be at most 2^29 bytes long, so that piece numbers fit 32 bits. C34
  allows an indentation of up to 512, the length the serializer's string of blanks has at first, which it doubles
  only once for each level. A fault \<open>UB StackOverflow\<close> stands for an array on the stack larger than
  \<open>he_stack\<close>; the depth of recursion is not limited.

  Parameters. What the program gets from outside is an argument: the statuses of system calls, the content of
  uninitialised memory (\<open>junk\<close>), the date, the order in which an unordered map is iterated, \<^verbatim>\<open>rand()\<close>, the file system
  and the effect of the shell command. Nothing is assumed of them except what a theorem states.

  The order of events. A step runs from one point where a thread waits to the next (a pass through the
  connection's loop, a wake-up of a handler, a peer of the main thread's loops); the locks taken inside a step are
  free again at its end (C26). Interleavings inside a pass are treated only for the claims of pieces (C2), where each
  claim is one step.

  Not modelled. \<^verbatim>\<open>logger/logmsg.pb.cc\<close> and \<^verbatim>\<open>.pb.h\<close> are generated by protoc for a log message nobody sends
  yet. Of \<^verbatim>\<open>json.hpp\<close>: iterators, the ordering of values, parser callbacks and the wording of error messages, and
  the macros of its prelude; the program calls none of them. That the digits Grisu2 gives for a double are read back
  as the same double is not proved. Output to the terminal, \<^verbatim>\<open>close\<close> and freeing of memory that
  is never used again have no effect on the state here. Makefiles and \<^verbatim>\<open>runner.sh\<close> only build and start the program.
\<close>

end
